(* ===== verification/Prelude.thy ===== *)
theory Prelude
  imports Main "HOL-Library.Word" "HOL-Library.Signed_Division"
begin

text \<open>
  Shared automation and generic lemmas: fixed-width integers read as \<open>int\<close> values that a
  \<open>take_bit\<close> leaves unchanged, their two's complement reading, and the collections of
  rewrite rules the component theories extend.
\<close>

unbundle bit_operations_syntax

named_theorems bv_defs \<open>definitions of the value-level operators\<close>
named_theorems wt_simps \<open>rewrite rules about well-typed expressions and their widths\<close>
named_theorems eval_simps \<open>rewrite rules about the value of an expression\<close>

section \<open>Values of a given width\<close>

text \<open>\<open>fits w a\<close>: the integer \<open>a\<close> is an unsigned value of \<open>w\<close> bits.\<close>

definition fits :: "nat \<Rightarrow> int \<Rightarrow> bool" where
  "fits w a \<longleftrightarrow> 0 \<le> a \<and> a < 2 ^ w"

lemma fits_iff_take_bit: "fits w a \<longleftrightarrow> take_bit w a = a"
  by (simp add: fits_def take_bit_int_eq_self_iff)

lemma fits_take_bit [simp, intro]: "fits w (take_bit w a)"
  by (simp add: fits_iff_take_bit)

lemma take_bit_fits: "fits w a \<Longrightarrow> take_bit w a = a"
  by (simp add: fits_iff_take_bit)

lemma fits_nonneg: "fits w a \<Longrightarrow> 0 \<le> a"
  by (simp add: fits_def)

lemma fits_less: "fits w a \<Longrightarrow> a < 2 ^ w"
  by (simp add: fits_def)

lemma fits_0 [simp]: "fits w 0"
  by (simp add: fits_def)

lemma fits_1 [simp]: "0 < w \<Longrightarrow> fits w 1"
  by (simp add: fits_def)

lemma fits_of_bool [simp]: "0 < w \<Longrightarrow> fits w (of_bool P)"
  by (cases P) simp_all

lemma fits_Bool_cases: "fits (Suc 0) a \<longleftrightarrow> a = 0 \<or> a = 1"
  by (auto simp: fits_def)

lemma fits_mono: "fits w a \<Longrightarrow> w \<le> v \<Longrightarrow> fits v a"
  unfolding fits_def by (meson order_less_le_trans power_increasing one_le_numeral)

lemma fits_and [simp]: "fits w a \<Longrightarrow> fits w (a AND b)"
  by (metis and.left_idem and.commute and.left_commute fits_iff_take_bit take_bit_eq_mask
      and.assoc)

lemma fits_or [simp]: "fits w a \<Longrightarrow> fits w b \<Longrightarrow> fits w (a OR b)"
  by (simp add: fits_iff_take_bit)

lemma fits_xor [simp]: "fits w a \<Longrightarrow> fits w b \<Longrightarrow> fits w (a XOR b)"
  by (simp add: fits_iff_take_bit)

lemma fits_div [simp]: "fits w a \<Longrightarrow> fits w b \<Longrightarrow> fits w (a div b)"
proof -
  assume a: "fits w a" and b: "fits w b"
  have "a div b \<le> a"
  proof (cases "b = 0")
    case False
    with b have "1 \<le> b" by (simp add: fits_def)
    then have "a div b \<le> a div 1"
      using a by (intro zdiv_mono2) (auto simp: fits_def)
    then show ?thesis by simp
  qed (use a in \<open>simp add: fits_def\<close>)
  moreover have "0 \<le> a div b"
    using a b by (simp add: fits_def div_int_pos_iff)
  ultimately show ?thesis
    using a by (simp add: fits_def)
qed

lemma fits_mod [simp]: "fits w a \<Longrightarrow> fits w b \<Longrightarrow> fits w (a mod b)"
  unfolding fits_def
  by (cases "b = 0") (auto intro: order_less_trans[OF pos_mod_bound])

lemma fits_drop_bit [simp]: "fits w a \<Longrightarrow> fits w (drop_bit n a)"
proof -
  assume a: "fits w a"
  then have "drop_bit n a \<le> a"
    using zdiv_mono2[of a 1 "2 ^ n"] by (simp add: drop_bit_eq_div fits_def)
  then show ?thesis
    using a by (simp add: fits_def)
qed

section \<open>Two's complement readings\<close>

text \<open>Arithmetic modulo \<open>2 ^ w\<close> may truncate its arguments first.\<close>

lemma take_bit_arith [simp]:
  fixes a b :: int
  shows "take_bit w (take_bit w a + b) = take_bit w (a + b)"
    and "take_bit w (a + take_bit w b) = take_bit w (a + b)"
    and "take_bit w (take_bit w a - b) = take_bit w (a - b)"
    and "take_bit w (a - take_bit w b) = take_bit w (a - b)"
    and "take_bit w (take_bit w a * b) = take_bit w (a * b)"
    and "take_bit w (a * take_bit w b) = take_bit w (a * b)"
    and "take_bit w (- take_bit w a) = take_bit w (- a)"
  by (simp_all add: take_bit_eq_mod mod_simps)

lemma take_bit_eqI: "take_bit w a = take_bit w b \<Longrightarrow> fits w a \<Longrightarrow> fits w b \<Longrightarrow> a = b"
  by (simp add: take_bit_fits)

section \<open>Lists\<close>

lemma list_all_update: "list_all P xs \<Longrightarrow> P v \<Longrightarrow> list_all P (xs[i := v])"
  by (auto simp: list_all_iff dest!: set_update_subset_insert[THEN subsetD])

lemma list_all_replicate: "P v \<Longrightarrow> list_all P (replicate n v)"
  by (simp add: list_all_iff)

end
