(* ===== verification/BitVec.thy ===== *)
theory BitVec
  imports Prelude
begin

text \<open>
  The program's constants: \<open>llvm::APInt\<close>, the machine integer of a width known at run time, as a
  pair of the width and the unsigned value, with the wrap-around of each operation written out;
  and the operations of \<open>ConstantExpr\<close> (\<^verbatim>\<open>lib/klee/Expr/Expr.cpp\<close>), which fold constants. The
  value-level operators \<open>bv_add\<close>, ... are the meaning of each expression kind; the
  evaluator of \<open>Exprs\<close> uses the same operators through \<open>bop\<close>.
\<close>

section \<open>Operators on values of width \<open>w\<close>\<close>

definition sx :: "nat \<Rightarrow> int \<Rightarrow> int" where
  "sx w a = signed_take_bit (w - 1) a"

definition bv_add :: "nat \<Rightarrow> int \<Rightarrow> int \<Rightarrow> int" where [bv_defs]:
  "bv_add w a b = take_bit w (a + b)"
definition bv_sub :: "nat \<Rightarrow> int \<Rightarrow> int \<Rightarrow> int" where [bv_defs]:
  "bv_sub w a b = take_bit w (a - b)"
definition bv_mul :: "nat \<Rightarrow> int \<Rightarrow> int \<Rightarrow> int" where [bv_defs]:
  "bv_mul w a b = take_bit w (a * b)"
definition bv_udiv :: "nat \<Rightarrow> int \<Rightarrow> int \<Rightarrow> int" where [bv_defs]:
  "bv_udiv w a b = a div b"
definition bv_urem :: "nat \<Rightarrow> int \<Rightarrow> int \<Rightarrow> int" where [bv_defs]:
  "bv_urem w a b = a mod b"
definition bv_sdiv :: "nat \<Rightarrow> int \<Rightarrow> int \<Rightarrow> int" where [bv_defs]:
  "bv_sdiv w a b = take_bit w (sx w a sdiv sx w b)"
definition bv_srem :: "nat \<Rightarrow> int \<Rightarrow> int \<Rightarrow> int" where [bv_defs]:
  "bv_srem w a b = take_bit w (sx w a smod sx w b)"
definition bv_and :: "nat \<Rightarrow> int \<Rightarrow> int \<Rightarrow> int" where [bv_defs]:
  "bv_and w a b = a AND b"
definition bv_or :: "nat \<Rightarrow> int \<Rightarrow> int \<Rightarrow> int" where [bv_defs]:
  "bv_or w a b = a OR b"
definition bv_xor :: "nat \<Rightarrow> int \<Rightarrow> int \<Rightarrow> int" where [bv_defs]:
  "bv_xor w a b = a XOR b"

text \<open>A shift by at least the width clears the value (or fills it with the sign).\<close>

definition shift_amount :: "nat \<Rightarrow> int \<Rightarrow> nat" where
  "shift_amount w b = nat (min (int w) b)"

definition bv_shl :: "nat \<Rightarrow> int \<Rightarrow> int \<Rightarrow> int" where [bv_defs]:
  "bv_shl w a b = take_bit w (push_bit (shift_amount w b) a)"
definition bv_lshr :: "nat \<Rightarrow> int \<Rightarrow> int \<Rightarrow> int" where [bv_defs]:
  "bv_lshr w a b = drop_bit (shift_amount w b) a"
definition bv_ashr :: "nat \<Rightarrow> int \<Rightarrow> int \<Rightarrow> int" where [bv_defs]:
  "bv_ashr w a b = take_bit w (drop_bit (shift_amount w b) (sx w a))"

definition bv_not :: "nat \<Rightarrow> int \<Rightarrow> int" where
  "bv_not w a = take_bit w (NOT a)"

section \<open>APInt and the operations of ConstantExpr\<close>

datatype apint = APInt (getBitWidth: nat) (rawval: int)

abbreviation wellformed_apint :: "apint \<Rightarrow> bool" where
  "wellformed_apint c \<equiv> 0 < getBitWidth c \<and> fits (getBitWidth c) (rawval c)"

definition apint_of :: "nat \<Rightarrow> int \<Rightarrow> apint" where
  "apint_of w v = APInt w (take_bit w v)"

definition CE_isZero :: "apint \<Rightarrow> bool" where
  "CE_isZero c \<longleftrightarrow> rawval c = 0"

text \<open>\<open>getLimitedValue()\<close> caps the value at \<open>2^64 - 1\<close>.\<close>
definition getLimitedValue :: "apint \<Rightarrow> int" where
  "getLimitedValue c = min (rawval c) (2 ^ 64 - 1)"
definition CE_isOne :: "apint \<Rightarrow> bool" where
  "CE_isOne c \<longleftrightarrow> getLimitedValue c = 1"
definition CE_isTrue :: "apint \<Rightarrow> bool" where
  "CE_isTrue c \<longleftrightarrow> getBitWidth c = 1 \<and> rawval c \<noteq> 0"
definition CE_isFalse :: "apint \<Rightarrow> bool" where
  "CE_isFalse c \<longleftrightarrow> getBitWidth c = 1 \<and> rawval c = 0"
definition CE_isAllOnes :: "apint \<Rightarrow> bool" where
  "CE_isAllOnes c \<longleftrightarrow> rawval c = mask (getBitWidth c)"

definition CE_Concat :: "apint \<Rightarrow> apint \<Rightarrow> apint" where
  "CE_Concat l r =
     (let W = getBitWidth l + getBitWidth r;
          Tmp = take_bit W (push_bit (getBitWidth r) (rawval l))
      in APInt W (Tmp OR rawval r))"
definition CE_Extract :: "apint \<Rightarrow> nat \<Rightarrow> nat \<Rightarrow> apint" where
  "CE_Extract c off W =
     APInt W (take_bit W (take_bit (getBitWidth c)
                (drop_bit off (sx (getBitWidth c) (rawval c)))))"
definition CE_ZExt :: "apint \<Rightarrow> nat \<Rightarrow> apint" where
  "CE_ZExt c W = APInt W (take_bit W (rawval c))"
definition CE_SExt :: "apint \<Rightarrow> nat \<Rightarrow> apint" where
  "CE_SExt c W = APInt W (take_bit W (sx (getBitWidth c) (rawval c)))"

text \<open>An arithmetic or bitwise operation keeps the width of its left operand.\<close>

definition arith :: "(nat \<Rightarrow> int \<Rightarrow> int \<Rightarrow> int) \<Rightarrow> apint \<Rightarrow> apint \<Rightarrow> apint" where
  "arith f l r = APInt (getBitWidth l) (f (getBitWidth l) (rawval l) (rawval r))"
definition cmp :: "(nat \<Rightarrow> int \<Rightarrow> int \<Rightarrow> bool) \<Rightarrow> apint \<Rightarrow> apint \<Rightarrow> apint" where
  "cmp p l r = APInt 1 (of_bool (p (getBitWidth l) (rawval l) (rawval r)))"

definition CE_Add :: "apint \<Rightarrow> apint \<Rightarrow> apint" where "CE_Add = arith bv_add"
definition CE_Neg :: "apint \<Rightarrow> apint" where
  "CE_Neg c = APInt (getBitWidth c) (take_bit (getBitWidth c) (- rawval c))"
definition CE_Sub :: "apint \<Rightarrow> apint \<Rightarrow> apint" where "CE_Sub = arith bv_sub"
definition CE_Mul :: "apint \<Rightarrow> apint \<Rightarrow> apint" where "CE_Mul = arith bv_mul"
definition CE_UDiv :: "apint \<Rightarrow> apint \<Rightarrow> apint" where "CE_UDiv = arith bv_udiv"
definition CE_SDiv :: "apint \<Rightarrow> apint \<Rightarrow> apint" where "CE_SDiv = arith bv_sdiv"
definition CE_URem :: "apint \<Rightarrow> apint \<Rightarrow> apint" where "CE_URem = arith bv_urem"
definition CE_SRem :: "apint \<Rightarrow> apint \<Rightarrow> apint" where "CE_SRem = arith bv_srem"
definition CE_And :: "apint \<Rightarrow> apint \<Rightarrow> apint" where "CE_And = arith bv_and"
definition CE_Or :: "apint \<Rightarrow> apint \<Rightarrow> apint" where "CE_Or = arith bv_or"
definition CE_Xor :: "apint \<Rightarrow> apint \<Rightarrow> apint" where "CE_Xor = arith bv_xor"
definition CE_Shl :: "apint \<Rightarrow> apint \<Rightarrow> apint" where "CE_Shl = arith bv_shl"
definition CE_LShr :: "apint \<Rightarrow> apint \<Rightarrow> apint" where "CE_LShr = arith bv_lshr"
definition CE_AShr :: "apint \<Rightarrow> apint \<Rightarrow> apint" where "CE_AShr = arith bv_ashr"
definition CE_Not :: "apint \<Rightarrow> apint" where
  "CE_Not c = APInt (getBitWidth c) (bv_not (getBitWidth c) (rawval c))"
definition CE_Eq :: "apint \<Rightarrow> apint \<Rightarrow> apint" where "CE_Eq = cmp (\<lambda>w a b. a = b)"
definition CE_Ne :: "apint \<Rightarrow> apint \<Rightarrow> apint" where "CE_Ne = cmp (\<lambda>w a b. a \<noteq> b)"
definition CE_Ult :: "apint \<Rightarrow> apint \<Rightarrow> apint" where "CE_Ult = cmp (\<lambda>w a b. a < b)"
definition CE_Ule :: "apint \<Rightarrow> apint \<Rightarrow> apint" where "CE_Ule = cmp (\<lambda>w a b. a \<le> b)"
definition CE_Ugt :: "apint \<Rightarrow> apint \<Rightarrow> apint" where "CE_Ugt = cmp (\<lambda>w a b. a > b)"
definition CE_Uge :: "apint \<Rightarrow> apint \<Rightarrow> apint" where "CE_Uge = cmp (\<lambda>w a b. a \<ge> b)"
definition CE_Slt :: "apint \<Rightarrow> apint \<Rightarrow> apint" where "CE_Slt = cmp (\<lambda>w a b. sx w a < sx w b)"
definition CE_Sle :: "apint \<Rightarrow> apint \<Rightarrow> apint" where "CE_Sle = cmp (\<lambda>w a b. sx w a \<le> sx w b)"
definition CE_Sgt :: "apint \<Rightarrow> apint \<Rightarrow> apint" where "CE_Sgt = cmp (\<lambda>w a b. sx w a > sx w b)"
definition CE_Sge :: "apint \<Rightarrow> apint \<Rightarrow> apint" where "CE_Sge = cmp (\<lambda>w a b. sx w a \<ge> sx w b)"

lemmas CE_arith_defs = CE_Add_def CE_Sub_def CE_Mul_def CE_UDiv_def CE_SDiv_def CE_URem_def
  CE_SRem_def CE_And_def CE_Or_def CE_Xor_def CE_Shl_def CE_LShr_def CE_AShr_def arith_def
lemmas CE_cmp_defs = CE_Eq_def CE_Ne_def CE_Ult_def CE_Ule_def CE_Ugt_def CE_Uge_def
  CE_Slt_def CE_Sle_def CE_Sgt_def CE_Sge_def cmp_def

section \<open>Ranges\<close>

lemma fits_bv [simp]:
  "fits w (bv_add w a b)" "fits w (bv_sub w a b)" "fits w (bv_mul w a b)"
  "fits w (bv_sdiv w a b)" "fits w (bv_srem w a b)" "fits w (bv_shl w a b)"
  "fits w (bv_ashr w a b)" "fits w (bv_not w a)"
  "fits w a \<Longrightarrow> fits w b \<Longrightarrow> fits w (bv_udiv w a b)"
  "fits w a \<Longrightarrow> fits w b \<Longrightarrow> fits w (bv_urem w a b)"
  "fits w a \<Longrightarrow> fits w b \<Longrightarrow> fits w (bv_and w a b)"
  "fits w a \<Longrightarrow> fits w b \<Longrightarrow> fits w (bv_or w a b)"
  "fits w a \<Longrightarrow> fits w b \<Longrightarrow> fits w (bv_xor w a b)"
  "fits w a \<Longrightarrow> fits w (bv_lshr w a b)"
  by (simp_all add: bv_defs bv_not_def)

end
