(* ===== verification/Exprs.thy ===== *)
theory Exprs
  imports BitVec
begin

text \<open>
  The expression language (\<^verbatim>\<open>include/klee/Expr.h\<close>): kinds, arrays, update lists and
  expressions as data, their widths, the well-typedness the code's assertions maintain, and the
  value of an expression under an assignment of the symbolic arrays. The value function is the
  specification against which every routine that rewrites expressions is proved.
\<close>

section \<open>Kinds\<close>

text \<open>The kinds of the binary expressions, in the order of the enumeration.\<close>

datatype bkind =
    Add | Sub | Mul | UDiv | SDiv | URem | SRem
  | And | Or | Xor | Shl | LShr | AShr
  | Eq | Ne | Ult | Ule | Ugt | Uge | Slt | Sle | Sgt | Sge

datatype Kind =
    KConstant | KNotOptimized | KRead | KSelect | KConcat | KExtract
  | KZExt | KSExt | KNot | KBinary bkind

fun bkind_value :: "bkind \<Rightarrow> nat" where
  "bkind_value Add = 10" | "bkind_value Sub = 11" | "bkind_value Mul = 12"
| "bkind_value UDiv = 13" | "bkind_value SDiv = 14" | "bkind_value URem = 15"
| "bkind_value SRem = 16" | "bkind_value And = 17" | "bkind_value Or = 18"
| "bkind_value Xor = 19" | "bkind_value Shl = 20" | "bkind_value LShr = 21"
| "bkind_value AShr = 22" | "bkind_value Eq = 23" | "bkind_value Ne = 24"
| "bkind_value Ult = 25" | "bkind_value Ule = 26" | "bkind_value Ugt = 27"
| "bkind_value Uge = 28" | "bkind_value Slt = 29" | "bkind_value Sle = 30"
| "bkind_value Sgt = 31" | "bkind_value Sge = 32"

text \<open>The numeric value of each enumerator; \<open>Read = NotOptimized + 2\<close> leaves a gap at 2.\<close>

fun kind_value :: "Kind \<Rightarrow> nat" where
  "kind_value KConstant = 0" | "kind_value KNotOptimized = 1" | "kind_value KRead = 3"
| "kind_value KSelect = 4" | "kind_value KConcat = 5" | "kind_value KExtract = 6"
| "kind_value KZExt = 7" | "kind_value KSExt = 8" | "kind_value KNot = 9"
| "kind_value (KBinary k) = bkind_value k"

definition isCmpKind :: "bkind \<Rightarrow> bool" where
  "isCmpKind k \<longleftrightarrow> bkind_value Eq \<le> bkind_value k \<and> bkind_value k \<le> bkind_value Sge"

section \<open>Arrays, update lists and expressions\<close>

text \<open>
  An array object: \<open>addr\<close> stands for the address of the object (the code compares arrays by
  pointer); \<open>constantValues\<close> is empty for a symbolic array.
\<close>

record array =
  addr :: nat
  name :: string
  arr_size :: nat
  domain_w :: nat
  range_w :: nat
  constantValues :: "int list"

definition isSymbolicArray :: "array \<Rightarrow> bool" where
  "isSymbolicArray a \<longleftrightarrow> constantValues a = []"
definition isConstantArray :: "array \<Rightarrow> bool" where
  "isConstantArray a \<longleftrightarrow> \<not> isSymbolicArray a"

text \<open>
  An update list is the root array and a chain of update nodes, the most recent first.
  \<open>UpdateNode index value next\<close> is the code's node; \<open>NoUpdate\<close> is its null pointer.
\<close>

datatype expr =
    ConstantExpr apint
  | NotOptimizedExpr expr
  | ReadExpr array updates expr
  | SelectExpr expr expr expr
  | ConcatExpr expr expr
  | ExtractExpr expr nat nat
  | ZExtExpr expr nat
  | SExtExpr expr nat
  | NotExpr expr
  | BinaryExpr bkind expr expr
and updates =
    NoUpdate
  | UpdateNode expr expr updates

fun getKind :: "expr \<Rightarrow> Kind" where
  "getKind (ConstantExpr _) = KConstant"
| "getKind (NotOptimizedExpr _) = KNotOptimized"
| "getKind (ReadExpr _ _ _) = KRead"
| "getKind (SelectExpr _ _ _) = KSelect"
| "getKind (ConcatExpr _ _) = KConcat"
| "getKind (ExtractExpr _ _ _) = KExtract"
| "getKind (ZExtExpr _ _) = KZExt"
| "getKind (SExtExpr _ _) = KSExt"
| "getKind (NotExpr _) = KNot"
| "getKind (BinaryExpr k _ _) = KBinary k"

text \<open>The children \<open>getKid(0), ..., getKid(getNumKids()-1)\<close>.\<close>

fun kids :: "expr \<Rightarrow> expr list" where
  "kids (ConstantExpr _) = []"
| "kids (NotOptimizedExpr e) = [e]"
| "kids (ReadExpr _ _ i) = [i]"
| "kids (SelectExpr c t f) = [c, t, f]"
| "kids (ConcatExpr l r) = [l, r]"
| "kids (ExtractExpr e _ _) = [e]"
| "kids (ZExtExpr e _) = [e]"
| "kids (SExtExpr e _) = [e]"
| "kids (NotExpr e) = [e]"
| "kids (BinaryExpr _ l r) = [l, r]"

fun getWidth :: "expr \<Rightarrow> nat" where
  "getWidth (ConstantExpr c) = getBitWidth c"
| "getWidth (NotOptimizedExpr e) = getWidth e"
| "getWidth (ReadExpr a _ _) = range_w a"
| "getWidth (SelectExpr _ t _) = getWidth t"
| "getWidth (ConcatExpr l r) = getWidth l + getWidth r"
| "getWidth (ExtractExpr _ _ w) = w"
| "getWidth (ZExtExpr _ w) = w"
| "getWidth (SExtExpr _ w) = w"
| "getWidth (NotExpr e) = getWidth e"
| "getWidth (BinaryExpr k l _) = (if isCmpKind k then 1 else getWidth l)"

fun getSize :: "updates \<Rightarrow> nat" where
  "getSize NoUpdate = 0"
| "getSize (UpdateNode _ _ next) = 1 + getSize next"

text \<open>\<open>dyn_cast<ConstantExpr>\<close>.\<close>

fun dyn_Constant :: "expr \<Rightarrow> apint option" where
  "dyn_Constant (ConstantExpr c) = Some c"
| "dyn_Constant _ = None"

definition isConstantExpr :: "expr \<Rightarrow> bool" where
  "isConstantExpr e \<longleftrightarrow> dyn_Constant e \<noteq> None"

text \<open>
  \<open>dyn_cast\<close> to a binary class of kind \<open>k\<close>, and the test \<open>getKind() == k\<close> with a constant left
  child, which returns the constant and the right child.
\<close>

definition dyn_Binary :: "bkind \<Rightarrow> expr \<Rightarrow> (expr \<times> expr) option" where
  "dyn_Binary k e =
     (case e of BinaryExpr k' l r \<Rightarrow> if k' = k then Some (l, r) else None | _ \<Rightarrow> None)"
definition const_left :: "bkind \<Rightarrow> expr \<Rightarrow> (apint \<times> expr) option" where
  "const_left k e =
     (case dyn_Binary k e of
        Some (l, r) \<Rightarrow> (case dyn_Constant l of Some c \<Rightarrow> Some (c, r) | None \<Rightarrow> None)
      | None \<Rightarrow> None)"

text \<open>\<open>Expr::isZero\<close>, \<open>isTrue\<close> and \<open>isFalse\<close>.\<close>

definition isZero :: "expr \<Rightarrow> bool" where
  "isZero e = (case dyn_Constant e of Some c \<Rightarrow> CE_isZero c | None \<Rightarrow> False)"
definition isTrue :: "expr \<Rightarrow> bool" where
  "isTrue e = (case dyn_Constant e of Some c \<Rightarrow> CE_isTrue c | None \<Rightarrow> False)"
definition isFalse :: "expr \<Rightarrow> bool" where
  "isFalse e = (case dyn_Constant e of Some c \<Rightarrow> CE_isFalse c | None \<Rightarrow> False)"

section \<open>The value of an expression\<close>

text \<open>The operator of a binary kind on values of operand width \<open>w\<close>.\<close>

fun bop :: "bkind \<Rightarrow> nat \<Rightarrow> int \<Rightarrow> int \<Rightarrow> int" where
  "bop Add w a b = bv_add w a b"
| "bop Sub w a b = bv_sub w a b"
| "bop Mul w a b = bv_mul w a b"
| "bop UDiv w a b = bv_udiv w a b"
| "bop SDiv w a b = bv_sdiv w a b"
| "bop URem w a b = bv_urem w a b"
| "bop SRem w a b = bv_srem w a b"
| "bop And w a b = bv_and w a b"
| "bop Or w a b = bv_or w a b"
| "bop Xor w a b = bv_xor w a b"
| "bop Shl w a b = bv_shl w a b"
| "bop LShr w a b = bv_lshr w a b"
| "bop AShr w a b = bv_ashr w a b"
| "bop Eq w a b = of_bool (a = b)"
| "bop Ne w a b = of_bool (a \<noteq> b)"
| "bop Ult w a b = of_bool (a < b)"
| "bop Ule w a b = of_bool (a \<le> b)"
| "bop Ugt w a b = of_bool (a > b)"
| "bop Uge w a b = of_bool (a \<ge> b)"
| "bop Slt w a b = of_bool (sx w a < sx w b)"
| "bop Sle w a b = of_bool (sx w a \<le> sx w b)"
| "bop Sgt w a b = of_bool (sx w a > sx w b)"
| "bop Sge w a b = of_bool (sx w a \<ge> sx w b)"

text \<open>
  An environment gives the contents of every array object. A constant array has its own
  contents inside its bounds; outside, as for a symbolic array, the environment decides.
\<close>

type_synonym env = "array \<Rightarrow> int \<Rightarrow> int"

definition initial_value :: "env \<Rightarrow> array \<Rightarrow> int \<Rightarrow> int" where
  "initial_value \<rho> a i =
     (if isConstantArray a \<and> 0 \<le> i \<and> i < int (arr_size a) then constantValues a ! nat i
      else take_bit (range_w a) (\<rho> a i))"

fun eval :: "env \<Rightarrow> expr \<Rightarrow> int" and read_updates :: "env \<Rightarrow> array \<Rightarrow> updates \<Rightarrow> int \<Rightarrow> int" where
  "eval \<rho> (ConstantExpr c) = rawval c"
| "eval \<rho> (NotOptimizedExpr e) = eval \<rho> e"
| "eval \<rho> (ReadExpr a us i) = read_updates \<rho> a us (eval \<rho> i)"
| "eval \<rho> (SelectExpr c t f) = (if eval \<rho> c \<noteq> 0 then eval \<rho> t else eval \<rho> f)"
| "eval \<rho> (ConcatExpr l r) = push_bit (getWidth r) (eval \<rho> l) OR eval \<rho> r"
| "eval \<rho> (ExtractExpr e off w) = take_bit w (drop_bit off (eval \<rho> e))"
| "eval \<rho> (ZExtExpr e w) = take_bit w (eval \<rho> e)"
| "eval \<rho> (SExtExpr e w) = take_bit w (sx (getWidth e) (eval \<rho> e))"
| "eval \<rho> (NotExpr e) = bv_not (getWidth e) (eval \<rho> e)"
| "eval \<rho> (BinaryExpr k l r) = bop k (getWidth l) (eval \<rho> l) (eval \<rho> r)"
| "read_updates \<rho> a NoUpdate i = initial_value \<rho> a i"
| "read_updates \<rho> a (UpdateNode x v next) i =
     (if eval \<rho> x = i then eval \<rho> v else read_updates \<rho> a next i)"

section \<open>Well-typed expressions\<close>

text \<open>What the constructors of \<open>Array\<close> assert.\<close>

definition wf_array :: "array \<Rightarrow> bool" where
  "wf_array a \<longleftrightarrow> 0 < range_w a \<and> 0 < domain_w a \<and>
     (isSymbolicArray a \<or> length (constantValues a) = arr_size a) \<and>
     list_all (fits (range_w a)) (constantValues a)"

text \<open>
  Constants are in range, operands of a binary kind have one width, extracts stay inside
  their argument, extensions do not truncate, and updates have the domain and range of their array.
\<close>

fun wt :: "expr \<Rightarrow> bool" and wt_updates :: "array \<Rightarrow> updates \<Rightarrow> bool" where
  "wt (ConstantExpr c) = wellformed_apint c"
| "wt (NotOptimizedExpr e) = wt e"
| "wt (ReadExpr a us i) = (wf_array a \<and> wt_updates a us \<and> wt i \<and> getWidth i = domain_w a)"
| "wt (SelectExpr c t f) = (wt c \<and> wt t \<and> wt f \<and> getWidth c = 1 \<and> getWidth t = getWidth f)"
| "wt (ConcatExpr l r) = (wt l \<and> wt r)"
| "wt (ExtractExpr e off w) = (wt e \<and> 0 < w \<and> off + w \<le> getWidth e)"
| "wt (ZExtExpr e w) = (wt e \<and> getWidth e \<le> w)"
| "wt (SExtExpr e w) = (wt e \<and> getWidth e \<le> w)"
| "wt (NotExpr e) = wt e"
| "wt (BinaryExpr k l r) = (wt l \<and> wt r \<and> getWidth l = getWidth r)"
| "wt_updates a NoUpdate = True"
| "wt_updates a (UpdateNode x v next) =
     (wt x \<and> wt v \<and> getWidth x = domain_w a \<and> getWidth v = range_w a \<and> wt_updates a next)"

lemma isCmpKind_simps [simp]:
  "isCmpKind Add = False" "isCmpKind Sub = False" "isCmpKind Mul = False"
  "isCmpKind UDiv = False" "isCmpKind SDiv = False" "isCmpKind URem = False"
  "isCmpKind SRem = False" "isCmpKind And = False" "isCmpKind Or = False"
  "isCmpKind Xor = False" "isCmpKind Shl = False" "isCmpKind LShr = False"
  "isCmpKind AShr = False" "isCmpKind Eq = True" "isCmpKind Ne = True"
  "isCmpKind Ult = True" "isCmpKind Ule = True" "isCmpKind Ugt = True"
  "isCmpKind Uge = True" "isCmpKind Slt = True" "isCmpKind Sle = True"
  "isCmpKind Sgt = True" "isCmpKind Sge = True"
  by (simp_all add: isCmpKind_def)

lemma wt_width_pos: "wt e \<Longrightarrow> 0 < getWidth e"
  by (induction e rule: expr.induct[where ?P2.0 = "\<lambda>_. True"]) (auto simp: wf_array_def)

lemma fits_initial_value: "wf_array a \<Longrightarrow> fits (range_w a) (initial_value \<rho> a i)"
  by (auto simp: initial_value_def wf_array_def isConstantArray_def list_all_length)

lemma fits_bop:
  assumes "fits w a" "fits w b" "0 < w"
  shows "fits (if isCmpKind k then 1 else w) (bop k w a b)"
  using assms by (cases k) simp_all

lemma fits_concat:
  assumes "fits w a" "fits v b"
  shows "fits (w + v) (push_bit v a OR b)"
proof (rule fits_or)
  have "a * 2 ^ v < 2 ^ w * 2 ^ v"
    using assms(1) by (simp add: fits_def)
  then show "fits (w + v) (push_bit v a)"
    using assms(1) by (simp add: fits_def push_bit_eq_mult power_add)
  show "fits (w + v) b"
    using assms(2) by (rule fits_mono) simp
qed

lemma fits_eval_updates:
  "wt e \<longrightarrow> fits (getWidth e) (eval \<rho> e)"
  "wf_array a \<longrightarrow> wt_updates a us \<longrightarrow> fits (range_w a) (read_updates \<rho> a us i)"
proof (induction e and us arbitrary: and a i)
  case (BinaryExpr k l r)
  then show ?case
    using fits_bop[of "getWidth l" "eval \<rho> l" "eval \<rho> r" k] wt_width_pos[of l] by auto
qed (auto simp: fits_concat fits_initial_value)

text \<open>The value of a well-typed expression is a value of its width.\<close>

lemma fits_eval [simp]: "wt e \<Longrightarrow> getWidth e = w \<Longrightarrow> fits w (eval \<rho> e)"
  using fits_eval_updates(1) by auto

lemma eval_nonneg [simp]: "wt e \<Longrightarrow> 0 \<le> eval \<rho> e"
  using fits_eval fits_nonneg by blast

lemma take_bit_eval [simp]: "wt e \<Longrightarrow> getWidth e = w \<Longrightarrow> take_bit w (eval \<rho> e) = eval \<rho> e"
  using fits_eval take_bit_fits by blast

lemma eval_Bool: "wt e \<Longrightarrow> getWidth e = 1 \<Longrightarrow> eval \<rho> e = 0 \<or> eval \<rho> e = 1"
  using fits_eval[of e 1 \<rho>] by (simp add: fits_Bool_cases)

lemma dyn_Constant_Some [simp]: "dyn_Constant e = Some c \<longleftrightarrow> e = ConstantExpr c"
  by (cases e) auto

lemma dyn_Binary_Some [simp]: "dyn_Binary k e = Some (l, r) \<longleftrightarrow> e = BinaryExpr k l r"
  by (auto simp: dyn_Binary_def split: expr.splits)

lemma const_left_Some [simp]: "const_left k e = Some (c, x) \<longleftrightarrow> e = BinaryExpr k (ConstantExpr c) x"
  by (auto simp: const_left_def dyn_Binary_def split: option.splits expr.splits)

lemma dyn_Binary_BinaryExpr [simp]:
  "dyn_Binary k (BinaryExpr k' l r) = (if k' = k then Some (l, r) else None)"
  by (simp add: dyn_Binary_def)

lemma const_left_BinaryExpr [simp]:
  "const_left k (BinaryExpr k' l r) =
     (if k' = k then map_option (\<lambda>c. (c, r)) (dyn_Constant l) else None)"
  by (auto simp: const_left_def split: option.splits)

lemma isConstantExpr_ConstantExpr [simp]: "isConstantExpr (ConstantExpr c)"
  by (simp add: isConstantExpr_def)

lemma isConstantExprE: "isConstantExpr e \<Longrightarrow> (\<And>c. e = ConstantExpr c \<Longrightarrow> P) \<Longrightarrow> P"
  by (auto simp: isConstantExpr_def)

end
