(* ===== verification/ExprCreate.thy ===== *)
theory ExprCreate
  imports Exprs
begin

text \<open>
  The smart constructors \<open>XxxExpr::create\<close> of \<^verbatim>\<open>lib/klee/Expr/Expr.cpp\<close>: constant folding,
  reassociation of linear sums, elimination of boolean arithmetic, extract/concat fusion and
  forwarding of array writes to reads. \<open>create_Add\<close> is \<open>AddExpr::create\<close>, \<open>AddExpr_create\<close> the
  static helper of that name, and so on. \<open>alloc\<close> is the plain constructor of the datatype.
\<close>

section \<open>Constants\<close>

definition alloc_Const :: "nat \<Rightarrow> int \<Rightarrow> expr" where
  "alloc_Const v_width v = ConstantExpr (apint_of v_width v)"

section \<open>And, Or, Not\<close>

definition AndExpr_createPartial :: "expr \<Rightarrow> apint \<Rightarrow> expr" where
  "AndExpr_createPartial l cr =
     (if CE_isAllOnes cr then l
      else if CE_isZero cr then ConstantExpr cr
      else BinaryExpr And l (ConstantExpr cr))"
definition AndExpr_createPartialR :: "apint \<Rightarrow> expr \<Rightarrow> expr" where
  "AndExpr_createPartialR cl r = AndExpr_createPartial r cl"
definition AndExpr_create :: "expr \<Rightarrow> expr \<Rightarrow> expr" where
  "AndExpr_create l r = BinaryExpr And l r"

definition OrExpr_createPartial :: "expr \<Rightarrow> apint \<Rightarrow> expr" where
  "OrExpr_createPartial l cr =
     (if CE_isAllOnes cr then ConstantExpr cr
      else if CE_isZero cr then l
      else BinaryExpr Or l (ConstantExpr cr))"
definition OrExpr_createPartialR :: "apint \<Rightarrow> expr \<Rightarrow> expr" where
  "OrExpr_createPartialR cl r = OrExpr_createPartial r cl"
definition OrExpr_create :: "expr \<Rightarrow> expr \<Rightarrow> expr" where
  "OrExpr_create l r = BinaryExpr Or l r"

text \<open>
  The macros \<open>BCREATE_R\<close> and \<open>CMPCREATE_T\<close> (one body): fold two constants, dispatch on one
  constant operand, otherwise call the general helper. \<open>BCREATE\<close> and \<open>CMPCREATE\<close> only fold.
\<close>

definition BCREATE_R ::
    "(apint \<Rightarrow> apint \<Rightarrow> apint) \<Rightarrow> (expr \<Rightarrow> apint \<Rightarrow> expr) \<Rightarrow> (apint \<Rightarrow> expr \<Rightarrow> expr) \<Rightarrow>
     (expr \<Rightarrow> expr \<Rightarrow> expr) \<Rightarrow> expr \<Rightarrow> expr \<Rightarrow> expr" where
  "BCREATE_R op partialL partialR create l r =
     (case dyn_Constant l of
        Some cl \<Rightarrow> (case dyn_Constant r of
            Some cr \<Rightarrow> ConstantExpr (op cl cr)
          | None \<Rightarrow> partialR cl r)
      | None \<Rightarrow> (case dyn_Constant r of
            Some cr \<Rightarrow> partialL l cr
          | None \<Rightarrow> create l r))"

definition fold_constants :: "(apint \<Rightarrow> apint \<Rightarrow> apint) \<Rightarrow> expr \<Rightarrow> expr \<Rightarrow> apint option" where
  "fold_constants op l r =
     (case (dyn_Constant l, dyn_Constant r) of
        (Some cl, Some cr) \<Rightarrow> Some (op cl cr)
      | _ \<Rightarrow> None)"

definition BCREATE ::
    "(apint \<Rightarrow> apint \<Rightarrow> apint) \<Rightarrow> (expr \<Rightarrow> expr \<Rightarrow> expr) \<Rightarrow> expr \<Rightarrow> expr \<Rightarrow> expr" where
  "BCREATE op create l r =
     (case fold_constants op l r of Some c \<Rightarrow> ConstantExpr c | None \<Rightarrow> create l r)"

definition create_And :: "expr \<Rightarrow> expr \<Rightarrow> expr" where
  "create_And = BCREATE_R CE_And AndExpr_createPartial AndExpr_createPartialR AndExpr_create"
definition create_Or :: "expr \<Rightarrow> expr \<Rightarrow> expr" where
  "create_Or = BCREATE_R CE_Or OrExpr_createPartial OrExpr_createPartialR OrExpr_create"
definition create_Not :: "expr \<Rightarrow> expr" where
  "create_Not e = (case dyn_Constant e of Some c \<Rightarrow> ConstantExpr (CE_Not c) | None \<Rightarrow> NotExpr e)"
definition create_NotOptimized :: "expr \<Rightarrow> expr" where
  "create_NotOptimized e = NotOptimizedExpr e"

section \<open>Eq and Xor\<close>

definition EqExpr_create :: "expr \<Rightarrow> expr \<Rightarrow> expr" where
  "EqExpr_create l r = (if l = r then alloc_Const 1 1 else BinaryExpr Eq l r)"

text \<open>
  \<open>TryConstArrayOpt\<close>: an equality with a read of a constant array becomes a disjunction of
  equalities on the index, unless more than 100 entries match. \<open>mayBe i\<close> is
  \<open>EqExpr::create(rd->index, i)\<close>; the option \<open>-const-array-opt\<close> is off unless the user sets it.
\<close>

definition ConstArrayOpt :: bool where
  "ConstArrayOpt = False"

fun tryConstArray_loop ::
    "(nat \<Rightarrow> expr) \<Rightarrow> apint \<Rightarrow> expr \<Rightarrow> nat \<Rightarrow> nat \<Rightarrow> int list \<Rightarrow> nat \<Rightarrow> expr \<Rightarrow> expr" where
  "tryConstArray_loop mayBe cl rd w i [] numMatches res = res"
| "tryConstArray_loop mayBe cl rd w i (v # vs) numMatches res =
     (if cl = APInt w v then
        (if numMatches + 1 > 100 then EqExpr_create (ConstantExpr cl) rd
         else tryConstArray_loop mayBe cl rd w (i + 1) vs (numMatches + 1)
                (create_Or res (mayBe i)))
      else tryConstArray_loop mayBe cl rd w (i + 1) vs numMatches res)"

definition TryConstArrayOpt :: "(nat \<Rightarrow> expr) \<Rightarrow> apint \<Rightarrow> array \<Rightarrow> updates \<Rightarrow> expr \<Rightarrow> expr" where
  "TryConstArrayOpt mayBe cl a us idx =
     (if isSymbolicArray a \<or> getSize us \<noteq> 0 then EqExpr_create (ConstantExpr cl) (ReadExpr a us idx)
      else tryConstArray_loop mayBe cl (ReadExpr a us idx) (range_w a) 0 (constantValues a) 0
             (alloc_Const 1 0))"

text \<open>
  \<open>EqExpr_createPartialR\<close>. A call \<open>EqExpr::create(x, c)\<close> with a constant \<open>c\<close> folds if \<open>x\<close> is a
  constant and otherwise is the partial helper on \<open>x\<close>; it is written \<open>Eq_const x c rest\<close>, with
  the helper's result as \<open>rest\<close>, which keeps the recursion structural.
\<close>

definition Eq_const :: "expr \<Rightarrow> apint \<Rightarrow> expr \<Rightarrow> expr" where
  "Eq_const x c rest = (case dyn_Constant x of Some d \<Rightarrow> ConstantExpr (CE_Eq d c) | None \<Rightarrow> rest)"

function EqExpr_createPartialR :: "apint \<Rightarrow> expr \<Rightarrow> expr" where
  "EqExpr_createPartialR cl r =
     (let default = EqExpr_create (ConstantExpr cl) r
      in if getBitWidth cl = 1 then
           (if CE_isTrue cl then r
            else case const_left Eq r of
                Some (c, b) \<Rightarrow> if getBitWidth c = 1 \<and> CE_isFalse c then b else default
              | None \<Rightarrow> (case dyn_Binary Or r of
                  Some (a, b) \<Rightarrow>
                    (let za = apint_of (getWidth a) 0; zb = apint_of (getWidth b) 0
                     in create_And (Eq_const a za (EqExpr_createPartialR za a))
                                   (Eq_const b zb (EqExpr_createPartialR zb b)))
                | None \<Rightarrow> default))
         else (case r of
              SExtExpr src _ \<Rightarrow>
                (let trunc = CE_ZExt cl (getWidth src)
                 in if cl = CE_SExt trunc (getBitWidth cl)
                    then Eq_const src trunc (EqExpr_createPartialR trunc src)
                    else alloc_Const 1 0)
            | ZExtExpr src _ \<Rightarrow>
                (let trunc = CE_ZExt cl (getWidth src)
                 in if cl = CE_ZExt trunc (getBitWidth cl)
                    then Eq_const src trunc (EqExpr_createPartialR trunc src)
                    else alloc_Const 1 0)
            | BinaryExpr k a b \<Rightarrow>
                (case dyn_Constant a of
                   Some c \<Rightarrow>
                     if k = Add then EqExpr_createPartialR (CE_Sub cl c) b
                     else if k = Sub then EqExpr_createPartialR (CE_Sub c cl) b
                     else default
                 | None \<Rightarrow> default)
            | ReadExpr a us i \<Rightarrow>
                (if ConstArrayOpt
                 then TryConstArrayOpt
                   (\<lambda>n. let c = apint_of (getWidth i) (int n)
                         in Eq_const i c (EqExpr_createPartialR c i)) cl a us i
                 else default)
            | _ \<Rightarrow> default))"
  by pat_completeness auto
termination
  by (relation "measure (\<lambda>(cl, r). size r)") auto

declare EqExpr_createPartialR.simps [simp del]

definition EqExpr_createPartial :: "expr \<Rightarrow> apint \<Rightarrow> expr" where
  "EqExpr_createPartial l cr = EqExpr_createPartialR cr l"
definition create_Eq :: "expr \<Rightarrow> expr \<Rightarrow> expr" where
  "create_Eq = BCREATE_R CE_Eq EqExpr_createPartial EqExpr_createPartialR EqExpr_create"
definition createIsZero :: "expr \<Rightarrow> expr" where
  "createIsZero e = create_Eq e (alloc_Const (getWidth e) 0)"
definition create_Ne :: "expr \<Rightarrow> expr \<Rightarrow> expr" where
  "create_Ne l r = create_Eq (alloc_Const 1 0) (create_Eq l r)"
definition createImplies :: "expr \<Rightarrow> expr \<Rightarrow> expr" where
  "createImplies hyp conc = create_Or (createIsZero hyp) conc"

definition XorExpr_createPartialR :: "apint \<Rightarrow> expr \<Rightarrow> expr" where
  "XorExpr_createPartialR cl r =
     (if CE_isZero cl then r
      else if getBitWidth cl = 1 then EqExpr_createPartial r (apint_of 1 0)
      else BinaryExpr Xor (ConstantExpr cl) r)"
definition XorExpr_createPartial :: "expr \<Rightarrow> apint \<Rightarrow> expr" where
  "XorExpr_createPartial l cr = XorExpr_createPartialR cr l"
definition XorExpr_create :: "expr \<Rightarrow> expr \<Rightarrow> expr" where
  "XorExpr_create l r = BinaryExpr Xor l r"
definition create_Xor :: "expr \<Rightarrow> expr \<Rightarrow> expr" where
  "create_Xor = BCREATE_R CE_Xor XorExpr_createPartial XorExpr_createPartialR XorExpr_create"

section \<open>Add and Sub\<close>

text \<open>
  The partial helpers call \<open>create\<close> with a constant left operand, which folds or calls a partial
  helper again: the recursion is on the right operand.
\<close>

function AddExpr_createPartialR :: "apint \<Rightarrow> expr \<Rightarrow> expr"
  and SubExpr_createPartialR :: "apint \<Rightarrow> expr \<Rightarrow> expr" where
  "AddExpr_createPartialR cl r =
     (if getBitWidth cl = 1 then XorExpr_createPartialR cl r
      else if CE_isZero cl then r
      else case const_left Add r of
          Some (k, x) \<Rightarrow>
            (case dyn_Constant x of
               Some d \<Rightarrow> ConstantExpr (CE_Add (CE_Add cl k) d)
             | None \<Rightarrow> AddExpr_createPartialR (CE_Add cl k) x)
        | None \<Rightarrow> (case const_left Sub r of
            Some (k, x) \<Rightarrow>
              (case dyn_Constant x of
                 Some d \<Rightarrow> ConstantExpr (CE_Sub (CE_Add cl k) d)
               | None \<Rightarrow> SubExpr_createPartialR (CE_Add cl k) x)
          | None \<Rightarrow> BinaryExpr Add (ConstantExpr cl) r))"
| "SubExpr_createPartialR cl r =
     (if getBitWidth cl = 1 then XorExpr_createPartialR cl r
      else case const_left Add r of
          Some (k, x) \<Rightarrow>
            (case dyn_Constant x of
               Some d \<Rightarrow> ConstantExpr (CE_Sub (CE_Sub cl k) d)
             | None \<Rightarrow> SubExpr_createPartialR (CE_Sub cl k) x)
        | None \<Rightarrow> (case const_left Sub r of
            Some (k, x) \<Rightarrow>
              (case dyn_Constant x of
                 Some d \<Rightarrow> ConstantExpr (CE_Add (CE_Sub cl k) d)
               | None \<Rightarrow> AddExpr_createPartialR (CE_Sub cl k) x)
          | None \<Rightarrow> BinaryExpr Sub (ConstantExpr cl) r))"
  by pat_completeness auto
termination
  by (relation "measure (\<lambda>x. case x of Inl (c, r) \<Rightarrow> size r | Inr (c, r) \<Rightarrow> size r)") auto

declare AddExpr_createPartialR.simps [simp del] SubExpr_createPartialR.simps [simp del]

definition AddExpr_createPartial :: "expr \<Rightarrow> apint \<Rightarrow> expr" where
  "AddExpr_createPartial l cr = AddExpr_createPartialR cr l"
definition SubExpr_createPartial :: "expr \<Rightarrow> apint \<Rightarrow> expr" where
  "SubExpr_createPartial l cr =
     AddExpr_createPartial l (CE_Sub (apint_of (getBitWidth cr) 0) cr)"

text \<open>\<open>AddExpr::create\<close> and \<open>SubExpr::create\<close> where one operand is the constant \<open>k\<close>.\<close>

definition create_Add_const :: "apint \<Rightarrow> expr \<Rightarrow> expr" where
  "create_Add_const k x =
     (case dyn_Constant x of Some d \<Rightarrow> ConstantExpr (CE_Add k d) | None \<Rightarrow> AddExpr_createPartialR k x)"
definition create_Sub_const :: "apint \<Rightarrow> expr \<Rightarrow> expr" where
  "create_Sub_const k x =
     (case dyn_Constant x of Some d \<Rightarrow> ConstantExpr (CE_Sub k d) | None \<Rightarrow> SubExpr_createPartialR k x)"
definition create_const_Sub :: "expr \<Rightarrow> apint \<Rightarrow> expr" where
  "create_const_Sub x k =
     (case dyn_Constant x of Some d \<Rightarrow> ConstantExpr (CE_Sub d k) | None \<Rightarrow> SubExpr_createPartial x k)"

function (sequential) create_Add :: "expr \<Rightarrow> expr \<Rightarrow> expr"
  and AddExpr_create :: "expr \<Rightarrow> expr \<Rightarrow> expr"
  and create_Sub :: "expr \<Rightarrow> expr \<Rightarrow> expr"
  and SubExpr_create :: "expr \<Rightarrow> expr \<Rightarrow> expr" where
  "create_Add l r =
     (case dyn_Constant l of
        Some cl \<Rightarrow> create_Add_const cl r
      | None \<Rightarrow> (case dyn_Constant r of
            Some cr \<Rightarrow> AddExpr_createPartial l cr
          | None \<Rightarrow> AddExpr_create l r))"
| "AddExpr_create l r =
     (if getWidth l = 1 then XorExpr_create l r
      else case const_left Add l of
          Some (k, a) \<Rightarrow> create_Add_const k (create_Add a r)
        | None \<Rightarrow> (case const_left Sub l of
            Some (k, a) \<Rightarrow> create_Add_const k (create_Sub r a)
          | None \<Rightarrow> (case const_left Add r of
              Some (k, b) \<Rightarrow> create_Add_const k (create_Add l b)
            | None \<Rightarrow> (case const_left Sub r of
                Some (k, b) \<Rightarrow> create_Add_const k (create_Sub l b)
              | None \<Rightarrow> BinaryExpr Add l r))))"
| "create_Sub l r =
     (case dyn_Constant l of
        Some cl \<Rightarrow> create_Sub_const cl r
      | None \<Rightarrow> (case dyn_Constant r of
            Some cr \<Rightarrow> SubExpr_createPartial l cr
          | None \<Rightarrow> SubExpr_create l r))"
| "SubExpr_create l r =
     (if getWidth l = 1 then XorExpr_create l r
      else if l = r then alloc_Const (getWidth l) 0
      else case const_left Add l of
          Some (k, a) \<Rightarrow> create_Add_const k (create_Sub a r)
        | None \<Rightarrow> (case const_left Sub l of
            Some (k, a) \<Rightarrow> create_Sub_const k (create_Add a r)
          | None \<Rightarrow> (case const_left Add r of
              Some (k, b) \<Rightarrow> create_const_Sub (create_Sub l b) k
            | None \<Rightarrow> (case const_left Sub r of
                Some (k, b) \<Rightarrow> create_const_Sub (create_Add l b) k
              | None \<Rightarrow> BinaryExpr Sub l r))))"
  by pat_completeness auto
termination
  by (relation "measure (\<lambda>x. case x of
        Inl (Inl (l, r)) \<Rightarrow> 2 * (size l + size r) + 1
      | Inl (Inr (l, r)) \<Rightarrow> 2 * (size l + size r)
      | Inr (Inl (l, r)) \<Rightarrow> 2 * (size l + size r) + 1
      | Inr (Inr (l, r)) \<Rightarrow> 2 * (size l + size r))") auto

declare create_Add.simps [simp del] AddExpr_create.simps [simp del]
  create_Sub.simps [simp del] SubExpr_create.simps [simp del]

section \<open>Multiplication, division and shifts\<close>

text \<open>On booleans multiplication is conjunction, and a divisor must be 1.\<close>

definition MulExpr_createPartialR :: "apint \<Rightarrow> expr \<Rightarrow> expr" where
  "MulExpr_createPartialR cl r =
     (if getBitWidth cl = 1 then AndExpr_createPartialR cl r
      else if CE_isOne cl then r
      else if CE_isZero cl then ConstantExpr cl
      else BinaryExpr Mul (ConstantExpr cl) r)"
definition MulExpr_createPartial :: "expr \<Rightarrow> apint \<Rightarrow> expr" where
  "MulExpr_createPartial l cr = MulExpr_createPartialR cr l"
definition MulExpr_create :: "expr \<Rightarrow> expr \<Rightarrow> expr" where
  "MulExpr_create l r = (if getWidth l = 1 then BinaryExpr And l r else BinaryExpr Mul l r)"
definition UDivExpr_create :: "expr \<Rightarrow> expr \<Rightarrow> expr" where
  "UDivExpr_create l r = (if getWidth l = 1 then l else BinaryExpr UDiv l r)"
definition SDivExpr_create :: "expr \<Rightarrow> expr \<Rightarrow> expr" where
  "SDivExpr_create l r = (if getWidth l = 1 then l else BinaryExpr SDiv l r)"
definition URemExpr_create :: "expr \<Rightarrow> expr \<Rightarrow> expr" where
  "URemExpr_create l r = (if getWidth l = 1 then alloc_Const 1 0 else BinaryExpr URem l r)"
definition SRemExpr_create :: "expr \<Rightarrow> expr \<Rightarrow> expr" where
  "SRemExpr_create l r = (if getWidth l = 1 then alloc_Const 1 0 else BinaryExpr SRem l r)"
definition ShlExpr_create :: "expr \<Rightarrow> expr \<Rightarrow> expr" where
  "ShlExpr_create l r =
     (if getWidth l = 1 then create_And l (createIsZero r) else BinaryExpr Shl l r)"
definition LShrExpr_create :: "expr \<Rightarrow> expr \<Rightarrow> expr" where
  "LShrExpr_create l r =
     (if getWidth l = 1 then create_And l (createIsZero r) else BinaryExpr LShr l r)"
definition AShrExpr_create :: "expr \<Rightarrow> expr \<Rightarrow> expr" where
  "AShrExpr_create l r = (if getWidth l = 1 then l else BinaryExpr AShr l r)"

definition create_Mul :: "expr \<Rightarrow> expr \<Rightarrow> expr" where
  "create_Mul = BCREATE_R CE_Mul MulExpr_createPartial MulExpr_createPartialR MulExpr_create"
definition create_UDiv :: "expr \<Rightarrow> expr \<Rightarrow> expr" where
  "create_UDiv = BCREATE CE_UDiv UDivExpr_create"
definition create_SDiv :: "expr \<Rightarrow> expr \<Rightarrow> expr" where
  "create_SDiv = BCREATE CE_SDiv SDivExpr_create"
definition create_URem :: "expr \<Rightarrow> expr \<Rightarrow> expr" where
  "create_URem = BCREATE CE_URem URemExpr_create"
definition create_SRem :: "expr \<Rightarrow> expr \<Rightarrow> expr" where
  "create_SRem = BCREATE CE_SRem SRemExpr_create"
definition create_Shl :: "expr \<Rightarrow> expr \<Rightarrow> expr" where
  "create_Shl = BCREATE CE_Shl ShlExpr_create"
definition create_LShr :: "expr \<Rightarrow> expr \<Rightarrow> expr" where
  "create_LShr = BCREATE CE_LShr LShrExpr_create"
definition create_AShr :: "expr \<Rightarrow> expr \<Rightarrow> expr" where
  "create_AShr = BCREATE CE_AShr AShrExpr_create"

section \<open>Orderings\<close>

definition UltExpr_create :: "expr \<Rightarrow> expr \<Rightarrow> expr" where
  "UltExpr_create l r =
     (if getWidth l = 1 then create_And (createIsZero l) r else BinaryExpr Ult l r)"
definition UleExpr_create :: "expr \<Rightarrow> expr \<Rightarrow> expr" where
  "UleExpr_create l r =
     (if getWidth l = 1 then create_Or (createIsZero l) r else BinaryExpr Ule l r)"
definition SltExpr_create :: "expr \<Rightarrow> expr \<Rightarrow> expr" where
  "SltExpr_create l r =
     (if getWidth l = 1 then create_And l (createIsZero r) else BinaryExpr Slt l r)"
definition SleExpr_create :: "expr \<Rightarrow> expr \<Rightarrow> expr" where
  "SleExpr_create l r =
     (if getWidth l = 1 then create_Or l (createIsZero r) else BinaryExpr Sle l r)"

definition create_Ult :: "expr \<Rightarrow> expr \<Rightarrow> expr" where
  "create_Ult = BCREATE CE_Ult UltExpr_create"
definition create_Ule :: "expr \<Rightarrow> expr \<Rightarrow> expr" where
  "create_Ule = BCREATE CE_Ule UleExpr_create"
definition create_Slt :: "expr \<Rightarrow> expr \<Rightarrow> expr" where
  "create_Slt = BCREATE CE_Slt SltExpr_create"
definition create_Sle :: "expr \<Rightarrow> expr \<Rightarrow> expr" where
  "create_Sle = BCREATE CE_Sle SleExpr_create"
definition create_Ugt :: "expr \<Rightarrow> expr \<Rightarrow> expr" where "create_Ugt l r = create_Ult r l"
definition create_Uge :: "expr \<Rightarrow> expr \<Rightarrow> expr" where "create_Uge l r = create_Ule r l"
definition create_Sgt :: "expr \<Rightarrow> expr \<Rightarrow> expr" where "create_Sgt l r = create_Slt r l"
definition create_Sge :: "expr \<Rightarrow> expr \<Rightarrow> expr" where "create_Sge l r = create_Sle r l"

section \<open>Select, extract, concat and casts\<close>

definition create_Select :: "expr \<Rightarrow> expr \<Rightarrow> expr \<Rightarrow> expr" where
  "create_Select c t f =
     (case dyn_Constant c of
        Some ce \<Rightarrow> if CE_isTrue ce then t else f
      | None \<Rightarrow>
          if t = f then t
          else if getWidth t = 1 then
            (case dyn_Constant t of
               Some ct \<Rightarrow> if CE_isTrue ct then create_Or c f else create_And (createIsZero c) f
             | None \<Rightarrow> (case dyn_Constant f of
                 Some cf \<Rightarrow> if CE_isTrue cf then create_Or (createIsZero c) t else create_And c t
               | None \<Rightarrow> SelectExpr c t f))
          else SelectExpr c t f)"

definition dyn_Extract :: "expr \<Rightarrow> (expr \<times> nat \<times> nat) option" where
  "dyn_Extract e = (case e of ExtractExpr x off w \<Rightarrow> Some (x, off, w) | _ \<Rightarrow> None)"

text \<open>
  The two extracts of one expression that \<open>ConcatExpr::create\<close> merges: the left starts where the
  right ends. The result is the expression and the offset of the merged extract.
\<close>

definition contiguous :: "expr \<Rightarrow> expr \<Rightarrow> (expr \<times> nat) option" where
  "contiguous l r =
     (case (dyn_Extract l, dyn_Extract r) of
        (Some (el, ol, wl), Some (er, offr, wr)) \<Rightarrow>
          if el = er \<and> offr + wr = ol then Some (el, offr) else None
      | _ \<Rightarrow> None)"

text \<open>\<open>ExtractExpr::create\<close>; the call of \<open>ConcatExpr::create\<close> in its last case is written out.\<close>

function create_Extract :: "expr \<Rightarrow> nat \<Rightarrow> nat \<Rightarrow> expr" where
  "create_Extract e off w =
     (if w = getWidth e then e
      else case e of
        ConstantExpr c \<Rightarrow> ConstantExpr (CE_Extract c off w)
      | ConcatExpr l r \<Rightarrow>
          if getWidth r \<le> off then create_Extract l (off - getWidth r) w
          else if off + w \<le> getWidth r then create_Extract r off w
          else (let L = create_Extract l 0 (w + off - getWidth r);
                    R = create_Extract r off (getWidth r - off)
                in case fold_constants CE_Concat L R of
                     Some c \<Rightarrow> ConstantExpr c
                   | None \<Rightarrow> (case contiguous L R of
                       Some (x, o2) \<Rightarrow> create_Extract x o2 (getWidth L + getWidth R)
                     | None \<Rightarrow> ConcatExpr L R))
      | _ \<Rightarrow> ExtractExpr e off w)"
  by pat_completeness auto

text \<open>
  The nested call stops because the expression below a resulting extract is no larger than the
  argument.
\<close>

definition extracted_size :: "expr \<Rightarrow> nat" where
  "extracted_size e = (case dyn_Extract e of Some (x, _, _) \<Rightarrow> size x | None \<Rightarrow> 0)"

lemma dyn_Extract_Some [simp]: "dyn_Extract e = Some (x, off, w) \<longleftrightarrow> e = ExtractExpr x off w"
  by (auto simp: dyn_Extract_def split: expr.splits)

lemma dyn_Extract_ExtractExpr [simp]: "dyn_Extract (ExtractExpr x off w) = Some (x, off, w)"
  by (simp add: dyn_Extract_def)

lemma contiguous_Some:
  "contiguous l r = Some (x, off) \<longleftrightarrow>
     (\<exists>wl wr. l = ExtractExpr x (off + wr) wl \<and> r = ExtractExpr x off wr)"
  by (auto simp: contiguous_def split: option.splits if_splits)

lemma extracted_size_le: "extracted_size e \<le> size e"
  by (auto simp: extracted_size_def dyn_Extract_def split: expr.splits)

lemma extracted_size_ExtractExpr [simp]: "extracted_size (ExtractExpr x off w) = size x"
  by (simp add: extracted_size_def)

lemma create_Extract_size:
  "create_Extract_dom (e, off, w) \<Longrightarrow> extracted_size (create_Extract e off w) \<le> size e"
proof (induction rule: create_Extract.pinduct)
  case (1 e off w)
  note unfold = create_Extract.psimps[OF 1(1)]
  show ?case
  proof (cases "w = getWidth e")
    case False
    show ?thesis
    proof (cases e)
      case (ConcatExpr l r)
      note IH = 1(2-6)[OF False ConcatExpr] and unf = unfold[unfolded ConcatExpr]
      define L where "L = create_Extract l 0 (w + off - getWidth r)"
      define R where "R = create_Extract r off (getWidth r - off)"
      consider "getWidth r \<le> off" | "\<not> getWidth r \<le> off" "off + w \<le> getWidth r"
        | (both) "\<not> getWidth r \<le> off" "\<not> off + w \<le> getWidth r"
        by blast
      then show ?thesis
      proof cases
        case both
        have L: "extracted_size L \<le> size l"
          using IH(3)[OF both] by (simp add: L_def)
        show ?thesis
        proof (cases "fold_constants CE_Concat L R")
          case None
          show ?thesis
          proof (cases "contiguous L R")
            case (Some p)
            obtain x o2 where p: "p = (x, o2)" by (cases p)
            have "extracted_size (create_Extract x o2 (getWidth L + getWidth R)) \<le> size x"
              using IH(5)[OF both L_def R_def None Some] p by auto
            moreover have "size x \<le> size l"
              using Some p L by (auto simp: contiguous_Some)
            ultimately show ?thesis
              using False ConcatExpr both None Some p
              by (simp add: unf Let_def flip: L_def R_def)
          qed (use False ConcatExpr both None in
                \<open>simp add: unf Let_def extracted_size_def dyn_Extract_def flip: L_def R_def\<close>)
        qed (use False ConcatExpr both in
              \<open>simp add: unf Let_def extracted_size_def dyn_Extract_def flip: L_def R_def\<close>)
      qed (use False ConcatExpr IH(1,2) in \<open>simp_all add: unf le_SucI trans_le_add1 trans_le_add2\<close>)
    qed (subst unfold, use False in \<open>simp add: extracted_size_def dyn_Extract_def\<close>)+
  qed (subst unfold, simp add: extracted_size_le)
qed

termination create_Extract
proof (relation "measure (\<lambda>(e, off, w). size e)", goal_cases)
  case (6 e off w l r L R x2 x o2)
  then show ?case
    using create_Extract_size[of l 0 "w + off - getWidth r"] by (auto simp: contiguous_Some)
qed auto

declare create_Extract.simps [simp del]

text \<open>\<open>ConcatExpr::create\<close> and its shortcuts; the chain of \<open>createN\<close> leans to the right.\<close>

definition create_Concat :: "expr \<Rightarrow> expr \<Rightarrow> expr" where
  "create_Concat l r =
     (case fold_constants CE_Concat l r of
        Some c \<Rightarrow> ConstantExpr c
      | None \<Rightarrow> (case contiguous l r of
          Some (x, off) \<Rightarrow> create_Extract x off (getWidth l + getWidth r)
        | None \<Rightarrow> ConcatExpr l r))"

text \<open>\<open>createN\<close> asserts that it has a child.\<close>

fun create_ConcatN :: "expr list \<Rightarrow> expr option" where
  "create_ConcatN [] = None"
| "create_ConcatN [k] = Some k"
| "create_ConcatN (k # ks) = map_option (create_Concat k) (create_ConcatN ks)"

definition create_Concat4 :: "expr \<Rightarrow> expr \<Rightarrow> expr \<Rightarrow> expr \<Rightarrow> expr" where
  "create_Concat4 k1 k2 k3 k4 = create_Concat k1 (create_Concat k2 (create_Concat k3 k4))"
definition create_Concat8 ::
    "expr \<Rightarrow> expr \<Rightarrow> expr \<Rightarrow> expr \<Rightarrow> expr \<Rightarrow> expr \<Rightarrow> expr \<Rightarrow> expr \<Rightarrow> expr" where
  "create_Concat8 k1 k2 k3 k4 k5 k6 k7 k8 =
     create_Concat k1 (create_Concat k2 (create_Concat k3
       (create_Concat k4 (create_Concat4 k5 k6 k7 k8))))"

definition create_ZExt :: "expr \<Rightarrow> nat \<Rightarrow> expr" where
  "create_ZExt e w =
     (if w = getWidth e then e
      else if w < getWidth e then create_Extract e 0 w
      else case dyn_Constant e of Some c \<Rightarrow> ConstantExpr (CE_ZExt c w) | None \<Rightarrow> ZExtExpr e w)"
definition create_SExt :: "expr \<Rightarrow> nat \<Rightarrow> expr" where
  "create_SExt e w =
     (if w = getWidth e then e
      else if w < getWidth e then create_Extract e 0 w
      else case dyn_Constant e of Some c \<Rightarrow> ConstantExpr (CE_SExt c w) | None \<Rightarrow> SExtExpr e w)"

section \<open>Reads\<close>

text \<open>
  The scan of \<open>ReadExpr::create\<close> over the update list: the value of the first update whose index
  is known to be equal, and whether it stopped at an update whose index may or may not be equal.
\<close>

fun read_scan :: "expr \<Rightarrow> updates \<Rightarrow> expr option \<times> bool" where
  "read_scan index NoUpdate = (None, False)"
| "read_scan index (UpdateNode x v next) =
     (case dyn_Constant (create_Eq index x) of
        Some c \<Rightarrow> if CE_isTrue c then (Some v, False) else read_scan index next
      | None \<Rightarrow> (None, True))"

text \<open>
  \<open>ReadExpr::create\<close>; a constant index of more than 64 bits into a constant array fails its
  assertion (\<open>None\<close>), unless the scan of the updates has already found the value or stopped.
\<close>

definition create_Read :: "array \<Rightarrow> updates \<Rightarrow> expr \<Rightarrow> expr option" where
  "create_Read a us index =
     (let (hit, updateListHasSymbolicWrites) = read_scan index us
      in case hit of
           Some v \<Rightarrow> Some v
         | None \<Rightarrow>
             if isConstantArray a \<and> \<not> updateListHasSymbolicWrites then
               (case dyn_Constant index of
                  Some c \<Rightarrow>
                    if \<not> getBitWidth c \<le> 64 then None
                    else if rawval c < int (arr_size a)
                    then Some (ConstantExpr (APInt (range_w a) (constantValues a ! nat (rawval c))))
                    else Some (ReadExpr a us index)
                | None \<Rightarrow> Some (ReadExpr a us index))
             else Some (ReadExpr a us index))"

text \<open>
  The read its callers build. Their indices have the width of the array's domain, 32 bits in the
  system, so that the assertion holds (\<open>create_Read_defined\<close>); the read itself stands for the failure.
\<close>

definition create_Read_value :: "array \<Rightarrow> updates \<Rightarrow> expr \<Rightarrow> expr" where
  "create_Read_value a us index = (case create_Read a us index of Some e \<Rightarrow> e | None \<Rightarrow> ReadExpr a us index)"

lemma create_Read_defined:
  "getWidth index \<le> 64 \<Longrightarrow> create_Read a us index = Some (create_Read_value a us index)"
  by (auto simp: create_Read_value_def create_Read_def split: prod.split option.split)

text \<open>\<open>Expr::createTempRead\<close>: a little endian read at offset 0; other widths fail an assertion.\<close>

definition read_at :: "array \<Rightarrow> int \<Rightarrow> expr" where
  "read_at a i = create_Read_value a NoUpdate (alloc_Const 32 i)"

definition createTempRead :: "array \<Rightarrow> nat \<Rightarrow> expr option" where
  "createTempRead a w =
     (if w = 1 then Some (create_ZExt (read_at a 0) 1)
      else if w = 8 then Some (read_at a 0)
      else if w = 16 then Some (create_Concat (read_at a 1) (read_at a 0))
      else if w = 32 then
        Some (create_Concat4 (read_at a 3) (read_at a 2) (read_at a 1) (read_at a 0))
      else if w = 64 then
        Some (create_Concat8 (read_at a 7) (read_at a 6) (read_at a 5) (read_at a 4)
                             (read_at a 3) (read_at a 2) (read_at a 1) (read_at a 0))
      else None)"

section \<open>Construction from a kind\<close>

fun create_Binary :: "bkind \<Rightarrow> expr \<Rightarrow> expr \<Rightarrow> expr" where
  "create_Binary Add l r = create_Add l r"
| "create_Binary Sub l r = create_Sub l r"
| "create_Binary Mul l r = create_Mul l r"
| "create_Binary UDiv l r = create_UDiv l r"
| "create_Binary SDiv l r = create_SDiv l r"
| "create_Binary URem l r = create_URem l r"
| "create_Binary SRem l r = create_SRem l r"
| "create_Binary And l r = create_And l r"
| "create_Binary Or l r = create_Or l r"
| "create_Binary Xor l r = create_Xor l r"
| "create_Binary Shl l r = create_Shl l r"
| "create_Binary LShr l r = create_LShr l r"
| "create_Binary AShr l r = create_AShr l r"
| "create_Binary Eq l r = create_Eq l r"
| "create_Binary Ne l r = create_Ne l r"
| "create_Binary Ult l r = create_Ult l r"
| "create_Binary Ule l r = create_Ule l r"
| "create_Binary Ugt l r = create_Ugt l r"
| "create_Binary Uge l r = create_Uge l r"
| "create_Binary Slt l r = create_Slt l r"
| "create_Binary Sle l r = create_Sle l r"
| "create_Binary Sgt l r = create_Sgt l r"
| "create_Binary Sge l r = create_Sge l r"

text \<open>
  \<open>Expr::createFromKind\<close>: the arguments are expressions or widths; a wrong kind, number or sort
  of arguments fails an assertion, \<open>None\<close> here.
\<close>

datatype create_arg = ArgExpr expr | ArgWidth nat

fun createFromKind :: "Kind \<Rightarrow> create_arg list \<Rightarrow> expr option" where
  "createFromKind KNotOptimized [ArgExpr e] = Some (create_NotOptimized e)"
| "createFromKind KSelect [ArgExpr c, ArgExpr t, ArgExpr f] = Some (create_Select c t f)"
| "createFromKind KConcat [ArgExpr l, ArgExpr r] = Some (create_Concat l r)"
| "createFromKind KZExt [ArgExpr e, ArgWidth w] = Some (create_ZExt e w)"
| "createFromKind KSExt [ArgExpr e, ArgWidth w] = Some (create_SExt e w)"
| "createFromKind (KBinary k) [ArgExpr l, ArgExpr r] = Some (create_Binary k l r)"
| "createFromKind _ _ = None"

end
