(* ===== verification/ExprCreateCorrect.thy ===== *)
theory ExprCreateCorrect
  imports ExprCreate
begin

text \<open>
  Every smart constructor returns a well-typed expression of the same width and the same value,
  under every environment, as the plain constructor it replaces.
\<close>

section \<open>Simplification\<close>

definition simplifies :: "expr \<Rightarrow> expr \<Rightarrow> bool" where
  "simplifies e' e \<longleftrightarrow>
     (wt e \<longrightarrow> wt e' \<and> getWidth e' = getWidth e \<and> (\<forall>\<rho>. eval \<rho> e' = eval \<rho> e))"

lemma simplifies_refl [simp, intro]: "simplifies e e"
  by (simp add: simplifies_def)

lemma simplifies_trans: "simplifies a b \<Longrightarrow> simplifies b c \<Longrightarrow> simplifies a c"
  by (auto simp: simplifies_def)

lemma simplifiesI:
  "(wt e \<Longrightarrow> wt e') \<Longrightarrow> (wt e \<Longrightarrow> getWidth e' = getWidth e) \<Longrightarrow>
   (\<And>\<rho>. wt e \<Longrightarrow> eval \<rho> e' = eval \<rho> e) \<Longrightarrow> simplifies e' e"
  by (simp add: simplifies_def)

lemma simplifiesD:
  assumes "simplifies e' e" "wt e"
  shows "wt e'" "getWidth e' = getWidth e" "eval \<rho> e' = eval \<rho> e"
  using assms by (simp_all add: simplifies_def)

text \<open>Simplifying the operands simplifies the whole.\<close>

lemma simplifies_Binary:
  "simplifies l' l \<Longrightarrow> simplifies r' r \<Longrightarrow>
   simplifies (BinaryExpr k l' r') (BinaryExpr k l r)"
  by (simp add: simplifies_def)

text \<open>A binary expression of constants folds to the constant that the matching operation computes.\<close>

fun const_op :: "bkind \<Rightarrow> apint \<Rightarrow> apint \<Rightarrow> apint" where
  "const_op Add = CE_Add" | "const_op Sub = CE_Sub" | "const_op Mul = CE_Mul"
| "const_op UDiv = CE_UDiv" | "const_op SDiv = CE_SDiv" | "const_op URem = CE_URem"
| "const_op SRem = CE_SRem" | "const_op And = CE_And" | "const_op Or = CE_Or"
| "const_op Xor = CE_Xor" | "const_op Shl = CE_Shl" | "const_op LShr = CE_LShr"
| "const_op AShr = CE_AShr" | "const_op Eq = CE_Eq" | "const_op Ne = CE_Ne"
| "const_op Ult = CE_Ult" | "const_op Ule = CE_Ule" | "const_op Ugt = CE_Ugt"
| "const_op Uge = CE_Uge" | "const_op Slt = CE_Slt" | "const_op Sle = CE_Sle"
| "const_op Sgt = CE_Sgt" | "const_op Sge = CE_Sge"

lemma const_op_eq:
  "const_op k c d = APInt (if isCmpKind k then 1 else getBitWidth c)
     (bop k (getBitWidth c) (rawval c) (rawval d))"
  by (cases k) (simp_all add: CE_arith_defs CE_cmp_defs)

lemma simplifies_const_op:
  "simplifies (ConstantExpr (const_op k c d)) (BinaryExpr k (ConstantExpr c) (ConstantExpr d))"
  using fits_bop[of "getBitWidth c" "rawval c" "rawval d" k]
  by (auto simp: simplifies_def const_op_eq)

lemmas fold_Add = simplifies_const_op[of Add, simplified]
lemmas fold_Sub = simplifies_const_op[of Sub, simplified]
lemmas fold_Eq = simplifies_const_op[of Eq, simplified]

text \<open>The macros: if the helpers simplify, so does the constructor.\<close>

lemma simplifies_BCREATE_R:
  assumes "\<And>c x. simplifies (pl x c) (BinaryExpr k x (ConstantExpr c))"
    and "\<And>c x. simplifies (pr c x) (BinaryExpr k (ConstantExpr c) x)"
    and "\<And>l r. simplifies (cr l r) (BinaryExpr k l r)"
  shows "simplifies (BCREATE_R (const_op k) pl pr cr l r) (BinaryExpr k l r)"
  using assms simplifies_const_op by (auto simp: BCREATE_R_def split: option.splits)

lemma simplifies_BCREATE:
  assumes "simplifies (cr l r) (BinaryExpr k l r)"
  shows "simplifies (BCREATE (const_op k) cr l r) (BinaryExpr k l r)"
  using assms simplifies_const_op
  by (auto simp: BCREATE_def fold_constants_def split: option.splits)

section \<open>And, Or, Not\<close>

lemma and_mask: "fits w a \<Longrightarrow> a AND mask w = a"
  by (metis fits_iff_take_bit take_bit_eq_mask)

lemma or_mask: "fits w a \<Longrightarrow> a OR mask w = (mask w :: int)"
proof -
  assume "fits w a"
  then have "bit a n \<Longrightarrow> n < w" for n
    by (metis bit_take_bit_iff fits_iff_take_bit)
  then show ?thesis
    by (auto simp: bit_eq_iff bit_or_iff bit_mask_iff)
qed

lemma simplifies_AndPartial:
  "simplifies (AndExpr_createPartial x c) (BinaryExpr And x (ConstantExpr c))"
  by (auto simp: simplifies_def AndExpr_createPartial_def CE_isAllOnes_def CE_isZero_def bv_defs
      and_mask)

lemma simplifies_And_commute: "simplifies (BinaryExpr And r l) (BinaryExpr And l r)"
  by (auto simp: simplifies_def bv_defs ac_simps)

lemma simplifies_Or_commute: "simplifies (BinaryExpr Or r l) (BinaryExpr Or l r)"
  by (auto simp: simplifies_def bv_defs ac_simps)

lemma simplifies_OrPartial:
  "simplifies (OrExpr_createPartial x c) (BinaryExpr Or x (ConstantExpr c))"
  by (auto simp: simplifies_def OrExpr_createPartial_def CE_isAllOnes_def CE_isZero_def bv_defs
      or_mask)

lemma simplifies_create_And: "simplifies (create_And l r) (BinaryExpr And l r)"
  unfolding create_And_def
  by (rule simplifies_BCREATE_R[of _ And, simplified])
    (auto simp: AndExpr_createPartialR_def AndExpr_create_def simplifies_AndPartial
      intro: simplifies_trans[OF simplifies_AndPartial simplifies_And_commute])

lemma simplifies_create_Or: "simplifies (create_Or l r) (BinaryExpr Or l r)"
  unfolding create_Or_def
  by (rule simplifies_BCREATE_R[of _ Or, simplified])
    (auto simp: OrExpr_createPartialR_def OrExpr_create_def simplifies_OrPartial
      intro: simplifies_trans[OF simplifies_OrPartial simplifies_Or_commute])

lemma simplifies_create_Not: "simplifies (create_Not e) (NotExpr e)"
  by (auto simp: simplifies_def create_Not_def CE_Not_def split: option.splits)

section \<open>Eq\<close>

lemma simplifies_EqExpr_create: "simplifies (EqExpr_create l r) (BinaryExpr Eq l r)"
  by (auto simp: simplifies_def EqExpr_create_def alloc_Const_def apint_of_def)

lemma simplifies_Eq_const:
  "simplifies rest (BinaryExpr Eq x (ConstantExpr c)) \<Longrightarrow>
   simplifies (Eq_const x c rest) (BinaryExpr Eq x (ConstantExpr c))"
  using fold_Eq by (auto simp: Eq_const_def split: option.splits)

lemma simplifies_Eq_commute: "simplifies (BinaryExpr Eq r l) (BinaryExpr Eq l r)"
  by (auto simp: simplifies_def)

text \<open>Truncating and extending a value: when it is the original, and what a mismatch means.\<close>

lemma take_bit_sx:
  assumes "0 < u" "u \<le> w"
  shows "take_bit u (take_bit w (sx u a)) = take_bit u a"
proof -
  have "take_bit u (take_bit w (sx u a)) = take_bit u (sx u a)"
    using assms by (simp add: min_def)
  then show ?thesis
    using assms by (simp add: sx_def take_bit_signed_take_bit)
qed

lemma sext_eq:
  assumes "fits u a" "0 < u" "u \<le> w"
  shows "take_bit w (sx u a) = c \<longleftrightarrow> c = take_bit w (sx u (take_bit u c)) \<and> a = take_bit u c"
  using assms take_bit_sx[of u w a] by (auto simp: take_bit_fits)

lemma zext_eq:
  assumes "fits u a" "u \<le> w"
  shows "take_bit w a = c \<longleftrightarrow> c = take_bit w (take_bit u c) \<and> a = take_bit u c"
  using assms fits_mono[OF assms] by (auto simp: take_bit_fits)

text \<open>Constants move across an equality of sums.\<close>

lemma add_eq_sub_iff:
  fixes a b c :: int
  assumes "fits w a" "fits w b" "fits w c"
  shows "c = take_bit w (a + b) \<longleftrightarrow> take_bit w (c - a) = b"
    and "c = take_bit w (a - b) \<longleftrightarrow> take_bit w (a - c) = b"
proof -
  have tb: "x = y" if "take_bit w x = take_bit w y" "fits w x" "fits w y" for x y :: int
    using that by (simp add: take_bit_fits)
  have "take_bit w (take_bit w (a + b) - a) = b" "take_bit w (a - take_bit w (a - b)) = b"
    using assms by (simp_all add: take_bit_fits)
  moreover have "take_bit w (a + take_bit w (c - a)) = c" "take_bit w (a - take_bit w (a - c)) = c"
    using assms by (simp_all add: take_bit_fits)
  ultimately show "c = take_bit w (a + b) \<longleftrightarrow> take_bit w (c - a) = b"
    and "c = take_bit w (a - b) \<longleftrightarrow> take_bit w (a - c) = b"
    by auto
qed

text \<open>One lemma per rewrite rule of \<open>EqExpr_createPartialR\<close>.\<close>

abbreviation EqC :: "apint \<Rightarrow> expr \<Rightarrow> expr" where
  "EqC c e \<equiv> BinaryExpr Eq (ConstantExpr c) e"

lemma EqR_true: "CE_isTrue cl \<Longrightarrow> simplifies r (EqC cl r)"
  by (rule simplifiesI) (use eval_Bool[of r] in \<open>auto simp: CE_isTrue_def fits_Bool_cases\<close>)

lemma EqR_double_neg:
  "getBitWidth cl = 1 \<Longrightarrow> \<not> CE_isTrue cl \<Longrightarrow> getBitWidth c = 1 \<Longrightarrow> CE_isFalse c \<Longrightarrow>
   simplifies b (EqC cl (EqC c b))"
  by (rule simplifiesI) (use eval_Bool[of b] in \<open>auto simp: CE_isTrue_def CE_isFalse_def\<close>)

lemma EqR_Or:
  assumes "getBitWidth cl = 1" "\<not> CE_isTrue cl"
  shows "simplifies (BinaryExpr And (BinaryExpr Eq a (ConstantExpr (apint_of (getWidth a) 0)))
                                    (BinaryExpr Eq b (ConstantExpr (apint_of (getWidth b) 0))))
                    (EqC cl (BinaryExpr Or a b))"
  by (rule simplifiesI)
    (use assms wt_width_pos in \<open>auto simp: CE_isTrue_def apint_of_def bv_defs or_eq_0_iff\<close>)

lemma apint_eq_iff: "c = APInt w v \<longleftrightarrow> getBitWidth c = w \<and> rawval c = v"
  by (cases c) auto

lemma value_SExt_eq:
  assumes "wt (EqC cl (SExtExpr src w))"
  shows "rawval cl = eval \<rho> (SExtExpr src w) \<longleftrightarrow>
    cl = CE_SExt (CE_ZExt cl (getWidth src)) (getBitWidth cl) \<and>
    eval \<rho> src = rawval (CE_ZExt cl (getWidth src))"
  using assms sext_eq[of "getWidth src" "eval \<rho> src" w "rawval cl"] wt_width_pos[of src]
  by (auto simp: CE_SExt_def CE_ZExt_def apint_eq_iff)

lemma value_ZExt_eq:
  assumes "wt (EqC cl (ZExtExpr src w))"
  shows "rawval cl = eval \<rho> (ZExtExpr src w) \<longleftrightarrow>
    cl = CE_ZExt (CE_ZExt cl (getWidth src)) (getBitWidth cl) \<and>
    eval \<rho> src = rawval (CE_ZExt cl (getWidth src))"
  using assms zext_eq[of "getWidth src" "eval \<rho> src" w "rawval cl"]
  by (auto simp: CE_ZExt_def apint_eq_iff)

lemma wt_CE_ZExt: "getBitWidth (CE_ZExt c w) = w" "fits w (rawval (CE_ZExt c w))"
  by (simp_all add: CE_ZExt_def)

lemma EqR_SExt:
  assumes "cl = CE_SExt (CE_ZExt cl (getWidth src)) (getBitWidth cl)"
  shows "simplifies (BinaryExpr Eq src (ConstantExpr (CE_ZExt cl (getWidth src))))
                    (EqC cl (SExtExpr src w))"
  by (rule simplifiesI)
    (use assms wt_width_pos[of src] value_SExt_eq in \<open>auto simp: wt_CE_ZExt simp del: eval.simps(8)\<close>)

lemma EqR_SExt_no:
  assumes "cl \<noteq> CE_SExt (CE_ZExt cl (getWidth src)) (getBitWidth cl)"
  shows "simplifies (alloc_Const 1 0) (EqC cl (SExtExpr src w))"
  by (rule simplifiesI)
    (use assms value_SExt_eq in \<open>auto simp: alloc_Const_def apint_of_def simp del: eval.simps(8)\<close>)

lemma EqR_ZExt:
  assumes "cl = CE_ZExt (CE_ZExt cl (getWidth src)) (getBitWidth cl)"
  shows "simplifies (BinaryExpr Eq src (ConstantExpr (CE_ZExt cl (getWidth src))))
                    (EqC cl (ZExtExpr src w))"
  by (rule simplifiesI)
    (use assms wt_width_pos[of src] value_ZExt_eq in \<open>auto simp: wt_CE_ZExt simp del: eval.simps(7)\<close>)

lemma EqR_ZExt_no:
  assumes "cl \<noteq> CE_ZExt (CE_ZExt cl (getWidth src)) (getBitWidth cl)"
  shows "simplifies (alloc_Const 1 0) (EqC cl (ZExtExpr src w))"
  by (rule simplifiesI)
    (use assms value_ZExt_eq in \<open>auto simp: alloc_Const_def apint_of_def simp del: eval.simps(7)\<close>)

lemma EqR_Add: "simplifies (EqC (CE_Sub cl k) b) (EqC cl (BinaryExpr Add (ConstantExpr k) b))"
  by (rule simplifiesI) (auto simp: CE_arith_defs bv_defs add_eq_sub_iff)

lemma EqR_Sub: "simplifies (EqC (CE_Sub k cl) b) (EqC cl (BinaryExpr Sub (ConstantExpr k) b))"
  by (rule simplifiesI) (auto simp: CE_arith_defs bv_defs add_eq_sub_iff)

lemma simplifies_EqPartialR: "simplifies (EqExpr_createPartialR cl r) (EqC cl r)"
proof (induction r arbitrary: cl rule: measure_induct_rule[of size])
  case (less r)
  note unf = EqExpr_createPartialR.simps[of cl r] and ih = less.IH
  note default = simplifies_EqExpr_create[of "ConstantExpr cl" r]
  have const: "simplifies (Eq_const x c (EqExpr_createPartialR c x)) (BinaryExpr Eq x (ConstantExpr c))"
    if "size x < size r" for x c
    using ih[OF that] by (intro simplifies_Eq_const) (rule simplifies_trans[OF _ simplifies_Eq_commute])
  show ?case
  proof (cases "getBitWidth cl = 1")
    case True
    show ?thesis
    proof (cases "CE_isTrue cl")
      case False
      show ?thesis
      proof (cases "const_left Eq r")
        case None
        show ?thesis
        proof (cases "dyn_Binary Or r")
          case (Some p)
          then obtain a b where r: "r = BinaryExpr Or a b" by (cases p) auto
          let ?n = "\<lambda>x. apint_of (getWidth x) 0"
          let ?z = "\<lambda>x. Eq_const x (?n x) (EqExpr_createPartialR (?n x) x)"
          have "simplifies (create_And (?z a) (?z b))
              (BinaryExpr And (BinaryExpr Eq a (ConstantExpr (?n a)))
                              (BinaryExpr Eq b (ConstantExpr (?n b))))"
            by (rule simplifies_trans[OF simplifies_create_And simplifies_Binary])
              (simp_all add: const r)
          then show ?thesis
            unfolding unf using True False r EqR_Or[OF True False]
            by (auto simp: Let_def intro: simplifies_trans)
        qed (use True False None default in \<open>simp add: unf\<close>)
      next
        case (Some p)
        then obtain c b where r: "r = EqC c b" by (cases p) auto
        then show ?thesis
          unfolding unf using True False default EqR_double_neg[OF True False] by simp
      qed
    qed (use True EqR_true in \<open>simp add: unf\<close>)
  next
    case False
    show ?thesis
    proof (cases r)
      case (SExtExpr src w)
      with const[of src] simplifies_trans[OF _ EqR_SExt]
      have "cl = CE_SExt (CE_ZExt cl (getWidth src)) (getBitWidth cl) \<Longrightarrow>
          simplifies (Eq_const src (CE_ZExt cl (getWidth src))
            (EqExpr_createPartialR (CE_ZExt cl (getWidth src)) src)) (EqC cl (SExtExpr src w))"
        by simp
      with SExtExpr show ?thesis
        unfolding unf using False EqR_SExt_no by (simp add: Let_def)
    next
      case (ZExtExpr src w)
      with const[of src] simplifies_trans[OF _ EqR_ZExt]
      have "cl = CE_ZExt (CE_ZExt cl (getWidth src)) (getBitWidth cl) \<Longrightarrow>
          simplifies (Eq_const src (CE_ZExt cl (getWidth src))
            (EqExpr_createPartialR (CE_ZExt cl (getWidth src)) src)) (EqC cl (ZExtExpr src w))"
        by simp
      with ZExtExpr show ?thesis
        unfolding unf using False EqR_ZExt_no by (simp add: Let_def)
    next
      case (BinaryExpr k a b)
      with ih[of b] have "simplifies (EqExpr_createPartialR c b) (EqC c b)" for c by simp
      with BinaryExpr show ?thesis
        unfolding unf using False default simplifies_trans[OF _ EqR_Add] simplifies_trans[OF _ EqR_Sub]
        by (auto simp: Let_def split: option.splits)
    qed (unfold unf, use False default in \<open>simp_all add: ConstArrayOpt_def\<close>)
  qed
qed

lemma simplifies_EqPartial: "simplifies (EqExpr_createPartial l c) (BinaryExpr Eq l (ConstantExpr c))"
  unfolding EqExpr_createPartial_def
  using simplifies_EqPartialR simplifies_Eq_commute by (rule simplifies_trans)

lemma simplifies_create_Eq: "simplifies (create_Eq l r) (BinaryExpr Eq l r)"
  unfolding create_Eq_def
  by (rule simplifies_BCREATE_R[of _ Eq, simplified])
    (simp_all add: simplifies_EqPartial simplifies_EqPartialR simplifies_EqExpr_create)

lemma simplifies_createIsZero:
  "simplifies (createIsZero e) (BinaryExpr Eq e (alloc_Const (getWidth e) 0))"
  unfolding createIsZero_def by (rule simplifies_create_Eq)

lemma simplifies_create_Ne: "simplifies (create_Ne l r) (BinaryExpr Ne l r)"
proof -
  have "simplifies (create_Ne l r) (BinaryExpr Eq (alloc_Const 1 0) (BinaryExpr Eq l r))"
    unfolding create_Ne_def
    by (rule simplifies_trans[OF simplifies_create_Eq simplifies_Binary])
      (simp_all add: simplifies_create_Eq)
  moreover have "simplifies (BinaryExpr Eq (alloc_Const 1 0) (BinaryExpr Eq l r)) (BinaryExpr Ne l r)"
    by (auto simp: simplifies_def alloc_Const_def apint_of_def)
  ultimately show ?thesis
    by (rule simplifies_trans)
qed

section \<open>Xor, Add and Sub\<close>

lemma simplifies_XorPartialR:
  "simplifies (XorExpr_createPartialR c r) (BinaryExpr Xor (ConstantExpr c) r)"
proof -
  have "simplifies (BinaryExpr Eq r (ConstantExpr (apint_of 1 0))) (BinaryExpr Xor (ConstantExpr c) r)"
    if w: "getBitWidth c = 1" and c: "\<not> CE_isZero c"
  proof (rule simplifiesI)
    fix \<rho>
    assume "wt (BinaryExpr Xor (ConstantExpr c) r)"
    then show "eval \<rho> (BinaryExpr Eq r (ConstantExpr (apint_of 1 0))) =
               eval \<rho> (BinaryExpr Xor (ConstantExpr c) r)"
      using w c eval_Bool[of r \<rho>]
      by (auto simp: apint_of_def CE_isZero_def bv_defs fits_Bool_cases)
  qed (use w in \<open>auto simp: apint_of_def\<close>)
  moreover have "simplifies r (BinaryExpr Xor (ConstantExpr c) r)" if "CE_isZero c"
    using that by (auto simp: simplifies_def CE_isZero_def bv_defs)
  ultimately show ?thesis
    by (auto simp: XorExpr_createPartialR_def intro: simplifies_trans[OF simplifies_EqPartial])
qed

lemma simplifies_Xor_commute: "simplifies (BinaryExpr Xor r l) (BinaryExpr Xor l r)"
  by (auto simp: simplifies_def bv_defs ac_simps)

lemma simplifies_create_Xor: "simplifies (create_Xor l r) (BinaryExpr Xor l r)"
  unfolding create_Xor_def
  by (rule simplifies_BCREATE_R[of _ Xor, simplified])
    (auto simp: XorExpr_createPartial_def XorExpr_create_def simplifies_XorPartialR
      intro: simplifies_trans[OF simplifies_XorPartialR simplifies_Xor_commute])

text \<open>On booleans a sum and a difference are an exclusive or.\<close>

lemma Bool_simplifiesI:
  assumes "getWidth l = 1" "k \<noteq> Eq"
    and "\<And>a b. a \<in> {0, 1} \<Longrightarrow> b \<in> {0, 1} \<Longrightarrow> bop k' 1 a b = bop k 1 a b"
  shows "simplifies (BinaryExpr k' l r) (BinaryExpr k l r)"
proof (rule simplifiesI)
  fix \<rho>
  assume "wt (BinaryExpr k l r)"
  then have "eval \<rho> l \<in> {0, 1}" "eval \<rho> r \<in> {0, 1}"
    using assms(1) eval_Bool[of l \<rho>] eval_Bool[of r \<rho>] by auto
  then show "eval \<rho> (BinaryExpr k' l r) = eval \<rho> (BinaryExpr k l r)"
    using assms by simp
qed (use assms in auto)

lemma Xor_for_Add:
  "getWidth l = 1 \<Longrightarrow> simplifies (BinaryExpr Xor l r) (BinaryExpr Add l r)"
  by (rule Bool_simplifiesI) (auto simp: bv_defs)

lemma Xor_for_Sub:
  "getWidth l = 1 \<Longrightarrow> simplifies (BinaryExpr Xor l r) (BinaryExpr Sub l r)"
  by (rule Bool_simplifiesI) (auto simp: bv_defs)

text \<open>Reassociation: one equation of modular arithmetic per rewrite rule.\<close>

lemma simplifies_Binary_l: "simplifies l' l \<Longrightarrow> simplifies (BinaryExpr k l' r) (BinaryExpr k l r)"
  by (simp add: simplifies_Binary)
lemma simplifies_Binary_r: "simplifies r' r \<Longrightarrow> simplifies (BinaryExpr k l r') (BinaryExpr k l r)"
  by (simp add: simplifies_Binary)

abbreviation AddE :: "expr \<Rightarrow> expr \<Rightarrow> expr" where "AddE \<equiv> BinaryExpr Add"
abbreviation SubE :: "expr \<Rightarrow> expr \<Rightarrow> expr" where "SubE \<equiv> BinaryExpr Sub"

lemma reassoc:
  "simplifies (AddE (AddE a b) c) (AddE a (AddE b c))"
  "simplifies (SubE (AddE a b) c) (AddE a (SubE b c))"
  "simplifies (SubE (SubE a b) c) (SubE a (AddE b c))"
  "simplifies (AddE (SubE a b) c) (SubE a (SubE b c))"
  "simplifies (AddE a (AddE b c)) (AddE (AddE a b) c)"
  "simplifies (AddE a (SubE c b)) (AddE (SubE a b) c)"
  "simplifies (AddE b (AddE a c)) (AddE a (AddE b c))"
  "simplifies (AddE b (SubE a c)) (AddE a (SubE b c))"
  "simplifies (AddE a (SubE b c)) (SubE (AddE a b) c)"
  "simplifies (SubE a (AddE b c)) (SubE (SubE a b) c)"
  "simplifies (SubE (SubE a c) b) (SubE a (AddE b c))"
  "simplifies (SubE (AddE a c) b) (SubE a (SubE b c))"
  "simplifies (AddE b a) (AddE a b)"
  by (auto simp: simplifies_def bv_defs algebra_simps)

lemma AddSub_zero:
  "CE_isZero c \<Longrightarrow> simplifies r (AddE (ConstantExpr c) r)"
  "simplifies (AddE (ConstantExpr (CE_Sub (apint_of (getBitWidth c) 0) c)) l) (SubE l (ConstantExpr c))"
  "simplifies (alloc_Const (getWidth l) 0) (SubE l l)"
  by (auto simp: simplifies_def CE_isZero_def CE_arith_defs apint_of_def alloc_Const_def bv_defs
      algebra_simps wt_width_pos)

text \<open>Constant folding at the head of a sum.\<close>

lemma const_sum:
  "simplifies e (AddE (ConstantExpr (CE_Add c k)) x) \<Longrightarrow>
   simplifies e (AddE (ConstantExpr c) (AddE (ConstantExpr k) x))"
  "simplifies e (SubE (ConstantExpr (CE_Add c k)) x) \<Longrightarrow>
   simplifies e (AddE (ConstantExpr c) (SubE (ConstantExpr k) x))"
  "simplifies e (SubE (ConstantExpr (CE_Sub c k)) x) \<Longrightarrow>
   simplifies e (SubE (ConstantExpr c) (AddE (ConstantExpr k) x))"
  "simplifies e (AddE (ConstantExpr (CE_Sub c k)) x) \<Longrightarrow>
   simplifies e (SubE (ConstantExpr c) (SubE (ConstantExpr k) x))"
  by (erule simplifies_trans[OF simplifies_trans, OF _ simplifies_Binary_l];
      rule fold_Add fold_Sub reassoc)+

lemma simplifies_AddSub_PartialR:
  "simplifies (AddExpr_createPartialR c r) (AddE (ConstantExpr c) r) \<and>
   simplifies (SubExpr_createPartialR c r) (SubE (ConstantExpr c) r)"
proof (induction r arbitrary: c rule: measure_induct_rule[of size])
  case (less r)
  have A: "simplifies (case dyn_Constant x of Some d \<Rightarrow> ConstantExpr (CE_Add k d)
              | None \<Rightarrow> AddExpr_createPartialR k x) (AddE (ConstantExpr k) x)"
    and S: "simplifies (case dyn_Constant x of Some d \<Rightarrow> ConstantExpr (CE_Sub k d)
              | None \<Rightarrow> SubExpr_createPartialR k x) (SubE (ConstantExpr k) x)"
    if "size x < size r" for x k
    using less.IH[OF that] fold_Add fold_Sub by (auto split: option.splits)
  have bool: "simplifies (XorExpr_createPartialR c r) (AddE (ConstantExpr c) r)"
      "simplifies (XorExpr_createPartialR c r) (SubE (ConstantExpr c) r)" if "getBitWidth c = 1"
    using simplifies_trans[OF simplifies_XorPartialR] Xor_for_Add Xor_for_Sub that by auto
  show ?case
  proof
    show "simplifies (AddExpr_createPartialR c r) (AddE (ConstantExpr c) r)"
      unfolding AddExpr_createPartialR.simps[of c r]
      using bool(1) const_sum(1,2) A S AddSub_zero(1) by (auto split: option.split)
    show "simplifies (SubExpr_createPartialR c r) (SubE (ConstantExpr c) r)"
      unfolding SubExpr_createPartialR.simps[of c r]
      using bool(2) const_sum(3,4) A S by (auto split: option.split)
  qed
qed

lemma simplifies_Add_const: "simplifies e x \<Longrightarrow> simplifies (create_Add_const k e) (AddE (ConstantExpr k) x)"
  by (rule simplifies_trans[OF _ simplifies_Binary_r])
    (use simplifies_AddSub_PartialR fold_Add in
      \<open>auto simp: create_Add_const_def split: option.splits\<close>)

lemma simplifies_Sub_const: "simplifies e x \<Longrightarrow> simplifies (create_Sub_const k e) (SubE (ConstantExpr k) x)"
  by (rule simplifies_trans[OF _ simplifies_Binary_r])
    (use simplifies_AddSub_PartialR fold_Sub in
      \<open>auto simp: create_Sub_const_def split: option.splits\<close>)

lemma simplifies_AddPartial: "simplifies (AddExpr_createPartial l c) (AddE l (ConstantExpr c))"
  unfolding AddExpr_createPartial_def
  using simplifies_AddSub_PartialR reassoc(13) by (blast intro: simplifies_trans)

lemma simplifies_SubPartial: "simplifies (SubExpr_createPartial l c) (SubE l (ConstantExpr c))"
  unfolding SubExpr_createPartial_def AddExpr_createPartial_def
  using simplifies_AddSub_PartialR AddSub_zero(2) by (blast intro: simplifies_trans)

lemma simplifies_const_Sub: "simplifies e x \<Longrightarrow> simplifies (create_const_Sub e k) (SubE x (ConstantExpr k))"
  by (rule simplifies_trans[OF _ simplifies_Binary_l])
    (use simplifies_SubPartial fold_Sub in
      \<open>auto simp: create_const_Sub_def split: option.splits\<close>)

text \<open>The reassociation rules of \<open>AddExpr_create\<close> and \<open>SubExpr_create\<close>.\<close>

lemmas add_rules =
  simplifies_trans[OF simplifies_Add_const reassoc(5)]
  simplifies_trans[OF simplifies_Add_const reassoc(6)]
  simplifies_trans[OF simplifies_Add_const reassoc(7)]
  simplifies_trans[OF simplifies_Add_const reassoc(8)]
lemmas sub_rules =
  simplifies_trans[OF simplifies_Add_const reassoc(9)]
  simplifies_trans[OF simplifies_Sub_const reassoc(10)]
  simplifies_trans[OF simplifies_const_Sub reassoc(11)]
  simplifies_trans[OF simplifies_const_Sub reassoc(12)]

lemma simplifies_AddSub:
  "simplifies (create_Add l r) (AddE l r)"
  "simplifies (AddExpr_create l r) (AddE l r)"
  "simplifies (create_Sub l r) (SubE l r)"
  "simplifies (SubExpr_create l r) (SubE l r)"
proof (induction l r and l r and l r and l r
    rule: create_Add_AddExpr_create_create_Sub_SubExpr_create.induct)
  case (1 l r)
  then show ?case
    unfolding create_Add.simps[of l r]
    using simplifies_Add_const[of r r] simplifies_AddPartial by (auto split: option.split)
next
  case (2 l r)
  then show ?case
    unfolding AddExpr_create.simps[of l r] XorExpr_create_def
    using Xor_for_Add add_rules by (auto split: option.split)
next
  case (3 l r)
  then show ?case
    unfolding create_Sub.simps[of l r]
    using simplifies_Sub_const[of r r] simplifies_SubPartial by (auto split: option.split)
next
  case (4 l r)
  then show ?case
    unfolding SubExpr_create.simps[of l r] XorExpr_create_def
    using Xor_for_Sub sub_rules AddSub_zero(3) by (auto split: option.split)
qed

lemmas simplifies_create_Add = simplifies_AddSub(1)
lemmas simplifies_create_Sub = simplifies_AddSub(3)

section \<open>Multiplication, division and shifts\<close>

lemma simplifies_Mul_commute: "simplifies (BinaryExpr Mul r l) (BinaryExpr Mul l r)"
  by (auto simp: simplifies_def bv_defs ac_simps)

lemma And_for_Mul: "getWidth l = 1 \<Longrightarrow> simplifies (BinaryExpr And l r) (BinaryExpr Mul l r)"
  by (rule Bool_simplifiesI) (auto simp: bv_defs)

lemma CE_isOne_iff: "CE_isOne c \<longleftrightarrow> rawval c = 1"
  by (auto simp: CE_isOne_def getLimitedValue_def min_def)

lemma simplifies_MulPartialR:
  "simplifies (MulExpr_createPartialR c r) (BinaryExpr Mul (ConstantExpr c) r)"
proof -
  have "simplifies (AndExpr_createPartialR c r) (BinaryExpr And (ConstantExpr c) r)"
    unfolding AndExpr_createPartialR_def
    using simplifies_AndPartial simplifies_And_commute by (rule simplifies_trans)
  with And_for_Mul[of "ConstantExpr c" r]
  have "getBitWidth c = 1 \<Longrightarrow>
      simplifies (AndExpr_createPartialR c r) (BinaryExpr Mul (ConstantExpr c) r)"
    by (auto intro: simplifies_trans)
  moreover have "CE_isOne c \<Longrightarrow> simplifies r (BinaryExpr Mul (ConstantExpr c) r)"
    and "CE_isZero c \<Longrightarrow> simplifies (ConstantExpr c) (BinaryExpr Mul (ConstantExpr c) r)"
    by (auto simp: simplifies_def CE_isOne_iff CE_isZero_def bv_defs)
  ultimately show ?thesis
    by (simp add: MulExpr_createPartialR_def)
qed

lemma simplifies_create_Mul: "simplifies (create_Mul l r) (BinaryExpr Mul l r)"
  unfolding create_Mul_def
  by (rule simplifies_BCREATE_R[of _ Mul, simplified])
    (auto simp: MulExpr_createPartial_def MulExpr_create_def simplifies_MulPartialR And_for_Mul
      intro: simplifies_trans[OF simplifies_MulPartialR simplifies_Mul_commute])

text \<open>On booleans: a shift or an ordering is a conjunction or disjunction with a negation.\<close>

lemma simplifies_And_isZero:
  "getWidth r = 1 \<Longrightarrow> simplifies (create_And l (createIsZero r))
     (BinaryExpr And l (BinaryExpr Eq r (alloc_Const 1 0)))"
  using simplifies_trans[OF simplifies_create_And simplifies_Binary_r[OF simplifies_createIsZero]]
  by metis

lemma simplifies_isZero_And:
  "getWidth l = 1 \<Longrightarrow> simplifies (create_And (createIsZero l) r)
     (BinaryExpr And (BinaryExpr Eq l (alloc_Const 1 0)) r)"
  using simplifies_trans[OF simplifies_create_And simplifies_Binary_l[OF simplifies_createIsZero]]
  by metis

lemma simplifies_Or_isZero:
  "getWidth r = 1 \<Longrightarrow> simplifies (create_Or l (createIsZero r))
     (BinaryExpr Or l (BinaryExpr Eq r (alloc_Const 1 0)))"
  using simplifies_trans[OF simplifies_create_Or simplifies_Binary_r[OF simplifies_createIsZero]]
  by metis

lemma simplifies_isZero_Or:
  "getWidth l = 1 \<Longrightarrow> simplifies (create_Or (createIsZero l) r)
     (BinaryExpr Or (BinaryExpr Eq l (alloc_Const 1 0)) r)"
  using simplifies_trans[OF simplifies_create_Or simplifies_Binary_l[OF simplifies_createIsZero]]
  by metis

lemma Bool_neg_simplifiesI:
  assumes l: "getWidth l = 1" and k: "\<not> isCmpKind k'"
    and eq: "\<And>a b. a \<in> {0, 1} \<Longrightarrow> b \<in> {0, 1} \<Longrightarrow> bop k' 1 a (of_bool (b = 0)) = bop k 1 a b"
  shows "simplifies (BinaryExpr k' l (BinaryExpr Eq r (alloc_Const 1 0))) (BinaryExpr k l r)"
proof (rule simplifiesI)
  fix \<rho>
  assume "wt (BinaryExpr k l r)"
  then have "eval \<rho> l \<in> {0, 1}" "eval \<rho> r \<in> {0, 1}"
    using l eval_Bool[of l \<rho>] eval_Bool[of r \<rho>] by auto
  from eq[OF this]
  show "eval \<rho> (BinaryExpr k' l (BinaryExpr Eq r (alloc_Const 1 0))) = eval \<rho> (BinaryExpr k l r)"
    using l by (simp add: alloc_Const_def apint_of_def)
qed (use l k in \<open>auto simp: alloc_Const_def apint_of_def\<close>)

lemma Bool_neg_left_simplifiesI:
  assumes l: "getWidth l = 1" and k: "\<not> isCmpKind k'"
    and eq: "\<And>a b. a \<in> {0, 1} \<Longrightarrow> b \<in> {0, 1} \<Longrightarrow> bop k' 1 (of_bool (a = 0)) b = bop k 1 a b"
  shows "simplifies (BinaryExpr k' (BinaryExpr Eq l (alloc_Const 1 0)) r) (BinaryExpr k l r)"
proof (rule simplifiesI)
  fix \<rho>
  assume "wt (BinaryExpr k l r)"
  then have "eval \<rho> l \<in> {0, 1}" "eval \<rho> r \<in> {0, 1}"
    using l eval_Bool[of l \<rho>] eval_Bool[of r \<rho>] by auto
  from eq[OF this]
  show "eval \<rho> (BinaryExpr k' (BinaryExpr Eq l (alloc_Const 1 0)) r) = eval \<rho> (BinaryExpr k l r)"
    using l by (simp add: alloc_Const_def apint_of_def)
qed (use l k in \<open>auto simp: alloc_Const_def apint_of_def\<close>)

lemma Bool_shift_rules:
  assumes "getWidth l = 1"
  shows "simplifies (BinaryExpr And l (BinaryExpr Eq r (alloc_Const 1 0))) (BinaryExpr Shl l r)"
    and "simplifies (BinaryExpr And l (BinaryExpr Eq r (alloc_Const 1 0))) (BinaryExpr LShr l r)"
    and "simplifies (BinaryExpr And l (BinaryExpr Eq r (alloc_Const 1 0))) (BinaryExpr Slt l r)"
    and "simplifies (BinaryExpr Or l (BinaryExpr Eq r (alloc_Const 1 0))) (BinaryExpr Sle l r)"
    and "simplifies (BinaryExpr And (BinaryExpr Eq l (alloc_Const 1 0)) r) (BinaryExpr Ult l r)"
    and "simplifies (BinaryExpr Or (BinaryExpr Eq l (alloc_Const 1 0)) r) (BinaryExpr Ule l r)"
  by (rule Bool_neg_simplifiesI Bool_neg_left_simplifiesI;
      use assms in \<open>auto simp: bv_defs shift_amount_def sx_def\<close>)+

lemma AShr_Bool: "getWidth l = 1 \<Longrightarrow> simplifies l (BinaryExpr AShr l r)"
proof (rule simplifiesI)
  fix \<rho>
  assume w: "getWidth l = 1" and "wt (BinaryExpr AShr l r)"
  then have "eval \<rho> l \<in> {0, 1}" "eval \<rho> r \<in> {0, 1}"
    using eval_Bool[of l \<rho>] eval_Bool[of r \<rho>] by auto
  then show "eval \<rho> l = eval \<rho> (BinaryExpr AShr l r)"
    using w by (auto simp: bv_defs shift_amount_def sx_def)
qed auto

text \<open>All binary kinds but the divisions.\<close>

definition isDivKind :: "bkind \<Rightarrow> bool" where
  "isDivKind k \<longleftrightarrow> k \<in> {UDiv, SDiv, URem, SRem}"

lemma simplifies_Bool_rules:
  assumes l: "getWidth l = 1"
  shows "simplifies (create_And l (createIsZero r)) (BinaryExpr Shl l r)"
    and "simplifies (create_And l (createIsZero r)) (BinaryExpr LShr l r)"
    and "simplifies (create_And l (createIsZero r)) (BinaryExpr Slt l r)"
    and "simplifies (create_Or l (createIsZero r)) (BinaryExpr Sle l r)"
    and "simplifies (create_And (createIsZero l) r) (BinaryExpr Ult l r)"
    and "simplifies (create_Or (createIsZero l) r) (BinaryExpr Ule l r)"
proof -
  have ill: "simplifies e (BinaryExpr k l r)" if "getWidth r \<noteq> 1" for e k
    using that l by (simp add: simplifies_def)
  have And: "simplifies (create_And l (createIsZero r)) (BinaryExpr k l r)"
    if "simplifies (BinaryExpr And l (BinaryExpr Eq r (alloc_Const 1 0))) (BinaryExpr k l r)" for k
    using ill simplifies_trans[OF simplifies_And_isZero that] by blast
  have Or: "simplifies (create_Or l (createIsZero r)) (BinaryExpr k l r)"
    if "simplifies (BinaryExpr Or l (BinaryExpr Eq r (alloc_Const 1 0))) (BinaryExpr k l r)" for k
    using ill simplifies_trans[OF simplifies_Or_isZero that] by blast
  show "simplifies (create_And l (createIsZero r)) (BinaryExpr Shl l r)"
    by (rule And[OF Bool_shift_rules(1)[OF l]])
  show "simplifies (create_And l (createIsZero r)) (BinaryExpr LShr l r)"
    by (rule And[OF Bool_shift_rules(2)[OF l]])
  show "simplifies (create_And l (createIsZero r)) (BinaryExpr Slt l r)"
    by (rule And[OF Bool_shift_rules(3)[OF l]])
  show "simplifies (create_Or l (createIsZero r)) (BinaryExpr Sle l r)"
    by (rule Or[OF Bool_shift_rules(4)[OF l]])
  show "simplifies (create_And (createIsZero l) r) (BinaryExpr Ult l r)"
    by (rule simplifies_trans[OF simplifies_isZero_And[OF l] Bool_shift_rules(5)[OF l]])
  show "simplifies (create_Or (createIsZero l) r) (BinaryExpr Ule l r)"
    by (rule simplifies_trans[OF simplifies_isZero_Or[OF l] Bool_shift_rules(6)[OF l]])
qed

lemmas BCREATE_helper_defs = ShlExpr_create_def LShrExpr_create_def AShrExpr_create_def
  UltExpr_create_def UleExpr_create_def SltExpr_create_def SleExpr_create_def

lemma simplifies_BCREATE_kinds:
  "simplifies (create_Shl l r) (BinaryExpr Shl l r)"
  "simplifies (create_LShr l r) (BinaryExpr LShr l r)"
  "simplifies (create_AShr l r) (BinaryExpr AShr l r)"
  "simplifies (create_Ult l r) (BinaryExpr Ult l r)"
  "simplifies (create_Ule l r) (BinaryExpr Ule l r)"
  "simplifies (create_Slt l r) (BinaryExpr Slt l r)"
  "simplifies (create_Sle l r) (BinaryExpr Sle l r)"
  unfolding create_Shl_def create_LShr_def create_AShr_def create_Ult_def create_Ule_def
    create_Slt_def create_Sle_def
  by (rule simplifies_BCREATE[of _ _ _ Shl, simplified] simplifies_BCREATE[of _ _ _ LShr, simplified]
        simplifies_BCREATE[of _ _ _ AShr, simplified] simplifies_BCREATE[of _ _ _ Ult, simplified]
        simplifies_BCREATE[of _ _ _ Ule, simplified] simplifies_BCREATE[of _ _ _ Slt, simplified]
        simplifies_BCREATE[of _ _ _ Sle, simplified];
      use simplifies_Bool_rules[of l r] AShr_Bool[of l r] in \<open>auto simp: BCREATE_helper_defs\<close>)+

lemma simplifies_swapped:
  "simplifies e (BinaryExpr Ult r l) \<Longrightarrow> simplifies e (BinaryExpr Ugt l r)"
  "simplifies e (BinaryExpr Ule r l) \<Longrightarrow> simplifies e (BinaryExpr Uge l r)"
  "simplifies e (BinaryExpr Slt r l) \<Longrightarrow> simplifies e (BinaryExpr Sgt l r)"
  "simplifies e (BinaryExpr Sle r l) \<Longrightarrow> simplifies e (BinaryExpr Sge l r)"
  by (auto simp: simplifies_def)

lemma simplifies_create_Binary:
  "\<not> isDivKind k \<Longrightarrow> simplifies (create_Binary k l r) (BinaryExpr k l r)"
  by (cases k)
    (simp_all add: isDivKind_def simplifies_create_Add simplifies_create_Sub simplifies_create_Mul
      simplifies_create_And simplifies_create_Or simplifies_create_Xor simplifies_create_Eq
      simplifies_create_Ne simplifies_BCREATE_kinds simplifies_swapped
      create_Ugt_def create_Uge_def create_Sgt_def create_Sge_def)

text \<open>
  The divisions: always well typed and of the same width; the same value where the divisor is
  not zero.
\<close>

lemma wt_create_div:
  assumes "isDivKind k" "wt (BinaryExpr k l r)"
  shows "wt (create_Binary k l r) \<and> getWidth (create_Binary k l r) = getWidth l"
proof -
  have "simplifies (ConstantExpr (const_op k c d)) (BinaryExpr k (ConstantExpr c) (ConstantExpr d))"
    for c d by (rule simplifies_const_op)
  with assms show ?thesis
    by (fastforce simp: isDivKind_def create_UDiv_def create_SDiv_def create_URem_def create_SRem_def
        BCREATE_def fold_constants_def simplifies_def UDivExpr_create_def SDivExpr_create_def
        URemExpr_create_def SRemExpr_create_def alloc_Const_def apint_of_def split: option.splits)
qed

lemma eval_create_div:
  assumes "isDivKind k" "wt (BinaryExpr k l r)" "eval \<rho> r \<noteq> 0"
  shows "eval \<rho> (create_Binary k l r) = eval \<rho> (BinaryExpr k l r)"
proof -
  have "eval \<rho> l \<in> {0, 1} \<and> eval \<rho> r = 1" if "getWidth l = 1"
    using that assms(2,3) eval_Bool[of l \<rho>] eval_Bool[of r \<rho>] by auto
  then show ?thesis
    using assms simplifies_const_op
    by (auto simp: isDivKind_def create_UDiv_def create_SDiv_def create_URem_def create_SRem_def
        BCREATE_def fold_constants_def UDivExpr_create_def SDivExpr_create_def URemExpr_create_def
        SRemExpr_create_def alloc_Const_def apint_of_def CE_arith_defs bv_defs sx_def
        signed_modulo_int_def split: option.splits)
qed

section \<open>Extract and concat\<close>

lemma fits_bit: "fits w a \<Longrightarrow> bit a n \<Longrightarrow> n < w"
  by (metis bit_take_bit_iff fits_iff_take_bit)

lemma extract_const:
  fixes c :: int
  assumes "off + w \<le> kw"
  shows "take_bit w (take_bit kw (drop_bit off (sx kw c))) = take_bit w (drop_bit off c)"
proof (rule bit_eqI)
  fix n
  have "n < w \<Longrightarrow> min (kw - Suc 0) (off + n) = off + n"
    using assms by simp
  then show "bit (take_bit w (take_bit kw (drop_bit off (sx kw c)))) n =
             bit (take_bit w (drop_bit off c)) n"
    using assms
    by (auto simp: bit_take_bit_iff bit_drop_bit_eq sx_def bit_signed_take_bit_iff)
qed

lemma extract_concat_high:
  fixes a b :: int
  assumes "fits v b" "v \<le> off"
  shows "take_bit w (drop_bit off (push_bit v a OR b)) = take_bit w (drop_bit (off - v) a)"
  by (rule bit_eqI)
    (use assms fits_bit[OF assms(1)] in
      \<open>fastforce simp: bit_take_bit_iff bit_drop_bit_eq bit_or_iff bit_push_bit_iff\<close>)

lemma extract_concat_low:
  fixes a b :: int
  assumes "off + w \<le> v"
  shows "take_bit w (drop_bit off (push_bit v a OR b)) = take_bit w (drop_bit off b)"
  by (rule bit_eqI)
    (use assms in \<open>auto simp: bit_take_bit_iff bit_drop_bit_eq bit_or_iff bit_push_bit_iff\<close>)

lemma extract_concat_both:
  fixes a b :: int
  assumes "fits v b" "off < v" "v < off + w"
  shows "push_bit (v - off) (take_bit (w + off - v) a) OR take_bit (v - off) (drop_bit off b) =
         take_bit w (drop_bit off (push_bit v a OR b))"
proof (rule bit_eqI)
  fix n
  have "n - (v - off) < w + off - v \<longleftrightarrow> n < w" if "v - off \<le> n"
    using that assms(2,3) by auto
  moreover have "bit b (off + n) \<Longrightarrow> n < v - off"
    using fits_bit[OF assms(1)] assms(2) by fastforce
  moreover have "v - off \<le> n \<Longrightarrow> n - (v - off) = off + n - v"
    using assms(2) by simp
  ultimately show "bit (push_bit (v - off) (take_bit (w + off - v) a) OR
                        take_bit (v - off) (drop_bit off b)) n =
      bit (take_bit w (drop_bit off (push_bit v a OR b))) n"
    using assms(2,3)
    by (auto simp: bit_take_bit_iff bit_drop_bit_eq bit_or_iff bit_push_bit_iff)
qed

lemma concat_extracts:
  fixes x :: int
  shows "push_bit wr (take_bit wl (drop_bit (off + wr) x)) OR take_bit wr (drop_bit off x) =
         take_bit (wl + wr) (drop_bit off x)"
proof (rule bit_eqI)
  fix n
  have "wr \<le> n \<Longrightarrow> off + wr + (n - wr) = off + n" by simp
  then show "bit (push_bit wr (take_bit wl (drop_bit (off + wr) x)) OR take_bit wr (drop_bit off x)) n =
      bit (take_bit (wl + wr) (drop_bit off x)) n"
    by (auto simp: bit_take_bit_iff bit_drop_bit_eq bit_or_iff bit_push_bit_iff)
qed

lemma simplifies_CE_Concat:
  "simplifies (ConstantExpr (CE_Concat c d)) (ConcatExpr (ConstantExpr c) (ConstantExpr d))"
proof (rule simplifiesI)
  assume wt: "wt (ConcatExpr (ConstantExpr c) (ConstantExpr d))"
  then have "fits (getBitWidth c + getBitWidth d)
      (push_bit (getBitWidth d) (rawval c) OR rawval d)"
    and push: "fits (getBitWidth c + getBitWidth d) (push_bit (getBitWidth d) (rawval c))"
    using fits_concat[of "getBitWidth c" "rawval c" "getBitWidth d" "rawval d"]
      fits_concat[of "getBitWidth c" "rawval c" "getBitWidth d" 0] by simp_all
  then show "wt (ConstantExpr (CE_Concat c d))"
    and "eval \<rho> (ConstantExpr (CE_Concat c d)) =
         eval \<rho> (ConcatExpr (ConstantExpr c) (ConstantExpr d))" for \<rho>
    using wt by (simp_all add: CE_Concat_def Let_def take_bit_fits)
qed (simp add: CE_Concat_def Let_def)

lemma simplifies_contiguous:
  assumes "contiguous l r = Some (x, off)"
  shows "simplifies (ExtractExpr x off (getWidth l + getWidth r)) (ConcatExpr l r)"
  using assms by (auto simp: simplifies_def contiguous_Some concat_extracts)

lemma simplifies_Concat:
  "simplifies l' l \<Longrightarrow> simplifies r' r \<Longrightarrow> simplifies (ConcatExpr l' r') (ConcatExpr l r)"
  by (simp add: simplifies_def)

lemma simplifies_Extract_full: "simplifies e (ExtractExpr e off (getWidth e))"
  by (auto simp: simplifies_def)

lemma simplifies_CE_Extract:
  "simplifies (ConstantExpr (CE_Extract c off w)) (ExtractExpr (ConstantExpr c) off w)"
  by (auto simp: simplifies_def CE_Extract_def extract_const simp del: take_bit_take_bit)

lemma simplifies_Extract_high:
  "getWidth r \<le> off \<Longrightarrow>
   simplifies (ExtractExpr l (off - getWidth r) w) (ExtractExpr (ConcatExpr l r) off w)"
  by (auto simp: simplifies_def extract_concat_high simp del: take_bit_or drop_bit_or)

lemma simplifies_Extract_low:
  "off + w \<le> getWidth r \<Longrightarrow>
   simplifies (ExtractExpr r off w) (ExtractExpr (ConcatExpr l r) off w)"
  by (auto simp: simplifies_def extract_concat_low simp del: take_bit_or drop_bit_or)

lemma simplifies_Extract_both:
  "\<not> getWidth r \<le> off \<Longrightarrow> \<not> off + w \<le> getWidth r \<Longrightarrow>
   simplifies (ConcatExpr (ExtractExpr l 0 (w + off - getWidth r))
                          (ExtractExpr r off (getWidth r - off)))
     (ExtractExpr (ConcatExpr l r) off w)"
  by (auto simp: simplifies_def extract_concat_both simp del: take_bit_or drop_bit_or)

lemma fold_constants_Some:
  "fold_constants op l r = Some c \<longleftrightarrow>
     (\<exists>a b. l = ConstantExpr a \<and> r = ConstantExpr b \<and> c = op a b)"
  by (auto simp: fold_constants_def split: option.splits)

lemma simplifies_create_Extract: "simplifies (create_Extract e off w) (ExtractExpr e off w)"
proof (induction e off w rule: create_Extract.induct)
  case (1 e off w)
  note unf = create_Extract.simps[of e off w]
  show ?case
  proof (cases "w = getWidth e")
    case False
    show ?thesis
    proof (cases e)
      case (ConcatExpr l r)
      note IH = "1"[OF False ConcatExpr]
      define L where "L = create_Extract l 0 (w + off - getWidth r)"
      define R where "R = create_Extract r off (getWidth r - off)"
      consider "getWidth r \<le> off" | "\<not> getWidth r \<le> off" "off + w \<le> getWidth r"
        | (both) "\<not> getWidth r \<le> off" "\<not> off + w \<le> getWidth r"
        by blast
      then show ?thesis
      proof cases
        case both
        have "simplifies (ConcatExpr L R) (ExtractExpr e off w)"
          unfolding ConcatExpr using IH(3,4)[OF both] simplifies_Extract_both[OF both]
          by (auto simp: L_def R_def intro: simplifies_trans[OF simplifies_Concat])
        moreover have "simplifies (create_Extract x o2 (getWidth L + getWidth R)) (ConcatExpr L R)"
          if "fold_constants CE_Concat L R = None" "contiguous L R = Some (x, o2)" for x o2
          using IH(5)[OF both L_def R_def that refl] simplifies_contiguous[OF that(2)]
          by (rule simplifies_trans)
        ultimately show ?thesis
          unfolding unf using False ConcatExpr both
            simplifies_trans[OF _ \<open>simplifies (ConcatExpr L R) (ExtractExpr e off w)\<close>]
            simplifies_CE_Concat
          by (auto simp: Let_def fold_constants_Some simp flip: L_def R_def split: option.split)
      qed (unfold unf, use False ConcatExpr IH(1,2) simplifies_trans[OF _ simplifies_Extract_high]
             simplifies_trans[OF _ simplifies_Extract_low] in \<open>simp_all\<close>)
    qed (unfold unf, use False simplifies_CE_Extract in simp_all)
  qed (unfold unf, simp add: simplifies_Extract_full)
qed

lemma simplifies_create_Concat: "simplifies (create_Concat l r) (ConcatExpr l r)"
  using simplifies_CE_Concat simplifies_trans[OF simplifies_create_Extract simplifies_contiguous]
  by (auto simp: create_Concat_def fold_constants_Some split: option.split)

lemma simplifies_create_ZExt:
  "getWidth e \<le> w \<Longrightarrow> simplifies (create_ZExt e w) (ZExtExpr e w)"
  by (auto simp: simplifies_def create_ZExt_def CE_ZExt_def wt_width_pos split: option.splits)

lemma simplifies_create_SExt:
  "getWidth e \<le> w \<Longrightarrow> simplifies (create_SExt e w) (SExtExpr e w)"
  by (auto simp: simplifies_def create_SExt_def CE_SExt_def wt_width_pos sx_def
      take_bit_signed_take_bit split: option.splits)

text \<open>A cast to a smaller width is an extract of the low bits.\<close>

lemma simplifies_trunc:
  "w < getWidth e \<Longrightarrow> simplifies (create_ZExt e w) (ExtractExpr e 0 w)"
  "w < getWidth e \<Longrightarrow> simplifies (create_SExt e w) (ExtractExpr e 0 w)"
  by (simp_all add: create_ZExt_def create_SExt_def simplifies_create_Extract)

section \<open>Select\<close>

lemma simplifies_Or: "simplifies l' l \<Longrightarrow> simplifies r' r \<Longrightarrow>
    simplifies (create_Or l' r') (BinaryExpr Or l r)"
  by (rule simplifies_trans[OF simplifies_create_Or simplifies_Binary])

lemma simplifies_And: "simplifies l' l \<Longrightarrow> simplifies r' r \<Longrightarrow>
    simplifies (create_And l' r') (BinaryExpr And l r)"
  by (rule simplifies_trans[OF simplifies_create_And simplifies_Binary])

text \<open>A boolean select with a constant arm is a conjunction or a disjunction.\<close>

lemma Bool_values:
  assumes "wt (SelectExpr c t f)" "getWidth t = 1"
  shows "eval \<rho> c \<in> {0, 1}" "eval \<rho> t \<in> {0, 1}" "eval \<rho> f \<in> {0, 1}"
  using assms eval_Bool[of c \<rho>] eval_Bool[of t \<rho>] eval_Bool[of f \<rho>] by auto

abbreviation NotE :: "expr \<Rightarrow> expr" where
  "NotE c \<equiv> BinaryExpr Eq c (alloc_Const (getWidth c) 0)"

lemma Select_BoolI:
  assumes w: "getWidth t = 1" and e: "wt (SelectExpr c t f) \<Longrightarrow> wt e \<and> getWidth e = 1"
    and v: "\<And>\<rho>. wt (SelectExpr c t f) \<Longrightarrow> eval \<rho> c \<in> {0, 1} \<Longrightarrow> eval \<rho> t \<in> {0, 1} \<Longrightarrow> eval \<rho> f \<in> {0, 1} \<Longrightarrow>
           eval \<rho> e = (if eval \<rho> c \<noteq> 0 then eval \<rho> t else eval \<rho> f)"
  shows "simplifies e (SelectExpr c t f)"
proof (rule simplifiesI)
  assume "wt (SelectExpr c t f)"
  with v Bool_values[OF this w] show "eval \<rho> e = eval \<rho> (SelectExpr c t f)" for \<rho>
    by simp
qed (use e w in auto)

lemma Select_Bool:
  assumes w: "getWidth t = 1"
  shows "t = ConstantExpr d \<Longrightarrow> CE_isTrue d \<Longrightarrow> simplifies (BinaryExpr Or c f) (SelectExpr c t f)"
    and "t = ConstantExpr d \<Longrightarrow> \<not> CE_isTrue d \<Longrightarrow> simplifies (BinaryExpr And (NotE c) f) (SelectExpr c t f)"
    and "wt (SelectExpr c t f) \<Longrightarrow> f = ConstantExpr d \<Longrightarrow> CE_isTrue d \<Longrightarrow>
         simplifies (BinaryExpr Or (NotE c) t) (SelectExpr c t f)"
    and "wt (SelectExpr c t f) \<Longrightarrow> f = ConstantExpr d \<Longrightarrow> \<not> CE_isTrue d \<Longrightarrow>
         simplifies (BinaryExpr And c t) (SelectExpr c t f)"
  by (rule Select_BoolI[OF w]; use w in \<open>fastforce simp: bv_defs CE_isTrue_def alloc_Const_def apint_of_def\<close>)+

lemma simplifies_create_Select: "simplifies (create_Select c t f) (SelectExpr c t f)"
proof (cases "wt (SelectExpr c t f)")
  case wt: True
  note isz = simplifies_createIsZero
  have sel: "simplifies (create_Select c t f) (SelectExpr c t f)"
    if c: "dyn_Constant c = None" and ne: "t \<noteq> f" and w: "getWidth t = 1"
  proof (cases "dyn_Constant t")
    case (Some d)
    then show ?thesis
      using c ne w simplifies_trans[OF simplifies_Or Select_Bool(1)[OF w]]
        simplifies_trans[OF simplifies_And[OF isz] Select_Bool(2)[OF w]]
      by (simp add: create_Select_def)
  next
    case t: None
    show ?thesis
    proof (cases "dyn_Constant f")
      case (Some d)
      then show ?thesis
        using c ne w t simplifies_trans[OF simplifies_Or[OF isz] Select_Bool(3)[OF w wt]]
          simplifies_trans[OF simplifies_And Select_Bool(4)[OF w wt]]
        by (simp add: create_Select_def)
    qed (use c ne w t in \<open>simp add: create_Select_def\<close>)
  qed
  show ?thesis
  proof (cases "dyn_Constant c = None \<and> t \<noteq> f \<and> getWidth t = 1")
    case True
    with sel show ?thesis by simp
  next
    case False
    then show ?thesis
      using wt by (auto simp: create_Select_def simplifies_def CE_isTrue_def split: option.splits)
  qed
qed (unfold simplifies_def, blast)

section \<open>Reads\<close>

lemma create_Eq_constant:
  assumes "create_Eq i x = ConstantExpr c" "wt i" "wt x" "getWidth i = getWidth x"
  shows "CE_isTrue c \<longleftrightarrow> eval \<rho> i = eval \<rho> x"
proof -
  have "getBitWidth c = 1" "rawval c = of_bool (eval \<rho> i = eval \<rho> x)"
    using simplifiesD[OF simplifies_create_Eq[of i x]] assms by auto
  then show ?thesis by (simp add: CE_isTrue_def)
qed

lemma read_scan_hit:
  "read_scan i us = (Some v, s) \<Longrightarrow> wt i \<Longrightarrow> getWidth i = domain_w a \<Longrightarrow> wt_updates a us \<Longrightarrow>
   wt v \<and> getWidth v = range_w a \<and> read_updates \<rho> a us (eval \<rho> i) = eval \<rho> v"
proof (induction i us rule: read_scan.induct)
  case (2 i x w us)
  then obtain c where c: "create_Eq i x = ConstantExpr c"
    by (auto split: option.splits)
  then have "CE_isTrue c \<longleftrightarrow> eval \<rho> i = eval \<rho> x"
    using "2.prems" by (intro create_Eq_constant) simp_all
  with 2 c show ?case
    by (auto split: if_splits)
qed simp

lemma read_scan_miss:
  "read_scan i us = (None, False) \<Longrightarrow> wt i \<Longrightarrow> getWidth i = domain_w a \<Longrightarrow> wt_updates a us \<Longrightarrow>
   read_updates \<rho> a us (eval \<rho> i) = initial_value \<rho> a (eval \<rho> i)"
proof (induction i us rule: read_scan.induct)
  case (2 i x w us)
  then obtain c where c: "create_Eq i x = ConstantExpr c"
    by (auto split: option.splits)
  then have "CE_isTrue c \<longleftrightarrow> eval \<rho> i = eval \<rho> x"
    using "2.prems" by (intro create_Eq_constant) simp_all
  with 2 c show ?case
    by (auto split: if_splits)
qed simp

lemma constant_array_value:
  assumes "wf_array a" "isConstantArray a" "0 \<le> i" "i < int (arr_size a)"
  shows "wt (ConstantExpr (APInt (range_w a) (constantValues a ! nat i)))"
  using assms by (auto simp: wf_array_def isConstantArray_def list_all_length)

lemma simplifies_create_Read_value: "simplifies (create_Read_value a us i) (ReadExpr a us i)"
proof (rule simplifiesI)
  assume wt: "wt (ReadExpr a us i)"
  obtain hit sym where scan: "read_scan i us = (hit, sym)" by (cases "read_scan i us")
  have "wt (create_Read_value a us i) \<and> getWidth (create_Read_value a us i) = range_w a \<and>
      eval \<rho> (create_Read_value a us i) = eval \<rho> (ReadExpr a us i)" for \<rho>
  proof (cases hit)
    case (Some v)
    with wt scan read_scan_hit[of i us v sym a \<rho>] show ?thesis
      by (simp add: create_Read_value_def create_Read_def)
  next
    case None
    show ?thesis
    proof (cases "isConstantArray a \<and> \<not> sym \<and>
        (\<exists>c. i = ConstantExpr c \<and> rawval c < int (arr_size a))")
      case True
      then obtain c where c: "i = ConstantExpr c" "rawval c < int (arr_size a)" by blast
      with wt have "0 \<le> rawval c" by (auto dest: fits_nonneg)
      moreover have "read_updates \<rho> a us (rawval c) = initial_value \<rho> a (rawval c)"
        using read_scan_miss[of i us a \<rho>] wt scan None True c by auto
      ultimately show ?thesis
        using True None c wt scan constant_array_value[of a "rawval c"]
        by (auto simp: create_Read_value_def create_Read_def initial_value_def)
    qed (use wt None scan in \<open>auto simp: create_Read_value_def create_Read_def split: option.splits\<close>)
  qed
  then show "wt (create_Read_value a us i)" "getWidth (create_Read_value a us i) = getWidth (ReadExpr a us i)"
    "\<And>\<rho>. eval \<rho> (create_Read_value a us i) = eval \<rho> (ReadExpr a us i)"
    by simp_all
qed

section \<open>Concatenations of several children, and temporary reads\<close>

fun concat_all :: "expr list \<Rightarrow> expr option" where
  "concat_all [] = None"
| "concat_all [k] = Some k"
| "concat_all (k # ks) = map_option (ConcatExpr k) (concat_all ks)"

lemma create_ConcatN_simplifies:
  "rel_option simplifies (create_ConcatN ks) (concat_all ks)"
proof (induction ks rule: concat_all.induct)
  case (3 k k' ks)
  then show ?case
    using simplifies_trans[OF simplifies_create_Concat simplifies_Concat[OF simplifies_refl]]
    by (auto elim!: option.rel_cases)
qed simp_all

text \<open>The bytes of a little endian number, most significant first.\<close>

fun big_endian :: "int list \<Rightarrow> int" where
  "big_endian [] = 0"
| "big_endian (b # bs) = b * 256 ^ length bs + big_endian bs"

lemma big_endian_append: "big_endian (bs @ cs) = big_endian bs * 256 ^ length cs + big_endian cs"
  by (induction bs) (simp_all add: algebra_simps power_add)

lemma big_endian_little: "big_endian (map f (rev [0..<n])) = (\<Sum>j<n. f j * 256 ^ j)"
  by (induction n) simp_all

lemma big_endian_big: "big_endian (map f [0..<n]) = (\<Sum>j<n. f j * 256 ^ (n - 1 - j))"
proof (induction n)
  case (Suc n)
  have "(\<Sum>j<n. f j * 256 ^ (n - 1 - j)) * 256 = (\<Sum>j<n. f j * 256 ^ (n - j))"
    unfolding sum_distrib_right
  proof (rule sum.cong)
    fix j assume "j \<in> {..<n}"
    then have "(256::int) ^ (n - 1 - j) * 256 = 256 ^ (n - j)"
      by (simp flip: power_Suc2 add: Suc_diff_Suc)
    then show "f j * 256 ^ (n - 1 - j) * 256 = f j * 256 ^ (n - j)"
      by (simp only: mult.assoc)
  qed simp
  with Suc show ?case
    by (simp add: big_endian_append)
qed simp

lemma push_or_add:
  fixes a b :: int
  assumes "fits v b"
  shows "push_bit v a OR b = a * 2 ^ v + b"
proof -
  have "push_bit v a AND b = 0"
    by (rule bit_eqI) (use fits_bit[OF assms] in \<open>force simp: bit_and_iff bit_push_bit_iff\<close>)
  then show ?thesis
    by (simp add: push_bit_eq_mult flip: disjunctive_add_eq_or)
qed

lemma concat_all_bytes:
  assumes "ks \<noteq> []" "\<And>k. k \<in> set ks \<Longrightarrow> wt k \<and> getWidth k = 8"
  shows "\<exists>e. concat_all ks = Some e \<and> wt e \<and> getWidth e = 8 * length ks \<and>
           (\<forall>\<rho>. eval \<rho> e = big_endian (map (eval \<rho>) ks))"
  using assms
proof (induction ks rule: concat_all.induct)
  case (3 k k' ks)
  then obtain e where e: "concat_all (k' # ks) = Some e" "wt e" "getWidth e = 8 * length (k' # ks)"
      "\<And>\<rho>. eval \<rho> e = big_endian (map (eval \<rho>) (k' # ks))"
    by (metis list.set_intros(2) list.distinct(1))
  have "eval \<rho> (ConcatExpr k e) = big_endian (map (eval \<rho>) (k # k' # ks))" for \<rho>
    using e(4)[of \<rho>] push_or_add[OF fits_eval[OF e(2) refl], of "eval \<rho> k" \<rho>] e(3)
    by (simp add: power_mult power_add)
  with e 3(3) show ?case by auto
qed auto

lemma read_at_correct:
  assumes "wf_array a" "domain_w a = 32" "range_w a = 8" "0 \<le> i" "i < 2 ^ 32"
  shows "wt (read_at a i) \<and> getWidth (read_at a i) = 8 \<and> eval \<rho> (read_at a i) = initial_value \<rho> a i"
proof -
  have "take_bit 32 i = i"
    using assms(4,5) by (simp add: take_bit_int_eq_self_iff)
  then show ?thesis
    using simplifiesD[OF simplifies_create_Read_value[of a NoUpdate "alloc_Const 32 i"]] assms
    by (simp add: read_at_def alloc_Const_def apint_of_def fits_def)
qed

text \<open>The nested \<open>create_Concat4\<close> and \<open>create_Concat8\<close> are \<open>create_ConcatN\<close> of their children.\<close>

lemma create_Concat4_N: "create_ConcatN [a, b, c, d] = Some (create_Concat4 a b c d)"
  by (simp add: create_Concat4_def)

lemma create_Concat8_N:
  "create_ConcatN [a, b, c, d, e, f, g, h] = Some (create_Concat8 a b c d e f g h)"
  by (simp add: create_Concat8_def create_Concat4_def)

lemma create_ConcatN_bytes:
  assumes "ks \<noteq> []" "\<And>k. k \<in> set ks \<Longrightarrow> wt k \<and> getWidth k = 8"
  shows "\<exists>e. create_ConcatN ks = Some e \<and> wt e \<and> getWidth e = 8 * length ks \<and>
             (\<forall>\<rho>. eval \<rho> e = big_endian (map (eval \<rho>) ks))"
  using concat_all_bytes[OF assms] create_ConcatN_simplifies[of ks]
  by (auto simp: simplifies_def option_rel_Some2)

end
