(* ===== verification/ExprProps.thy ===== *)
theory ExprProps
  imports ExprCreateCorrect
begin

text \<open>
  The properties of the smart constructors, stated over the value of expressions, each with an
  instance on a symbolic 16-byte array and a constant table.
\<close>

section \<open>Sample inputs\<close>

definition sample_array :: array where
  "sample_array = \<lparr>addr = 64, name = ''x'', arr_size = 16, domain_w = 32, range_w = 8,
                   constantValues = []\<rparr>"
definition sample_table :: array where
  "sample_table = \<lparr>addr = 128, name = ''t'', arr_size = 4, domain_w = 32, range_w = 8,
                   constantValues = [10, 20, 30, 40]\<rparr>"
definition sample_env :: env where
  "sample_env a i = 3 * i + 5"
definition sample_byte :: "int \<Rightarrow> expr" where
  "sample_byte i = ReadExpr sample_array NoUpdate (ConstantExpr (APInt 32 i))"

lemmas sample_defs = sample_array_def sample_table_def sample_env_def sample_byte_def

section \<open>Binary operators\<close>

text \<open>C1: For every binary kind and all well-typed operands of one width, \<open>XxxExpr::create\<close>
  returns a well-typed expression of the right width whose value in every environment is the
  operator applied to the values of the operands. For the four divisions this holds in the
  environments where the divisor is not zero, as division by zero is undefined.\<close>

theorem create_Binary_sound:
  assumes "wt l" "wt r" "getWidth l = getWidth r" "isDivKind k \<Longrightarrow> eval \<rho> r \<noteq> 0"
  shows "wt (create_Binary k l r) \<and>
         getWidth (create_Binary k l r) = (if isCmpKind k then 1 else getWidth l) \<and>
         eval \<rho> (create_Binary k l r) = bop k (getWidth l) (eval \<rho> l) (eval \<rho> r)"
proof (cases "isDivKind k")
  case True
  then show ?thesis
    using assms wt_create_div[OF True, of l r] eval_create_div[OF True, of l r \<rho>]
    by (auto simp: isDivKind_def)
next
  case False
  then show ?thesis
    using assms simplifiesD[OF simplifies_create_Binary[OF False], of l r] by simp
qed

theorem create_Binary_sound_witness:
  "eval sample_env (create_Binary Sub (BinaryExpr Add (ConstantExpr (APInt 8 250)) (sample_byte 3))
                                      (sample_byte 1)) = 0"
proof -
  let ?l = "BinaryExpr Add (ConstantExpr (APInt 8 250)) (sample_byte 3)" and ?r = "sample_byte 1"
  have "wt ?l" "wt ?r" "getWidth ?l = getWidth ?r"
    by code_simp+
  then have "eval sample_env (create_Binary Sub ?l ?r)
      = bop Sub (getWidth ?l) (eval sample_env ?l) (eval sample_env ?r)"
    using create_Binary_sound[of ?l ?r Sub sample_env] by (simp add: isDivKind_def)
  also have "\<dots> = 0"
    by code_simp
  finally show ?thesis .
qed

section \<open>Structure\<close>

text \<open>C2: \<open>ExtractExpr::create\<close> on any well-typed expression (with its fusion of nested
  extracts and concatenations) terminates and denotes bits \<open>off\<close> to \<open>off + w - 1\<close> of its value.\<close>

theorem create_Extract_sound:
  assumes "wt e" "0 < w" "off + w \<le> getWidth e"
  shows "wt (create_Extract e off w) \<and> getWidth (create_Extract e off w) = w \<and>
         eval \<rho> (create_Extract e off w) = take_bit w (drop_bit off (eval \<rho> e))"
  using simplifiesD[OF simplifies_create_Extract, of e off w] assms by simp

theorem create_Extract_sound_witness:
  "eval sample_env
     (create_Extract (ConcatExpr (sample_byte 1) (ConcatExpr (sample_byte 2) (sample_byte 3))) 4 12) = 176"
proof -
  let ?e = "ConcatExpr (sample_byte 1) (ConcatExpr (sample_byte 2) (sample_byte 3))"
  have "wt ?e" "0 < (12::nat)" "4 + 12 \<le> getWidth ?e"
    by code_simp+
  from create_Extract_sound[OF this, of sample_env]
  have "eval sample_env (create_Extract ?e 4 12) = take_bit 12 (drop_bit 4 (eval sample_env ?e))"
    by (elim conjE)
  also have "\<dots> = 176"
    by code_simp
  finally show ?thesis .
qed

text \<open>\<open>ConcatExpr::createN\<close> of one or more byte expressions is the number those bytes spell,
  most significant first, and has eight bits per byte: what every multi-byte memory access of
  the interpreter relies on.\<close>

lemma create_ConcatN_sound:
  assumes "ks \<noteq> []" "\<And>k. k \<in> set ks \<Longrightarrow> wt k \<and> getWidth k = 8"
  shows "\<exists>e. create_ConcatN ks = Some e \<and> wt e \<and> getWidth e = 8 * length ks \<and>
             eval \<rho> e = big_endian (map (eval \<rho>) ks)"
  using create_ConcatN_bytes[OF assms] by blast

lemma create_ConcatN_sound_witness:
  "\<exists>e. create_ConcatN [sample_byte 2, ConstantExpr (APInt 8 1), sample_byte 0] = Some e \<and>
       wt e \<and> getWidth e = 24 \<and> eval sample_env e = 721157"
proof -
  let ?ks = "[sample_byte 2, ConstantExpr (APInt 8 1), sample_byte 0]"
  have "wt k \<and> getWidth k = 8" if "k \<in> set ?ks" for k
    using that by (auto simp: sample_defs wf_array_def isSymbolicArray_def fits_def)
  from create_ConcatN_sound[where ks = ?ks and \<rho> = sample_env, OF _ this]
  have "\<exists>e. create_ConcatN ?ks = Some e \<and> wt e \<and> getWidth e = 8 * length ?ks \<and>
             eval sample_env e = big_endian (map (eval sample_env) ?ks)"
    by (simp only: list.distinct not_False_eq_True)
  moreover have "8 * length ?ks = 24" "big_endian (map (eval sample_env) ?ks) = 721157"
    by code_simp+
  ultimately show ?thesis by (simp only:)
qed

text \<open>C3: \<open>SelectExpr::create\<close> chooses the value of its second operand where the condition is
  true and of its third where it is false, also where it rewrites a boolean choice to
  conjunctions and disjunctions.\<close>

theorem create_Select_sound:
  assumes "wt c" "wt t" "wt f" "getWidth c = 1" "getWidth t = getWidth f"
  shows "wt (create_Select c t f) \<and> getWidth (create_Select c t f) = getWidth t \<and>
         eval \<rho> (create_Select c t f) = (if eval \<rho> c = 1 then eval \<rho> t else eval \<rho> f)"
  using simplifiesD[OF simplifies_create_Select, of c t f] assms eval_Bool[of c \<rho>] by auto

theorem create_Select_sound_witness:
  "eval sample_env (create_Select (BinaryExpr Ult (sample_byte 0) (sample_byte 1))
      (ConstantExpr (APInt 1 0)) (BinaryExpr Eq (sample_byte 0) (sample_byte 0))) = 0"
proof -
  let ?c = "BinaryExpr Ult (sample_byte 0) (sample_byte 1)" and ?t = "ConstantExpr (APInt 1 0)"
    and ?f = "BinaryExpr Eq (sample_byte 0) (sample_byte 0)"
  have "wt ?c" "wt ?t" "wt ?f" "getWidth ?c = 1" "getWidth ?t = getWidth ?f"
    by code_simp+
  from create_Select_sound[OF this, of sample_env]
  have "eval sample_env (create_Select ?c ?t ?f)
      = (if eval sample_env ?c = 1 then eval sample_env ?t else eval sample_env ?f)"
    by (elim conjE)
  also have "\<dots> = 0"
    by code_simp
  finally show ?thesis .
qed

section \<open>Array reads\<close>

text \<open>C4: \<open>ReadExpr::create\<close> fails its assertion exactly for a constant index of more than 64 bits into
  a constant array none of whose updates is known or may be at that index. Otherwise it returns an
  expression of the range's width for the value of the most recent write to the index, or for the
  initial contents of the array where no write matches, whether it resolves the read at once (a
  write with the same index, an element of a constant array) or keeps it symbolic.\<close>

theorem create_Read_sound:
  assumes "wf_array a" "wt_updates a us" "wt i" "getWidth i = domain_w a"
  shows "case create_Read a us i of
           None \<Rightarrow> isConstantArray a \<and> isConstantExpr i \<and> 64 < getWidth i \<and> read_scan i us = (None, False)
         | Some e \<Rightarrow>
             \<not> (isConstantArray a \<and> isConstantExpr i \<and> 64 < getWidth i \<and> read_scan i us = (None, False)) \<and>
             wt e \<and> getWidth e = range_w a \<and> eval \<rho> e = read_updates \<rho> a us (eval \<rho> i)"
proof (cases "create_Read a us i")
  case None
  then show ?thesis
    by (auto simp: create_Read_def split: prod.splits option.splits if_splits)
next
  case (Some e)
  then have "create_Read_value a us i = e"
    by (simp add: create_Read_value_def)
  with simplifiesD[OF simplifies_create_Read_value, of a us i] assms
  have "wt e" "getWidth e = range_w a" "eval \<rho> e = read_updates \<rho> a us (eval \<rho> i)"
    by auto
  with Some show ?thesis
    by (auto simp: create_Read_def isConstantExpr_def)
qed

theorem create_Read_sound_witness:
  "create_Read sample_table NoUpdate (ConstantExpr (APInt 32 2)) = Some (ConstantExpr (APInt 8 30)) \<and>
   read_updates sample_env sample_table NoUpdate 2 = 30"
proof -
  let ?i = "ConstantExpr (APInt 32 2)"
  have "wf_array sample_table" "wt_updates sample_table NoUpdate" "wt ?i"
      "getWidth ?i = domain_w sample_table"
    by code_simp+
  note * = create_Read_sound[OF this, of sample_env]
  have **: "create_Read sample_table NoUpdate ?i = Some (ConstantExpr (APInt 8 30))"
    by code_simp
  with * show ?thesis by simp
qed

text \<open>\<open>Expr::createTempRead\<close> of 8, 16, 32 or 64 bits is the little endian number stored in
  the first bytes of the array.\<close>

lemma createTempRead_sound:
  assumes "wf_array a" "domain_w a = 32" "range_w a = 8" "n \<in> {1, 2, 4, 8}"
  shows "\<exists>e. createTempRead a (8 * n) = Some e \<and> wt e \<and> getWidth e = 8 * n \<and>
             eval \<rho> e = (\<Sum>i<n. initial_value \<rho> a (int i) * 256 ^ i)"
proof -
  define ks where "ks = map (\<lambda>i. read_at a (int i)) (rev [0..<n])"
  have byte: "wt (read_at a (int i)) \<and> getWidth (read_at a (int i)) = 8 \<and>
        eval \<rho> (read_at a (int i)) = initial_value \<rho> a (int i)" if "i < n" for i
    using read_at_correct[OF assms(1-3), of "int i" \<rho>] that assms(4) by auto
  have descending: "rev [0..<1] = [0]" "rev [0..<2] = [1, 0]" "rev [0..<4] = [3, 2, 1, 0]"
      "rev [0..<8] = [7, 6, 5, 4, 3, 2, 1, 0::nat]"
    by code_simp+
  have "create_ConcatN ks = createTempRead a (8 * n)"
    using assms(4) descending unfolding ks_def
    by (auto simp: createTempRead_def simp flip: create_Concat4_N create_Concat8_N
             simp del: create_ConcatN.simps(3)) simp
  moreover have "\<exists>e. create_ConcatN ks = Some e \<and> wt e \<and> getWidth e = 8 * length ks \<and>
      eval \<rho> e = big_endian (map (eval \<rho>) ks)"
  proof -
    have "ks \<noteq> []" "\<And>k. k \<in> set ks \<Longrightarrow> wt k \<and> getWidth k = 8"
      using byte assms(4) by (auto simp: ks_def)
    from create_ConcatN_bytes[OF this] show ?thesis by blast
  qed
  moreover have "length ks = n"
    by (simp add: ks_def)
  moreover have "map (eval \<rho>) ks = map (\<lambda>i. initial_value \<rho> a (int i)) (rev [0..<n])"
    using byte by (auto simp: ks_def)
  ultimately show ?thesis
    by (auto simp: big_endian_little)
qed

lemma createTempRead_sound_witness:
  "\<exists>e. createTempRead sample_table 32 = Some e \<and> eval sample_env e = 673059850"
proof -
  have "wf_array sample_table" "domain_w sample_table = 32" "range_w sample_table = 8"
      "(4::nat) \<in> {1, 2, 4, 8}"
    by code_simp+
  from createTempRead_sound[OF this, of sample_env]
  have "\<exists>e. createTempRead sample_table 32 = Some e \<and>
      eval sample_env e = (\<Sum>i<4. initial_value sample_env sample_table (int i) * 256 ^ i)"
    by (auto simp del: sum.lessThan_Suc)
  moreover have "(\<Sum>i<4. initial_value sample_env sample_table (int i) * 256 ^ i) = 673059850"
    by (simp add: eval_nat_numeral sample_table_def initial_value_def isConstantArray_def
        isSymbolicArray_def)
  ultimately show ?thesis by simp
qed

end
