(* ===== verification/ExprBuilder.thy ===== *)
theory ExprBuilder
  imports ExprProps
begin

text \<open>
  The expression builders of \<^verbatim>\<open>lib/klee/Expr/ExprBuilder.cpp\<close> that the query parser
  builds with. A builder is a record of its virtual methods. \<open>DefaultExprBuilder\<close> allocates,
  \<open>ConstantFoldingExprBuilder\<close> (over the default builder) folds constants and reassociates sums,
  and \<open>SimplifyingExprBuilder\<close> (over the folding builder) normalises comparisons and negations:
  the chain that \<^verbatim>\<open>tools/kleaver/main.cpp\<close> sets up. \<open>Builder\<close> in the code is the outermost
  builder of a specialised class, \<open>Base\<close> the builder below it.
\<close>

section \<open>Builders\<close>

record builder =
  b_Constant :: "apint \<Rightarrow> expr"
  b_NotOptimized :: "expr \<Rightarrow> expr"
  b_Read :: "array \<Rightarrow> updates \<Rightarrow> expr \<Rightarrow> expr"
  b_Select :: "expr \<Rightarrow> expr \<Rightarrow> expr \<Rightarrow> expr"
  b_Concat :: "expr \<Rightarrow> expr \<Rightarrow> expr"
  b_Extract :: "expr \<Rightarrow> nat \<Rightarrow> nat \<Rightarrow> expr"
  b_ZExt :: "expr \<Rightarrow> nat \<Rightarrow> expr"
  b_SExt :: "expr \<Rightarrow> nat \<Rightarrow> expr"
  b_Not :: "expr \<Rightarrow> expr"
  b_Binary :: "bkind \<Rightarrow> expr \<Rightarrow> expr \<Rightarrow> expr"

definition DefaultExprBuilder :: builder where
  "DefaultExprBuilder =
     \<lparr>b_Constant = ConstantExpr, b_NotOptimized = NotOptimizedExpr, b_Read = ReadExpr,
      b_Select = SelectExpr, b_Concat = ConcatExpr, b_Extract = ExtractExpr,
      b_ZExt = ZExtExpr, b_SExt = SExtExpr, b_Not = NotExpr, b_Binary = BinaryExpr\<rparr>"

section \<open>The dispatch on constant operands\<close>

text \<open>
  \<open>ConstantSpecializedExprBuilder\<close>: fold constants, otherwise call the specialised class. A
  method that the specialised class inherits from \<open>ChainedBuilder\<close> is the base builder's.
\<close>

fun cs_rollback :: "(expr \<Rightarrow> expr \<Rightarrow> expr) \<Rightarrow> expr \<Rightarrow> updates \<Rightarrow> updates" where
  "cs_rollback eq index NoUpdate = NoUpdate"
| "cs_rollback eq index (UpdateNode x v next) =
     (if isFalse (eq index x) then cs_rollback eq index next else UpdateNode x v next)"

definition cs_Read :: "(expr \<Rightarrow> expr \<Rightarrow> expr) \<Rightarrow> builder \<Rightarrow> array \<Rightarrow> updates \<Rightarrow> expr \<Rightarrow> expr" where
  "cs_Read eq base a us index = b_Read base a (cs_rollback eq index us) index"

definition cs_Select :: "builder \<Rightarrow> expr \<Rightarrow> expr \<Rightarrow> expr \<Rightarrow> expr" where
  "cs_Select base c l r =
     (case dyn_Constant c of
        Some ce \<Rightarrow> if CE_isTrue ce then l else r
      | None \<Rightarrow> b_Select base c l r)"

definition cs_Concat :: "builder \<Rightarrow> expr \<Rightarrow> expr \<Rightarrow> expr" where
  "cs_Concat base = BCREATE CE_Concat (b_Concat base)"

definition cs_Extract :: "builder \<Rightarrow> expr \<Rightarrow> nat \<Rightarrow> nat \<Rightarrow> expr" where
  "cs_Extract base e off w =
     (case dyn_Constant e of
        Some c \<Rightarrow> ConstantExpr (CE_Extract c off w) | None \<Rightarrow> b_Extract base e off w)"

definition cs_ZExt :: "builder \<Rightarrow> expr \<Rightarrow> nat \<Rightarrow> expr" where
  "cs_ZExt base e w =
     (case dyn_Constant e of Some c \<Rightarrow> ConstantExpr (CE_ZExt c w) | None \<Rightarrow> b_ZExt base e w)"

definition cs_SExt :: "builder \<Rightarrow> expr \<Rightarrow> nat \<Rightarrow> expr" where
  "cs_SExt base e w =
     (case dyn_Constant e of Some c \<Rightarrow> ConstantExpr (CE_SExt c w) | None \<Rightarrow> b_SExt base e w)"

definition cs_Not :: "(expr \<Rightarrow> expr) \<Rightarrow> expr \<Rightarrow> expr" where
  "cs_Not helper e =
     (case e of NotExpr x \<Rightarrow> x | ConstantExpr c \<Rightarrow> ConstantExpr (CE_Not c) | _ \<Rightarrow> helper e)"

text \<open>A binary method whose three overloads are all inherited.\<close>

definition cs_forward :: "builder \<Rightarrow> bkind \<Rightarrow> expr \<Rightarrow> expr \<Rightarrow> expr" where
  "cs_forward base k = BCREATE (const_op k) (b_Binary base k)"

section \<open>The constant folding builder\<close>

text \<open>
  \<open>const_right\<close> recognises \<open>x op C\<close>. The overloads on a constant and a non-constant
  operand call \<open>Builder->Add\<close> or \<open>Builder->Sub\<close> with a constant on the left, which folds or calls
  the same overload again; \<open>Base\<close> is the default builder.
\<close>

definition const_right :: "bkind \<Rightarrow> expr \<Rightarrow> (expr \<times> apint) option" where
  "const_right k e =
     (case dyn_Binary k e of
        Some (l, r) \<Rightarrow> (case dyn_Constant r of Some c \<Rightarrow> Some (l, c) | None \<Rightarrow> None)
      | None \<Rightarrow> None)"

lemma const_right_Some [simp]:
  "const_right k e = Some (x, c) \<longleftrightarrow> e = BinaryExpr k x (ConstantExpr c)"
  by (auto simp: const_right_def dyn_Binary_def split: option.splits expr.splits)

lemma const_right_BinaryExpr [simp]:
  "const_right k (BinaryExpr k' l r) =
     (if k' = k then map_option (\<lambda>c. (l, c)) (dyn_Constant r) else None)"
  by (auto simp: const_right_def split: option.splits)

function cf_Add_CN :: "apint \<Rightarrow> expr \<Rightarrow> expr"
  and cf_Sub_CN :: "apint \<Rightarrow> expr \<Rightarrow> expr" where
  "cf_Add_CN c r =
     (if CE_isZero c then r
      else case const_left Add r of
          Some (d, x) \<Rightarrow> (let c' = CE_Add c d in case dyn_Constant x of
              Some e \<Rightarrow> ConstantExpr (CE_Add c' e) | None \<Rightarrow> cf_Add_CN c' x)
        | None \<Rightarrow> (case const_right Add r of
          Some (x, d) \<Rightarrow> (let c' = CE_Add c d in case dyn_Constant x of
              Some e \<Rightarrow> ConstantExpr (CE_Add c' e) | None \<Rightarrow> cf_Add_CN c' x)
        | None \<Rightarrow> (case const_left Sub r of
          Some (d, x) \<Rightarrow> (let c' = CE_Add c d in case dyn_Constant x of
              Some e \<Rightarrow> ConstantExpr (CE_Sub c' e) | None \<Rightarrow> cf_Sub_CN c' x)
        | None \<Rightarrow> (case const_right Sub r of
          Some (x, d) \<Rightarrow> (let c' = CE_Sub c d in case dyn_Constant x of
              Some e \<Rightarrow> ConstantExpr (CE_Add c' e) | None \<Rightarrow> cf_Add_CN c' x)
        | None \<Rightarrow> b_Binary DefaultExprBuilder Add (ConstantExpr c) r))))"
| "cf_Sub_CN c r =
     (case const_left Add r of
        Some (d, x) \<Rightarrow> (let c' = CE_Sub c d in case dyn_Constant x of
            Some e \<Rightarrow> ConstantExpr (CE_Sub c' e) | None \<Rightarrow> cf_Sub_CN c' x)
      | None \<Rightarrow> (case const_right Add r of
        Some (x, d) \<Rightarrow> (let c' = CE_Sub c d in case dyn_Constant x of
            Some e \<Rightarrow> ConstantExpr (CE_Sub c' e) | None \<Rightarrow> cf_Sub_CN c' x)
      | None \<Rightarrow> (case const_left Sub r of
        Some (d, x) \<Rightarrow> (let c' = CE_Sub c d in case dyn_Constant x of
            Some e \<Rightarrow> ConstantExpr (CE_Add c' e) | None \<Rightarrow> cf_Add_CN c' x)
      | None \<Rightarrow> (case const_right Sub r of
        Some (x, d) \<Rightarrow> (let c' = CE_Add c d in case dyn_Constant x of
            Some e \<Rightarrow> ConstantExpr (CE_Sub c' e) | None \<Rightarrow> cf_Sub_CN c' x)
      | None \<Rightarrow> b_Binary DefaultExprBuilder Sub (ConstantExpr c) r))))"
  by pat_completeness auto
termination
  by (relation "measure (\<lambda>x. case x of Inl (c, r) \<Rightarrow> size r | Inr (c, r) \<Rightarrow> size r)") auto

declare cf_Add_CN.simps [simp del] cf_Sub_CN.simps [simp del]

text \<open>\<open>Builder->Add\<close> with a constant on the left.\<close>

definition cf_Add_C :: "apint \<Rightarrow> expr \<Rightarrow> expr" where
  "cf_Add_C c x =
     (case dyn_Constant x of Some d \<Rightarrow> ConstantExpr (CE_Add c d) | None \<Rightarrow> cf_Add_CN c x)"
definition cf_Sub_C :: "apint \<Rightarrow> expr \<Rightarrow> expr" where
  "cf_Sub_C c x =
     (case dyn_Constant x of Some d \<Rightarrow> ConstantExpr (CE_Sub c d) | None \<Rightarrow> cf_Sub_CN c x)"

text \<open>The general methods with their overloads on two non-constant operands.\<close>

function cf_Add :: "expr \<Rightarrow> expr \<Rightarrow> expr"
  and cf_Sub :: "expr \<Rightarrow> expr \<Rightarrow> expr" where
  "cf_Add l r =
     (case dyn_Constant l of
        Some c \<Rightarrow> cf_Add_C c r
      | None \<Rightarrow> (case dyn_Constant r of
        Some c \<Rightarrow> cf_Add_CN c l
      | None \<Rightarrow> (case dyn_Binary Add l of
        Some (x, y) \<Rightarrow> cf_Add x (cf_Add y r)
      | None \<Rightarrow> (case dyn_Binary Sub l of
        Some (x, y) \<Rightarrow> cf_Add x (cf_Sub r y)
      | None \<Rightarrow> (case const_left Add r of
        Some (c, y) \<Rightarrow> cf_Add_C c (cf_Add l y)
      | None \<Rightarrow> (case const_right Add r of
        Some (y, c) \<Rightarrow> cf_Add_C c (cf_Add l y)
      | None \<Rightarrow> (case const_left Sub r of
        Some (c, y) \<Rightarrow> cf_Add_C c (cf_Sub l y)
      | None \<Rightarrow> (case const_right Sub r of
        Some (y, c) \<Rightarrow> cf_Add_C (CE_Neg c) (cf_Add l y)
      | None \<Rightarrow> b_Binary DefaultExprBuilder Add l r))))))))"
| "cf_Sub l r =
     (case dyn_Constant l of
        Some c \<Rightarrow> cf_Sub_C c r
      | None \<Rightarrow> (case dyn_Constant r of
        Some c \<Rightarrow> cf_Add_CN (CE_Neg c) l
      | None \<Rightarrow> (case dyn_Binary Add l of
        Some (x, y) \<Rightarrow> cf_Add x (cf_Sub y r)
      | None \<Rightarrow> (case dyn_Binary Sub l of
        Some (x, y) \<Rightarrow> cf_Sub x (cf_Add y r)
      | None \<Rightarrow> (case const_left Add r of
        Some (c, y) \<Rightarrow> cf_Add_C (CE_Neg c) (cf_Sub l y)
      | None \<Rightarrow> (case const_right Add r of
        Some (y, c) \<Rightarrow> cf_Add_C (CE_Neg c) (cf_Sub l y)
      | None \<Rightarrow> (case const_left Sub r of
        Some (c, y) \<Rightarrow> cf_Add_C (CE_Neg c) (cf_Add l y)
      | None \<Rightarrow> (case const_right Sub r of
        Some (y, c) \<Rightarrow> cf_Add_C c (cf_Sub l y)
      | None \<Rightarrow> b_Binary DefaultExprBuilder Sub l r))))))))"
  by pat_completeness auto

text \<open>
  Termination. The linear size counts the operators and the non-constant leaves of a sum; a
  method returns at most one more than the sizes of its operands, so that the outer call of
  \<open>x + (y + r)\<close> has no larger operands than \<open>(x + y) + r\<close> and a smaller left one.
\<close>

fun lsz :: "expr \<Rightarrow> nat" where
  "lsz (ConstantExpr _) = 0"
| "lsz (BinaryExpr _ l r) = 1 + lsz l + lsz r"
| "lsz _ = 1"

lemma lsz_pos: "dyn_Constant e = None \<Longrightarrow> 0 < lsz e"
  by (cases e) auto

lemma lsz_CN: "lsz (cf_Add_CN c r) \<le> 1 + lsz r \<and> lsz (cf_Sub_CN c r) \<le> 1 + lsz r"
proof (induction r arbitrary: c rule: measure_induct_rule[of size])
  case (less r)
  have "lsz (cf_Add_CN c r) \<le> 1 + lsz r"
    unfolding cf_Add_CN.simps[of c r] using less.IH
    by (auto simp: DefaultExprBuilder_def Let_def le_SucI split: option.split)
  moreover have "lsz (cf_Sub_CN c r) \<le> 1 + lsz r"
    unfolding cf_Sub_CN.simps[of c r] using less.IH
    by (auto simp: DefaultExprBuilder_def Let_def le_SucI split: option.split)
  ultimately show ?case ..
qed

lemma lsz_C: "lsz (cf_Add_C c r) \<le> 1 + lsz r" "lsz (cf_Sub_C c r) \<le> 1 + lsz r"
  using lsz_CN[of c r] by (auto simp: cf_Add_C_def cf_Sub_C_def split: option.split)

lemma lsz_C_le:
  "lsz x \<le> n \<Longrightarrow> lsz (cf_Add_C c x) \<le> Suc n" "lsz x \<le> n \<Longrightarrow> lsz (cf_Add_CN c x) \<le> Suc n"
  "lsz x \<le> n \<Longrightarrow> lsz (cf_Sub_C c x) \<le> Suc n"
  using lsz_C[of c x] lsz_CN[of c x] by auto

text \<open>The cases that the two methods distinguish, in their order.\<close>

lemma sum_cases:
  obtains (lC) c where "dyn_Constant l = Some c"
  | (rC) c where "dyn_Constant l = None" "dyn_Constant r = Some c"
  | (lAdd) x y where "dyn_Constant l = None" "dyn_Constant r = None" "dyn_Binary Add l = Some (x, y)"
  | (lSub) x y where "dyn_Constant l = None" "dyn_Constant r = None" "dyn_Binary Add l = None"
      "dyn_Binary Sub l = Some (x, y)"
  | (rCAdd) c y where "dyn_Constant l = None" "dyn_Constant r = None" "dyn_Binary Add l = None"
      "dyn_Binary Sub l = None" "const_left Add r = Some (c, y)"
  | (rAddC) y c where "dyn_Constant l = None" "dyn_Constant r = None" "dyn_Binary Add l = None"
      "dyn_Binary Sub l = None" "const_left Add r = None" "const_right Add r = Some (y, c)"
  | (rCSub) c y where "dyn_Constant l = None" "dyn_Constant r = None" "dyn_Binary Add l = None"
      "dyn_Binary Sub l = None" "const_left Add r = None" "const_right Add r = None"
      "const_left Sub r = Some (c, y)"
  | (rSubC) y c where "dyn_Constant l = None" "dyn_Constant r = None" "dyn_Binary Add l = None"
      "dyn_Binary Sub l = None" "const_left Add r = None" "const_right Add r = None"
      "const_left Sub r = None" "const_right Sub r = Some (y, c)"
  | (none) "dyn_Constant l = None" "dyn_Constant r = None" "dyn_Binary Add l = None"
      "dyn_Binary Sub l = None" "const_left Add r = None" "const_right Add r = None"
      "const_left Sub r = None" "const_right Sub r = None"
  by (metis not_None_eq surj_pair)

lemma lsz_nested:
  "cf_Add_cf_Sub_dom (Inl (l, r)) \<Longrightarrow> lsz (cf_Add l r) \<le> 1 + lsz l + lsz r"
  "cf_Add_cf_Sub_dom (Inr (l, r)) \<Longrightarrow> lsz (cf_Sub l r) \<le> 1 + lsz l + lsz r"
proof (induction rule: cf_Add_cf_Sub.pinduct)
  case (1 l r)
  note unf = cf_Add.psimps[OF 1(1)]
  show ?case
  proof (cases rule: sum_cases[where l = l and r = r])
    case lAdd then show ?thesis unfolding unf using 1(8,9)[OF lAdd refl] by simp
  next
    case lSub then show ?thesis unfolding unf using 1(6,7)[OF lSub refl] by simp
  next
    case rCAdd then show ?thesis unfolding unf using 1(5)[OF rCAdd refl] by (simp add: lsz_C_le)
  next
    case rAddC then show ?thesis unfolding unf using 1(4)[OF rAddC refl] by (simp add: lsz_C_le)
  next
    case rCSub then show ?thesis unfolding unf using 1(3)[OF rCSub refl] by (simp add: lsz_C_le)
  next
    case rSubC then show ?thesis unfolding unf using 1(2)[OF rSubC refl] by (simp add: lsz_C_le)
  qed (unfold unf, simp_all add: lsz_C_le DefaultExprBuilder_def)
next
  case (2 l r)
  note unf = cf_Sub.psimps[OF 2(1)]
  show ?case
  proof (cases rule: sum_cases[where l = l and r = r])
    case lAdd then show ?thesis unfolding unf using 2(8,9)[OF lAdd refl] by simp
  next
    case lSub then show ?thesis unfolding unf using 2(6,7)[OF lSub refl] by simp
  next
    case rCAdd then show ?thesis unfolding unf using 2(5)[OF rCAdd refl] by (simp add: lsz_C_le)
  next
    case rAddC then show ?thesis unfolding unf using 2(4)[OF rAddC refl] by (simp add: lsz_C_le)
  next
    case rCSub then show ?thesis unfolding unf using 2(3)[OF rCSub refl] by (simp add: lsz_C_le)
  next
    case rSubC then show ?thesis unfolding unf using 2(2)[OF rSubC refl] by (simp add: lsz_C_le)
  qed (unfold unf, simp_all add: lsz_C_le DefaultExprBuilder_def)
qed

termination cf_Add
  by (relation "inv_image (less_than <*lex*> less_than)
      (\<lambda>x. case x of Inl (l, r) \<Rightarrow> (lsz l + lsz r, lsz l) | Inr (l, r) \<Rightarrow> (lsz l + lsz r, lsz l))")
    (auto dest!: lsz_nested)

declare cf_Add.simps [simp del] cf_Sub.simps [simp del]

subsection \<open>The folded sum has the value of the sum\<close>

lemma const_sum_right:
  "simplifies (AddE (ConstantExpr (CE_Add c k)) x) (AddE (ConstantExpr c) (AddE x (ConstantExpr k)))"
  "simplifies (AddE (ConstantExpr (CE_Sub c k)) x) (AddE (ConstantExpr c) (SubE x (ConstantExpr k)))"
  "simplifies (SubE (ConstantExpr (CE_Sub c k)) x) (SubE (ConstantExpr c) (AddE x (ConstantExpr k)))"
  "simplifies (SubE (ConstantExpr (CE_Add c k)) x) (SubE (ConstantExpr c) (SubE x (ConstantExpr k)))"
  by (auto simp: simplifies_def CE_arith_defs bv_defs algebra_simps)

lemmas const_sum_rights = simplifies_trans[OF _ const_sum_right(1)]
  simplifies_trans[OF _ const_sum_right(2)] simplifies_trans[OF _ const_sum_right(3)]
  simplifies_trans[OF _ const_sum_right(4)]

lemma const_out:
  "simplifies (AddE (ConstantExpr c) (AddE l y)) (AddE l (AddE (ConstantExpr c) y))"
  "simplifies (AddE (ConstantExpr c) (AddE l y)) (AddE l (AddE y (ConstantExpr c)))"
  "simplifies (AddE (ConstantExpr c) (SubE l y)) (AddE l (SubE (ConstantExpr c) y))"
  "simplifies (AddE (ConstantExpr (CE_Neg c)) (AddE l y)) (AddE l (SubE y (ConstantExpr c)))"
  "simplifies (AddE (ConstantExpr (CE_Neg c)) (SubE l y)) (SubE l (AddE (ConstantExpr c) y))"
  "simplifies (AddE (ConstantExpr (CE_Neg c)) (SubE l y)) (SubE l (AddE y (ConstantExpr c)))"
  "simplifies (AddE (ConstantExpr (CE_Neg c)) (AddE l y)) (SubE l (SubE (ConstantExpr c) y))"
  "simplifies (AddE (ConstantExpr c) (SubE l y)) (SubE l (SubE y (ConstantExpr c)))"
  "simplifies (AddE (ConstantExpr (CE_Neg c)) l) (SubE l (ConstantExpr c))"
  by (auto simp: simplifies_def CE_arith_defs CE_Neg_def bv_defs) (auto simp: algebra_simps)

lemma simplifies_cf_CN:
  "simplifies (cf_Add_CN c r) (AddE (ConstantExpr c) r) \<and>
   simplifies (cf_Sub_CN c r) (SubE (ConstantExpr c) r)"
proof (induction r arbitrary: c rule: measure_induct_rule[of size])
  case (less r)
  have IH: "simplifies (cf_Add_CN k x) (AddE (ConstantExpr k) x)"
      "simplifies (cf_Sub_CN k x) (SubE (ConstantExpr k) x)" if "size x < size r" for x k
    using less.IH[OF that] by auto
  show ?case
  proof
    show "simplifies (cf_Add_CN c r) (AddE (ConstantExpr c) r)"
      unfolding cf_Add_CN.simps[of c r] Let_def
      using AddSub_zero(1)[of c r] IH fold_Add fold_Sub
      by (auto simp: DefaultExprBuilder_def const_sum const_sum_rights split: option.split)
    show "simplifies (cf_Sub_CN c r) (SubE (ConstantExpr c) r)"
      unfolding cf_Sub_CN.simps[of c r] Let_def
      using IH fold_Add fold_Sub
      by (auto simp: DefaultExprBuilder_def const_sum const_sum_rights split: option.split)
  qed
qed

lemma simplifies_cf_C:
  "simplifies e x \<Longrightarrow> simplifies (cf_Add_C c e) (AddE (ConstantExpr c) x)"
  "simplifies e x \<Longrightarrow> simplifies (cf_Sub_C c e) (SubE (ConstantExpr c) x)"
  by (rule simplifies_trans[OF _ simplifies_Binary_r],
      use simplifies_cf_CN fold_Add fold_Sub in
        \<open>auto simp: cf_Add_C_def cf_Sub_C_def split: option.splits\<close>)+

lemma cf_NC:
  "simplifies (cf_Add_CN c l) (AddE l (ConstantExpr c))"
  "simplifies (cf_Add_CN (CE_Neg c) l) (SubE l (ConstantExpr c))"
  using simplifies_cf_CN reassoc(13) const_out(9) by (blast intro: simplifies_trans)+

lemma cf_nest:
  "simplifies e (AddE x e') \<Longrightarrow> simplifies e' (AddE y r) \<Longrightarrow> simplifies e (AddE (AddE x y) r)"
  "simplifies e (AddE x e') \<Longrightarrow> simplifies e' (SubE r y) \<Longrightarrow> simplifies e (AddE (SubE x y) r)"
  "simplifies e (AddE x e') \<Longrightarrow> simplifies e' (SubE y r) \<Longrightarrow> simplifies e (SubE (AddE x y) r)"
  "simplifies e (SubE x e') \<Longrightarrow> simplifies e' (AddE y r) \<Longrightarrow> simplifies e (SubE (SubE x y) r)"
  by (erule simplifies_trans, rule simplifies_trans[OF simplifies_Binary_r], assumption, rule reassoc)+

lemmas cf_const_rules = simplifies_trans[OF simplifies_cf_C(1) const_out(1)]
  simplifies_trans[OF simplifies_cf_C(1) const_out(2)]
  simplifies_trans[OF simplifies_cf_C(1) const_out(3)]
  simplifies_trans[OF simplifies_cf_C(1) const_out(4)]
  simplifies_trans[OF simplifies_cf_C(1) const_out(5)]
  simplifies_trans[OF simplifies_cf_C(1) const_out(6)]
  simplifies_trans[OF simplifies_cf_C(1) const_out(7)]
  simplifies_trans[OF simplifies_cf_C(1) const_out(8)]

lemma simplifies_cf_AddSub:
  "simplifies (cf_Add l r) (AddE l r)"
  "simplifies (cf_Sub l r) (SubE l r)"
proof (induction l r and l r rule: cf_Add_cf_Sub.induct)
  case (1 l r)
  note unf = cf_Add.simps[of l r]
  show ?case
  proof (cases rule: sum_cases[where l = l and r = r])
    case lAdd then show ?thesis unfolding unf using 1(7,8)[OF lAdd refl] by (simp add: cf_nest(1))
  next
    case lSub then show ?thesis unfolding unf using 1(5,6)[OF lSub refl] by (simp add: cf_nest(2))
  next
    case rCAdd then show ?thesis unfolding unf using 1(4)[OF rCAdd refl] by (simp add: cf_const_rules)
  next
    case rAddC then show ?thesis unfolding unf using 1(3)[OF rAddC refl] by (simp add: cf_const_rules)
  next
    case rCSub then show ?thesis unfolding unf using 1(2)[OF rCSub refl] by (simp add: cf_const_rules)
  next
    case rSubC then show ?thesis unfolding unf using 1(1)[OF rSubC refl] by (simp add: cf_const_rules)
  qed (unfold unf, simp_all add: simplifies_cf_C cf_NC DefaultExprBuilder_def)
next
  case (2 l r)
  note unf = cf_Sub.simps[of l r]
  show ?case
  proof (cases rule: sum_cases[where l = l and r = r])
    case lAdd then show ?thesis unfolding unf using 2(7,8)[OF lAdd refl] by (simp add: cf_nest(3))
  next
    case lSub then show ?thesis unfolding unf using 2(5,6)[OF lSub refl] by (simp add: cf_nest(4))
  next
    case rCAdd then show ?thesis unfolding unf using 2(4)[OF rCAdd refl] by (simp add: cf_const_rules)
  next
    case rAddC then show ?thesis unfolding unf using 2(3)[OF rAddC refl] by (simp add: cf_const_rules)
  next
    case rCSub then show ?thesis unfolding unf using 2(2)[OF rCSub refl] by (simp add: cf_const_rules)
  next
    case rSubC then show ?thesis unfolding unf using 2(1)[OF rSubC refl] by (simp add: cf_const_rules)
  qed (unfold unf, simp_all add: simplifies_cf_C cf_NC DefaultExprBuilder_def)
qed

subsection \<open>The other methods\<close>

definition cf_Mul_CN :: "apint \<Rightarrow> expr \<Rightarrow> expr" where
  "cf_Mul_CN c x =
     (if CE_isZero c then ConstantExpr c
      else if CE_isOne c then x
      else b_Binary DefaultExprBuilder Mul (ConstantExpr c) x)"
definition cf_And_CN :: "apint \<Rightarrow> expr \<Rightarrow> expr" where
  "cf_And_CN c x =
     (if CE_isZero c then ConstantExpr c
      else if CE_isAllOnes c then x
      else b_Binary DefaultExprBuilder And (ConstantExpr c) x)"
definition cf_Or_CN :: "apint \<Rightarrow> expr \<Rightarrow> expr" where
  "cf_Or_CN c x =
     (if CE_isZero c then x
      else if CE_isAllOnes c then ConstantExpr c
      else b_Binary DefaultExprBuilder Or (ConstantExpr c) x)"
definition cf_Xor_CN :: "apint \<Rightarrow> expr \<Rightarrow> expr" where
  "cf_Xor_CN c x =
     (if CE_isZero c then x else b_Binary DefaultExprBuilder Xor (ConstantExpr c) x)"
definition cf_Eq_CN :: "apint \<Rightarrow> expr \<Rightarrow> expr" where
  "cf_Eq_CN c x =
     (if getBitWidth c = 1
      then if CE_isTrue c then x else b_Not DefaultExprBuilder x
      else b_Binary DefaultExprBuilder Eq (ConstantExpr c) x)"

text \<open>The overload with the constant on the right swaps its operands.\<close>

fun cf_Binary :: "bkind \<Rightarrow> expr \<Rightarrow> expr \<Rightarrow> expr" where
  "cf_Binary Add = cf_Add"
| "cf_Binary Sub = cf_Sub"
| "cf_Binary Mul = BCREATE_R CE_Mul (\<lambda>x c. cf_Mul_CN c x) cf_Mul_CN (b_Binary DefaultExprBuilder Mul)"
| "cf_Binary And = BCREATE_R CE_And (\<lambda>x c. cf_And_CN c x) cf_And_CN (b_Binary DefaultExprBuilder And)"
| "cf_Binary Or = BCREATE_R CE_Or (\<lambda>x c. cf_Or_CN c x) cf_Or_CN (b_Binary DefaultExprBuilder Or)"
| "cf_Binary Xor = BCREATE_R CE_Xor (\<lambda>x c. cf_Xor_CN c x) cf_Xor_CN (b_Binary DefaultExprBuilder Xor)"
| "cf_Binary Eq = BCREATE_R CE_Eq (\<lambda>x c. cf_Eq_CN c x) cf_Eq_CN (b_Binary DefaultExprBuilder Eq)"
| "cf_Binary k = cs_forward DefaultExprBuilder k"

definition ConstantFoldingExprBuilder :: builder where
  "ConstantFoldingExprBuilder =
     \<lparr>b_Constant = b_Constant DefaultExprBuilder,
      b_NotOptimized = b_NotOptimized DefaultExprBuilder,
      b_Read = cs_Read (cf_Binary Eq) DefaultExprBuilder,
      b_Select = cs_Select DefaultExprBuilder, b_Concat = cs_Concat DefaultExprBuilder,
      b_Extract = cs_Extract DefaultExprBuilder, b_ZExt = cs_ZExt DefaultExprBuilder,
      b_SExt = cs_SExt DefaultExprBuilder, b_Not = cs_Not (b_Not DefaultExprBuilder),
      b_Binary = cf_Binary\<rparr>"

section \<open>The simplifying builder\<close>

function sb_Not :: "expr \<Rightarrow> expr" where
  "sb_Not e = cs_Not
     (\<lambda>_. case dyn_Binary Or e of
            Some (a, b) \<Rightarrow> cs_forward ConstantFoldingExprBuilder And (sb_Not a) (sb_Not b)
          | None \<Rightarrow> b_Not ConstantFoldingExprBuilder e) e"
  by pat_completeness auto
termination
  by (relation "measure size") auto

declare sb_Not.simps [simp del]

definition sb_Eq_CN :: "apint \<Rightarrow> expr \<Rightarrow> expr" where
  "sb_Eq_CN c x =
     (if getBitWidth c = 1
      then if CE_isTrue c then x else b_Not ConstantFoldingExprBuilder x
      else b_Binary ConstantFoldingExprBuilder Eq (ConstantExpr c) x)"
definition sb_Eq_NN :: "expr \<Rightarrow> expr \<Rightarrow> expr" where
  "sb_Eq_NN l r =
     (if l = r then alloc_Const 1 1 else b_Binary ConstantFoldingExprBuilder Eq l r)"
definition sb_Eq :: "expr \<Rightarrow> expr \<Rightarrow> expr" where
  "sb_Eq = BCREATE_R CE_Eq (\<lambda>x c. sb_Eq_CN c x) sb_Eq_CN sb_Eq_NN"

fun sb_Binary :: "bkind \<Rightarrow> expr \<Rightarrow> expr \<Rightarrow> expr" where
  "sb_Binary Eq = sb_Eq"
| "sb_Binary Ne = BCREATE CE_Ne (\<lambda>l r. sb_Not (sb_Eq l r))"
| "sb_Binary Ugt = BCREATE CE_Ugt (\<lambda>l r. cs_forward ConstantFoldingExprBuilder Ult r l)"
| "sb_Binary Uge = BCREATE CE_Uge (\<lambda>l r. cs_forward ConstantFoldingExprBuilder Ule r l)"
| "sb_Binary Sgt = BCREATE CE_Sgt (\<lambda>l r. cs_forward ConstantFoldingExprBuilder Slt r l)"
| "sb_Binary Sge = BCREATE CE_Sge (\<lambda>l r. cs_forward ConstantFoldingExprBuilder Sle r l)"
| "sb_Binary k = cs_forward ConstantFoldingExprBuilder k"

definition SimplifyingExprBuilder :: builder where
  "SimplifyingExprBuilder =
     \<lparr>b_Constant = b_Constant ConstantFoldingExprBuilder,
      b_NotOptimized = b_NotOptimized ConstantFoldingExprBuilder,
      b_Read = cs_Read (sb_Binary Eq) ConstantFoldingExprBuilder,
      b_Select = cs_Select ConstantFoldingExprBuilder,
      b_Concat = cs_Concat ConstantFoldingExprBuilder,
      b_Extract = cs_Extract ConstantFoldingExprBuilder,
      b_ZExt = cs_ZExt ConstantFoldingExprBuilder, b_SExt = cs_SExt ConstantFoldingExprBuilder,
      b_Not = sb_Not, b_Binary = sb_Binary\<rparr>"

text \<open>The builders that the option \<open>-builder\<close> of \<open>kleaver\<close> selects.\<close>

datatype BuilderKinds = DefaultBuilder | ConstantFoldingBuilder | SimplifyingBuilder

fun createBuilder :: "BuilderKinds \<Rightarrow> builder" where
  "createBuilder DefaultBuilder = DefaultExprBuilder"
| "createBuilder ConstantFoldingBuilder = ConstantFoldingExprBuilder"
| "createBuilder SimplifyingBuilder = SimplifyingExprBuilder"

section \<open>What a builder promises\<close>

text \<open>
  Each method returns an expression that may replace the one that the plain constructor would
  allocate: well typed where that is, of its width and of its value.
\<close>

locale expr_builder =
  fixes b :: builder
  assumes Constant: "b_Constant b v = ConstantExpr v"
    and NotOptimized: "b_NotOptimized b e = NotOptimizedExpr e"
    and Read: "simplifies (b_Read b a us i) (ReadExpr a us i)"
    and Select: "simplifies (b_Select b c l r) (SelectExpr c l r)"
    and Concat: "simplifies (b_Concat b l r) (ConcatExpr l r)"
    and Extract: "simplifies (b_Extract b e off w) (ExtractExpr e off w)"
    and ZExt: "simplifies (b_ZExt b e w) (ZExtExpr e w)"
    and SExt: "simplifies (b_SExt b e w) (SExtExpr e w)"
    and Not: "simplifies (b_Not b e) (NotExpr e)"
    and Binary: "simplifies (b_Binary b k l r) (BinaryExpr k l r)"

interpretation dflt: expr_builder DefaultExprBuilder
  by unfold_locales (simp_all add: DefaultExprBuilder_def)

text \<open>The dispatch keeps the promise of the builder below it.\<close>

context expr_builder
begin

lemma cs_Select: "simplifies (cs_Select b c l r) (SelectExpr c l r)"
  using Select by (auto simp: cs_Select_def CE_isTrue_def simplifies_def split: option.split)

lemma cs_Concat: "simplifies (cs_Concat b l r) (ConcatExpr l r)"
  using Concat simplifies_CE_Concat
  by (auto simp: cs_Concat_def BCREATE_def fold_constants_def split: option.splits)

lemma cs_Extract: "simplifies (cs_Extract b e off w) (ExtractExpr e off w)"
  using Extract simplifies_CE_Extract by (auto simp: cs_Extract_def split: option.split)

lemma cs_ZExt: "simplifies (cs_ZExt b e w) (ZExtExpr e w)"
  using ZExt by (auto simp: cs_ZExt_def CE_ZExt_def simplifies_def split: option.split)

lemma cs_SExt: "simplifies (cs_SExt b e w) (SExtExpr e w)"
  using SExt by (auto simp: cs_SExt_def CE_SExt_def simplifies_def sx_def
      take_bit_signed_take_bit split: option.split)

lemma cs_forward: "simplifies (cs_forward b k l r) (BinaryExpr k l r)"
  unfolding cs_forward_def by (rule simplifies_BCREATE) (rule Binary)

lemma cs_Not:
  "simplifies (helper e) (NotExpr e) \<Longrightarrow> simplifies (cs_Not helper e) (NotExpr e)"
  by (auto simp: cs_Not_def CE_Not_def simplifies_def bv_not_def take_bit_not_take_bit
      split: expr.split)

lemma cs_rollback:
  assumes "wf_array a" "wt_updates a us" "wt i" "getWidth i = domain_w a"
    and "\<And>l r. simplifies (eq l r) (BinaryExpr Eq l r)"
  shows "wt_updates a (cs_rollback eq i us) \<and>
         read_updates \<rho> a (cs_rollback eq i us) (eval \<rho> i) = read_updates \<rho> a us (eval \<rho> i)"
  using assms
proof (induction eq i us rule: cs_rollback.induct)
  case (2 eq i x v nx)
  have "eval \<rho> x \<noteq> eval \<rho> i" if "isFalse (eq i x)"
    using that simplifiesD(3)[OF 2(6)[of i x], of \<rho>] 2(3,4,5)
    by (auto simp: isFalse_def CE_isFalse_def split: option.splits)
  with 2 show ?case by auto
qed auto

lemma cs_Read:
  assumes "\<And>l r. simplifies (eq l r) (BinaryExpr Eq l r)"
  shows "simplifies (cs_Read eq b a us i) (ReadExpr a us i)"
proof -
  have "simplifies (ReadExpr a (cs_rollback eq i us) i) (ReadExpr a us i)"
    using cs_rollback[OF _ _ _ _ assms] by (auto simp: simplifies_def)
  then show ?thesis
    unfolding cs_Read_def by (rule simplifies_trans[OF Read])
qed

end

section \<open>The folding builder keeps the promise\<close>

lemma mask_first:
  "fits w a \<Longrightarrow> mask w AND a = a" "fits w a \<Longrightarrow> mask w OR a = (mask w :: int)"
  using and_mask or_mask by (simp_all add: ac_simps)

lemma simplifies_cf_CN_others:
  "simplifies (cf_Mul_CN c x) (BinaryExpr Mul (ConstantExpr c) x)"
  "simplifies (cf_And_CN c x) (BinaryExpr And (ConstantExpr c) x)"
  "simplifies (cf_Or_CN c x) (BinaryExpr Or (ConstantExpr c) x)"
  "simplifies (cf_Xor_CN c x) (BinaryExpr Xor (ConstantExpr c) x)"
  by (auto simp: simplifies_def cf_Mul_CN_def cf_And_CN_def cf_Or_CN_def cf_Xor_CN_def
      DefaultExprBuilder_def CE_isZero_def CE_isOne_iff CE_isAllOnes_def bv_defs mask_first)

text \<open>An equality of booleans with a constant is the other operand or its negation.\<close>

lemma Eq_true: "CE_isTrue c \<Longrightarrow> simplifies x (BinaryExpr Eq (ConstantExpr c) x)"
  by (rule simplifiesI) (use eval_Bool[of x] in \<open>auto simp: CE_isTrue_def fits_Bool_cases\<close>)

lemma bv_not_Bool: "bv_not (Suc 0) 0 = 1" "bv_not (Suc 0) 1 = 0"
  by (simp_all add: bv_not_def)

lemma Eq_false:
  "getBitWidth c = 1 \<Longrightarrow> \<not> CE_isTrue c \<Longrightarrow>
   simplifies (NotExpr x) (BinaryExpr Eq (ConstantExpr c) x)"
proof (rule simplifiesI)
  fix \<rho>
  assume c: "getBitWidth c = 1" "\<not> CE_isTrue c" and wt: "wt (BinaryExpr Eq (ConstantExpr c) x)"
  then have "getWidth x = Suc 0" "rawval c = 0" "eval \<rho> x \<in> {0, 1}"
    using eval_Bool[of x \<rho>] by (auto simp: CE_isTrue_def)
  then show "eval \<rho> (NotExpr x) = eval \<rho> (BinaryExpr Eq (ConstantExpr c) x)"
    by (auto simp: bv_not_Bool)
qed auto

lemma simplifies_cf_Eq_CN: "simplifies (cf_Eq_CN c x) (BinaryExpr Eq (ConstantExpr c) x)"
  by (simp add: cf_Eq_CN_def DefaultExprBuilder_def Eq_true Eq_false)

lemma commuted:
  assumes "simplifies e (BinaryExpr k r l)" "k \<in> {Mul, And, Or, Xor, Eq}"
  shows "simplifies e (BinaryExpr k l r)"
  using assms by (auto simp: simplifies_def bv_defs ac_simps)

lemma simplifies_cf_Binary: "simplifies (cf_Binary k l r) (BinaryExpr k l r)"
proof -
  note R = simplifies_BCREATE_R[where l = l and r = r]
  show ?thesis
    by (cases k)
      (simp_all add: simplifies_cf_AddSub dflt.cs_forward dflt.Binary simplifies_cf_CN_others simplifies_cf_Eq_CN commuted
         R[where k = Mul, simplified] R[where k = And, simplified] R[where k = Or, simplified] R[where k = Xor, simplified]
         R[where k = Eq, simplified])
qed

interpretation cf: expr_builder ConstantFoldingExprBuilder
  by unfold_locales
    (simp_all add: ConstantFoldingExprBuilder_def dflt.Constant dflt.NotOptimized dflt.cs_Select
      dflt.cs_Concat dflt.cs_Extract dflt.cs_ZExt dflt.cs_SExt dflt.cs_Not dflt.Not dflt.cs_Read
      simplifies_cf_Binary del: cf_Binary.simps)

section \<open>The simplifying builder keeps the promise\<close>

lemma not_Or: "simplifies (BinaryExpr And (NotExpr a) (NotExpr b)) (NotExpr (BinaryExpr Or a b))"
  by (auto simp: simplifies_def bv_defs bv_not_def simp flip: take_bit_and)

lemma simplifies_sb_Not: "simplifies (sb_Not e) (NotExpr e)"
proof (induction e rule: measure_induct_rule[of size])
  case (less e)
  have "simplifies (cs_forward ConstantFoldingExprBuilder And (sb_Not a) (sb_Not b)) (NotExpr e)"
    if "e = BinaryExpr Or a b" for a b
    using less[of a] less[of b] that
    by (auto intro!: simplifies_trans[OF cf.cs_forward] simplifies_trans[OF simplifies_Binary not_Or])
  then show ?case
    unfolding sb_Not.simps[of e] using cf.Not[of e]
    by (intro cf.cs_Not) (auto split: option.split)
qed

lemma simplifies_sb_Eq: "simplifies (sb_Eq l r) (BinaryExpr Eq l r)"
proof -
  have "simplifies (sb_Eq_CN c x) (BinaryExpr Eq (ConstantExpr c) x)" for c x
    unfolding sb_Eq_CN_def using Eq_true cf.Binary simplifies_trans[OF cf.Not Eq_false] by auto
  moreover have "simplifies (sb_Eq_NN l r) (BinaryExpr Eq l r)" for l r
    unfolding sb_Eq_NN_def using cf.Binary
    by (auto simp: simplifies_def alloc_Const_def apint_of_def)
  ultimately show ?thesis
    unfolding sb_Eq_def
    by (intro simplifies_BCREATE_R[where k = Eq, simplified]) (auto intro: commuted)
qed

lemma sb_Ne: "simplifies (sb_Not (sb_Eq l r)) (BinaryExpr Ne l r)"
proof -
  have "simplifies (NotExpr (sb_Eq l r)) (BinaryExpr Ne l r)"
    using simplifies_sb_Eq[of l r] by (auto simp: simplifies_def bv_not_Bool)
  with simplifies_sb_Not show ?thesis by (rule simplifies_trans)
qed

lemma simplifies_sb_Binary: "simplifies (sb_Binary k l r) (BinaryExpr k l r)"
proof -
  note B = simplifies_BCREATE[where l = l and r = r]
  show ?thesis
    by (cases k)
      (simp_all add: cf.cs_forward simplifies_sb_Eq sb_Ne simplifies_swapped B[where k = Ne, simplified]
         B[where k = Ugt, simplified] B[where k = Uge, simplified] B[where k = Sgt, simplified]
         B[where k = Sge, simplified])
qed

interpretation sb: expr_builder SimplifyingExprBuilder
  by unfold_locales
    (simp_all add: SimplifyingExprBuilder_def cf.Constant cf.NotOptimized cf.cs_Select
      cf.cs_Concat cf.cs_Extract cf.cs_ZExt cf.cs_SExt simplifies_sb_Not cf.cs_Read
      simplifies_sb_Binary del: sb_Binary.simps)

section \<open>The parser's building actions\<close>

text \<open>
  What \<^verbatim>\<open>lib/klee/Expr/Parser.cpp\<close> builds once the arguments of a form have been parsed. A
  result is paired with whether an error was reported; after an error the parser substitutes the
  constant 0 of the expected type.
\<close>

datatype unary_form = Form_Neg | Form_Not | Form_SExt | Form_ZExt
datatype read_form = Form_Read | Form_ReadLSB | Form_ReadMSB

fun emit_Unary :: "builder \<Rightarrow> unary_form \<Rightarrow> nat \<Rightarrow> expr \<Rightarrow> expr" where
  "emit_Unary b Form_Neg ResTy E = b_Binary b Sub (b_Constant b (apint_of (getWidth E) 0)) E"
| "emit_Unary b Form_Not ResTy E = b_Not b E"
| "emit_Unary b Form_SExt ResTy E = b_SExt b E ResTy"
| "emit_Unary b Form_ZExt ResTy E = b_ZExt b E ResTy"

definition emit_Binary :: "builder \<Rightarrow> bkind \<Rightarrow> nat \<Rightarrow> expr \<Rightarrow> expr \<Rightarrow> bool \<times> expr" where
  "emit_Binary b k ResTy l r =
     (if getWidth l \<noteq> getWidth r then (True, b_Constant b (apint_of ResTy 0))
      else (False, b_Binary b k l r))"

definition emit_Extract :: "builder \<Rightarrow> nat \<Rightarrow> nat \<Rightarrow> expr \<Rightarrow> bool \<times> expr" where
  "emit_Extract b ResTy off e =
     (if off + ResTy > getWidth e then (True, b_Constant b (apint_of ResTy 0))
      else (False, b_Extract b e off ResTy))"

definition emit_reads :: "builder \<Rightarrow> array \<Rightarrow> updates \<Rightarrow> expr \<Rightarrow> nat \<Rightarrow> expr list" where
  "emit_reads b a us index n =
     map (\<lambda>i. b_Read b a us
            (if i = 0 then index else create_Add index (b_Constant b (apint_of 32 (int i))))) [0..<n]"

definition emit_AnyRead ::
    "builder \<Rightarrow> read_form \<Rightarrow> nat \<Rightarrow> array \<Rightarrow> updates \<Rightarrow> expr \<Rightarrow> (bool \<times> expr) option" where
  "emit_AnyRead b form ResTy a us index =
     (if getWidth index \<noteq> 32 then Some (True, b_Constant b (apint_of ResTy 0))
      else if form = Form_Read then Some (False, b_Read b a us index)
      else let n = ResTy div 8
           in if ResTy \<noteq> n * 8 then Some (True, b_Constant b (apint_of ResTy 0))
              else let kids = emit_reads b a us index n
                   in map_option (Pair False)
                        (create_ConcatN (if form = Form_ReadLSB then rev kids else kids)))"

context expr_builder
begin

lemma emit_reads_byte:
  assumes "wf_array a" "domain_w a = 32" "range_w a = 8" "wt_updates a us" "wt i" "getWidth i = 32"
  shows "list_all (\<lambda>k. wt k \<and> getWidth k = 8) (emit_reads b a us i n) \<and>
         map (eval \<rho>) (emit_reads b a us i n) =
           map (\<lambda>j. read_updates \<rho> a us (take_bit 32 (eval \<rho> i + int j))) [0..<n]"
proof -
  have "wt (b_Read b a us ix) \<and> getWidth (b_Read b a us ix) = 8 \<and>
      eval \<rho> (b_Read b a us ix) = read_updates \<rho> a us (take_bit 32 (eval \<rho> i + int j))"
    if ix: "ix = (if j = 0 then i else create_Add i (b_Constant b (apint_of 32 (int j))))" for ix j
  proof -
    have "wt ix \<and> getWidth ix = 32 \<and> eval \<rho> ix = take_bit 32 (eval \<rho> i + int j)"
      using simplifiesD[OF simplifies_create_Add, of i "ConstantExpr (apint_of 32 (int j))"] assms(5,6)
      by (auto simp: ix Constant apint_of_def bv_add_def)
    then show ?thesis
      using simplifiesD[OF Read, of a us ix] assms by simp
  qed
  then show ?thesis
    by (auto simp: emit_reads_def list_all_iff simp del: map_eq_conv intro!: map_cong)
qed

lemma emit_AnyRead_value:
  fixes \<rho> :: env
  assumes "wf_array a" "domain_w a = 32" "range_w a = 8" "wt_updates a us" "wt i" "getWidth i = 32"
    and "0 < n" "form \<noteq> Form_Read"
  defines "byte \<equiv> \<lambda>j. read_updates \<rho> a us (take_bit 32 (eval \<rho> i + int j))"
  shows "\<exists>e. emit_AnyRead b form (8 * n) a us i = Some (False, e) \<and> wt e \<and> getWidth e = 8 * n \<and>
     eval \<rho> e = big_endian (map byte (if form = Form_ReadLSB then rev [0..<n] else [0..<n]))"
proof -
  define kids where
    "kids = (if form = Form_ReadLSB then rev (emit_reads b a us i n) else emit_reads b a us i n)"
  note bytes = emit_reads_byte[OF assms(1-6), of n \<rho>, folded byte_def]
  have len: "length kids = n"
    by (simp add: kids_def emit_reads_def)
  then have "kids \<noteq> []" using assms(7) by auto
  moreover have "wt k \<and> getWidth k = 8" if "k \<in> set kids" for k
    using that bytes by (auto simp: kids_def list_all_iff split: if_splits)
  ultimately obtain e where "create_ConcatN kids = Some e" "wt e" "getWidth e = 8 * length kids"
      "eval \<rho> e = big_endian (map (eval \<rho>) kids)"
    using create_ConcatN_bytes[of kids] by blast
  moreover have "map (eval \<rho>) kids = map byte (if form = Form_ReadLSB then rev [0..<n] else [0..<n])"
    using bytes by (simp add: kids_def rev_map[symmetric])
  ultimately show ?thesis
    using assms(6,8) len by (simp add: emit_AnyRead_def Let_def flip: kids_def)
qed

end

section \<open>Properties\<close>

text \<open>C5: All three builders that \<open>kleaver\<close> can select build, for every binary kind, a
  well-typed expression of the right width whose value is the operator applied to the values of
  the operands; for the divisions, where the divisor is not zero.\<close>

theorem builder_Binary_sound:
  assumes "wt l" "wt r" "getWidth l = getWidth r" "isDivKind k \<Longrightarrow> eval \<rho> r \<noteq> 0"
  shows "wt (b_Binary (createBuilder K) k l r) \<and>
         getWidth (b_Binary (createBuilder K) k l r) = (if isCmpKind k then 1 else getWidth l) \<and>
         eval \<rho> (b_Binary (createBuilder K) k l r) = bop k (getWidth l) (eval \<rho> l) (eval \<rho> r)"
proof -
  have "simplifies (b_Binary (createBuilder K) k l r) (BinaryExpr k l r)"
    using dflt.Binary cf.Binary sb.Binary by (cases K) auto
  from simplifiesD[OF this] assms(1-3) show ?thesis by simp
qed

theorem builder_Binary_sound_witness:
  "b_Binary (createBuilder SimplifyingBuilder) Sub
      (BinaryExpr Sub (ConstantExpr (APInt 8 9)) (sample_byte 1))
      (BinaryExpr Add (sample_byte 2) (ConstantExpr (APInt 8 250))) =
   BinaryExpr Sub (ConstantExpr (APInt 8 15)) (BinaryExpr Add (sample_byte 1) (sample_byte 2)) \<and>
   eval sample_env (b_Binary (createBuilder SimplifyingBuilder) Sub
      (BinaryExpr Sub (ConstantExpr (APInt 8 9)) (sample_byte 1))
      (BinaryExpr Add (sample_byte 2) (ConstantExpr (APInt 8 250)))) = 252"
proof
  let ?l = "BinaryExpr Sub (ConstantExpr (APInt 8 9)) (sample_byte 1)"
    and ?r = "BinaryExpr Add (sample_byte 2) (ConstantExpr (APInt 8 250))"
  show "b_Binary (createBuilder SimplifyingBuilder) Sub ?l ?r =
      BinaryExpr Sub (ConstantExpr (APInt 8 15)) (BinaryExpr Add (sample_byte 1) (sample_byte 2))"
    by code_simp
  have "wt ?l" "wt ?r" "getWidth ?l = getWidth ?r"
    by code_simp+
  then have "eval sample_env (b_Binary (createBuilder SimplifyingBuilder) Sub ?l ?r)
      = bop Sub (getWidth ?l) (eval sample_env ?l) (eval sample_env ?r)"
    using builder_Binary_sound[of ?l ?r Sub sample_env SimplifyingBuilder]
    by (simp add: isDivKind_def)
  also have "\<dots> = 252"
    by code_simp
  finally show "eval sample_env (b_Binary (createBuilder SimplifyingBuilder) Sub ?l ?r) = 252" .
qed

text \<open>The other methods of the three builders keep the meaning of the expression they are
  asked for: reads (which skip updates of other indices), selections, concatenations, extracts,
  extensions and complements (which push negations below disjunctions).\<close>

lemma builder_structure_sound:
  "simplifies (b_Read (createBuilder K) a us i) (ReadExpr a us i) \<and>
   simplifies (b_Select (createBuilder K) c x y) (SelectExpr c x y) \<and>
   simplifies (b_Concat (createBuilder K) x y) (ConcatExpr x y) \<and>
   simplifies (b_Extract (createBuilder K) x off w) (ExtractExpr x off w) \<and>
   simplifies (b_ZExt (createBuilder K) x w) (ZExtExpr x w) \<and>
   simplifies (b_SExt (createBuilder K) x w) (SExtExpr x w) \<and>
   simplifies (b_Not (createBuilder K) x) (NotExpr x)"
  by (cases K)
    (simp_all only: createBuilder.simps dflt.Read dflt.Select dflt.Concat dflt.Extract dflt.ZExt
      dflt.SExt dflt.Not cf.Read cf.Select cf.Concat cf.Extract cf.ZExt cf.SExt cf.Not
      sb.Read sb.Select sb.Concat sb.Extract sb.ZExt sb.SExt sb.Not simp_thms)

text \<open>The \<open>ReadLSB\<close> and \<open>ReadMSB\<close> forms of the query language, built with any of the three
  builders, denote the little and the big endian number in the bytes at the index (modulo
  2^32) and the following ones, after the updates.\<close>

theorem emit_AnyRead_sound:
  assumes "wf_array a" "domain_w a = 32" "range_w a = 8" "wt_updates a us" "wt i" "getWidth i = 32"
    and "0 < n" "form \<noteq> Form_Read"
  shows "\<exists>e. emit_AnyRead (createBuilder K) form (8 * n) a us i = Some (False, e) \<and>
     wt e \<and> getWidth e = 8 * n \<and>
     eval \<rho> e = (\<Sum>j<n. read_updates \<rho> a us (take_bit 32 (eval \<rho> i + int j)) *
                       256 ^ (if form = Form_ReadLSB then j else n - 1 - j))"
proof -
  have "\<exists>e. emit_AnyRead (createBuilder K) form (8 * n) a us i = Some (False, e) \<and> wt e \<and>
      getWidth e = 8 * n \<and>
      eval \<rho> e = big_endian (map (\<lambda>j. read_updates \<rho> a us (take_bit 32 (eval \<rho> i + int j)))
                             (if form = Form_ReadLSB then rev [0..<n] else [0..<n]))"
    using dflt.emit_AnyRead_value[OF assms] cf.emit_AnyRead_value[OF assms]
      sb.emit_AnyRead_value[OF assms] by (cases K) auto
  then show ?thesis
    by (auto simp: big_endian_little big_endian_big)
qed

theorem emit_AnyRead_sound_witness:
  "\<exists>e. emit_AnyRead (createBuilder ConstantFoldingBuilder) Form_ReadLSB 16 sample_table
         (UpdateNode (ConstantExpr (APInt 32 1)) (sample_byte 4) NoUpdate)
         (ConstantExpr (APInt 32 1)) = Some (False, e) \<and>
       eval sample_env e = 7697"
proof -
  let ?us = "UpdateNode (ConstantExpr (APInt 32 1)) (sample_byte 4) NoUpdate"
    and ?i = "ConstantExpr (APInt 32 1)"
  have "wf_array sample_table" "domain_w sample_table = 32" "range_w sample_table = 8"
      "wt_updates sample_table ?us" "wt ?i" "getWidth ?i = 32" "(0::nat) < 2"
      "Form_ReadLSB \<noteq> Form_Read"
    by code_simp+
  from emit_AnyRead_sound[OF this, of ConstantFoldingBuilder sample_env] show ?thesis
    by (simp add: lessThan_Suc numeral_2_eq_2 sample_defs initial_value_def isConstantArray_def
        isSymbolicArray_def) blast
qed

end
