(* ===== verification/ExprEval.thy ===== *)
theory ExprEval
  imports ExprProps
begin

text \<open>
  Evaluation of expressions under assignments: \<open>ExprEvaluator\<close>
  (\<^verbatim>\<open>lib/klee/Expr/ExprEvaluator.cpp\<close>), the visitor it is an instance of
  (\<^verbatim>\<open>lib/klee/Expr/ExprVisitor.cpp\<close>, whose hash table of visited expressions only saves
  repeated visits and is left out) and \<open>Assignment\<close> (\<^verbatim>\<open>include/klee/util/Assignment.h\<close>).
  The initial value of an array element is a virtual method of the evaluator; the contract it
  must keep is a locale, and the assignments are shown to keep it.
\<close>

section \<open>Rebuilding an expression\<close>

text \<open>The virtual methods \<open>rebuild\<close>: the smart constructor on new children.\<close>

fun rebuild :: "expr \<Rightarrow> expr list \<Rightarrow> expr" where
  "rebuild (NotOptimizedExpr _) [e] = create_NotOptimized e"
| "rebuild (ReadExpr a us _) [i] = create_Read_value a us i"
| "rebuild (SelectExpr _ _ _) [c, t, f] = create_Select c t f"
| "rebuild (ConcatExpr _ _) [l, r] = create_Concat l r"
| "rebuild (ExtractExpr _ off w) [e] = create_Extract e off w"
| "rebuild (ZExtExpr _ w) [e] = create_ZExt e w"
| "rebuild (SExtExpr _ w) [e] = create_SExt e w"
| "rebuild (NotExpr _) [e] = create_Not e"
| "rebuild (BinaryExpr k _ _) [l, r] = create_Binary k l r"
| "rebuild e _ = e"

definition same_value :: "env \<Rightarrow> expr \<Rightarrow> expr \<Rightarrow> bool" where
  "same_value \<rho> e' e \<longleftrightarrow> wt e' \<and> getWidth e' = getWidth e \<and> eval \<rho> e' = eval \<rho> e"

lemma same_value_refl [simp]: "same_value \<rho> e e \<longleftrightarrow> wt e"
  by (simp add: same_value_def)

lemma same_value_trans: "same_value \<rho> a b \<Longrightarrow> same_value \<rho> b c \<Longrightarrow> same_value \<rho> a c"
  by (simp add: same_value_def)

lemma simplifies_same_value: "simplifies e' e \<Longrightarrow> wt e \<Longrightarrow> same_value \<rho> e' e"
  by (simp add: simplifies_def same_value_def)

lemma same_value_create_Binary:
  assumes "wt (BinaryExpr k l r)" "isDivKind k \<Longrightarrow> eval \<rho> r \<noteq> 0"
  shows "same_value \<rho> (create_Binary k l r) (BinaryExpr k l r)"
proof (cases "isDivKind k")
  case True
  then show ?thesis
    using assms wt_create_div[OF True assms(1)] eval_create_div[OF True assms(1), of \<rho>]
    by (auto simp: same_value_def isDivKind_def)
next
  case False
  then show ?thesis
    using simplifies_same_value[OF simplifies_create_Binary assms(1)] by blast
qed

text \<open>New children with the old values give the old value.\<close>

lemma rebuild_same_value:
  assumes "wt e" "list_all2 (same_value \<rho>) ks (kids e)"
    and "\<And>k l r. e = BinaryExpr k l r \<Longrightarrow> isDivKind k \<Longrightarrow> eval \<rho> r \<noteq> 0"
  shows "same_value \<rho> (rebuild e ks) e"
proof (cases e)
  case (BinaryExpr k l r)
  then obtain l' r' where ks: "ks = [l', r']" "same_value \<rho> l' l" "same_value \<rho> r' r"
    using assms(2) by (auto simp: list_all2_Cons2)
  have "same_value \<rho> (create_Binary k l' r') (BinaryExpr k l' r')"
    by (rule same_value_create_Binary) (use BinaryExpr ks assms in \<open>auto simp: same_value_def\<close>)
  then show ?thesis
    using BinaryExpr ks by (auto simp: same_value_def)
next
  case (ReadExpr a us i)
  then show ?thesis
    using assms(1,2) simplifiesD[OF simplifies_create_Read_value, of a us "hd ks"]
    by (auto simp: same_value_def list_all2_Cons2)
next
  case (SelectExpr c t f)
  then obtain c' t' f' where ks: "ks = [c', t', f']"
      "same_value \<rho> c' c" "same_value \<rho> t' t" "same_value \<rho> f' f"
    using assms(2) by (auto simp: list_all2_Cons2)
  then show ?thesis
    using SelectExpr assms(1) simplifiesD[OF simplifies_create_Select, of c' t' f']
    by (auto simp: same_value_def)
next
  case (ConcatExpr l r)
  then obtain l' r' where ks: "ks = [l', r']" "same_value \<rho> l' l" "same_value \<rho> r' r"
    using assms(2) by (auto simp: list_all2_Cons2)
  then show ?thesis
    using ConcatExpr assms(1) simplifiesD[OF simplifies_create_Concat, of l' r']
    by (auto simp: same_value_def)
next
  case (ExtractExpr x off w)
  then show ?thesis
    using assms(1,2) simplifiesD[OF simplifies_create_Extract, of "hd ks" off w]
    by (auto simp: same_value_def list_all2_Cons2)
next
  case (ZExtExpr x w)
  then show ?thesis
    using assms(1,2) simplifiesD[OF simplifies_create_ZExt, of "hd ks" w]
    by (auto simp: same_value_def list_all2_Cons2)
next
  case (SExtExpr x w)
  then show ?thesis
    using assms(1,2) simplifiesD[OF simplifies_create_SExt, of "hd ks" w]
    by (auto simp: same_value_def list_all2_Cons2)
next
  case (NotExpr x)
  then show ?thesis
    using assms(1,2) simplifiesD[OF simplifies_create_Not, of "hd ks"]
    by (auto simp: same_value_def list_all2_Cons2)
qed (use assms in \<open>auto simp: same_value_def list_all2_Cons2 create_NotOptimized_def\<close>)

lemma create_Binary_constants: "isConstantExpr (create_Binary k (ConstantExpr c) (ConstantExpr d))"
  by (cases k)
    (simp_all add: create_Add.simps create_Add_const_def create_Sub.simps create_Sub_const_def
      create_Mul_def create_UDiv_def create_SDiv_def create_URem_def create_SRem_def create_And_def
      create_Or_def create_Xor_def create_Shl_def create_LShr_def create_AShr_def create_Eq_def
      create_Ne_def create_Ult_def create_Ule_def create_Slt_def create_Sle_def create_Ugt_def
      create_Uge_def create_Sgt_def create_Sge_def alloc_Const_def BCREATE_R_def BCREATE_def
      fold_constants_def)

lemma rebuild_constants:
  assumes "list_all isConstantExpr ks" "length ks = length (kids e)"
    and "\<And>a us i. e \<noteq> ReadExpr a us i" "\<And>x. e \<noteq> NotOptimizedExpr x"
  shows "isConstantExpr (rebuild e ks)"
  using assms
  by (cases e; auto simp: length_Suc_conv create_Select_def create_Concat_def fold_constants_def
      create_ZExt_def create_SExt_def create_Not_def create_Extract.simps create_Binary_constants
      elim!: isConstantExprE split: if_splits)

section \<open>The evaluator\<close>

text \<open>\<open>ExprEvaluator::visitExprPost\<close>.\<close>

definition ev_post :: "expr \<Rightarrow> expr" where
  "ev_post e = (case e of NotOptimizedExpr src \<Rightarrow> src | _ \<Rightarrow> e)"

definition is_division :: "expr \<Rightarrow> (expr \<times> expr) option" where
  "is_division e =
     (case e of BinaryExpr k l r \<Rightarrow> if k \<in> {UDiv, SDiv, URem, SRem} then Some (l, r) else None
      | _ \<Rightarrow> None)"

definition dyn_Read :: "expr \<Rightarrow> (array \<times> updates \<times> expr) option" where
  "dyn_Read e = (case e of ReadExpr a us i \<Rightarrow> Some (a, us, i) | _ \<Rightarrow> None)"

lemma is_division_Some [simp]:
  "is_division e = Some (l, r) \<longleftrightarrow> (\<exists>k. isDivKind k \<and> e = BinaryExpr k l r)"
  by (auto simp: is_division_def isDivKind_def split: expr.splits)

lemma dyn_Read_Some [simp]: "dyn_Read e = Some (a, us, i) \<longleftrightarrow> e = ReadExpr a us i"
  by (auto simp: dyn_Read_def split: expr.splits)

lemma dyn_Read_ReadExpr [simp]: "dyn_Read (ReadExpr a us i) = Some (a, us, i)"
  by (simp add: dyn_Read_def)

lemma is_division_BinaryExpr [simp]:
  "is_division (BinaryExpr k l r) = (if isDivKind k then Some (l, r) else None)"
  by (simp add: is_division_def isDivKind_def)

lemma size_kids: "k \<in> set (kids e) \<Longrightarrow> size k < size e"
  by (cases e) auto

text \<open>
  \<open>ev_visit\<close> is \<open>visitActual\<close> with the evaluator's hooks in place: constants are returned; an
  expression (other than a read) with constant children only is rebuilt at once; a read at a known
  index goes through the updates (\<open>ev_read\<close> is \<open>evalRead\<close>); a division keeps its divisor where
  the new one is 0; anything else visits the children, is rebuilt if one changed, and loses an
  outermost \<open>NotOptimized\<close>. The index of \<open>evalRead\<close> is an \<open>unsigned\<close>: it is cut to 32 bits.
\<close>

function ev_visit :: "(array \<Rightarrow> nat \<Rightarrow> expr) \<Rightarrow> expr \<Rightarrow> expr"
  and ev_read :: "(array \<Rightarrow> nat \<Rightarrow> expr) \<Rightarrow> array \<Rightarrow> updates \<Rightarrow> nat \<Rightarrow> expr" where
  "ev_visit init e =
     (case dyn_Constant e of
        Some c \<Rightarrow> e
      | None \<Rightarrow> (case dyn_Read e of
          Some (a, us, i) \<Rightarrow>
            (let v = ev_visit init i
             in case dyn_Constant v of
                  Some c \<Rightarrow> ev_read init a us (nat (take_bit 32 (rawval c)))
                | None \<Rightarrow> ev_post (if v = i then e else rebuild e [v]))
        | None \<Rightarrow>
            if list_all isConstantExpr (kids e) then rebuild e (kids e)
            else (case is_division e of
                Some (l, r) \<Rightarrow>
                  (let l' = ev_visit init l; v = ev_visit init r; r' = (if isZero v then r else v)
                   in if l' \<noteq> l \<or> r' \<noteq> r then rebuild e [l', r'] else e)
              | None \<Rightarrow>
                  (let ks = map (ev_visit init) (kids e)
                   in ev_post (if ks = kids e then e else rebuild e ks)))))"
| "ev_read init a us idx =
     (case us of
        NoUpdate \<Rightarrow>
          if isConstantArray a \<and> idx < arr_size a
          then ConstantExpr (APInt (range_w a) (constantValues a ! idx))
          else init a idx
      | UpdateNode x v nx \<Rightarrow>
          (case dyn_Constant (ev_visit init x) of
             Some c \<Rightarrow>
               if rawval c = int idx then ev_visit init v else ev_read init a nx idx
           | None \<Rightarrow> create_Read_value a us (alloc_Const (domain_w a) (int idx))))"
  by pat_completeness auto
termination
  by (relation "measure (\<lambda>x. case x of Inl (init, e) \<Rightarrow> size e | Inr (init, a, us, idx) \<Rightarrow> size us)")
    (auto dest: size_kids)

declare ev_visit.simps [simp del] ev_read.simps [simp del]

text \<open>
  What evaluation needs of an expression: no division by zero in the environment, and arrays
  whose indices fit the 32 bits of \<open>evalRead\<close> (the arrays of the system all have 32-bit indices).
\<close>

fun evaluable :: "env \<Rightarrow> expr \<Rightarrow> bool" and evaluable_updates :: "env \<Rightarrow> updates \<Rightarrow> bool" where
  "evaluable \<rho> (ConstantExpr c) = True"
| "evaluable \<rho> (NotOptimizedExpr e) = evaluable \<rho> e"
| "evaluable \<rho> (ReadExpr a us i) = (domain_w a \<le> 32 \<and> evaluable \<rho> i \<and> evaluable_updates \<rho> us)"
| "evaluable \<rho> (SelectExpr c t f) = (evaluable \<rho> c \<and> evaluable \<rho> t \<and> evaluable \<rho> f)"
| "evaluable \<rho> (ConcatExpr l r) = (evaluable \<rho> l \<and> evaluable \<rho> r)"
| "evaluable \<rho> (ExtractExpr e off w) = evaluable \<rho> e"
| "evaluable \<rho> (ZExtExpr e w) = evaluable \<rho> e"
| "evaluable \<rho> (SExtExpr e w) = evaluable \<rho> e"
| "evaluable \<rho> (NotExpr e) = evaluable \<rho> e"
| "evaluable \<rho> (BinaryExpr k l r) =
     (evaluable \<rho> l \<and> evaluable \<rho> r \<and> (isDivKind k \<longrightarrow> eval \<rho> r \<noteq> 0))"
| "evaluable_updates \<rho> NoUpdate = True"
| "evaluable_updates \<rho> (UpdateNode x v nx) =
     (evaluable \<rho> x \<and> evaluable \<rho> v \<and> evaluable_updates \<rho> nx)"

text \<open>The contract of \<open>getInitialValue\<close>, which is not called for elements of constant arrays.\<close>

locale initial_values =
  fixes init :: "array \<Rightarrow> nat \<Rightarrow> expr" and \<rho> :: env
  assumes init: "wf_array a \<Longrightarrow> int idx < 2 ^ domain_w a \<Longrightarrow>
      \<not> (isConstantArray a \<and> idx < arr_size a) \<Longrightarrow>
      wt (init a idx) \<and> getWidth (init a idx) = range_w a \<and>
      eval \<rho> (init a idx) = initial_value \<rho> a (int idx)"

context initial_values
begin

lemma ev_post: "wt e \<Longrightarrow> same_value \<rho> (ev_post e) e"
  by (auto simp: ev_post_def same_value_def split: expr.split)

lemma kids_wt: "wt e \<Longrightarrow> k \<in> set (kids e) \<Longrightarrow> wt k"
  by (cases e) auto

lemma kids_evaluable: "evaluable \<rho> e \<Longrightarrow> k \<in> set (kids e) \<Longrightarrow> evaluable \<rho> k"
  by (cases e) auto

lemma divisor: "evaluable \<rho> e \<Longrightarrow> e = BinaryExpr k l r \<Longrightarrow> isDivKind k \<Longrightarrow> eval \<rho> r \<noteq> 0"
  by auto

text \<open>One step of each function, given the same for smaller arguments.\<close>

lemma ev_visit_step:
  assumes e: "wt e" "evaluable \<rho> e"
    and visit: "\<And>x. size x < size e \<Longrightarrow> wt x \<Longrightarrow> evaluable \<rho> x \<Longrightarrow> same_value \<rho> (ev_visit init x) x"
    and read: "\<And>a us i idx. e = ReadExpr a us i \<Longrightarrow> int idx < 2 ^ domain_w a \<Longrightarrow>
      same_value \<rho> (ev_read init a us idx) (ReadExpr a us (alloc_Const (domain_w a) (int idx)))"
  shows "same_value \<rho> (ev_visit init e) e"
proof (cases "dyn_Constant e")
  case None
  have kids: "same_value \<rho> (ev_visit init k) k" if "k \<in> set (kids e)" for k
    using that visit[of k] size_kids[of k e] kids_wt kids_evaluable e by blast
  have div: "eval \<rho> r \<noteq> 0" if "e = BinaryExpr k l r" "isDivKind k" for k l r
    using that e(2) by simp
  have post: "same_value \<rho> (ev_post (if ks = kids e then e else rebuild e ks)) e"
    if "list_all2 (same_value \<rho>) ks (kids e)" for ks
    using rebuild_same_value[OF e(1) that div] ev_post e(1) same_value_trans
    by (auto simp: same_value_def)
  show ?thesis
  proof (cases "dyn_Read e")
    case (Some p)
    then obtain a us i where r: "e = ReadExpr a us i" by (cases p) auto
    have v: "same_value \<rho> (ev_visit init i) i"
      using kids r by simp
    show ?thesis
    proof (cases "dyn_Constant (ev_visit init i)")
      case None
      then show ?thesis
        unfolding ev_visit.simps[of init e] Let_def using r post[of "[ev_visit init i]"] v
        by simp
    next
      case (Some c)
      then have c: "getBitWidth c = domain_w a" "fits (domain_w a) (rawval c)" "domain_w a \<le> 32"
          "rawval c = eval \<rho> i"
        using v r e by (auto simp: same_value_def)
      then have "take_bit 32 (rawval c) = rawval c" "0 \<le> rawval c" "rawval c < 2 ^ domain_w a"
        using fits_mono[of "domain_w a" "rawval c" 32] by (auto simp: take_bit_fits fits_def)
      then have "same_value \<rho> (ev_read init a us (nat (take_bit 32 (rawval c)))) e"
        using read[OF r, of "nat (rawval c)"] c r e
        by (auto simp: same_value_def alloc_Const_def apint_of_def take_bit_fits)
      then show ?thesis
        unfolding ev_visit.simps[of init e] Let_def using r Some
        by simp
    qed
  next
    case noread: None
    show ?thesis
    proof (cases "list_all isConstantExpr (kids e)")
      case True
      then show ?thesis
        unfolding ev_visit.simps[of init e] Let_def using None noread rebuild_same_value[OF e(1) _ div, of "kids e"] kids_wt[OF e(1)]
        by (simp add: list.rel_refl_strong)
    next
      case vars: False
      show ?thesis
      proof (cases "is_division e")
        case nodiv: None
        have "list_all2 (same_value \<rho>) (map (ev_visit init) (kids e)) (kids e)"
          using kids by (simp add: list.rel_map list.rel_refl_strong)
        then show ?thesis
          unfolding ev_visit.simps[of init e] Let_def using None noread vars nodiv post
          by simp
      next
        case (Some p)
        then obtain k l r where d: "e = BinaryExpr k l r" "isDivKind k" "p = (l, r)"
          by (cases p) auto
        define r' where "r' = (if isZero (ev_visit init r) then r else ev_visit init r)"
        have "list_all2 (same_value \<rho>) [ev_visit init l, r'] (kids e)"
          using kids e d by (auto simp: r'_def)
        then have "same_value \<rho> (rebuild e [ev_visit init l, r']) e"
          using rebuild_same_value[OF e(1)] div by blast
        then show ?thesis
          unfolding ev_visit.simps[of init e] Let_def using None noread vars Some d e
          by (auto simp flip: r'_def)
      qed
    qed
  qed
qed (use e in \<open>simp add: ev_visit.simps[of init]\<close>)

lemma ev_read_step:
  assumes a: "wf_array a" "wt_updates a us" "evaluable_updates \<rho> us" "int idx < 2 ^ domain_w a"
    and visit: "\<And>x. size x < size us \<Longrightarrow> wt x \<Longrightarrow> evaluable \<rho> x \<Longrightarrow> same_value \<rho> (ev_visit init x) x"
    and read: "\<And>nx. size nx < size us \<Longrightarrow> wt_updates a nx \<Longrightarrow> evaluable_updates \<rho> nx \<Longrightarrow>
      same_value \<rho> (ev_read init a nx idx) (ReadExpr a nx (alloc_Const (domain_w a) (int idx)))"
  shows "same_value \<rho> (ev_read init a us idx) (ReadExpr a us (alloc_Const (domain_w a) (int idx)))"
proof (cases us)
  case NoUpdate
  note unf = ev_read.simps[of init a us]
  have idx: "take_bit (domain_w a) (int idx) = int idx"
    using a(4) by (simp add: take_bit_int_eq_self_iff)
  show ?thesis
  proof (cases "isConstantArray a \<and> idx < arr_size a")
    case True
    then show ?thesis
      unfolding unf using NoUpdate a(1) constant_array_value[OF a(1), of "int idx"] idx
      by (simp add: same_value_def alloc_Const_def apint_of_def initial_value_def)
  next
    case False
    then show ?thesis
      unfolding unf using NoUpdate a(1,4) init[OF a(1,4)] idx
      by (auto simp: same_value_def alloc_Const_def apint_of_def)
  qed
next
  case (UpdateNode x v nx)
  have idx: "take_bit (domain_w a) (int idx) = int idx" "fits (domain_w a) (int idx)"
    using a(4) by (simp_all add: take_bit_int_eq_self_iff fits_def)
  note x = visit[of x] and v = visit[of v] and nx = read[of nx]
  have "same_value \<rho> (create_Read_value a us (alloc_Const (domain_w a) (int idx)))
      (ReadExpr a us (alloc_Const (domain_w a) (int idx)))"
    by (rule simplifies_same_value[OF simplifies_create_Read_value])
      (use a idx in \<open>auto simp: alloc_Const_def apint_of_def wf_array_def\<close>)
  then show ?thesis
    unfolding ev_read.simps[of init a us] using UpdateNode a x v nx idx
    by (auto simp: same_value_def alloc_Const_def apint_of_def split: option.split)
qed

lemma ev_sound_size:
  "(\<forall>e. size e = n \<longrightarrow> wt e \<longrightarrow> evaluable \<rho> e \<longrightarrow> same_value \<rho> (ev_visit init e) e) \<and>
   (\<forall>a us idx. size us = n \<longrightarrow> wf_array a \<longrightarrow> wt_updates a us \<longrightarrow> evaluable_updates \<rho> us \<longrightarrow>
      int idx < 2 ^ domain_w a \<longrightarrow>
      same_value \<rho> (ev_read init a us idx) (ReadExpr a us (alloc_Const (domain_w a) (int idx))))"
proof (induction n rule: less_induct)
  case (less n)
  have V: "same_value \<rho> (ev_visit init x) x" if "size x < n" "wt x" "evaluable \<rho> x" for x
    by (rule less.IH[OF that(1), THEN conjunct1, rule_format, OF refl that(2-)])
  have R: "same_value \<rho> (ev_read init a us idx)
        (ReadExpr a us (alloc_Const (domain_w a) (int idx)))"
    if "size us < n" "wf_array a" "wt_updates a us" "evaluable_updates \<rho> us"
      "int idx < 2 ^ domain_w a" for a us idx
    by (rule less.IH[OF that(1), THEN conjunct2, rule_format, OF refl that(2-)])
  show ?case
  proof (intro conjI allI impI)
    fix e assume e: "size e = n" "wt e" "evaluable \<rho> e"
    show "same_value \<rho> (ev_visit init e) e"
      by (rule ev_visit_step[OF e(2,3)]) (use e in \<open>auto intro!: V R\<close>)
  next
    fix a us idx
    assume us: "size us = n" "wf_array a" "wt_updates a us" "evaluable_updates \<rho> us"
      "int idx < 2 ^ domain_w a"
    show "same_value \<rho> (ev_read init a us idx)
        (ReadExpr a us (alloc_Const (domain_w a) (int idx)))"
      by (rule ev_read_step[OF us(2-5)]) (use us in \<open>auto intro!: V R\<close>)
  qed
qed

lemma ev_visit_sound: "wt e \<Longrightarrow> evaluable \<rho> e \<Longrightarrow> same_value \<rho> (ev_visit init e) e"
  using ev_sound_size by blast

end

section \<open>Complete evaluation\<close>

text \<open>
  If every initial value is a constant, evaluation returns a constant, provided that the
  expression has no \<open>NotOptimized\<close> directly over a constant.
\<close>

fun foldable :: "expr \<Rightarrow> bool" and foldable_updates :: "updates \<Rightarrow> bool" where
  "foldable (ConstantExpr c) = True"
| "foldable (NotOptimizedExpr e) = (\<not> isConstantExpr e \<and> foldable e)"
| "foldable (ReadExpr a us i) = (foldable i \<and> foldable_updates us)"
| "foldable (SelectExpr c t f) = (foldable c \<and> foldable t \<and> foldable f)"
| "foldable (ConcatExpr l r) = (foldable l \<and> foldable r)"
| "foldable (ExtractExpr e off w) = foldable e"
| "foldable (ZExtExpr e w) = foldable e"
| "foldable (SExtExpr e w) = foldable e"
| "foldable (NotExpr e) = foldable e"
| "foldable (BinaryExpr k l r) = (foldable l \<and> foldable r)"
| "foldable_updates NoUpdate = True"
| "foldable_updates (UpdateNode x v nx) = (foldable x \<and> foldable v \<and> foldable_updates nx)"

text \<open>The elements an expression reads in an environment are among the known ones.\<close>

fun reads_known :: "(array \<Rightarrow> nat \<Rightarrow> bool) \<Rightarrow> env \<Rightarrow> expr \<Rightarrow> bool"
  and reads_known_updates :: "(array \<Rightarrow> nat \<Rightarrow> bool) \<Rightarrow> env \<Rightarrow> updates \<Rightarrow> bool" where
  "reads_known K \<rho> (ConstantExpr c) = True"
| "reads_known K \<rho> (NotOptimizedExpr e) = reads_known K \<rho> e"
| "reads_known K \<rho> (ReadExpr a us i) =
     (reads_known K \<rho> i \<and> reads_known_updates K \<rho> us \<and>
      (K a (nat (eval \<rho> i)) \<or> isConstantArray a \<and> nat (eval \<rho> i) < arr_size a))"
| "reads_known K \<rho> (SelectExpr c t f) = (reads_known K \<rho> c \<and> reads_known K \<rho> t \<and> reads_known K \<rho> f)"
| "reads_known K \<rho> (ConcatExpr l r) = (reads_known K \<rho> l \<and> reads_known K \<rho> r)"
| "reads_known K \<rho> (ExtractExpr e off w) = reads_known K \<rho> e"
| "reads_known K \<rho> (ZExtExpr e w) = reads_known K \<rho> e"
| "reads_known K \<rho> (SExtExpr e w) = reads_known K \<rho> e"
| "reads_known K \<rho> (NotExpr e) = reads_known K \<rho> e"
| "reads_known K \<rho> (BinaryExpr k l r) = (reads_known K \<rho> l \<and> reads_known K \<rho> r)"
| "reads_known_updates K \<rho> NoUpdate = True"
| "reads_known_updates K \<rho> (UpdateNode x v nx) =
     (reads_known K \<rho> x \<and> reads_known K \<rho> v \<and> reads_known_updates K \<rho> nx)"

lemma reads_known_True [simp]:
  "reads_known (\<lambda>_ _. True) \<rho> e" "reads_known_updates (\<lambda>_ _. True) \<rho> us"
  by (induction e and us) simp_all

locale constant_initial_values = initial_values +
  fixes K :: "array \<Rightarrow> nat \<Rightarrow> bool"
  assumes init_constant: "K a idx \<Longrightarrow> isConstantExpr (init a idx)"

context constant_initial_values
begin

lemma kids_foldable: "foldable e \<Longrightarrow> k \<in> set (kids e) \<Longrightarrow> foldable k"
  by (cases e) auto

lemma kids_known: "reads_known K \<rho> e \<Longrightarrow> k \<in> set (kids e) \<Longrightarrow> reads_known K \<rho> k"
  by (cases e) auto

lemma ev_visit_constant_step:
  assumes e: "wt e" "evaluable \<rho> e" "foldable e"
    and kid: "\<And>k. k \<in> set (kids e) \<Longrightarrow> isConstantExpr (ev_visit init k)"
    and read: "\<And>a us i. e = ReadExpr a us i \<Longrightarrow> isConstantExpr (ev_read init a us (nat (eval \<rho> i)))"
  shows "isConstantExpr (ev_visit init e)"
proof (cases "dyn_Constant e")
  case None
  show ?thesis
  proof (cases "dyn_Read e")
    case (Some p)
    then obtain a us i where r: "e = ReadExpr a us i" by (cases p) auto
    then obtain c where c: "ev_visit init i = ConstantExpr c"
      using kid[of i] by (auto elim: isConstantExprE)
    have i: "wt i" "evaluable \<rho> i" "getWidth i \<le> 32"
      using e r by auto
    then have "rawval c = eval \<rho> i" "take_bit 32 (eval \<rho> i) = eval \<rho> i"
      using ev_visit_sound[of i] c fits_mono[OF fits_eval[OF i(1) refl] i(3)]
      by (auto simp: same_value_def take_bit_fits)
    with c show ?thesis
      unfolding ev_visit.simps[of init e] Let_def using r read[OF r] by simp
  next
    case noread: None
    then have nr: "\<And>a us i. e \<noteq> ReadExpr a us i" by auto
    have nonempty: "kids e \<noteq> []" using None by (cases e) auto
    show ?thesis
    proof (cases "list_all isConstantExpr (kids e)")
      case True
      then have "e \<noteq> NotOptimizedExpr x" for x
        using e(3) by auto
      then show ?thesis
        unfolding ev_visit.simps[of init e]
        using True None noread rebuild_constants[OF True refl nr] by auto
    next
      case vars: False
      show ?thesis
      proof (cases "is_division e")
        case nodiv: None
        define ks where "ks = map (ev_visit init) (kids e)"
        have ks: "list_all isConstantExpr ks" "length ks = length (kids e)"
          using kid by (auto simp: ks_def list_all_iff)
        then have "ks \<noteq> kids e" using vars by auto
        moreover have "isConstantExpr (ev_post (rebuild e ks))"
        proof (cases "\<exists>x. e = NotOptimizedExpr x")
          case True
          then show ?thesis
            using ks by (auto simp: ev_post_def create_NotOptimized_def length_Suc_conv)
        next
          case False
          then show ?thesis
            using rebuild_constants[OF ks nr] by (auto simp: ev_post_def elim!: isConstantExprE)
        qed
        ultimately show ?thesis
          unfolding ev_visit.simps[of init e] Let_def using None noread vars nodiv
          by (simp flip: ks_def)
      next
        case (Some p)
        then obtain k l r where d: "e = BinaryExpr k l r" "isDivKind k" "p = (l, r)"
          by (cases p) auto
        have "same_value \<rho> (ev_visit init r) r" "eval \<rho> r \<noteq> 0"
          using d e ev_visit_sound[of r] by auto
        then have nz: "\<not> isZero (ev_visit init r)"
          by (auto simp: same_value_def isZero_def CE_isZero_def split: option.splits)
        have ks: "list_all isConstantExpr [ev_visit init l, ev_visit init r]"
          using kid d by simp
        then have "ev_visit init l \<noteq> l \<or> ev_visit init r \<noteq> r" using vars d by auto
        moreover have "isConstantExpr (rebuild e [ev_visit init l, ev_visit init r])"
          using rebuild_constants[OF ks _ nr] d by auto
        ultimately show ?thesis
          unfolding ev_visit.simps[of init e] Let_def using None noread vars Some d nz by auto
      qed
    qed
  qed
qed (simp add: ev_visit.simps[of init])

lemma ev_constant_size:
  "(\<forall>e. size e = n \<longrightarrow> wt e \<longrightarrow> evaluable \<rho> e \<longrightarrow> foldable e \<longrightarrow> reads_known K \<rho> e \<longrightarrow>
      isConstantExpr (ev_visit init e)) \<and>
   (\<forall>a us idx. size us = n \<longrightarrow> wf_array a \<longrightarrow> wt_updates a us \<longrightarrow> evaluable_updates \<rho> us \<longrightarrow>
      foldable_updates us \<longrightarrow> reads_known_updates K \<rho> us \<longrightarrow> K a idx \<or> isConstantArray a \<and> idx < arr_size a \<longrightarrow>
      isConstantExpr (ev_read init a us idx))"
proof (induction n rule: less_induct)
  case (less n)
  have V: "isConstantExpr (ev_visit init x)"
    if "size x < n" "wt x" "evaluable \<rho> x" "foldable x" "reads_known K \<rho> x" for x
    by (rule less.IH[OF that(1), THEN conjunct1, rule_format, OF refl that(2-)])
  have R: "isConstantExpr (ev_read init a us idx)"
    if "size us < n" "wf_array a" "wt_updates a us" "evaluable_updates \<rho> us" "foldable_updates us"
      "reads_known_updates K \<rho> us" "K a idx \<or> isConstantArray a \<and> idx < arr_size a"
    for a us idx
    by (rule less.IH[OF that(1), THEN conjunct2, rule_format, OF refl that(2-)])
  show ?case
  proof (intro conjI allI impI)
    fix e assume e: "size e = n" "wt e" "evaluable \<rho> e" "foldable e" "reads_known K \<rho> e"
    have kid: "isConstantExpr (ev_visit init k)" if "k \<in> set (kids e)" for k
      using V[of k] that e size_kids[OF that] kids_wt kids_evaluable kids_foldable kids_known by blast
    show "isConstantExpr (ev_visit init e)"
      by (rule ev_visit_constant_step[OF e(2-4) kid]) (use e in \<open>auto intro!: R\<close>)
  next
    fix a us idx
    assume "size us = n" "wf_array a" "wt_updates a us" "evaluable_updates \<rho> us"
      "foldable_updates us" "reads_known_updates K \<rho> us" "K a idx \<or> isConstantArray a \<and> idx < arr_size a"
    then show "isConstantExpr (ev_read init a us idx)"
      unfolding ev_read.simps[of init a us] using V[of "case us of UpdateNode x v nx \<Rightarrow> x"]
      by (cases us) (auto intro!: V R init_constant split: option.split elim: isConstantExprE)
  qed
qed

lemma ev_visit_constant:
  assumes "wt e" "evaluable \<rho> e" "foldable e" "reads_known K \<rho> e"
  shows "ev_visit init e = ConstantExpr (APInt (getWidth e) (eval \<rho> e))"
proof -
  have "isConstantExpr (ev_visit init e)"
    using ev_constant_size assms by blast
  then obtain c where "ev_visit init e = ConstantExpr c"
    by (rule isConstantExprE)
  with ev_visit_sound[OF assms(1,2)] show ?thesis
    by (cases c) (simp add: same_value_def)
qed

end

section \<open>Assignments\<close>

text \<open>
  The bindings are listed in the order of the code's \<open>std::map\<close>. \<open>assignment_value\<close> is the
  method \<open>evaluate\<close> on an array element: a bound byte, otherwise a read left symbolic if free
  values are allowed, otherwise 0.
\<close>

record assignment =
  allowFreeValues :: bool
  bindings :: "(array \<times> int list) list"

definition assignment_value :: "assignment \<Rightarrow> array \<Rightarrow> nat \<Rightarrow> expr" where
  "assignment_value asg a idx =
     (let free = (if allowFreeValues asg then create_Read_value a NoUpdate (alloc_Const (domain_w a) (int idx))
                  else alloc_Const (range_w a) 0)
      in case map_of (bindings asg) a of
           Some vs \<Rightarrow> if idx < length vs then alloc_Const (range_w a) (vs ! idx) else free
         | None \<Rightarrow> free)"

definition evaluate :: "assignment \<Rightarrow> expr \<Rightarrow> expr" where
  "evaluate asg e = ev_visit (assignment_value asg) e"

definition satisfies :: "assignment \<Rightarrow> expr list \<Rightarrow> bool" where
  "satisfies asg cs = list_all (\<lambda>c. isTrue (evaluate asg c)) cs"

definition createConstraintsFromAssignment :: "assignment \<Rightarrow> expr list" where
  "createConstraintsFromAssignment asg =
     concat (map (\<lambda>(a, vs). map (\<lambda>i. create_Eq
                  (create_Read_value a NoUpdate (alloc_Const (domain_w a) (int i)))
                  (alloc_Const (range_w a) (vs ! i))) [0..<arr_size a]) (bindings asg))"

text \<open>The environment an assignment stands for; \<open>\<rho>\<close> gives the free values.\<close>

definition assignment_env :: "assignment \<Rightarrow> env \<Rightarrow> env" where
  "assignment_env asg \<rho> a i =
     (let free = (if allowFreeValues asg then \<rho> a i else 0)
      in case map_of (bindings asg) a of
           Some vs \<Rightarrow> if 0 \<le> i \<and> i < int (length vs) then vs ! nat i else free
         | None \<Rightarrow> free)"

lemma assignment_value_sound:
  assumes "wf_array a" "int idx < 2 ^ domain_w a" "\<not> (isConstantArray a \<and> idx < arr_size a)"
  shows "wt (assignment_value asg a idx) \<and> getWidth (assignment_value asg a idx) = range_w a \<and>
     eval (assignment_env asg \<rho>) (assignment_value asg a idx) =
     initial_value (assignment_env asg \<rho>) a (int idx)"
proof -
  have "wt (ReadExpr a NoUpdate (alloc_Const (domain_w a) (int idx)))"
      "take_bit (domain_w a) (int idx) = int idx"
    using assms(1,2) by (auto simp: alloc_Const_def apint_of_def wf_array_def take_bit_int_eq_self_iff)
  moreover have "0 < range_w a"
    using assms(1) by (simp add: wf_array_def)
  ultimately show ?thesis
    using assms(3) simplifiesD[OF simplifies_create_Read_value, of a NoUpdate "alloc_Const (domain_w a) (int idx)"]
    by (auto simp: assignment_value_def assignment_env_def Let_def initial_value_def
        alloc_Const_def apint_of_def split: option.split)
qed

interpretation asg: initial_values "assignment_value asg" "assignment_env asg \<rho>" for asg \<rho>
  by unfold_locales (rule assignment_value_sound)

lemma assignment_value_constant:
  "\<not> allowFreeValues asg \<Longrightarrow> isConstantExpr (assignment_value asg a idx)"
  by (auto simp: assignment_value_def alloc_Const_def Let_def split: option.split)

definition total_value :: "(array \<times> int list) list \<Rightarrow> array \<Rightarrow> nat \<Rightarrow> expr" where
  "total_value bs = assignment_value \<lparr>allowFreeValues = False, bindings = bs\<rparr>"

text \<open>The elements an assignment binds, with or without free values; all of them without.\<close>

definition bound_element :: "assignment \<Rightarrow> array \<Rightarrow> nat \<Rightarrow> bool" where
  "bound_element asg a idx \<longleftrightarrow> (\<exists>vs. map_of (bindings asg) a = Some vs \<and> idx < length vs)"

interpretation bound: constant_initial_values "assignment_value asg" "assignment_env asg \<rho>" "bound_element asg"
  for asg \<rho>
  by unfold_locales (auto simp: bound_element_def assignment_value_def alloc_Const_def Let_def)

interpretation tot: constant_initial_values "total_value bs"
    "assignment_env \<lparr>allowFreeValues = False, bindings = bs\<rparr> \<rho>" "\<lambda>_ _. True" for bs \<rho>
  unfolding total_value_def
  by unfold_locales (simp_all add: assignment_value_constant)

text \<open>An element of a bound array, as a read and under the environment.\<close>

lemma element_constraint:
  assumes "wf_array a" "i < arr_size a" "int (arr_size a) \<le> 2 ^ domain_w a"
  shows "eval \<rho> (create_Eq (create_Read_value a NoUpdate (alloc_Const (domain_w a) (int i)))
                            (alloc_Const (range_w a) v)) = 1 \<longleftrightarrow>
         initial_value \<rho> a (int i) = take_bit (range_w a) v"
proof -
  let ?r = "ReadExpr a NoUpdate (alloc_Const (domain_w a) (int i))"
  have idx: "take_bit (domain_w a) (int i) = int i" "fits (domain_w a) (int i)"
    using assms(2,3) by (simp_all add: take_bit_int_eq_self_iff fits_def)
  then have "wt ?r" "0 < range_w a"
    using assms(1) by (auto simp: alloc_Const_def apint_of_def wf_array_def)
  then show ?thesis
    using idx simplifiesD[OF simplifies_create_Read_value, of a NoUpdate "alloc_Const (domain_w a) (int i)"]
      simplifiesD[OF simplifies_create_Eq, of "create_Read_value a NoUpdate (alloc_Const (domain_w a) (int i))"
        "alloc_Const (range_w a) v"]
    by (auto simp: alloc_Const_def apint_of_def)
qed

section \<open>Properties\<close>

text \<open>C6: Evaluating an expression under an assignment, with or without free values, gives a
  well-typed expression of the same width and of the same value in the environment of the
  assignment. The expression divides by no value that is 0 in that environment (the evaluator keeps
  such a divisor unevaluated), and its arrays have indices of at most 32 bits, the width to which
  \<open>evalRead\<close> cuts an index.\<close>

theorem evaluate_sound:
  assumes "wt e" "evaluable (assignment_env asg \<rho>) e"
  shows "wt (evaluate asg e) \<and> getWidth (evaluate asg e) = getWidth e \<and>
         eval (assignment_env asg \<rho>) (evaluate asg e) = eval (assignment_env asg \<rho>) e"
  using asg.ev_visit_sound[OF assms] by (simp add: evaluate_def same_value_def)

theorem evaluate_sound_witness:
  "evaluate \<lparr>allowFreeValues = True, bindings = [(sample_array, [7, 9])]\<rparr>
     (BinaryExpr Add (sample_byte 1) (sample_byte 5)) =
   BinaryExpr Add (ConstantExpr (APInt 8 9)) (sample_byte 5) \<and>
   eval (assignment_env \<lparr>allowFreeValues = True, bindings = [(sample_array, [7, 9])]\<rparr> sample_env)
     (BinaryExpr Add (ConstantExpr (APInt 8 9)) (sample_byte 5)) = 29"
proof -
  let ?asg = "\<lparr>allowFreeValues = True, bindings = [(sample_array, [7, 9])]\<rparr>"
    and ?e = "BinaryExpr Add (sample_byte 1) (sample_byte 5)"
  have "wt ?e" "evaluable (assignment_env ?asg sample_env) ?e"
    by code_simp+
  from evaluate_sound[OF this]
  have "eval (assignment_env ?asg sample_env) (evaluate ?asg ?e) =
      eval (assignment_env ?asg sample_env) ?e"
    by (elim conjE)
  moreover have "evaluate ?asg ?e = BinaryExpr Add (ConstantExpr (APInt 8 9)) (sample_byte 5)"
    by code_simp
  moreover have "eval (assignment_env ?asg sample_env) ?e = 29"
    by code_simp
  ultimately show ?thesis by simp
qed

text \<open>Without free values, evaluation is complete: the result is the constant of the
  expression's width that the expression denotes. It needs that no \<open>NotOptimized\<close> node stands
  directly over a constant.\<close>

lemma evaluate_constant:
  assumes "\<not> allowFreeValues asg" "wt e" "evaluable (assignment_env asg \<rho>) e" "foldable e"
  shows "evaluate asg e = ConstantExpr (APInt (getWidth e) (eval (assignment_env asg \<rho>) e))"
proof (cases asg)
  case (fields free bs)
  then have "asg = \<lparr>allowFreeValues = False, bindings = bs\<rparr>"
    using assms(1) by simp
  then show ?thesis
    using assms(2-) tot.ev_visit_constant[of e bs \<rho>] by (simp add: evaluate_def total_value_def)
qed

lemma evaluate_constant_witness:
  "evaluate \<lparr>allowFreeValues = False, bindings = [(sample_array, [7, 9])]\<rparr>
     (BinaryExpr UDiv (BinaryExpr Mul (sample_byte 1) (sample_byte 1))
        (NotOptimizedExpr (BinaryExpr Add (sample_byte 0) (sample_byte 5)))) =
   ConstantExpr (APInt 8 11)"
proof -
  let ?asg = "\<lparr>allowFreeValues = False, bindings = [(sample_array, [7, 9])]\<rparr>"
    and ?e = "BinaryExpr UDiv (BinaryExpr Mul (sample_byte 1) (sample_byte 1))
        (NotOptimizedExpr (BinaryExpr Add (sample_byte 0) (sample_byte 5)))"
  have "\<not> allowFreeValues ?asg" "wt ?e" "evaluable (assignment_env ?asg sample_env) ?e" "foldable ?e"
    by code_simp+
  from evaluate_constant[OF this]
  have "evaluate ?asg ?e = ConstantExpr (APInt (getWidth ?e) (eval (assignment_env ?asg sample_env) ?e))" .
  also have "\<dots> = ConstantExpr (APInt 8 11)"
    by code_simp
  finally show ?thesis .
qed

text \<open>An assignment without free values satisfies a list of boolean constraints, as the
  solver chain checks it, exactly when every constraint is true in its environment.\<close>

theorem satisfies_iff:
  assumes "\<not> allowFreeValues asg"
    and "\<And>c. c \<in> set cs \<Longrightarrow> wt c \<and> getWidth c = 1 \<and> evaluable (assignment_env asg \<rho>) c \<and> foldable c"
  shows "satisfies asg cs \<longleftrightarrow> (\<forall>c \<in> set cs. eval (assignment_env asg \<rho>) c = 1)"
proof -
  have "isTrue (evaluate asg c) \<longleftrightarrow> eval (assignment_env asg \<rho>) c = 1" if "c \<in> set cs" for c
  proof (cases asg)
    case (fields free bs)
    then have "evaluate asg c = ConstantExpr (APInt 1 (eval (assignment_env asg \<rho>) c))"
      using assms(1) assms(2)[OF that] tot.ev_visit_constant[of c bs \<rho>]
      by (simp add: evaluate_def total_value_def)
    then show ?thesis
      using assms(2)[OF that] eval_Bool[of c] by (auto simp: isTrue_def CE_isTrue_def)
  qed
  then show ?thesis
    by (simp add: satisfies_def list_all_iff)
qed

theorem satisfies_iff_witness:
  "satisfies \<lparr>allowFreeValues = False, bindings = [(sample_array, [7, 9])]\<rparr>
     [BinaryExpr Ult (sample_byte 0) (sample_byte 1)]"
proof -
  let ?asg = "\<lparr>allowFreeValues = False, bindings = [(sample_array, [7, 9])]\<rparr>"
    and ?c = "BinaryExpr Ult (sample_byte 0) (sample_byte 1)"
  have f: "\<not> allowFreeValues ?asg"
    by simp
  have c: "wt ?c \<and> getWidth ?c = 1 \<and> evaluable (assignment_env ?asg sample_env) ?c \<and> foldable ?c"
    by code_simp
  have "eval (assignment_env ?asg sample_env) ?c = 1"
    by code_simp
  then show ?thesis
    using satisfies_iff[OF f, of "[?c]" sample_env] c by simp
qed

text \<open>The constraints created from an assignment hold in an environment exactly when the
  environment gives every byte of every bound array the value it has in the assignment.\<close>

theorem createConstraintsFromAssignment_sound:
  assumes "\<And>a vs. (a, vs) \<in> set (bindings asg) \<Longrightarrow>
      wf_array a \<and> length vs = arr_size a \<and> int (arr_size a) \<le> 2 ^ domain_w a"
  shows "(\<forall>c \<in> set (createConstraintsFromAssignment asg). eval \<rho> c = 1) \<longleftrightarrow>
     (\<forall>(a, vs) \<in> set (bindings asg). \<forall>i < arr_size a.
        initial_value \<rho> a (int i) = take_bit (range_w a) (vs ! i))"
  using assms element_constraint
  by (fastforce simp: createConstraintsFromAssignment_def)

theorem createConstraintsFromAssignment_sound_witness:
  "\<exists>c \<in> set (createConstraintsFromAssignment
      \<lparr>allowFreeValues = False, bindings = [(sample_table, [10, 20, 31, 40])]\<rparr>).
     eval sample_env c \<noteq> 1"
proof -
  let ?asg = "\<lparr>allowFreeValues = False, bindings = [(sample_table, [10, 20, 31, 40])]\<rparr>"
  have "wf_array sample_table" "initial_value sample_env sample_table (int 2) = 30"
    by code_simp+
  moreover have "arr_size sample_table = 4" "domain_w sample_table = 32" "range_w sample_table = 8"
    by code_simp+
  ultimately show ?thesis
    using createConstraintsFromAssignment_sound[of ?asg sample_env]
    by (auto dest!: spec[of _ 2])
qed

text \<open>The gap in the previous claims is real: a \<open>NotOptimized\<close> node over a constant is
  returned as it is, because the shortcut for constant children rebuilds it before the hook that
  strips \<open>NotOptimized\<close> is reached. Its expression is true in every environment, and yet no
  assignment is reported to satisfy it.\<close>

lemma satisfies_NotOptimized_constant:
  "\<not> satisfies asg [NotOptimizedExpr (ConstantExpr (APInt 1 1))] \<and>
   eval \<rho> (NotOptimizedExpr (ConstantExpr (APInt 1 1))) = 1"
  by (simp add: satisfies_def evaluate_def ev_visit.simps[of _ "NotOptimizedExpr _"] dyn_Read_def
      create_NotOptimized_def isTrue_def)

end
