(* ===== verification/ArrayCache.thy ===== *)
theory ArrayCache
  imports ExprCreateCorrect
begin

text \<open>
  Update lists (\<^verbatim>\<open>lib/klee/Expr/Updates.cpp\<close>) and the cache that owns the arrays
  (\<^verbatim>\<open>lib/klee/Expr/ArrayCache.cpp\<close>). A cache remembers the address its next array gets; the
  deletion of arrays and the reference counts of update nodes are memory management and left out.
\<close>

section \<open>Arrays\<close>

record array_cache =
  next_addr :: nat
  cachedSymbolicArrays :: "array list"
  concreteArrays :: "array list"

definition EquivArrayCmpFn :: "array \<Rightarrow> array \<Rightarrow> bool" where
  "EquivArrayCmpFn a b \<longleftrightarrow> arr_size a = arr_size b \<and> name a = name b"

text \<open>The constructor asserts that constant values, if any, fill the array and have its range.\<close>

definition new_Array :: "nat \<Rightarrow> string \<Rightarrow> nat \<Rightarrow> int list \<Rightarrow> nat \<Rightarrow> nat \<Rightarrow> array option" where
  "new_Array p nm n vals dw rw =
     (if vals = [] \<or> length vals = n
      then Some \<lparr>addr = p, name = nm, arr_size = n, domain_w = dw, range_w = rw, constantValues = vals\<rparr>
      else None)"

text \<open>The hash that the cache's set uses, over the name (whose characters are signed) and the size.\<close>

definition MAGIC_HASH_CONSTANT :: "32 word" where
  "MAGIC_HASH_CONSTANT = 39"

definition char_value :: "char \<Rightarrow> 32 word" where
  "char_value c = word_of_int (signed_take_bit 7 (of_char c))"

definition Array_computeHash :: "array \<Rightarrow> 32 word" where
  "Array_computeHash a =
     foldl (\<lambda>res c. res * MAGIC_HASH_CONSTANT + char_value c) 0 (name a) * MAGIC_HASH_CONSTANT
       + of_nat (arr_size a)"

text \<open>Arrays that the set takes for equal have equal hashes, so a search by hash finds them. Neither
  looks at the domain and the range.\<close>

lemma Array_computeHash_Equiv: "EquivArrayCmpFn a b \<Longrightarrow> Array_computeHash a = Array_computeHash b"
  by (simp add: EquivArrayCmpFn_def Array_computeHash_def)

lemma Array_computeHash_widths:
  "EquivArrayCmpFn (a\<lparr>domain_w := d, range_w := r\<rparr>) a"
  "Array_computeHash (a\<lparr>domain_w := d, range_w := r\<rparr>) = Array_computeHash a"
  by (simp_all add: EquivArrayCmpFn_def Array_computeHash_def)

definition CreateArray ::
    "string \<Rightarrow> nat \<Rightarrow> int list \<Rightarrow> nat \<Rightarrow> nat \<Rightarrow> array_cache \<Rightarrow> (array \<times> array_cache) option" where
  "CreateArray nm n vals dw rw c =
     (case new_Array (next_addr c) nm n vals dw rw of
        None \<Rightarrow> None
      | Some a \<Rightarrow>
          let c' = c\<lparr>next_addr := next_addr c + 1\<rparr>
          in if isSymbolicArray a then
               (case find (EquivArrayCmpFn a) (cachedSymbolicArrays c) of
                  None \<Rightarrow> Some (a, c'\<lparr>cachedSymbolicArrays := a # cachedSymbolicArrays c\<rparr>)
                | Some b \<Rightarrow> if isSymbolicArray b then Some (b, c') else None)
             else Some (a, c'\<lparr>concreteArrays := concreteArrays c @ [a]\<rparr>))"

text \<open>Every array is at an address of its own; the cached ones are symbolic and pairwise inequivalent.\<close>

definition cache_ok :: "array_cache \<Rightarrow> bool" where
  "cache_ok c \<longleftrightarrow>
     (\<forall>a \<in> set (cachedSymbolicArrays c @ concreteArrays c). addr a < next_addr c) \<and>
     distinct (map addr (cachedSymbolicArrays c @ concreteArrays c)) \<and>
     (\<forall>a \<in> set (cachedSymbolicArrays c). isSymbolicArray a) \<and>
     (\<forall>a \<in> set (concreteArrays c). isConstantArray a) \<and>
     distinct (map (\<lambda>a. (arr_size a, name a)) (cachedSymbolicArrays c))"

definition cached_arrays :: "array_cache \<Rightarrow> array set" where
  "cached_arrays c = set (cachedSymbolicArrays c @ concreteArrays c)"

section \<open>Update lists\<close>

text \<open>An update list is a root, possibly null, and its head.\<close>

definition ul_extend :: "array option \<Rightarrow> updates \<Rightarrow> expr \<Rightarrow> expr \<Rightarrow> updates option" where
  "ul_extend root head index val =
     (case root of
        Some a \<Rightarrow> if domain_w a = getWidth index \<and> range_w a = getWidth val
                  then Some (UpdateNode index val head) else None
      | None \<Rightarrow> Some (UpdateNode index val head))"

fun oldest_first :: "updates \<Rightarrow> (expr \<times> expr) list" where
  "oldest_first NoUpdate = []"
| "oldest_first (UpdateNode x v us) = oldest_first us @ [(x, v)]"

fun extend_all :: "array option \<Rightarrow> updates \<Rightarrow> (expr \<times> expr) list \<Rightarrow> updates option" where
  "extend_all root us [] = Some us"
| "extend_all root us ((x, v) # ws) =
     (case ul_extend root us x v of None \<Rightarrow> None | Some us' \<Rightarrow> extend_all root us' ws)"

text \<open>The value an update list gives to an index over a value below it.\<close>

definition write_val :: "env \<Rightarrow> int \<Rightarrow> expr \<times> expr \<Rightarrow> int \<Rightarrow> int" where
  "write_val \<rho> i = (\<lambda>(x, v) b. if eval \<rho> x = i then eval \<rho> v else b)"

definition upd_val :: "env \<Rightarrow> updates \<Rightarrow> int \<Rightarrow> int \<Rightarrow> int" where
  "upd_val \<rho> us b i = fold (write_val \<rho> i) (oldest_first us) b"

lemma upd_val_simps [simp]:
  "upd_val \<rho> NoUpdate b i = b"
  "upd_val \<rho> (UpdateNode x v us) b i = (if eval \<rho> x = i then eval \<rho> v else upd_val \<rho> us b i)"
  by (simp_all add: upd_val_def write_val_def)

lemma read_updates_upd_val: "read_updates \<rho> a us i = upd_val \<rho> us (initial_value \<rho> a i) i"
  by (induction us rule: oldest_first.induct) simp_all

lemma extend_all_oldest:
  "extend_all root us ws = Some us' \<Longrightarrow> oldest_first us' = oldest_first us @ ws"
  by (induction root us ws rule: extend_all.induct) (auto simp: ul_extend_def split: option.splits if_splits)


definition wt_write :: "expr \<times> expr \<Rightarrow> bool" where
  "wt_write = (\<lambda>(x, v). wt x \<and> wt v \<and> getWidth x = 32 \<and> getWidth v = 8)"

lemma wt_updates_oldest:
  "domain_w a = 32 \<Longrightarrow> range_w a = 8 \<Longrightarrow> wt_updates a us \<longleftrightarrow> list_all wt_write (oldest_first us)"
  by (induction us rule: oldest_first.induct) (auto simp: wt_write_def)

lemma extend_all_Some:
  assumes "\<And>a. root = Some a \<Longrightarrow> domain_w a = 32 \<and> range_w a = 8" "list_all wt_write ws"
  shows "\<exists>us'. extend_all root us ws = Some us'"
  using assms(2)
proof (induction ws arbitrary: us)
  case (Cons w ws)
  then show ?case
    using assms(1) by (cases w) (auto simp: ul_extend_def wt_write_def split: option.split)
qed simp

text \<open>The cache hands out a symbolic array of the name and size asked for, the same one for every
  later request of that name and size, and a new one for constant values; it stays consistent and
  keeps all arrays it has handed out.\<close>

lemma CreateArray_ok:
  assumes "cache_ok c" and "vals = [] \<or> length vals = n"
  shows "case CreateArray nm n vals dw rw c of
           None \<Rightarrow> False
         | Some (a, c') \<Rightarrow>
             cache_ok c' \<and> arr_size a = n \<and> name a = nm \<and> constantValues a = vals \<and>
             a \<in> cached_arrays c' \<and> cached_arrays c \<subseteq> cached_arrays c' \<and>
             (vals \<noteq> [] \<longrightarrow> a \<notin> cached_arrays c \<and> domain_w a = dw \<and> range_w a = rw) \<and>
             (vals = [] \<longrightarrow> (\<forall>dw' rw'. \<exists>c''. CreateArray nm n [] dw' rw' c' = Some (a, c'')))"
proof -
  let ?a = "\<lparr>addr = next_addr c, name = nm, arr_size = n, domain_w = dw, range_w = rw, constantValues = vals\<rparr>"
  have new: "new_Array (next_addr c) nm n vals dw rw = Some ?a"
    using assms(2) by (simp add: new_Array_def)
  show ?thesis
  proof (cases "vals = []")
    case False
    have less: "\<forall>a \<in> cached_arrays c. addr a < next_addr c"
      using assms(1) by (simp add: cache_ok_def cached_arrays_def)
    have "?a \<notin> cached_arrays c"
      using less by auto
    moreover have "\<forall>a \<in> cached_arrays c. addr a < Suc (next_addr c)"
      using less by (auto intro: less_SucI)
    ultimately show ?thesis
      using assms(1) False less
      by (auto simp: CreateArray_def new isSymbolicArray_def isConstantArray_def cache_ok_def cached_arrays_def Let_def)
  next
    case True
    show ?thesis
    proof (cases "find (EquivArrayCmpFn ?a) (cachedSymbolicArrays c)")
      case None
      let ?c = "c\<lparr>next_addr := next_addr c + 1, cachedSymbolicArrays := ?a # cachedSymbolicArrays c\<rparr>"
      have res: "CreateArray nm n vals dw rw c = Some (?a, ?c)"
        using None True by (simp add: CreateArray_def new_Array_def isSymbolicArray_def Let_def)
      have less: "\<forall>a \<in> cached_arrays c. addr a < next_addr c"
        using assms(1) by (simp add: cache_ok_def cached_arrays_def)
      moreover have "\<forall>a \<in> cached_arrays c. addr a < Suc (next_addr c)"
        using less by (auto intro: less_SucI)
      moreover have "\<forall>b \<in> set (cachedSymbolicArrays c). arr_size b = n \<longrightarrow> name b \<noteq> nm"
        using None by (auto simp: find_None_iff EquivArrayCmpFn_def)
      ultimately have "cache_ok ?c"
        using assms(1) True by (auto simp: cache_ok_def cached_arrays_def isSymbolicArray_def)
      with True show ?thesis
        unfolding res by (auto simp: cached_arrays_def) (simp add: CreateArray_def new_Array_def isSymbolicArray_def EquivArrayCmpFn_def Let_def)
    next
      case (Some b)
      then have b: "b \<in> set (cachedSymbolicArrays c)" "EquivArrayCmpFn ?a b"
        by (auto simp: find_Some_iff)
      then have "isSymbolicArray b" "arr_size b = n" "name b = nm"
        using assms(1) by (auto simp: cache_ok_def EquivArrayCmpFn_def)
      moreover have "find (EquivArrayCmpFn (?a\<lparr>addr := p, domain_w := d, range_w := r\<rparr>)) (cachedSymbolicArrays c) = Some b"
        for p d r
        using Some by (simp add: EquivArrayCmpFn_def[abs_def])
      moreover have "\<forall>a \<in> cached_arrays c. addr a < Suc (next_addr c)"
        using assms(1) by (auto simp: cache_ok_def cached_arrays_def intro: less_SucI)
      ultimately show ?thesis
        using assms(1) True b(1) Some
        by (auto simp: CreateArray_def new_Array_def isSymbolicArray_def cache_ok_def cached_arrays_def Let_def)
    qed
  qed
qed

lemma CreateArray_ok_witness:
  "\<exists>a c'. CreateArray ''arr'' 4 [] 32 8 \<lparr>next_addr = 0, cachedSymbolicArrays = [], concreteArrays = []\<rparr>
     = Some (a, c') \<and> cache_ok c'"
proof -
  let ?c = "\<lparr>next_addr = 0, cachedSymbolicArrays = [], concreteArrays = []\<rparr>"
  have "cache_ok ?c"
    by (simp add: cache_ok_def)
  from CreateArray_ok[OF this, of "[]" 4 "''arr''" 32 8] show ?thesis
    by (auto split: option.splits)
qed

end
