(* ===== verification/ExprCompare.thy ===== *)
theory ExprCompare
  imports ArrayCache "HOL-Library.List_Lexorder" "HOL-Library.Char_ord"
begin

text \<open>
  Hashing and comparison of expressions (\<^verbatim>\<open>lib/klee/Expr/Expr.cpp\<close>, \<^verbatim>\<open>Updates.cpp\<close> and the
  \<open>compareContents\<close> of \<^verbatim>\<open>Expr.h\<close>). LLVM's hash of an \<open>APInt\<close> is a parameter \<open>hv\<close>. The set of
  pairs already found equal is an optimisation that pointer identity makes sound; equal subtrees
  compare as equal here too.
\<close>

section \<open>Hashes\<close>

definition kind_hash :: "Kind \<Rightarrow> 32 word" where
  "kind_hash k = of_nat (kind_value k) * MAGIC_HASH_CONSTANT"

definition kid_hash :: "32 word \<Rightarrow> 32 word \<Rightarrow> 32 word" where
  "kid_hash res h = push_bit 1 res XOR (h * MAGIC_HASH_CONSTANT)"

definition name_hash :: "string \<Rightarrow> 32 word" where
  "name_hash nm = foldl (\<lambda>res c. res * MAGIC_HASH_CONSTANT + char_value c) 0 nm"

fun expr_hash :: "(apint \<Rightarrow> 32 word) \<Rightarrow> expr \<Rightarrow> 32 word"
and update_hash :: "(apint \<Rightarrow> 32 word) \<Rightarrow> updates \<Rightarrow> 32 word" where
  "expr_hash hv (ConstantExpr c) = hv c XOR (of_nat (getBitWidth c) * MAGIC_HASH_CONSTANT)"
| "expr_hash hv (NotOptimizedExpr e) = kid_hash (kind_hash KNotOptimized) (expr_hash hv e)"
| "expr_hash hv (ReadExpr a us i) =
     (expr_hash hv i * MAGIC_HASH_CONSTANT) XOR
     (if us = NoUpdate then name_hash (name a) else name_hash (name a) XOR update_hash hv us)"
| "expr_hash hv (SelectExpr c t f) =
     kid_hash (kid_hash (kid_hash (kind_hash KSelect) (expr_hash hv c)) (expr_hash hv t)) (expr_hash hv f)"
| "expr_hash hv (ConcatExpr l r) = kid_hash (kid_hash (kind_hash KConcat) (expr_hash hv l)) (expr_hash hv r)"
| "expr_hash hv (ExtractExpr e off w) =
     (of_nat off * MAGIC_HASH_CONSTANT) XOR (of_nat w * MAGIC_HASH_CONSTANT) XOR (expr_hash hv e * MAGIC_HASH_CONSTANT)"
| "expr_hash hv (ZExtExpr e w) = (of_nat w * MAGIC_HASH_CONSTANT) XOR (expr_hash hv e * MAGIC_HASH_CONSTANT)"
| "expr_hash hv (SExtExpr e w) = (of_nat w * MAGIC_HASH_CONSTANT) XOR (expr_hash hv e * MAGIC_HASH_CONSTANT)"
| "expr_hash hv (NotExpr e) = expr_hash hv e * MAGIC_HASH_CONSTANT * of_nat (kind_value KNot)"
| "expr_hash hv (BinaryExpr k l r) =
     kid_hash (kid_hash (kind_hash (KBinary k)) (expr_hash hv l)) (expr_hash hv r)"
| "update_hash hv NoUpdate = 0"
| "update_hash hv (UpdateNode x v us) =
     (if us = NoUpdate then expr_hash hv x XOR expr_hash hv v
      else expr_hash hv x XOR expr_hash hv v XOR update_hash hv us)"

section \<open>Comparison\<close>

definition cmp3 :: "'a::linorder \<Rightarrow> 'a \<Rightarrow> int" where
  "cmp3 a b = (if a \<noteq> b then (if a < b then - 1 else 1) else 0)"

text \<open>\<open>if (int res = ...) return res;\<close> followed by the rest.\<close>

definition lex :: "int \<Rightarrow> int \<Rightarrow> int" where
  "lex r s = (if r \<noteq> 0 then r else s)"

definition compare_head :: "(apint \<Rightarrow> 32 word) \<Rightarrow> expr \<Rightarrow> expr \<Rightarrow> int" where
  "compare_head hv a b =
     lex (cmp3 (kind_value (getKind a)) (kind_value (getKind b))) (cmp3 (expr_hash hv a) (expr_hash hv b))"

definition compare_root :: "array \<Rightarrow> updates \<Rightarrow> array \<Rightarrow> updates \<Rightarrow> int" where
  "compare_root a us b vs = lex (cmp3 (name a) (name b)) (lex (cmp3 (addr a) (addr b)) (cmp3 (getSize us) (getSize vs)))"

text \<open>The contents and the children of two expressions of one kind.\<close>

function expr_compare :: "(apint \<Rightarrow> 32 word) \<Rightarrow> expr \<Rightarrow> expr \<Rightarrow> int"
and compare_tail :: "(apint \<Rightarrow> 32 word) \<Rightarrow> expr \<Rightarrow> expr \<Rightarrow> int"
and update_compare :: "(apint \<Rightarrow> 32 word) \<Rightarrow> updates \<Rightarrow> updates \<Rightarrow> int" where
  "expr_compare hv a b = lex (compare_head hv a b) (compare_tail hv a b)"
| "compare_tail hv (ConstantExpr c) e =
     (case e of ConstantExpr d \<Rightarrow>
        lex (cmp3 (getBitWidth c) (getBitWidth d)) (cmp3 (rawval c) (rawval d)) | _ \<Rightarrow> 0)"
| "compare_tail hv (NotOptimizedExpr a) e =
     (case e of NotOptimizedExpr b \<Rightarrow> expr_compare hv a b | _ \<Rightarrow> 0)"
| "compare_tail hv (ReadExpr a us i) e =
     (case e of ReadExpr b vs j \<Rightarrow>
        lex (lex (compare_root a us b vs) (update_compare hv us vs)) (expr_compare hv i j) | _ \<Rightarrow> 0)"
| "compare_tail hv (SelectExpr c t f) e =
     (case e of SelectExpr c' t' f' \<Rightarrow>
        lex (expr_compare hv c c') (lex (expr_compare hv t t') (expr_compare hv f f')) | _ \<Rightarrow> 0)"
| "compare_tail hv (ConcatExpr l r) e =
     (case e of ConcatExpr l' r' \<Rightarrow>
        lex (cmp3 (getWidth l + getWidth r) (getWidth l' + getWidth r'))
          (lex (expr_compare hv l l') (expr_compare hv r r')) | _ \<Rightarrow> 0)"
| "compare_tail hv (ExtractExpr a off w) e =
     (case e of ExtractExpr b off' w' \<Rightarrow>
        lex (lex (cmp3 off off') (cmp3 w w')) (expr_compare hv a b) | _ \<Rightarrow> 0)"
| "compare_tail hv (ZExtExpr a w) e =
     (case e of ZExtExpr b w' \<Rightarrow> lex (cmp3 w w') (expr_compare hv a b) | _ \<Rightarrow> 0)"
| "compare_tail hv (SExtExpr a w) e =
     (case e of SExtExpr b w' \<Rightarrow> lex (cmp3 w w') (expr_compare hv a b) | _ \<Rightarrow> 0)"
| "compare_tail hv (NotExpr a) e = (case e of NotExpr b \<Rightarrow> expr_compare hv a b | _ \<Rightarrow> 0)"
| "compare_tail hv (BinaryExpr k l r) e =
     (case e of BinaryExpr k' l' r' \<Rightarrow>
        lex (expr_compare hv l l') (expr_compare hv r r') | _ \<Rightarrow> 0)"
| "update_compare hv NoUpdate us = 0"
| "update_compare hv (UpdateNode x v us) n =
     (case n of UpdateNode y w vs \<Rightarrow>
        lex (lex (expr_compare hv x y) (expr_compare hv v w)) (update_compare hv us vs)
      | NoUpdate \<Rightarrow> 0)"
  by pat_completeness auto
termination
  by (relation "measures [\<lambda>x. case x of Inl (hv, a, b) \<Rightarrow> size a
          | Inr (Inl (hv, a, b)) \<Rightarrow> size a | Inr (Inr (hv, us, vs)) \<Rightarrow> size us,
        \<lambda>x. case x of Inl _ \<Rightarrow> 1 | _ \<Rightarrow> 0]") auto

section \<open>A total order\<close>

lemma cmp3_eq_0 [simp]: "cmp3 a b = 0 \<longleftrightarrow> a = b"
  by (simp add: cmp3_def)

lemma cmp3_swap: "cmp3 b a = - cmp3 a b"
  by (auto simp: cmp3_def)

lemma lex_eq_0 [simp]: "lex r s = 0 \<longleftrightarrow> r = 0 \<and> s = 0"
  by (simp add: lex_def)

lemma lex_swap: "lex (- r) (- s) = - lex r s"
  by (simp add: lex_def)

lemma bkind_value_ge: "10 \<le> bkind_value b"
  by (cases b) simp_all

lemma bkind_value_inj: "bkind_value b = bkind_value c \<Longrightarrow> b = c"
  by (cases b; cases c; simp)

lemma lex_swapI: "r' = - r \<Longrightarrow> s' = - s \<Longrightarrow> lex r' s' = - lex r s"
  by (simp add: lex_swap)

lemma kind_value_inj: "kind_value k = kind_value k' \<longleftrightarrow> k = k'"
proof
  assume *: "kind_value k = kind_value k'"
  have ge: "10 \<le> kind_value (KBinary b)" for b
    by (simp add: bkind_value_ge)
  show "k = k'"
    using * ge[of "case k of KBinary b \<Rightarrow> b | _ \<Rightarrow> Add"] ge[of "case k' of KBinary b \<Rightarrow> b | _ \<Rightarrow> Add"]
    by (cases k; cases k') (auto dest: bkind_value_inj)
qed simp

text \<open>
  \<open>tri p q r\<close>: the three results of comparing \<open>a\<close> with \<open>b\<close>, \<open>b\<close> with \<open>c\<close> and \<open>a\<close> with \<open>c\<close> fit
  together as those of a linear order do.
\<close>

definition tri :: "int \<Rightarrow> int \<Rightarrow> int \<Rightarrow> bool" where
  "tri p q r \<longleftrightarrow>
     (p = 0 \<longrightarrow> r = q) \<and> (q = 0 \<longrightarrow> r = p) \<and> (p < 0 \<longrightarrow> q < 0 \<longrightarrow> r < 0) \<and> (0 < p \<longrightarrow> 0 < q \<longrightarrow> 0 < r)"

lemma tri_0 [simp]: "tri 0 0 0"
  by (simp add: tri_def)

lemma tri_cmp3 [simp]: "tri (cmp3 a b) (cmp3 b c) (cmp3 a c)"
  by (auto simp: tri_def cmp3_def)

lemma tri_lex:
  "tri p q r \<Longrightarrow> (p = 0 \<Longrightarrow> q = 0 \<Longrightarrow> tri p' q' r') \<Longrightarrow> tri (lex p p') (lex q q') (lex r r')"
  by (auto simp: tri_def lex_def)

lemma tri_negative: "tri p q r \<Longrightarrow> p \<le> 0 \<Longrightarrow> q \<le> 0 \<Longrightarrow> r \<le> 0"
  by (auto simp: tri_def)

lemmas compare_induct = expr_compare_compare_tail_update_compare.induct

lemma compare_head_eq_0:
  "compare_head hv a b = 0 \<longleftrightarrow> getKind a = getKind b \<and> expr_hash hv a = expr_hash hv b"
  by (simp add: compare_head_def kind_value_inj)

lemma compare_head_swap: "compare_head hv b a = - compare_head hv a b"
  unfolding compare_head_def
  by (subst (1 2) cmp3_swap) (rule lex_swap)

lemma compare_root_swap: "compare_root b vs a us = - compare_root a us b vs"
  unfolding compare_root_def
  by (subst (1 2 3) cmp3_swap) (simp only: lex_swap)

lemma getSize_eq_0 [simp]: "getSize us = 0 \<longleftrightarrow> us = NoUpdate"
  by (cases us) simp_all

lemma update_compare_NoUpdate [simp]: "update_compare hv us NoUpdate = 0"
  by (cases us) simp_all

text \<open>Comparing the other way round.\<close>

lemma compare_swap:
  "expr_compare hv b a = - expr_compare hv a b"
  "getKind a = getKind b \<Longrightarrow> compare_tail hv b a = - compare_tail hv a b"
  "update_compare hv vs us = - update_compare hv us vs"
proof (induction hv a b and hv a b and hv us vs rule: compare_induct)
  case (1 hv a b)
  then show ?case
    using compare_head_eq_0[of hv a b] compare_head_swap[of hv b a]
    by (cases "compare_head hv a b = 0") (simp_all add: lex_def)
qed (auto split: expr.splits updates.splits simp del: expr_compare.simps lex_eq_0
       intro!: lex_swapI cmp3_swap compare_root_swap)

text \<open>Transitivity, in the form of the three comparisons of three expressions.\<close>

lemma compare_tri:
  "tri (expr_compare hv a b) (expr_compare hv b c) (expr_compare hv a c)"
  "getKind a = getKind b \<Longrightarrow> getKind b = getKind c \<Longrightarrow>
   tri (compare_tail hv a b) (compare_tail hv b c) (compare_tail hv a c)"
  "getSize us = getSize vs \<Longrightarrow> getSize vs = getSize ws \<Longrightarrow>
   tri (update_compare hv us vs) (update_compare hv vs ws) (update_compare hv us ws)"
proof (induction hv a b and hv a b and hv us vs arbitrary: c and c and ws rule: compare_induct)
  case (1 hv a b)
  have "tri (compare_head hv a b) (compare_head hv b c) (compare_head hv a c)"
    unfolding compare_head_def by (intro tri_lex tri_cmp3)
  then show ?case
    unfolding expr_compare.simps
    by (rule tri_lex) (simp add: compare_head_eq_0 1)
next
  case (4 hv a us i e)
  then show ?case
    by (auto split: expr.splits simp del: expr_compare.simps simp: compare_root_def
          intro!: tri_lex tri_cmp3)
next
  case (13 hv x v us n)
  then show ?case
    by (auto split: updates.splits simp del: expr_compare.simps intro!: tri_lex)
qed (auto split: expr.splits updates.splits simp del: expr_compare.simps intro!: tri_lex tri_cmp3)

text \<open>The arrays of an expression.\<close>

fun expr_arrays :: "expr \<Rightarrow> array set" and update_arrays :: "updates \<Rightarrow> array set" where
  "expr_arrays (ConstantExpr c) = {}"
| "expr_arrays (NotOptimizedExpr e) = expr_arrays e"
| "expr_arrays (ReadExpr a us i) = insert a (update_arrays us \<union> expr_arrays i)"
| "expr_arrays (SelectExpr c t f) = expr_arrays c \<union> expr_arrays t \<union> expr_arrays f"
| "expr_arrays (ConcatExpr l r) = expr_arrays l \<union> expr_arrays r"
| "expr_arrays (ExtractExpr e off w) = expr_arrays e"
| "expr_arrays (ZExtExpr e w) = expr_arrays e"
| "expr_arrays (SExtExpr e w) = expr_arrays e"
| "expr_arrays (NotExpr e) = expr_arrays e"
| "expr_arrays (BinaryExpr k l r) = expr_arrays l \<union> expr_arrays r"
| "update_arrays NoUpdate = {}"
| "update_arrays (UpdateNode x v us) = expr_arrays x \<union> expr_arrays v \<union> update_arrays us"

lemma compare_eq_0_imp:
  "expr_compare hv a b = 0 \<Longrightarrow> inj_on addr A \<Longrightarrow> expr_arrays a \<union> expr_arrays b \<subseteq> A \<Longrightarrow> a = b"
  "compare_tail hv a b = 0 \<Longrightarrow> getKind a = getKind b \<Longrightarrow> inj_on addr A \<Longrightarrow>
   expr_arrays a \<union> expr_arrays b \<subseteq> A \<Longrightarrow> a = b"
  "update_compare hv us vs = 0 \<Longrightarrow> getSize us = getSize vs \<Longrightarrow> inj_on addr A \<Longrightarrow>
   update_arrays us \<union> update_arrays vs \<subseteq> A \<Longrightarrow> us = vs"
proof (induction hv a b and hv a b and hv us vs rule: compare_induct)
  case (1 hv a b)
  then show ?case
    unfolding expr_compare.simps by (simp add: compare_head_eq_0)
next
  case (2 hv c e)
  then show ?case
    by (cases e) (auto intro: apint.expand)
next
  case (4 hv a us i e)
  then show ?case
    by (cases e) (auto simp del: expr_compare.simps simp: compare_root_def dest: inj_onD)
next
  case (12 hv us)
  then show ?case by (cases us) simp_all
next
  case (13 hv x v us n)
  then show ?case
    by (cases n) (auto simp del: expr_compare.simps)
qed (auto split: expr.splits simp del: expr_compare.simps)

lemma compare_eq_0_iff:
  assumes "inj_on addr (expr_arrays a \<union> expr_arrays b)"
  shows "expr_compare hv a b = 0 \<longleftrightarrow> a = b"
  using compare_eq_0_imp(1)[OF _ assms] compare_swap(1)[of hv a a] by auto

section \<open>The order\<close>

text \<open>C12: \<open>Expr::compare\<close> is a linear order on expressions whose arrays have distinct addresses:
  it returns 0 exactly for structurally equal expressions, the sign is reversed by exchanging the
  arguments, and it is transitive, whatever the hash function of constants is.\<close>

theorem expr_compare_order:
  assumes "inj_on addr (expr_arrays a \<union> expr_arrays b)"
  shows "(expr_compare hv a b = 0 \<longleftrightarrow> a = b) \<and> expr_compare hv b a = - expr_compare hv a b \<and>
    (expr_compare hv a b \<le> 0 \<and> expr_compare hv b c \<le> 0 \<longrightarrow> expr_compare hv a c \<le> 0)"
  using compare_eq_0_iff[OF assms] compare_swap(1) tri_negative[OF compare_tri(1)] by blast

definition wit_array :: "nat \<Rightarrow> array" where
  "wit_array n = \<lparr>addr = n, name = ''A'', arr_size = 4, domain_w = 32, range_w = 8, constantValues = []\<rparr>"

definition wit_read :: "nat \<Rightarrow> expr" where
  "wit_read n = ReadExpr (wit_array n) NoUpdate (ConstantExpr (APInt 32 0))"

lemma expr_compare_order_witness:
  "expr_compare (\<lambda>_. 0) (wit_read 1) (wit_read 2) = - 1 \<and>
   expr_compare (\<lambda>_. 0) (wit_read 2) (wit_read 1) = - expr_compare (\<lambda>_. 0) (wit_read 1) (wit_read 2) \<and>
   (expr_compare (\<lambda>_. 0) (wit_read 1) (wit_read 2) = 0 \<longleftrightarrow> wit_read 1 = wit_read 2)"
proof -
  have "inj_on addr (expr_arrays (wit_read 1) \<union> expr_arrays (wit_read 2))"
    by (simp add: wit_read_def wit_array_def)
  moreover have "expr_compare (\<lambda>_. 0) (wit_read 1) (wit_read 2) = - 1"
    by (simp add: wit_read_def wit_array_def compare_head_def compare_root_def lex_def cmp3_def)
  ultimately show ?thesis
    using expr_compare_order[of "wit_read 1" "wit_read 2" "\<lambda>_. 0"] by blast
qed

end
