(* ===== verification/OrderedMap.thy ===== *)
theory OrderedMap
  imports Prelude
begin

text \<open>
  The interface through which the system uses its persistent maps: what insertion, replacement,
  removal, lookup and the search for the greatest key below a bound promise of the map that a
  representation stands for. Values carry their key (\<open>kov\<close>). A second interface adds an extent
  to every value, as for memory objects that occupy the addresses from their key on.
\<close>

locale ordered_map =
  fixes kov :: "'v \<Rightarrow> 'k::linorder"
    and ok :: "'t \<Rightarrow> bool"
    and abs :: "'t \<Rightarrow> 'k \<rightharpoonup> 'v"
    and empty :: 't
    and insert replace :: "'v \<Rightarrow> 't \<Rightarrow> 't"
    and remove :: "'k \<Rightarrow> 't \<Rightarrow> 't"
    and lookup previous :: "'k \<Rightarrow> 't \<Rightarrow> 'v option"
  assumes key: "ok t \<Longrightarrow> abs t k = Some v \<Longrightarrow> kov v = k"
    and empty: "ok empty" "abs empty = Map.empty"
    and insert: "ok t \<Longrightarrow> ok (insert v t)"
      "ok t \<Longrightarrow> abs (insert v t) = (if abs t (kov v) = None then (abs t)(kov v \<mapsto> v) else abs t)"
    and replace: "ok t \<Longrightarrow> ok (replace v t)" "ok t \<Longrightarrow> abs (replace v t) = (abs t)(kov v \<mapsto> v)"
    and remove: "ok t \<Longrightarrow> ok (remove k t)" "ok t \<Longrightarrow> abs (remove k t) = (abs t)(k := None)"
    and lookup: "ok t \<Longrightarrow> lookup k t = abs t k"
    and previous_Some: "ok t \<Longrightarrow> previous k t = Some v \<Longrightarrow>
      abs t (kov v) = Some v \<and> kov v \<le> k \<and> (\<forall>k'. kov v < k' \<longrightarrow> k' \<le> k \<longrightarrow> abs t k' = None)"
    and previous_None: "ok t \<Longrightarrow> previous k t = None \<Longrightarrow> k' \<le> k \<Longrightarrow> abs t k' = None"
begin

lemma lookup_replace: "ok t \<Longrightarrow> lookup k (replace v t) = (if k = kov v then Some v else lookup k t)"
  by (simp add: lookup replace)

lemma lookup_remove: "ok t \<Longrightarrow> lookup k (remove k' t) = (if k = k' then None else lookup k t)"
  by (simp add: lookup remove)

lemma previous_dom: "ok t \<Longrightarrow> previous k t = None \<longleftrightarrow> (\<forall>k' \<le> k. lookup k' t = None)"
  by (metis lookup option.distinct(1) option.exhaust previous_None previous_Some)

end

text \<open>Maps whose values occupy pairwise disjoint ranges of addresses.\<close>

locale interval_map = ordered_map kov ok abs empty insert replace remove lookup previous
  for kov :: "'v \<Rightarrow> nat" and ok :: "'t \<Rightarrow> bool" and abs empty insert replace remove lookup previous +
  fixes extent :: "'v \<Rightarrow> nat"
begin

definition contains :: "'v \<Rightarrow> nat \<Rightarrow> bool" where
  "contains v a \<longleftrightarrow> kov v \<le> a \<and> a < kov v + extent v"

definition disjoint :: "'t \<Rightarrow> bool" where
  "disjoint t \<longleftrightarrow> (\<forall>k v k' v'. abs t k = Some v \<longrightarrow> abs t k' = Some v' \<longrightarrow> k < k' \<longrightarrow> k + extent v \<le> k')"

text \<open>Looking at the greatest key below an address finds the value that contains it.\<close>

lemma previous_contains:
  assumes "ok t" "disjoint t" "abs t (kov v) = Some v" "contains v a"
  shows "previous a t = Some v"
proof (cases "previous a t")
  case None
  with previous_None[OF assms(1) None, of "kov v"] assms(3,4) show ?thesis
    by (simp add: contains_def)
next
  case (Some w)
  note w = previous_Some[OF assms(1) Some]
  have "\<not> kov v < kov w"
    using assms w by (force simp: disjoint_def contains_def)
  moreover have "\<not> kov w < kov v"
    using assms w by (auto simp: contains_def)
  ultimately have "kov w = kov v"
    by simp
  then have "w = v"
    using w[THEN conjunct1] assms(3) by (metis option.inject)
  with Some show ?thesis by simp
qed

lemma contains_unique:
  assumes "ok t" "disjoint t" "abs t (kov v) = Some v" "abs t (kov w) = Some w"
    and "contains v a" "contains w a"
  shows "v = w"
proof -
  have "Some v = Some w"
    by (rule trans[OF previous_contains[OF assms(1,2,3,5), symmetric] previous_contains[OF assms(1,2,4,6)]])
  then show ?thesis by (rule option.inject[THEN iffD1])
qed

end

end
