(* ===== verification/ImmutableTree.thy ===== *)
theory ImmutableTree
  imports OrderedMap
begin

text \<open>
  The persistent balanced search tree of
  \<^verbatim>\<open>include/klee/Internal/ADT/ImmutableTree.h\<close>, which holds the objects of every address
  space: nodes with cached heights, rebalancing when two heights differ by more than two,
  insertion, replacement, removal, searches and iterators. Reference counts are memory management
  and are left out; node identity is equality of subtrees, which suffices as the two children of a
  node never share an element. The comparison is the order of the key type, \<open>kov\<close> the functor that
  gives the key of a value.
\<close>

section \<open>Nodes\<close>

datatype 'v node = Terminator | Node "'v node" "'v node" 'v nat

fun ht :: "'v node \<Rightarrow> nat" where
  "ht Terminator = 0"
| "ht (Node l r v h) = h"

fun left :: "'v node \<Rightarrow> 'v node" where
  "left Terminator = Terminator"
| "left (Node l r v h) = l"

fun right :: "'v node \<Rightarrow> 'v node" where
  "right Terminator = Terminator"
| "right (Node l r v h) = r"

definition newNode :: "'v node \<Rightarrow> 'v node \<Rightarrow> 'v \<Rightarrow> 'v node" where
  "newNode l r v = Node l r v (max (ht l) (ht r) + 1)"

text \<open>The last line stands for the cases that the heights exclude.\<close>

definition balance :: "'v node \<Rightarrow> 'v \<Rightarrow> 'v node \<Rightarrow> 'v node" where
  "balance l v r =
     (if ht l > ht r + 2 then
        (case l of
           Node ll lr lv _ \<Rightarrow>
             if ht ll \<ge> ht lr then newNode ll (newNode lr r v) lv
             else (case lr of
                 Node lrl lrr lrv _ \<Rightarrow> newNode (newNode ll lrl lv) (newNode lrr r v) lrv
               | Terminator \<Rightarrow> newNode l r v)
         | Terminator \<Rightarrow> newNode l r v)
      else if ht r > ht l + 2 then
        (case r of
           Node rl rr rv _ \<Rightarrow>
             if ht rr \<ge> ht rl then newNode (newNode l rl v) rr rv
             else (case rl of
                 Node rll rlr rlv _ \<Rightarrow> newNode (newNode l rll v) (newNode rlr rr rv) rlv
               | Terminator \<Rightarrow> newNode l r v)
         | Terminator \<Rightarrow> newNode l r v)
      else newNode l r v)"

fun tree_size :: "'v node \<Rightarrow> nat" where
  "tree_size Terminator = 0"
| "tree_size (Node l r v h) = tree_size l + 1 + tree_size r"

section \<open>Updates\<close>

text \<open>\<open>popMin\<close> and \<open>popMax\<close> return the value they store through their argument.\<close>

fun popMin :: "'v node \<Rightarrow> ('v \<times> 'v node) option" where
  "popMin Terminator = None"
| "popMin (Node l r v h) =
     (case popMin l of None \<Rightarrow> Some (v, r) | Some (m, l') \<Rightarrow> Some (m, balance l' v r))"

fun popMax :: "'v node \<Rightarrow> ('v \<times> 'v node) option" where
  "popMax Terminator = None"
| "popMax (Node l r v h) =
     (case popMax r of None \<Rightarrow> Some (v, l) | Some (m, r') \<Rightarrow> Some (m, balance l v r'))"

fun tree_insert :: "('v \<Rightarrow> 'k::linorder) \<Rightarrow> 'v \<Rightarrow> 'v node \<Rightarrow> 'v node" where
  "tree_insert kov v Terminator = newNode Terminator Terminator v"
| "tree_insert kov v (Node l r x h) =
     (if kov v < kov x then balance (tree_insert kov v l) x r
      else if kov x < kov v then balance l x (tree_insert kov v r)
      else Node l r x h)"

fun tree_replace :: "('v \<Rightarrow> 'k::linorder) \<Rightarrow> 'v \<Rightarrow> 'v node \<Rightarrow> 'v node" where
  "tree_replace kov v Terminator = newNode Terminator Terminator v"
| "tree_replace kov v (Node l r x h) =
     (if kov v < kov x then balance (tree_replace kov v l) x r
      else if kov x < kov v then balance l x (tree_replace kov v r)
      else newNode l r v)"

fun tree_remove :: "('v \<Rightarrow> 'k::linorder) \<Rightarrow> 'k \<Rightarrow> 'v node \<Rightarrow> 'v node" where
  "tree_remove kov k Terminator = Terminator"
| "tree_remove kov k (Node l r x h) =
     (if k < kov x then balance (tree_remove kov k l) x r
      else if kov x < k then balance l x (tree_remove kov k r)
      else if l = Terminator then r
      else (case popMin r of None \<Rightarrow> l | Some (m, r') \<Rightarrow> balance l m r'))"

section \<open>Searches\<close>

fun tree_lookup :: "('v \<Rightarrow> 'k::linorder) \<Rightarrow> 'k \<Rightarrow> 'v node \<Rightarrow> 'v option" where
  "tree_lookup kov k Terminator = None"
| "tree_lookup kov k (Node l r x h) =
     (if k < kov x then tree_lookup kov k l
      else if kov x < k then tree_lookup kov k r
      else Some x)"

definition tree_count :: "('v \<Rightarrow> 'k::linorder) \<Rightarrow> 'k \<Rightarrow> 'v node \<Rightarrow> nat" where
  "tree_count kov k t = (case tree_lookup kov k t of None \<Rightarrow> 0 | Some _ \<Rightarrow> 1)"

text \<open>The loop of \<open>lookup_previous\<close> with its variable \<open>result\<close>.\<close>

fun lookup_previous_loop :: "('v \<Rightarrow> 'k::linorder) \<Rightarrow> 'k \<Rightarrow> 'v option \<Rightarrow> 'v node \<Rightarrow> 'v option" where
  "lookup_previous_loop kov k result Terminator = result"
| "lookup_previous_loop kov k result (Node l r x h) =
     (if k < kov x then lookup_previous_loop kov k result l
      else if kov x < k then lookup_previous_loop kov k (Some x) r
      else Some x)"

definition lookup_previous :: "('v \<Rightarrow> 'k::linorder) \<Rightarrow> 'k \<Rightarrow> 'v node \<Rightarrow> 'v option" where
  "lookup_previous kov k t = lookup_previous_loop kov k None t"

fun tree_min :: "'v node \<Rightarrow> 'v option" where
  "tree_min Terminator = None"
| "tree_min (Node l r v h) = (if l = Terminator then Some v else tree_min l)"

fun tree_max :: "'v node \<Rightarrow> 'v option" where
  "tree_max Terminator = None"
| "tree_max (Node l r v h) = (if r = Terminator then Some v else tree_max r)"

section \<open>Invariants\<close>

fun inorder :: "'v node \<Rightarrow> 'v list" where
  "inorder Terminator = []"
| "inorder (Node l r v h) = inorder l @ v # inorder r"

text \<open>Cached heights are right and those of siblings differ by at most two.\<close>

fun balanced :: "'v node \<Rightarrow> bool" where
  "balanced Terminator = True"
| "balanced (Node l r v h) =
     (h = max (ht l) (ht r) + 1 \<and> ht l \<le> ht r + 2 \<and> ht r \<le> ht l + 2 \<and> balanced l \<and> balanced r)"

definition ordered :: "('v \<Rightarrow> 'k::linorder) \<Rightarrow> 'v node \<Rightarrow> bool" where
  "ordered kov t \<longleftrightarrow> sorted_wrt (<) (map kov (inorder t))"

definition tree_ok :: "('v \<Rightarrow> 'k::linorder) \<Rightarrow> 'v node \<Rightarrow> bool" where
  "tree_ok kov t \<longleftrightarrow> balanced t \<and> ordered kov t"

text \<open>The finite map a tree stands for.\<close>

definition tree_map :: "('v \<Rightarrow> 'k::linorder) \<Rightarrow> 'v node \<Rightarrow> 'k \<rightharpoonup> 'v" where
  "tree_map kov t k = find (\<lambda>v. kov v = k) (inorder t)"

lemma ht_0 [simp]: "balanced t \<Longrightarrow> ht t = 0 \<longleftrightarrow> t = Terminator"
  by (cases t) auto

lemma ordered_simps [simp]:
  "ordered kov Terminator"
  "ordered kov (Node l r v h) \<longleftrightarrow> ordered kov l \<and> ordered kov r \<and>
     (\<forall>x \<in> set (inorder l). kov x < kov v) \<and> (\<forall>x \<in> set (inorder r). kov v < kov x)"
  by (auto simp: ordered_def sorted_wrt_append intro: less_trans)

lemma newNode_simps [simp]:
  "inorder (newNode l r v) = inorder l @ v # inorder r"
  "ht (newNode l r v) = max (ht l) (ht r) + 1"
  "newNode l r v \<noteq> Terminator"
  by (simp_all add: newNode_def)

text \<open>Rebalancing keeps the elements; it restores balance after a change of one level.\<close>

lemma inorder_balance [simp]: "inorder (balance l v r) = inorder l @ v # inorder r"
  by (auto simp: balance_def split: node.split)

lemma balance_not_Terminator [simp]: "balance l v r \<noteq> Terminator"
  by (auto simp: balance_def split: node.split)

lemma balance_left_heavy:
  assumes "balanced l" "balanced r" "ht l = ht r + 3"
  shows "balanced (balance l v r) \<and> ht (balance l v r) \<in> {ht l, ht l + 1}"
proof -
  obtain ll lr lv h where l: "l = Node ll lr lv h"
    using assms(3) by (cases l) auto
  show ?thesis
  proof (cases "ht ll \<ge> ht lr")
    case True
    then show ?thesis
      using assms l by (auto simp: balance_def newNode_def)
  next
    case False
    then obtain lrl lrr lrv h' where "lr = Node lrl lrr lrv h'"
      by (cases lr) auto
    with False show ?thesis
      using assms l by (auto simp: balance_def newNode_def)
  qed
qed

lemma balance_right_heavy:
  assumes "balanced l" "balanced r" "ht r = ht l + 3"
  shows "balanced (balance l v r) \<and> ht (balance l v r) \<in> {ht r, ht r + 1}"
proof -
  obtain rl rr rv h where r: "r = Node rl rr rv h"
    using assms(3) by (cases r) auto
  show ?thesis
  proof (cases "ht rr \<ge> ht rl")
    case True
    then show ?thesis
      using assms r by (auto simp: balance_def newNode_def)
  next
    case False
    then obtain rll rlr rlv h' where "rl = Node rll rlr rlv h'"
      by (cases rl) auto
    with False show ?thesis
      using assms r by (auto simp: balance_def newNode_def)
  qed
qed

lemma balance_even:
  assumes "balanced l" "balanced r" "ht l \<le> ht r + 2" "ht r \<le> ht l + 2"
  shows "balance l v r = newNode l r v" "balanced (balance l v r)"
  using assms by (auto simp: balance_def newNode_def)

lemma balance_cases:
  assumes "balanced l" "balanced r" "ht l \<le> ht r + 3" "ht r \<le> ht l + 3"
  shows "balanced (balance l v r) \<and> max (ht l) (ht r) \<le> ht (balance l v r) \<and>
         ht (balance l v r) \<le> max (ht l) (ht r) + 1 \<and>
         (ht l \<le> ht r + 2 \<longrightarrow> ht r \<le> ht l + 2 \<longrightarrow> ht (balance l v r) = max (ht l) (ht r) + 1)"
proof -
  consider "ht l = ht r + 3" | "ht r = ht l + 3" | "ht l \<le> ht r + 2" "ht r \<le> ht l + 2"
    using assms(3,4) by linarith
  then show ?thesis
  proof cases
    case 1 with balance_left_heavy[OF assms(1,2), of v] show ?thesis by auto
  next
    case 2 with balance_right_heavy[OF assms(1,2), of v] show ?thesis by auto
  next
    case 3 with balance_even[OF assms(1,2), of v] show ?thesis by (auto simp: max_def)
  qed
qed

lemma ordered_balance [simp]:
  "ordered kov (balance l v r) \<longleftrightarrow> ordered kov l \<and> ordered kov r \<and>
     (\<forall>x \<in> set (inorder l). kov x < kov v) \<and> (\<forall>x \<in> set (inorder r). kov v < kov x)"
  using ordered_simps(2)[of kov l r v 0] by (simp add: ordered_def del: ordered_simps)

text \<open>Every update changes the height by at most one.\<close>

lemma balanced_insert:
  "balanced t \<Longrightarrow> balanced (tree_insert kov v t) \<and>
     ht t \<le> ht (tree_insert kov v t) \<and> ht (tree_insert kov v t) \<le> ht t + 1"
proof (induction t)
  case (Node l r x h)
  then show ?case
    using balance_cases[of "tree_insert kov v l" r x] balance_cases[of l "tree_insert kov v r" x]
    by auto
qed (simp add: newNode_def)

lemma balanced_replace:
  "balanced t \<Longrightarrow> balanced (tree_replace kov v t) \<and>
     ht t \<le> ht (tree_replace kov v t) \<and> ht (tree_replace kov v t) \<le> ht t + 1"
proof (induction t)
  case (Node l r x h)
  then show ?case
    using balance_cases[of "tree_replace kov v l" r x] balance_cases[of l "tree_replace kov v r" x]
    by (auto simp: newNode_def)
qed (simp add: newNode_def)

lemma popMin_None [simp]: "popMin t = None \<longleftrightarrow> t = Terminator"
  by (cases t) (auto split: option.split)

lemma popMax_None [simp]: "popMax t = None \<longleftrightarrow> t = Terminator"
  by (cases t) (auto split: option.split)

lemma popMin_inorder: "popMin t = Some (m, t') \<Longrightarrow> inorder t = m # inorder t'"
  by (induction t arbitrary: t') (auto split: option.splits)

lemma popMax_inorder: "popMax t = Some (m, t') \<Longrightarrow> inorder t = inorder t' @ [m]"
  by (induction t arbitrary: t') (auto split: option.splits)

lemma balanced_popMin:
  "balanced t \<Longrightarrow> popMin t = Some (m, t') \<Longrightarrow> balanced t' \<and> ht t' \<le> ht t \<and> ht t \<le> ht t' + 1"
proof (induction t arbitrary: t')
  case (Node l r x h)
  show ?case
  proof (cases "popMin l")
    case (Some p)
    then obtain l' where l': "popMin l = Some (m, l')" "t' = balance l' x r"
      using Node.prems(2) by (cases p) auto
    with Node.IH(1)[of l'] Node.prems(1) show ?thesis
      using balance_cases[of l' r x] by auto
  qed (use Node.prems in auto)
qed simp

lemma balanced_popMax:
  "balanced t \<Longrightarrow> popMax t = Some (m, t') \<Longrightarrow> balanced t' \<and> ht t' \<le> ht t \<and> ht t \<le> ht t' + 1"
proof (induction t arbitrary: t')
  case (Node l r x h)
  show ?case
  proof (cases "popMax r")
    case (Some p)
    then obtain r' where r': "popMax r = Some (m, r')" "t' = balance l x r'"
      using Node.prems(2) by (cases p) auto
    with Node.IH(2)[of r'] Node.prems(1) show ?thesis
      using balance_cases[of l r' x] by auto
  qed (use Node.prems in auto)
qed simp

lemma balanced_remove:
  "balanced t \<Longrightarrow> balanced (tree_remove kov k t) \<and>
     ht (tree_remove kov k t) \<le> ht t \<and> ht t \<le> ht (tree_remove kov k t) + 1"
proof (induction t)
  case (Node l r x h)
  show ?case
  proof (cases "k < kov x \<or> kov x < k")
    case True
    then show ?thesis
      using Node balance_cases[of "tree_remove kov k l" r x] balance_cases[of l "tree_remove kov k r" x]
      by auto
  next
    case False
    show ?thesis
    proof (cases "popMin r")
      case (Some p)
      then obtain m r' where p: "popMin r = Some (m, r')" by (cases p) auto
      with balanced_popMin[OF _ p] Node.prems have "balanced r'" "ht r' \<le> ht r" "ht r \<le> ht r' + 1"
        by auto
      with False p Node.prems show ?thesis
        using balance_cases[of l r' m] by auto
    qed (use False Node.prems in auto)
  qed
qed simp

text \<open>The elements after an update.\<close>

lemma set_insert:
  "ordered kov t \<Longrightarrow> set (inorder (tree_insert kov v t)) =
     (if \<exists>x \<in> set (inorder t). kov x = kov v then set (inorder t) else insert v (set (inorder t)))"
  by (induction t) force+

lemma set_replace:
  "ordered kov t \<Longrightarrow> set (inorder (tree_replace kov v t)) =
     insert v {x \<in> set (inorder t). kov x \<noteq> kov v}"
  by (induction t) force+

lemma set_remove:
  "ordered kov t \<Longrightarrow> set (inorder (tree_remove kov k t)) = {x \<in> set (inorder t). kov x \<noteq> k}"
proof (induction t)
  case (Node l r x h)
  then show ?case
    using popMin_inorder[of r] by (auto split: option.split) (metis less_irrefl)+
qed simp

lemma ordered_insert: "ordered kov t \<Longrightarrow> ordered kov (tree_insert kov v t)"
  by (induction t) (auto simp: set_insert newNode_def split: if_splits)

lemma ordered_replace: "ordered kov t \<Longrightarrow> ordered kov (tree_replace kov v t)"
  by (induction t) (auto simp: set_replace newNode_def)

lemma ordered_popMin:
  "ordered kov t \<Longrightarrow> popMin t = Some (m, t') \<Longrightarrow>
   ordered kov t' \<and> (\<forall>x \<in> set (inorder t'). kov m < kov x)"
  by (auto simp: ordered_def popMin_inorder)

lemma ordered_popMax:
  "ordered kov t \<Longrightarrow> popMax t = Some (m, t') \<Longrightarrow>
   ordered kov t' \<and> (\<forall>x \<in> set (inorder t'). kov x < kov m)"
  by (auto simp: ordered_def popMax_inorder sorted_wrt_append)

lemma ordered_remove: "ordered kov t \<Longrightarrow> ordered kov (tree_remove kov k t)"
proof (induction t)
  case (Node l r x h)
  then show ?case
    using popMin_inorder[of r] ordered_popMin[of kov r]
    by (auto simp: set_remove split: option.split intro: less_trans)
qed simp

section \<open>The tree as a map\<close>

lemma ordered_inj:
  assumes "ordered kov t" "x \<in> set (inorder t)" "y \<in> set (inorder t)" "kov x = kov y"
  shows "x = y"
proof -
  have "distinct (map kov (inorder t))"
    using assms(1) by (simp add: ordered_def strict_sorted_iff)
  with assms show ?thesis
    by (auto simp: distinct_map dest: inj_onD)
qed

lemma tree_map_Some:
  assumes "ordered kov t"
  shows "tree_map kov t k = Some v \<longleftrightarrow> v \<in> set (inorder t) \<and> kov v = k"
proof
  show "tree_map kov t k = Some v \<Longrightarrow> v \<in> set (inorder t) \<and> kov v = k"
    by (auto simp: tree_map_def find_Some_iff)
  assume v: "v \<in> set (inorder t) \<and> kov v = k"
  then obtain w where "tree_map kov t k = Some w"
    by (cases "tree_map kov t k") (auto simp: tree_map_def find_None_iff)
  moreover from this have "w \<in> set (inorder t)" "kov w = k"
    by (auto simp: tree_map_def find_Some_iff)
  ultimately show "tree_map kov t k = Some v"
    using ordered_inj[OF assms] v by auto
qed

lemma tree_map_None: "tree_map kov t k = None \<longleftrightarrow> (\<forall>v \<in> set (inorder t). kov v \<noteq> k)"
  by (auto simp: tree_map_def find_None_iff)

lemma tree_map_eqI:
  assumes "ordered kov t" "\<And>k v. (v \<in> set (inorder t) \<and> kov v = k) = (m k = Some v)"
  shows "tree_map kov t = m"
proof
  fix k
  show "tree_map kov t k = m k"
    using tree_map_Some[OF assms(1), of k] assms(2)[of _ k] by (metis not_Some_eq)
qed

lemma lookup_correct: "ordered kov t \<Longrightarrow> tree_lookup kov k t = tree_map kov t k"
proof -
  assume t: "ordered kov t"
  then have "tree_lookup kov k t = Some v \<longleftrightarrow> v \<in> set (inorder t) \<and> kov v = k" for v
    by (induction t) (auto dest: less_imp_neq)
  with tree_map_Some[OF t, of k] show ?thesis
    by (metis not_Some_eq)
qed

text \<open>The variable \<open>result\<close> holds the best value left of the subtree still to be searched.\<close>

lemma lookup_previous_loop:
  assumes "ordered kov t" "\<And>r x. res = Some r \<Longrightarrow> x \<in> set (inorder t) \<Longrightarrow> kov r < kov x"
    and "\<And>r. res = Some r \<Longrightarrow> kov r < k"
  shows "(case lookup_previous_loop kov k res t of
      None \<Rightarrow> res = None \<and> (\<forall>x \<in> set (inorder t). k < kov x)
    | Some v \<Rightarrow> (res = Some v \<or> v \<in> set (inorder t)) \<and> kov v \<le> k \<and>
         (\<forall>x \<in> set (inorder t). kov x \<le> k \<longrightarrow> kov x \<le> kov v))"
  using assms
proof (induction t arbitrary: res)
  case (Node l r x h)
  consider "k < kov x" | "kov x < k" | "kov x = k" by fastforce
  then show ?case
  proof cases
    case 1
    with Node.IH(1)[of res] Node.prems show ?thesis
      by (auto split: option.splits)
  next
    case 2
    with Node.IH(2)[of "Some x"] Node.prems show ?thesis
      by (fastforce split: option.splits)
  next
    case 3
    with Node.prems show ?thesis
      by (auto dest: less_imp_le)
  qed
qed (auto split: option.split dest: less_imp_le)

lemma lookup_previous_correct:
  assumes "ordered kov t"
  shows "case lookup_previous kov k t of
      None \<Rightarrow> \<forall>x \<in> set (inorder t). k < kov x
    | Some v \<Rightarrow> v \<in> set (inorder t) \<and> kov v \<le> k \<and> (\<forall>x \<in> set (inorder t). kov x \<le> k \<longrightarrow> kov x \<le> kov v)"
  using lookup_previous_loop[OF assms, of None k] by (simp add: lookup_previous_def split: option.splits)

interpretation tree: ordered_map kov "tree_ok kov" "tree_map kov" Terminator
    "tree_insert kov" "tree_replace kov" "tree_remove kov" "tree_lookup kov" "lookup_previous kov"
  for kov :: "'v \<Rightarrow> 'k::linorder"
proof unfold_locales
  fix t k v k'
  assume ok: "tree_ok kov t"
  then have o: "ordered kov t" and b: "balanced t" by (auto simp: tree_ok_def)
  show "tree_map kov t k = Some v \<Longrightarrow> kov v = k"
    by (simp add: tree_map_Some o)
  show "tree_ok kov (tree_insert kov v t)" "tree_ok kov (tree_replace kov v t)"
    "tree_ok kov (tree_remove kov k t)"
    using o balanced_insert[OF b, of kov v] balanced_replace[OF b, of kov v] balanced_remove[OF b, of kov k]
    by (auto simp: tree_ok_def ordered_insert ordered_replace ordered_remove)
  show "tree_map kov (tree_insert kov v t) =
      (if tree_map kov t (kov v) = None then (tree_map kov t)(kov v \<mapsto> v) else tree_map kov t)"
    by (rule tree_map_eqI) (use o in \<open>auto simp: ordered_insert set_insert tree_map_Some tree_map_None\<close>)
  show "tree_map kov (tree_replace kov v t) = (tree_map kov t)(kov v \<mapsto> v)"
    by (rule tree_map_eqI) (use o in \<open>auto simp: ordered_replace set_replace tree_map_Some\<close>)
  show "tree_map kov (tree_remove kov k t) = (tree_map kov t)(k := None)"
    by (rule tree_map_eqI) (use o in \<open>auto simp: ordered_remove set_remove tree_map_Some\<close>)
  show "tree_lookup kov k t = tree_map kov t k"
    by (rule lookup_correct[OF o])
  show "lookup_previous kov k t = Some v \<Longrightarrow> tree_map kov t (kov v) = Some v \<and> kov v \<le> k \<and>
      (\<forall>k'. kov v < k' \<longrightarrow> k' \<le> k \<longrightarrow> tree_map kov t k' = None)"
    using lookup_previous_correct[OF o, of k] by (force simp: tree_map_Some[OF o] tree_map_None)
  show "lookup_previous kov k t = None \<Longrightarrow> k' \<le> k \<Longrightarrow> tree_map kov t k' = None"
    using lookup_previous_correct[OF o, of k] by (force simp: tree_map_None)
qed (auto simp: tree_ok_def tree_map_def)

lemma tree_min_correct: "tree_min t = (if t = Terminator then None else Some (hd (inorder t)))"
proof (induction t)
  case (Node l r v h)
  then show ?case by (cases l) (auto simp: hd_append)
qed simp

lemma tree_max_correct: "tree_max t = (if t = Terminator then None else Some (last (inorder t)))"
proof (induction t)
  case (Node l r v h)
  then show ?case by (cases r) auto
qed simp

lemma tree_size_correct: "tree_size t = length (inorder t)"
  by (induction t) auto

text \<open>The height is logarithmic in the number of elements.\<close>

lemma height_bound: "balanced t \<Longrightarrow> 2 ^ ht t \<le> (tree_size t + 1) ^ 3"
proof (induction t)
  case (Node l r v h)
  define a b where "a = tree_size l + 1" and "b = tree_size r + 1"
  have "2 ^ h \<le> 8 * (2 ^ min (ht l) (ht r) :: nat)"
    using Node.prems power_increasing[of h "min (ht l) (ht r) + 3" "2 :: nat"]
    by (auto simp: power_add min_def max_def)
  also have "\<dots> \<le> 8 * min a b ^ 3"
  proof -
    have "2 ^ ht l \<le> a ^ 3" "2 ^ ht r \<le> b ^ 3"
      using Node by (auto simp: a_def b_def)
    moreover have "2 ^ min (ht l) (ht r) \<le> (2::nat) ^ ht l" "2 ^ min (ht l) (ht r) \<le> (2::nat) ^ ht r"
      by (simp_all add: power_increasing)
    ultimately have "2 ^ min (ht l) (ht r) \<le> a ^ 3" "2 ^ min (ht l) (ht r) \<le> b ^ 3"
      by (metis le_trans)+
    then show ?thesis by (cases "a \<le> b") (simp_all add: min_def)
  qed
  also have "\<dots> = (2 * min a b) ^ 3"
    by (simp add: power_mult_distrib)
  also have "\<dots> \<le> (a + b) ^ 3"
    by (rule power_mono) auto
  finally show ?case
    by (simp add: a_def b_def)
qed simp

section \<open>Properties\<close>

text \<open>A tree of seven numbers, built by the code.\<close>

definition sample_tree :: "nat node" where
  "sample_tree = fold (tree_insert (\<lambda>v. v)) [1, 2, 3, 4, 5, 6, 7] Terminator"

lemma sample_tree_ok: "tree_ok (\<lambda>v. v) sample_tree"
  by code_simp

text \<open>C8: Insertion, replacement and removal keep the tree ordered and balanced with right cached
  heights, and they change its height by at most one.\<close>

theorem tree_updates_ok:
  assumes "tree_ok kov t"
  shows "tree_ok kov (tree_insert kov v t) \<and> ht (tree_insert kov v t) \<in> {ht t, ht t + 1} \<and>
         tree_ok kov (tree_replace kov v t) \<and> ht (tree_replace kov v t) \<in> {ht t, ht t + 1} \<and>
         tree_ok kov (tree_remove kov k t) \<and> ht t \<in> {ht (tree_remove kov k t), ht (tree_remove kov k t) + 1}"
proof -
  have b: "balanced t"
    using assms by (simp add: tree_ok_def)
  show ?thesis
    using tree.insert(1)[OF assms, of v] tree.replace(1)[OF assms, of v] tree.remove(1)[OF assms, of k]
      balanced_insert[OF b, of kov v] balanced_replace[OF b, of kov v] balanced_remove[OF b, of kov k]
    by (simp add: le_less_Suc_eq le_Suc_eq) linarith
qed

theorem tree_updates_ok_witness:
  "tree_ok (\<lambda>v. v) (tree_remove (\<lambda>v. v) 4 sample_tree)"
  using tree_updates_ok[OF sample_tree_ok, of 0 4] by (elim conjE)

text \<open>C7: The tree implements a finite map from keys to values: insertion adds a value unless its
  key is present, replacement overwrites, removal deletes, and lookup and count read the map.\<close>

theorem tree_refines_map:
  assumes "tree_ok kov t"
  shows "tree_map kov (tree_insert kov v t) =
           (if tree_map kov t (kov v) = None then (tree_map kov t)(kov v \<mapsto> v) else tree_map kov t) \<and>
         tree_map kov (tree_replace kov v t) = (tree_map kov t)(kov v \<mapsto> v) \<and>
         tree_map kov (tree_remove kov k t) = (tree_map kov t)(k := None) \<and>
         tree_lookup kov k t = tree_map kov t k \<and>
         tree_count kov k t = (if k \<in> dom (tree_map kov t) then 1 else 0) \<and>
         tree_size t = card (dom (tree_map kov t))"
proof -
  have o: "ordered kov t"
    using assms by (simp add: tree_ok_def)
  have "dom (tree_map kov t) = kov ` set (inorder t)"
    using tree_map_Some[OF o] by (auto simp: dom_def)
  moreover have "distinct (map kov (inorder t))"
    using o by (simp add: ordered_def strict_sorted_iff)
  ultimately have "tree_size t = card (dom (tree_map kov t))"
    by (simp add: tree_size_correct distinct_card flip: set_map)
  then show ?thesis
    using tree.insert(2)[OF assms] tree.replace(2)[OF assms] tree.remove(2)[OF assms] tree.lookup[OF assms]
    by (auto simp: tree_count_def dom_def split: option.split)
qed

theorem tree_refines_map_witness:
  "tree_map (\<lambda>v. v) (tree_remove (\<lambda>v. v) 4 sample_tree) = (tree_map (\<lambda>v. v) sample_tree)(4 := None)"
  using tree_refines_map[OF sample_tree_ok, of 0 4] by (elim conjE)

text \<open>C9: \<open>lookup_previous\<close> finds the value with the greatest key that is at most the given one,
  and \<open>popMin\<close> and \<open>popMax\<close> take out the ends of the sequence.\<close>

theorem tree_extremes_correct:
  assumes "tree_ok kov t"
  shows "(case lookup_previous kov k t of
            None \<Rightarrow> \<forall>x \<in> set (inorder t). k < kov x
          | Some v \<Rightarrow> v \<in> set (inorder t) \<and> kov v \<le> k \<and> (\<forall>x \<in> set (inorder t). kov x \<le> k \<longrightarrow> kov x \<le> kov v)) \<and>
         (case popMin t of
            None \<Rightarrow> t = Terminator
          | Some (m, t') \<Rightarrow> tree_min t = Some m \<and> inorder t = m # inorder t' \<and> tree_ok kov t') \<and>
         (case popMax t of
            None \<Rightarrow> t = Terminator
          | Some (m, t') \<Rightarrow> tree_max t = Some m \<and> inorder t = inorder t' @ [m] \<and> tree_ok kov t')"
proof (intro conjI)
  have ok: "balanced t" "ordered kov t"
    using assms by (simp_all add: tree_ok_def)
  then show "case lookup_previous kov k t of
            None \<Rightarrow> \<forall>x \<in> set (inorder t). k < kov x
          | Some v \<Rightarrow> v \<in> set (inorder t) \<and> kov v \<le> k \<and> (\<forall>x \<in> set (inorder t). kov x \<le> k \<longrightarrow> kov x \<le> kov v)"
    by (intro lookup_previous_correct)
  show "case popMin t of
            None \<Rightarrow> t = Terminator
          | Some (m, t') \<Rightarrow> tree_min t = Some m \<and> inorder t = m # inorder t' \<and> tree_ok kov t'"
    using balanced_popMin[OF ok(1)] ordered_popMin[OF ok(2)]
    by (auto simp: popMin_inorder tree_min_correct tree_ok_def split: option.split)
  show "case popMax t of
            None \<Rightarrow> t = Terminator
          | Some (m, t') \<Rightarrow> tree_max t = Some m \<and> inorder t = inorder t' @ [m] \<and> tree_ok kov t'"
    using balanced_popMax[OF ok(1)] ordered_popMax[OF ok(2)]
    by (auto simp: popMax_inorder tree_max_correct tree_ok_def split: option.split)
qed

theorem tree_extremes_correct_witness:
  "case popMin sample_tree of
     None \<Rightarrow> sample_tree = Terminator
   | Some (m, t') \<Rightarrow> tree_min sample_tree = Some m \<and> inorder sample_tree = m # inorder t' \<and>
       tree_ok (\<lambda>v. v) t'"
  using tree_extremes_correct[OF sample_tree_ok, of 0] by (elim conjE)

text \<open>
  The updates of a tree as data, to speak of the trees a program can build; the ends of an empty
  tree cannot be taken out, it stays as it is.
\<close>

datatype ('k, 'v) tree_op = OpInsert 'v | OpReplace 'v | OpRemove 'k | OpPopMin | OpPopMax

fun apply_op :: "('v \<Rightarrow> 'k::linorder) \<Rightarrow> ('k, 'v) tree_op \<Rightarrow> 'v node \<Rightarrow> 'v node" where
  "apply_op kov (OpInsert v) t = tree_insert kov v t"
| "apply_op kov (OpReplace v) t = tree_replace kov v t"
| "apply_op kov (OpRemove k) t = tree_remove kov k t"
| "apply_op kov OpPopMin t = (case popMin t of Some (m, t') \<Rightarrow> t' | None \<Rightarrow> t)"
| "apply_op kov OpPopMax t = (case popMax t of Some (m, t') \<Rightarrow> t' | None \<Rightarrow> t)"

text \<open>The number of nodes on the longest path, which bounds the steps of every search and update.\<close>

fun depth :: "'v node \<Rightarrow> nat" where
  "depth Terminator = 0"
| "depth (Node l r v h) = Suc (max (depth l) (depth r))"

lemma depth_ht: "balanced t \<Longrightarrow> depth t = ht t"
  by (induction t) auto

lemma balanced_apply_op: "balanced t \<Longrightarrow> balanced (apply_op kov p t)"
  by (cases p) (auto simp: balanced_insert balanced_replace balanced_remove split: option.split
      dest: balanced_popMin balanced_popMax)

lemma balanced_ops: "balanced t \<Longrightarrow> balanced (fold (apply_op kov) ops t)"
  by (induction ops arbitrary: t) (auto intro: balanced_apply_op)

text \<open>C10: Whatever insertions, replacements, removals and extractions of the minimum or the maximum
  have built a tree from the empty one, its longest path has at most 3 log (n + 1) nodes, to the
  base 2, where n is the number of its elements: the updates never let it degenerate.\<close>

theorem tree_height_bound:
  "2 ^ depth (fold (apply_op kov) ops Terminator) \<le> (tree_size (fold (apply_op kov) ops Terminator) + 1) ^ 3"
proof -
  have "balanced (fold (apply_op kov) ops Terminator)"
    by (rule balanced_ops) simp
  then show ?thesis
    using height_bound depth_ht by metis
qed

end
