(* ===== verification/TreeIterator.thy ===== *)
theory TreeIterator
  imports ImmutableTree
begin

text \<open>
  The iterators of \<^verbatim>\<open>include/klee/Internal/ADT/ImmutableTree.h\<close>: a root and the stack of nodes on
  the way to the current one, the last element of the source's stack first. An iterator stands for
  a position in the sequence of the elements; \<open>it_passed\<close> and \<open>it_pending\<close> are the two parts.
  Advancing the end is an assertion failure, \<open>None\<close> here.
\<close>

record 'v iter =
  it_root :: "'v node"
  it_stack :: "'v node list"

fun node_value :: "'v node \<Rightarrow> 'v option" where
  "node_value Terminator = None"
| "node_value (Node l r v h) = Some v"

text \<open>The loops that push a left or a right spine.\<close>

fun push_left :: "'v node \<Rightarrow> 'v node list \<Rightarrow> 'v node list" where
  "push_left Terminator s = s"
| "push_left (Node l r v h) s = push_left l (Node l r v h # s)"

fun push_right :: "'v node \<Rightarrow> 'v node list \<Rightarrow> 'v node list" where
  "push_right Terminator s = s"
| "push_right (Node l r v h) s = push_right r (Node l r v h # s)"

text \<open>The loops that pop until the stack is empty or they come back from the left, or the right.\<close>

fun climb_left :: "'v node list \<Rightarrow> 'v node list" where
  "climb_left [] = []"
| "climb_left [prev] = []"
| "climb_left (prev # n # s) = (if prev = left n then n # s else climb_left (n # s))"

fun climb_right :: "'v node list \<Rightarrow> 'v node list" where
  "climb_right [] = []"
| "climb_right [prev] = []"
| "climb_right (prev # n # s) = (if prev = right n then n # s else climb_right (n # s))"

definition it_begin :: "'v node \<Rightarrow> 'v iter" where
  "it_begin t = \<lparr>it_root = t, it_stack = push_left t []\<rparr>"

definition it_end :: "'v node \<Rightarrow> 'v iter" where
  "it_end t = \<lparr>it_root = t, it_stack = []\<rparr>"

definition it_deref :: "'v iter \<Rightarrow> 'v option" where
  "it_deref it = (case it_stack it of [] \<Rightarrow> None | n # s \<Rightarrow> node_value n)"

definition it_eq :: "'v iter \<Rightarrow> 'v iter \<Rightarrow> bool" where
  "it_eq a b \<longleftrightarrow> it_stack a = it_stack b"

definition it_next :: "'v iter \<Rightarrow> 'v iter option" where
  "it_next it =
     (case it_stack it of
        [] \<Rightarrow> None
      | n # s \<Rightarrow>
          Some (it\<lparr>it_stack := (if right n = Terminator then climb_left (n # s)
                              else push_left (right n) (n # s))\<rparr>))"

definition it_prev :: "'v iter \<Rightarrow> 'v iter" where
  "it_prev it =
     (case it_stack it of
        [] \<Rightarrow> it\<lparr>it_stack := push_right (it_root it) []\<rparr>
      | n # s \<Rightarrow>
          it\<lparr>it_stack := (if left n = Terminator then climb_right (n # s)
                        else push_right (left n) (n # s))\<rparr>)"

text \<open>The loop of \<open>lower_bound\<close>; the flag says that it returned at an equal key.\<close>

fun lower_bound_loop :: "('v \<Rightarrow> 'k::linorder) \<Rightarrow> 'k \<Rightarrow> 'v node \<Rightarrow> 'v node list \<Rightarrow> 'v node list \<times> bool" where
  "lower_bound_loop kov k Terminator s = (s, False)"
| "lower_bound_loop kov k (Node l r x h) s =
     (if k < kov x then lower_bound_loop kov k l (Node l r x h # s)
      else if kov x < k then lower_bound_loop kov k r (Node l r x h # s)
      else (Node l r x h # s, True))"

definition lower_bound :: "('v \<Rightarrow> 'k::linorder) \<Rightarrow> 'k \<Rightarrow> 'v node \<Rightarrow> 'v iter" where
  "lower_bound kov k t =
     (let (s, found) = lower_bound_loop kov k t [];
          it = \<lparr>it_root = t, it_stack = s\<rparr>
      in if found then it
         else case it_deref it of
             Some v \<Rightarrow> if kov v < k then the (it_next it) else it
           | None \<Rightarrow> it)"

definition tree_find :: "('v \<Rightarrow> 'k::linorder) \<Rightarrow> 'k \<Rightarrow> 'v node \<Rightarrow> 'v iter" where
  "tree_find kov k t =
     (let it = lower_bound kov k t
      in case it_deref it of
          None \<Rightarrow> it_end t
        | Some v \<Rightarrow> if k < kov v then it_end t else it)"

definition upper_bound :: "('v \<Rightarrow> 'k::linorder) \<Rightarrow> 'k \<Rightarrow> 'v node \<Rightarrow> 'v iter" where
  "upper_bound kov k t =
     (let it = lower_bound kov k t
      in case it_deref it of
          None \<Rightarrow> it
        | Some v \<Rightarrow> if \<not> k < kov v then the (it_next it) else it)"

section \<open>Positions\<close>

text \<open>What follows, and what precedes, the subtree \<open>n\<close> below the stack \<open>s\<close>.\<close>

fun after :: "'v node \<Rightarrow> 'v node list \<Rightarrow> 'v list" where
  "after n [] = []"
| "after n (m # s) = (if n = left m then the (node_value m) # inorder (right m) @ after m s else after m s)"

fun before :: "'v node \<Rightarrow> 'v node list \<Rightarrow> 'v list" where
  "before n [] = []"
| "before n (m # s) = (if n = right m then before m s @ inorder (left m) @ [the (node_value m)] else before m s)"

fun stack_pending :: "'v node list \<Rightarrow> 'v list" where
  "stack_pending [] = []"
| "stack_pending (n # s) = the (node_value n) # inorder (right n) @ after n s"

definition it_pending :: "'v iter \<Rightarrow> 'v list" where
  "it_pending it = stack_pending (it_stack it)"

definition it_passed :: "'v iter \<Rightarrow> 'v list" where
  "it_passed it = (case it_stack it of [] \<Rightarrow> inorder (it_root it) | n # s \<Rightarrow> before n s @ inorder (left n))"

text \<open>The stack is a path from the root, whose last node comes first.\<close>

fun path :: "'v node \<Rightarrow> 'v node list \<Rightarrow> bool" where
  "path t [] = True"
| "path t [n] = (n = t \<and> n \<noteq> Terminator)"
| "path t (n # m # s) = (n \<noteq> Terminator \<and> (n = left m \<or> n = right m) \<and> path t (m # s))"

definition iter_ok :: "('v \<Rightarrow> 'k::linorder) \<Rightarrow> 'v iter \<Rightarrow> bool" where
  "iter_ok kov it \<longleftrightarrow> ordered kov (it_root it) \<and> path (it_root it) (it_stack it)"

lemma node_split:
  "n \<noteq> Terminator \<Longrightarrow> inorder n = inorder (left n) @ the (node_value n) # inorder (right n)"
  by (cases n) auto

lemma path_tl: "path t (n # s) \<Longrightarrow> path t s"
  by (cases s) auto

lemma path_ordered: "path t s \<Longrightarrow> ordered kov t \<Longrightarrow> n \<in> set s \<Longrightarrow> ordered kov n \<and> n \<noteq> Terminator"
proof (induction t s arbitrary: n rule: path.induct)
  case (3 t n m s)
  then have "ordered kov m" "m \<noteq> Terminator" by auto
  then have "ordered kov (left m)" "ordered kov (right m)" by (cases m; simp)+
  with 3 show ?case by auto
qed auto

lemma siblings_differ:
  assumes "ordered kov n" "left n = right n"
  shows "left n = Terminator"
proof (rule ccontr)
  assume "left n \<noteq> Terminator"
  then obtain l r v h ll lr x h' where n: "n = Node l r v h" and l: "l = Node ll lr x h'"
    by (metis left.simps(1) node.exhaust left.simps(2))
  have "kov x < kov v"
    using assms(1) by (simp add: n l)
  moreover have "kov v < kov x"
    using assms by (simp add: n l) (metis Un_iff inorder.simps(2) insertCI list.simps(15) set_append)
  ultimately show False by simp
qed

text \<open>Every path splits the elements of the tree.\<close>

lemma path_split:
  "path t (n # s) \<Longrightarrow> ordered kov t \<Longrightarrow> before n s @ inorder n @ after n s = inorder t"
proof (induction s arbitrary: n)
  case (Cons m s)
  then have m: "ordered kov m" "m \<noteq> Terminator"
    using path_ordered[of t "m # s" kov m] by auto
  have IH: "before m s @ inorder m @ after m s = inorder t"
    using Cons by auto
  have "n \<noteq> Terminator" "n = left m \<or> n = right m"
    using Cons.prems by auto
  show ?case
  proof (cases "n = left m")
    case True
    then have "n \<noteq> right m"
      using siblings_differ[OF m(1)] \<open>n \<noteq> Terminator\<close> by auto
    with True IH show ?thesis
      by (simp add: node_split[OF m(2)])
  next
    case False
    then have "n = right m"
      using \<open>n = left m \<or> n = right m\<close> by simp
    with False IH show ?thesis
      by (simp add: node_split[OF m(2)])
  qed
qed simp

lemma passed_pending:
  assumes "iter_ok kov it"
  shows "it_passed it @ it_pending it = inorder (it_root it)"
proof (cases "it_stack it")
  case (Cons n s)
  with assms have p: "path (it_root it) (n # s)" "ordered kov (it_root it)"
    by (auto simp: iter_ok_def)
  then have "n \<noteq> Terminator"
    using path_ordered[of "it_root it" "n # s" kov n] by auto
  then show ?thesis
    using path_split[OF p] Cons by (simp add: it_passed_def it_pending_def node_split)
qed (simp add: it_passed_def it_pending_def)

section \<open>Steps\<close>

definition child :: "'v node \<Rightarrow> 'v node \<Rightarrow> 'v node list \<Rightarrow> bool" where
  "child t n s \<longleftrightarrow> (case s of [] \<Rightarrow> n = t | m # s' \<Rightarrow> n = left m \<or> n = right m)"

lemma path_Cons: "path t (n # s) \<longleftrightarrow> n \<noteq> Terminator \<and> child t n s \<and> path t s"
  by (cases s) (auto simp: child_def)

lemma path_push_left: "path t s \<Longrightarrow> child t n s \<Longrightarrow> path t (push_left n s)"
  by (induction n s rule: push_left.induct) (auto simp: path_Cons child_def)

lemma path_push_right: "path t s \<Longrightarrow> child t n s \<Longrightarrow> path t (push_right n s)"
  by (induction n s rule: push_right.induct) (auto simp: path_Cons child_def)

lemma path_climb_left: "path t s \<Longrightarrow> path t (climb_left s)"
  by (induction s rule: climb_left.induct) auto

lemma path_climb_right: "path t s \<Longrightarrow> path t (climb_right s)"
  by (induction s rule: climb_right.induct) auto

lemma pending_push_left: "n \<noteq> Terminator \<Longrightarrow> stack_pending (push_left n s) = inorder n @ after n s"
proof (induction n s rule: push_left.induct)
  case (2 l r v h s)
  then show ?case by (cases l) auto
qed simp

lemma pending_climb_left: "stack_pending (climb_left (n # s)) = after n s"
  by (induction s arbitrary: n) auto

lemma pending_next:
  assumes "ordered kov n"
  shows "stack_pending (if right n = Terminator then climb_left (n # s) else push_left (right n) (n # s)) =
    inorder (right n) @ after n s"
  using siblings_differ[OF assms] by (auto simp: pending_climb_left pending_push_left)

lemma it_next_ok:
  assumes "iter_ok kov it" "it_next it = Some it'"
  shows "iter_ok kov it' \<and> it_root it' = it_root it"
proof -
  obtain n s where s: "it_stack it = n # s"
    using assms(2) by (cases "it_stack it") (auto simp: it_next_def)
  moreover have "child (it_root it) (right n) (n # s)"
    by (simp add: child_def)
  ultimately show ?thesis
    using assms path_push_left[of "it_root it" "n # s" "right n"] path_climb_left[of "it_root it" "n # s"]
    by (auto simp: it_next_def iter_ok_def)
qed

lemma it_prev_ok:
  assumes "iter_ok kov it"
  shows "iter_ok kov (it_prev it) \<and> it_root (it_prev it) = it_root it"
proof (cases "it_stack it")
  case Nil
  then show ?thesis
    using assms path_push_right[of "it_root it" "[]" "it_root it"]
    by (auto simp: it_prev_def iter_ok_def child_def)
next
  case (Cons n s)
  moreover have "child (it_root it) (left n) (n # s)"
    by (simp add: child_def)
  ultimately show ?thesis
    using assms path_push_right[of "it_root it" "n # s" "left n"] path_climb_right[of "it_root it" "n # s"]
    by (auto simp: it_prev_def iter_ok_def)
qed

lemma it_next_pending:
  assumes "iter_ok kov it" "it_pending it = v # vs"
  obtains it' where "it_next it = Some it'" "it_deref it = Some v" "it_pending it' = vs"
proof -
  obtain n s where s: "it_stack it = n # s"
    using assms(2) by (cases "it_stack it") (auto simp: it_pending_def)
  with assms(1) have n: "ordered kov n" "n \<noteq> Terminator"
    using path_ordered[of "it_root it" "n # s" kov n] by (auto simp: iter_ok_def)
  then have "it_deref it = Some v"
    using s assms(2) by (cases n) (auto simp: it_deref_def it_pending_def)
  then show ?thesis
    using that[of "the (it_next it)"] pending_next[OF n(1), of s] s assms(2)
    by (auto simp: it_next_def it_pending_def)
qed

lemma it_deref_pending:
  "iter_ok kov it \<Longrightarrow> it_deref it = (case it_pending it of [] \<Rightarrow> None | v # vs \<Rightarrow> Some v)"
proof (cases "it_pending it")
  case Nil
  then show ?thesis
    by (cases "it_stack it") (auto simp: it_deref_def it_pending_def)
next
  case (Cons v vs)
  assume "iter_ok kov it"
  from it_next_pending[OF this Cons] Cons show ?thesis by (metis list.simps(5))
qed

text \<open>Going back, in the same way, over what has been passed.\<close>

definition stack_passed :: "'v node list \<Rightarrow> 'v list" where
  "stack_passed s = (case s of [] \<Rightarrow> [] | n # s' \<Rightarrow> before n s' @ inorder (left n) @ [the (node_value n)])"

lemma passed_push_right:
  "n \<noteq> Terminator \<Longrightarrow> stack_passed (push_right n s) = before n s @ inorder n"
proof (induction n s rule: push_right.induct)
  case (2 l r v h s)
  then show ?case by (cases r) (auto simp: stack_passed_def)
qed simp

lemma passed_climb_right: "stack_passed (climb_right (n # s)) = before n s"
  by (induction s arbitrary: n) (auto simp: stack_passed_def)

lemma it_prev_passed:
  assumes "iter_ok kov it"
  shows "stack_passed (it_stack (it_prev it)) = it_passed it"
proof (cases "it_stack it")
  case Nil
  then show ?thesis
    by (cases "it_root it = Terminator") (auto simp: it_prev_def it_passed_def passed_push_right, simp add: stack_passed_def)
next
  case (Cons n s)
  with assms have "ordered kov n"
    using path_ordered[of "it_root it" "n # s" kov n] by (auto simp: iter_ok_def)
  with siblings_differ[OF this] Cons show ?thesis
    by (auto simp: it_prev_def it_passed_def passed_push_right passed_climb_right)
qed

section \<open>Searching\<close>

text \<open>Where the loop of \<open>lower_bound\<close> stops, with the step after it.\<close>

definition lb_stack :: "('v \<Rightarrow> 'k::linorder) \<Rightarrow> 'k \<Rightarrow> 'v node list \<times> bool \<Rightarrow> 'v node list" where
  "lb_stack kov k = (\<lambda>(s, found).
     if found then s
     else case s of
         [] \<Rightarrow> []
       | n # s' \<Rightarrow> (if kov (the (node_value n)) < k
                  then (if right n = Terminator then climb_left s else push_left (right n) s)
                  else s))"

lemma lower_bound_path:
  "path t s \<Longrightarrow> child t n s \<Longrightarrow> path t (fst (lower_bound_loop kov k n s))"
  by (induction kov k n s rule: lower_bound_loop.induct) (auto simp: path_Cons child_def)

lemma lower_bound_lb_stack:
  assumes "ordered kov t"
  shows "lower_bound kov k t = \<lparr>it_root = t, it_stack = lb_stack kov k (lower_bound_loop kov k t [])\<rparr>"
proof -
  obtain s found where s: "lower_bound_loop kov k t [] = (s, found)"
    by (cases "lower_bound_loop kov k t []") auto
  have "path t s"
    using lower_bound_path[of t "[]" t kov k] s by (simp add: child_def)
  then have "n \<noteq> Terminator" if "n \<in> set s" for n
    using path_ordered assms that by blast
  then have "node_value (hd s) \<noteq> None" if "s \<noteq> []"
    using that hd_in_set[of s] by (cases "hd s") auto
  then show ?thesis
    by (cases s) (auto simp: s lower_bound_def lb_stack_def it_deref_def it_next_def)
qed

lemma dropWhile_left:
  "ordered kov (Node l r x h) \<Longrightarrow> k < kov x \<Longrightarrow>
   dropWhile (\<lambda>v. kov v < k) (inorder l @ x # inorder r) = dropWhile (\<lambda>v. kov v < k) (inorder l) @ x # inorder r"
  by (induction "inorder l" arbitrary: l) (auto simp: dropWhile_append)

lemma dropWhile_right:
  "ordered kov (Node l r x h) \<Longrightarrow> kov x < k \<Longrightarrow>
   dropWhile (\<lambda>v. kov v < k) (inorder l @ x # inorder r) = dropWhile (\<lambda>v. kov v < k) (inorder r)"
  by (auto simp: dropWhile_append intro: less_trans)

lemma dropWhile_here:
  "ordered kov (Node l r x h) \<Longrightarrow> kov x = k \<Longrightarrow>
   dropWhile (\<lambda>v. kov v < k) (inorder l @ x # inorder r) = x # inorder r"
  by (auto simp: dropWhile_append)

lemma lower_bound_pending:
  "n \<noteq> Terminator \<Longrightarrow> ordered kov n \<Longrightarrow>
   stack_pending (lb_stack kov k (lower_bound_loop kov k n s)) =
     dropWhile (\<lambda>v. kov v < k) (inorder n) @ after n s"
proof (induction kov k n s rule: lower_bound_loop.induct)
  case (2 kov k l r x h s)
  let ?n = "Node l r x h"
  have sib: "l = r \<Longrightarrow> l = Terminator"
    using siblings_differ[OF 2(4)] by simp
  consider "k < kov x" | "kov x < k" "\<not> k < kov x" | "kov x = k"
    by (metis linorder_cases order_less_asym)
  then show ?case
  proof cases
    case 1
    then show ?thesis
      using 2(1) 2(4) dropWhile_left[OF 2(4) 1]
      by (cases "l = Terminator") (auto simp: lb_stack_def)
  next
    case 2
    show ?thesis
    proof (cases "r = Terminator")
      case True
      with 2 show ?thesis
        using dropWhile_right[OF \<open>ordered kov ?n\<close> 2(1)] pending_climb_left[of ?n s] by (simp add: lb_stack_def)
    next
      case False
      then have "r \<noteq> l" using sib by auto
      then show ?thesis
        using 2 False \<open>ordered kov ?n\<close> dropWhile_right[OF \<open>ordered kov ?n\<close> 2(1)] "2.IH"(2)
        by simp
    qed
  next
    case 3
    then show ?thesis
      using dropWhile_here[OF 2(4) 3] by (simp add: lb_stack_def)
  qed
qed simp

lemma lower_bound_ok:
  assumes "ordered kov t"
  shows "iter_ok kov (lower_bound kov k t)"
    and "it_pending (lower_bound kov k t) = dropWhile (\<lambda>v. kov v < k) (inorder t)"
    and "it_root (lower_bound kov k t) = t"
proof -
  let ?r = "lower_bound_loop kov k t []"
  have p: "path t (fst ?r)"
    using lower_bound_path[of t "[]" t kov k] by (simp add: child_def)
  moreover have "path t (push_left (right n) (n # s))" if "path t (n # s)" for n s
    using that by (intro path_push_left) (auto simp: child_def)
  ultimately have "path t (lb_stack kov k ?r)"
    by (cases ?r) (auto simp: lb_stack_def path_climb_left split: list.split)
  then show "iter_ok kov (lower_bound kov k t)"
    using assms by (simp add: iter_ok_def lower_bound_lb_stack)
  show "it_pending (lower_bound kov k t) = dropWhile (\<lambda>v. kov v < k) (inorder t)"
    using lower_bound_pending[of t kov k "[]"] assms
    by (cases "t = Terminator") (auto simp: it_pending_def lower_bound_lb_stack lb_stack_def)
  show "it_root (lower_bound kov k t) = t"
    by (simp add: lower_bound_lb_stack assms)
qed

lemma begin_ok:
  assumes "ordered kov t"
  shows "iter_ok kov (it_begin t)" "it_pending (it_begin t) = inorder t"
  using assms path_push_left[of t "[]" t] pending_push_left[of t "[]"]
  by (auto simp: iter_ok_def it_begin_def it_pending_def child_def) (cases "t = Terminator"; simp)

lemma end_ok: "ordered kov t \<Longrightarrow> iter_ok kov (it_end t)" "it_pending (it_end t) = []"
  by (simp_all add: iter_ok_def it_end_def it_pending_def)

lemma ordered_dropWhile:
  "ordered kov t \<Longrightarrow> dropWhile (\<lambda>v. kov v < k) (inorder t) = v # vs \<Longrightarrow>
   k \<le> kov v \<and> (\<forall>x \<in> set vs. kov v < kov x)"
proof -
  assume t: "ordered kov t" and d: "dropWhile (\<lambda>v. kov v < k) (inorder t) = v # vs"
  have "inorder t = takeWhile (\<lambda>v. kov v < k) (inorder t) @ v # vs"
    using d by (metis takeWhile_dropWhile_id)
  with t have "sorted_wrt (<) (map kov (v # vs))"
    unfolding ordered_def by (metis map_append sorted_wrt_append)
  moreover have "\<not> kov v < k"
    using d hd_dropWhile[of "\<lambda>v. kov v < k" "inorder t"] by simp
  ultimately show ?thesis by auto
qed

text \<open>The stack never outgrows its capacity, the height of the root.\<close>

lemma path_height:
  "path t (n # s) \<Longrightarrow> balanced t \<Longrightarrow> balanced n \<and> length s + ht n \<le> ht t"
proof (induction s arbitrary: n)
  case (Cons m s)
  then have "balanced m \<and> length s + ht m \<le> ht t" "m \<noteq> Terminator"
    using path_tl by (auto simp: path_Cons)
  moreover have "n = left m \<or> n = right m"
    using Cons.prems by (simp add: path_Cons child_def)
  ultimately show ?case by (cases m) auto
qed simp

section \<open>Properties\<close>

text \<open>An iterator splits the sequence of the elements at its position: dereferencing reads the
  first pending element, \<open>++\<close> moves it to the passed ones, \<open>--\<close> moves the last passed one back (or
  goes to the end from the first position), and \<open>++\<close> fails at the end only.\<close>

lemma iterator_steps:
  assumes "iter_ok kov it"
  shows "it_passed it @ it_pending it = inorder (it_root it) \<and>
         it_deref it = (case it_pending it of [] \<Rightarrow> None | v # vs \<Rightarrow> Some v) \<and>
         (case it_next it of
            None \<Rightarrow> it_pending it = []
          | Some it' \<Rightarrow> iter_ok kov it' \<and> it_root it' = it_root it \<and> it_pending it = hd (it_pending it) # it_pending it') \<and>
         iter_ok kov (it_prev it) \<and> it_root (it_prev it) = it_root it \<and>
         (if it_passed it = [] then it_pending (it_prev it) = []
          else it_pending (it_prev it) = last (it_passed it) # it_pending it)"
proof -
  let ?p = "it_prev it"
  have nxt: "case it_next it of
            None \<Rightarrow> it_pending it = []
          | Some it' \<Rightarrow> iter_ok kov it' \<and> it_root it' = it_root it \<and> it_pending it = hd (it_pending it) # it_pending it'"
  proof (cases "it_stack it")
    case Nil
    then show ?thesis by (simp add: it_next_def it_pending_def)
  next
    case (Cons n s)
    then obtain v vs where v: "it_pending it = v # vs"
      by (simp add: it_pending_def)
    obtain it' where "it_next it = Some it'" "it_pending it' = vs"
      using it_next_pending[OF assms v] by blast
    then show ?thesis
      using it_next_ok[OF assms] v by simp
  qed
  have ok: "iter_ok kov ?p" "it_root ?p = it_root it"
    using it_prev_ok[OF assms] by simp_all
  have eq: "it_passed ?p @ it_pending ?p = it_passed it @ it_pending it"
    using passed_pending[OF ok(1)] passed_pending[OF assms] ok(2) by simp
  have "if it_passed it = [] then it_pending ?p = [] else it_pending ?p = last (it_passed it) # it_pending it"
  proof (cases "it_stack ?p")
    case Nil
    then show ?thesis
      using it_prev_passed[OF assms] by (simp add: stack_passed_def it_pending_def)
  next
    case (Cons n s)
    then have "it_passed it = it_passed ?p @ [the (node_value n)]"
      using it_prev_passed[OF assms] by (simp add: stack_passed_def it_passed_def)
    with eq show ?thesis by simp
  qed
  with nxt ok show ?thesis
    using passed_pending[OF assms] it_deref_pending[OF assms] by simp
qed

lemma iterator_steps_witness:
  "it_passed (it_begin sample_tree) @ it_pending (it_begin sample_tree) = [1, 2, 3, 4, 5, 6, 7]"
proof -
  have ok: "iter_ok (\<lambda>v. v) (it_begin sample_tree)"
    using sample_tree_ok by (intro begin_ok) (simp add: tree_ok_def)
  have "inorder (it_root (it_begin sample_tree)) = [1, 2, 3, 4, 5, 6, 7]"
    by code_simp
  then show ?thesis
    using iterator_steps[OF ok] by (elim conjE) simp
qed

lemma first_not_below:
  assumes o: "ordered kov t" and dw: "dropWhile (\<lambda>v. kov v < k) (inorder t) = v # vs"
  shows "dropWhile (\<lambda>v. kov v \<le> k) (inorder t) = (if kov v \<le> k then vs else v # vs)"
    and "tree_map kov t k = (if kov v = k then Some v else None)"
proof -
  let ?tw = "takeWhile (\<lambda>v. kov v < k) (inorder t)"
  have tw: "kov x < k" if "x \<in> set ?tw" for x
    using set_takeWhileD[OF that] by simp
  note v = ordered_dropWhile[OF o dw, THEN conjunct1] ordered_dropWhile[OF o dw, THEN conjunct2, rule_format]
  have split: "inorder t = ?tw @ v # vs"
    using takeWhile_dropWhile_id[of "\<lambda>v. kov v < k" "inorder t"] dw by simp
  have "dropWhile (\<lambda>v. kov v \<le> k) (?tw @ v # vs) = dropWhile (\<lambda>v. kov v \<le> k) (v # vs)"
    by (rule dropWhile_append2) (use tw in \<open>auto intro: less_imp_le\<close>)
  also have "\<dots> = (if kov v \<le> k then vs else v # vs)"
    using v(1) v(2)[of "hd vs"] by (cases vs) auto
  finally show "dropWhile (\<lambda>v. kov v \<le> k) (inorder t) = (if kov v \<le> k then vs else v # vs)"
    by (subst split)
  have in_t: "v \<in> set (inorder t)"
    by (subst split) simp
  show "tree_map kov t k = (if kov v = k then Some v else None)"
  proof (cases "kov v = k")
    case False
    have "kov x \<noteq> k" if "x \<in> set (inorder t)" for x
    proof -
      from that have "x \<in> set (?tw @ v # vs)"
        by (subst (asm) split)
      then consider "x \<in> set ?tw" | "x = v" | "x \<in> set vs"
        by auto
      then show ?thesis
        by cases (use tw[of x] v(1) v(2)[of x] False in auto)
    qed
    with False show ?thesis by (simp add: tree_map_None)
  qed (use tree_map_Some[OF o] in_t in simp)
qed

lemma upper_bound_find_ok:
  assumes o: "ordered kov t"
  shows "it_pending (upper_bound kov k t) = dropWhile (\<lambda>v. kov v \<le> k) (inorder t)"
    and "it_deref (tree_find kov k t) = tree_map kov t k"
proof -
  let ?it = "lower_bound kov k t"
  have it: "iter_ok kov ?it" "it_pending ?it = dropWhile (\<lambda>v. kov v < k) (inorder t)"
    by (rule lower_bound_ok[OF o])+
  have "it_pending (upper_bound kov k t) = dropWhile (\<lambda>v. kov v \<le> k) (inorder t)
       \<and> it_deref (tree_find kov k t) = tree_map kov t k"
  proof (cases "it_pending ?it")
    case Nil
    then have none: "dropWhile (\<lambda>v. kov v < k) (inorder t) = []"
      using it(2) by simp
    have "it_deref ?it = None"
      using it_deref_pending[OF it(1)] Nil by simp
    have "kov x < k" if "x \<in> set (inorder t)" for x
      using that none by (simp add: dropWhile_eq_Nil_conv)
    then have d: "dropWhile (\<lambda>v. kov v \<le> k) (inorder t) = []" "tree_map kov t k = None"
      by (auto simp: tree_map_None dest: less_imp_le)
    have "upper_bound kov k t = ?it" "tree_find kov k t = it_end t"
      using \<open>it_deref ?it = None\<close> by (simp_all add: upper_bound_def tree_find_def)
    then show ?thesis
      using Nil by (simp only: d) (simp add: it_end_def it_deref_def)
  next
    case (Cons v vs)
    obtain it' where it': "it_next ?it = Some it'" "it_pending it' = vs" "it_deref ?it = Some v"
      using it_next_pending[OF it(1) Cons] by blast
    have dw: "dropWhile (\<lambda>v. kov v < k) (inorder t) = v # vs"
      using it(2) Cons by simp
    note v = ordered_dropWhile[OF o dw, THEN conjunct1]
    have "upper_bound kov k t = (if kov v \<le> k then it' else ?it)"
      "tree_find kov k t = (if kov v = k then ?it else it_end t)"
      using it' v by (auto simp: upper_bound_def tree_find_def)
    then show ?thesis
      using first_not_below[OF o dw] it' Cons by (cases "kov v = k") (auto simp: it_end_def it_deref_def)
  qed
  then show "it_pending (upper_bound kov k t) = dropWhile (\<lambda>v. kov v \<le> k) (inorder t)"
    "it_deref (tree_find kov k t) = tree_map kov t k" by simp_all
qed

text \<open>C11: \<open>begin\<close> stands before the first element, \<open>end\<close> after the last; \<open>lower_bound\<close> stands at
  the first element whose key is not below the given one, \<open>upper_bound\<close> at the first above it, and
  \<open>find\<close> at the element with that key or else at the end.\<close>

theorem searches_correct:
  assumes "tree_ok kov t"
  shows "it_pending (it_begin t) = inorder t \<and> it_pending (it_end t) = [] \<and>
         it_pending (lower_bound kov k t) = dropWhile (\<lambda>v. kov v < k) (inorder t) \<and>
         it_pending (upper_bound kov k t) = dropWhile (\<lambda>v. kov v \<le> k) (inorder t) \<and>
         it_deref (tree_find kov k t) = tree_map kov t k"
proof -
  have o: "ordered kov t"
    using assms by (simp add: tree_ok_def)
  show ?thesis
    using begin_ok(2)[OF o] end_ok(2) lower_bound_ok(2)[OF o] upper_bound_find_ok[OF o] by simp
qed

theorem searches_correct_witness:
  "it_pending (upper_bound (\<lambda>v. v) 5 sample_tree) = [6, 7]"
proof -
  have "dropWhile (\<lambda>v. v \<le> 5) (inorder sample_tree) = [6, 7]"
    by code_simp
  then show ?thesis
    using searches_correct[OF sample_tree_ok, of 5] by (elim conjE) simp
qed

text \<open>The fixed stack of an iterator, whose capacity is the height of the root, never
  overflows.\<close>

theorem stack_bound:
  assumes "balanced (it_root it)" and "iter_ok kov it"
  shows "length (it_stack it) \<le> ht (it_root it)"
proof (cases "it_stack it")
  case (Cons n s)
  then have "path (it_root it) (n # s)"
    using assms(2) by (simp add: iter_ok_def)
  then have "balanced n \<and> length s + ht n \<le> ht (it_root it)" "n \<noteq> Terminator"
    using path_height assms(1) by (auto simp: path_Cons)
  with Cons show ?thesis by (cases n) auto
qed simp

theorem stack_bound_witness:
  "length (it_stack (lower_bound (\<lambda>v. v) 5 sample_tree)) \<le> ht sample_tree"
proof -
  have "ordered (\<lambda>v. v) sample_tree" "balanced sample_tree"
    using sample_tree_ok by (simp_all add: tree_ok_def)
  then show ?thesis
    using stack_bound[of "lower_bound (\<lambda>v. v) 5 sample_tree" "\<lambda>v. v"] by (simp add: lower_bound_ok)
qed

end
