(* ===== verification/BitArray.thy ===== *)
theory BitArray
  imports Prelude
begin

text \<open>
  \<^verbatim>\<open>include/klee/util/BitArray.h\<close>: a set of indices packed into 32-bit words. The number of words
  is computed in 32 bits, so it is right for sizes up to \<open>2^32 - 32\<close> only.
\<close>

type_synonym BitArray = "32 word list"

definition ba_length :: "nat \<Rightarrow> nat" where
  "ba_length n = ((n + 31) mod 2 ^ 32) div 32"

definition ba_new :: "nat \<Rightarrow> bool \<Rightarrow> BitArray" where
  "ba_new n value = replicate (ba_length n) (if value then - 1 else 0)"

definition ba_copy :: "BitArray \<Rightarrow> nat \<Rightarrow> BitArray" where
  "ba_copy b n = take (ba_length n) b"

definition ba_get :: "BitArray \<Rightarrow> nat \<Rightarrow> bool" where
  "ba_get b idx \<longleftrightarrow> drop_bit (idx mod 32) (b ! (idx div 32)) AND 1 = 1"

definition ba_set :: "BitArray \<Rightarrow> nat \<Rightarrow> BitArray" where
  "ba_set b idx = b[idx div 32 := b ! (idx div 32) OR push_bit (idx mod 32) 1]"

definition ba_unset :: "BitArray \<Rightarrow> nat \<Rightarrow> BitArray" where
  "ba_unset b idx = b[idx div 32 := b ! (idx div 32) AND NOT (push_bit (idx mod 32) 1)]"

text \<open>The array has room for \<open>n\<close> bits.\<close>

definition ba_ok :: "nat \<Rightarrow> BitArray \<Rightarrow> bool" where
  "ba_ok n b \<longleftrightarrow> n \<le> 32 * length b"

lemma ba_get_bit: "ba_get b idx \<longleftrightarrow> bit (b ! (idx div 32)) (idx mod 32)"
  by (simp add: ba_get_def and_one_eq odd_iff_mod_2_eq_one[symmetric] bit_iff_odd_drop_bit)

lemma ba_ok_updates [simp]: "ba_ok n (ba_set b i) = ba_ok n b" "ba_ok n (ba_unset b i) = ba_ok n b"
  by (simp_all add: ba_ok_def ba_set_def ba_unset_def)

lemma ba_length_ok: "n + 31 < 2 ^ 32 \<Longrightarrow> n \<le> 32 * ba_length n"
  by (simp add: ba_length_def)

lemma ba_ok_new: "n + 31 < 2 ^ 32 \<Longrightarrow> ba_ok n (ba_new n v)"
  by (simp add: ba_ok_def ba_new_def ba_length_ok)

lemma ba_ok_copy: "n + 31 < 2 ^ 32 \<Longrightarrow> ba_ok n b \<Longrightarrow> ba_ok n (ba_copy b n)"
  using ba_length_ok[of n] by (simp add: ba_ok_def ba_copy_def min_def)

lemma index_word: "ba_ok n b \<Longrightarrow> i < n \<Longrightarrow> i div 32 < length b"
  by (simp add: ba_ok_def less_mult_imp_div_less mult.commute)

lemma ba_get_new: "n + 31 < 2 ^ 32 \<Longrightarrow> i < n \<Longrightarrow> ba_get (ba_new n v) i = v"
  using index_word[OF ba_ok_new] by (simp add: ba_get_bit ba_new_def)

lemma ba_get_copy: "n + 31 < 2 ^ 32 \<Longrightarrow> i < n \<Longrightarrow> ba_get (ba_copy b n) i = ba_get b i"
  using ba_length_ok[of n] by (simp add: ba_get_bit ba_copy_def less_mult_imp_div_less mult.commute)

lemma same_index: "i div 32 = j div 32 \<Longrightarrow> i mod 32 = j mod 32 \<longleftrightarrow> i = (j::nat)"
  by (metis div_mult_mod_eq)

lemma ba_get_set: "ba_ok n b \<Longrightarrow> i < n \<Longrightarrow> j < n \<Longrightarrow> ba_get (ba_set b i) j \<longleftrightarrow> j = i \<or> ba_get b j"
  using index_word[of n b i] same_index[of j i]
  by (auto simp: ba_get_bit ba_set_def nth_list_update bit_simps)

lemma ba_get_unset: "ba_ok n b \<Longrightarrow> i < n \<Longrightarrow> j < n \<Longrightarrow> ba_get (ba_unset b i) j \<longleftrightarrow> j \<noteq> i \<and> ba_get b j"
  using index_word[of n b i] same_index[of j i]
  by (auto simp: ba_get_bit ba_unset_def nth_list_update bit_simps)

text \<open>A bit array of at most \<open>2^32 - 32\<close> bits is a set of indices: the constructors make the
  full or the empty set or copy one, setting and clearing a bit change membership of that index and
  of no other.\<close>

theorem BitArray_is_set:
  assumes "n + 31 < 2 ^ 32" "ba_ok n b" "i < n" "j < n"
  shows "ba_get (ba_new n v) j = v \<and> ba_get (ba_copy b n) j = ba_get b j \<and>
         ba_get (ba_set b i) j = (j = i \<or> ba_get b j) \<and>
         ba_get (ba_unset b i) j = (j \<noteq> i \<and> ba_get b j) \<and>
         ba_ok n (ba_new n v) \<and> ba_ok n (ba_copy b n) \<and> ba_ok n (ba_set b i) \<and> ba_ok n (ba_unset b i)"
  using assms by (simp add: ba_get_new ba_get_copy ba_get_set ba_get_unset ba_ok_new ba_ok_copy)

theorem BitArray_is_set_witness:
  "ba_get (ba_set (ba_new 70 False) 64) 64 \<and> \<not> ba_get (ba_unset (ba_new 70 True) 33) 33"
proof -
  have ok: "(70::nat) + 31 < 2 ^ 32" "ba_ok 70 (ba_new 70 True)" "ba_ok 70 (ba_new 70 False)"
    by (simp_all add: ba_ok_def ba_new_def ba_length_def)
  have "(64::nat) < 70" "(33::nat) < 70"
    by simp_all
  then show ?thesis
    using BitArray_is_set[OF ok(1,3), of 64 64 True] BitArray_is_set[OF ok(1,2), of 33 33 True] by blast
qed

end
