(* ===== verification/ObjectState.thy ===== *)
theory ObjectState
  imports ArrayCache BitArray "HOL-Library.Monad_Syntax"
begin

text \<open>
  The contents of memory objects (\<^verbatim>\<open>lib/klee/Core/Memory.cpp\<close> and \<^verbatim>\<open>Memory.h\<close>): every byte lives in
  up to three places, the concrete store, the cached symbolic expression and the update list, and
  two bit masks say which of them count. Failed assertions and accesses outside the object are
  \<open>None\<close>. The byte order is that of the target, a parameter \<open>le\<close>; the width of its pointers
  is \<open>pw\<close>. Reads may materialise the constant array of the object, so they too return the new state.
\<close>

section \<open>Memory objects\<close>

record memory_object =
  mo_id :: nat
  address :: "64 word"
  mo_size :: nat
  mo_name :: string
  isLocal :: bool
  isGlobal :: bool
  isFixed :: bool
  isUserSpecified :: bool

definition getBaseExpr :: "nat \<Rightarrow> memory_object \<Rightarrow> expr" where
  "getBaseExpr pw mo = alloc_Const pw (uint (address mo))"

definition getSizeExpr :: "nat \<Rightarrow> memory_object \<Rightarrow> expr" where
  "getSizeExpr pw mo = alloc_Const pw (int (mo_size mo))"

definition getOffsetExpr :: "nat \<Rightarrow> memory_object \<Rightarrow> expr \<Rightarrow> expr" where
  "getOffsetExpr pw mo pointer = create_Sub pointer (getBaseExpr pw mo)"

definition getBoundsCheckOffset :: "nat \<Rightarrow> memory_object \<Rightarrow> expr \<Rightarrow> expr" where
  "getBoundsCheckOffset pw mo offset =
     (if mo_size mo = 0 then create_Eq offset (alloc_Const pw 0)
      else create_Ult offset (getSizeExpr pw mo))"

definition getBoundsCheckOffset_bytes :: "nat \<Rightarrow> memory_object \<Rightarrow> expr \<Rightarrow> nat \<Rightarrow> expr" where
  "getBoundsCheckOffset_bytes pw mo offset bytes =
     (if bytes \<le> mo_size mo then create_Ult offset (alloc_Const pw (int (mo_size mo - bytes + 1)))
      else alloc_Const 1 0)"

definition getBoundsCheckPointer :: "nat \<Rightarrow> memory_object \<Rightarrow> expr \<Rightarrow> expr" where
  "getBoundsCheckPointer pw mo pointer = getBoundsCheckOffset pw mo (getOffsetExpr pw mo pointer)"

definition getBoundsCheckPointer_bytes :: "nat \<Rightarrow> memory_object \<Rightarrow> expr \<Rightarrow> nat \<Rightarrow> expr" where
  "getBoundsCheckPointer_bytes pw mo pointer bytes =
     getBoundsCheckOffset_bytes pw mo (getOffsetExpr pw mo pointer) bytes"

section \<open>Object states\<close>

record object_state =
  copyOnWriteOwner :: nat
  os_object :: memory_object
  concreteStore :: "8 word list"
  concreteMask :: "BitArray option"
  flushMask :: "BitArray option"
  knownSymbolics :: "expr option list option"
  root :: "array option"
  head :: updates
  os_size :: nat
  readOnly :: bool

text \<open>What the constructors of arrays need: the cache, and the counter in the names of constant arrays.\<close>

record exec_context =
  cache :: array_cache
  const_id :: nat

subsection \<open>Masks\<close>

definition isByteConcrete :: "object_state \<Rightarrow> nat \<Rightarrow> bool" where
  "isByteConcrete os i = (case concreteMask os of None \<Rightarrow> True | Some m \<Rightarrow> ba_get m i)"

definition isByteFlushed :: "object_state \<Rightarrow> nat \<Rightarrow> bool" where
  "isByteFlushed os i = (case flushMask os of None \<Rightarrow> False | Some m \<Rightarrow> \<not> ba_get m i)"

definition known :: "object_state \<Rightarrow> nat \<Rightarrow> expr option" where
  "known os i = (case knownSymbolics os of None \<Rightarrow> None | Some ks \<Rightarrow> ks ! i)"

definition isByteKnownSymbolic :: "object_state \<Rightarrow> nat \<Rightarrow> bool" where
  "isByteKnownSymbolic os i \<longleftrightarrow> known os i \<noteq> None"

definition markByteConcrete :: "nat \<Rightarrow> object_state \<Rightarrow> object_state" where
  "markByteConcrete i os = os\<lparr>concreteMask := map_option (\<lambda>m. ba_set m i) (concreteMask os)\<rparr>"

definition markByteSymbolic :: "nat \<Rightarrow> object_state \<Rightarrow> object_state" where
  "markByteSymbolic i os =
     (let m = (case concreteMask os of None \<Rightarrow> ba_new (os_size os) True | Some m \<Rightarrow> m)
      in os\<lparr>concreteMask := Some (ba_unset m i)\<rparr>)"

definition markByteUnflushed :: "nat \<Rightarrow> object_state \<Rightarrow> object_state" where
  "markByteUnflushed i os = os\<lparr>flushMask := map_option (\<lambda>m. ba_set m i) (flushMask os)\<rparr>"

definition markByteFlushed :: "nat \<Rightarrow> object_state \<Rightarrow> object_state" where
  "markByteFlushed i os =
     os\<lparr>flushMask := Some (case flushMask os of None \<Rightarrow> ba_new (os_size os) False | Some m \<Rightarrow> ba_unset m i)\<rparr>"

definition setKnownSymbolic :: "nat \<Rightarrow> expr option \<Rightarrow> object_state \<Rightarrow> object_state" where
  "setKnownSymbolic i v os =
     (case knownSymbolics os of
        Some ks \<Rightarrow> os\<lparr>knownSymbolics := Some (ks[i := v])\<rparr>
      | None \<Rightarrow> if v = None then os
                else os\<lparr>knownSymbolics := Some ((replicate (os_size os) None)[i := v])\<rparr>)"

subsection \<open>Construction\<close>

text \<open>The option \<open>use-constant-arrays\<close> has its default, so a concrete object starts without a root.\<close>

definition new_object_state :: "memory_object \<Rightarrow> object_state" where
  "new_object_state mo =
     \<lparr>copyOnWriteOwner = 0, os_object = mo, concreteStore = replicate (mo_size mo) 0,
      concreteMask = None, flushMask = None, knownSymbolics = None, root = None, head = NoUpdate,
      os_size = mo_size mo, readOnly = False\<rparr>"

fun makeSymbolic_loop :: "nat list \<Rightarrow> object_state \<Rightarrow> object_state" where
  "makeSymbolic_loop [] os = os"
| "makeSymbolic_loop (i # js) os =
     makeSymbolic_loop js (markByteFlushed i (setKnownSymbolic i None (markByteSymbolic i os)))"

definition makeSymbolic :: "object_state \<Rightarrow> object_state option" where
  "makeSymbolic os = (if head os = NoUpdate then Some (makeSymbolic_loop [0..<os_size os] os) else None)"

definition new_symbolic_object :: "memory_object \<Rightarrow> array \<Rightarrow> object_state option" where
  "new_symbolic_object mo a =
     map_option (\<lambda>os. os\<lparr>concreteStore := replicate (os_size os) 0\<rparr>)
       (makeSymbolic ((new_object_state mo)\<lparr>root := Some a\<rparr>))"

definition copy_object_state :: "object_state \<Rightarrow> object_state option" where
  "copy_object_state os =
     (if readOnly os then None
      else Some (os\<lparr>copyOnWriteOwner := 0,
                    concreteMask := map_option (\<lambda>m. ba_copy m (os_size os)) (concreteMask os),
                    flushMask := map_option (\<lambda>m. ba_copy m (os_size os)) (flushMask os),
                    knownSymbolics := map_option (take (os_size os)) (knownSymbolics os),
                    concreteStore := take (os_size os) (concreteStore os)\<rparr>))"

definition makeConcrete :: "object_state \<Rightarrow> object_state" where
  "makeConcrete os = os\<lparr>concreteMask := None, flushMask := None, knownSymbolics := None\<rparr>"

definition initializeToZero :: "object_state \<Rightarrow> object_state" where
  "initializeToZero os = (makeConcrete os)\<lparr>concreteStore := replicate (os_size os) 0\<rparr>"

definition initializeToRandom :: "object_state \<Rightarrow> object_state" where
  "initializeToRandom os = (makeConcrete os)\<lparr>concreteStore := replicate (os_size os) 0xAB\<rparr>"

definition setReadOnly :: "bool \<Rightarrow> object_state \<Rightarrow> object_state" where
  "setReadOnly ro os = os\<lparr>readOnly := ro\<rparr>"

subsection \<open>Lazy constant arrays\<close>

text \<open>The loop that pushes leading concrete writes into the contents, and what it leaves.\<close>

fun push_writes :: "int list \<Rightarrow> (expr \<times> expr) list \<Rightarrow> (int list \<times> (expr \<times> expr) list) option" where
  "push_writes cs [] = Some (cs, [])"
| "push_writes cs ((x, v) # ws) =
     (case dyn_Constant x of
        None \<Rightarrow> Some (cs, (x, v) # ws)
      | Some cx \<Rightarrow>
          (case dyn_Constant v of
             None \<Rightarrow> Some (cs, (x, v) # ws)
           | Some cv \<Rightarrow> if rawval cx < int (length cs) then push_writes (cs[nat (rawval cx) := rawval cv]) ws
                       else None))"

fun utostr_loop :: "nat \<Rightarrow> nat \<Rightarrow> string" where
  "utostr_loop 0 n = []"
| "utostr_loop (Suc f) n =
     (if n < 10 then [char_of (n + 48)] else utostr_loop f (n div 10) @ [char_of (n mod 10 + 48)])"

text \<open>A number has at most as many digits as its value plus one.\<close>

definition utostr :: "nat \<Rightarrow> string" where
  "utostr n = utostr_loop (n + 1) n"

definition getUpdates :: "exec_context \<Rightarrow> object_state \<Rightarrow> (exec_context \<times> object_state) option" where
  "getUpdates c os =
     (case root os of
        Some a \<Rightarrow> Some (c, os)
      | None \<Rightarrow> do {
          (contents, rest) \<leftarrow> push_writes (replicate (os_size os) 0) (oldest_first (head os));
          (a, cache') \<leftarrow> CreateArray (''const_arr'' @ utostr (const_id c + 1)) (os_size os) contents 32 8 (cache c);
          us \<leftarrow> extend_all (Some a) NoUpdate rest;
          Some (\<lparr>cache = cache', const_id = const_id c + 1\<rparr>, os\<lparr>root := Some a, head := us\<rparr>)
        })"

subsection \<open>Flushing\<close>

definition fastRangeCheckOffset :: "object_state \<Rightarrow> expr \<Rightarrow> nat \<times> nat" where
  "fastRangeCheckOffset os offset = (0, os_size os)"

text \<open>The cached value of a byte, as the expression that a flush appends.\<close>

definition cached_byte :: "object_state \<Rightarrow> nat \<Rightarrow> expr option" where
  "cached_byte os i =
     (if isByteConcrete os i then Some (alloc_Const 8 (uint (concreteStore os ! i))) else known os i)"

definition flush_mask :: "object_state \<Rightarrow> BitArray" where
  "flush_mask os = (case flushMask os of None \<Rightarrow> ba_new (os_size os) True | Some m \<Rightarrow> m)"

definition flushByteForRead :: "nat \<Rightarrow> object_state \<Rightarrow> object_state option" where
  "flushByteForRead i os =
     (if isByteFlushed os i then Some os
      else do {
        v \<leftarrow> cached_byte os i;
        us \<leftarrow> ul_extend (root os) (head os) (alloc_Const 32 (int i)) v;
        Some (os\<lparr>head := us, flushMask := Some (ba_unset (flush_mask os) i)\<rparr>)
      })"

definition flushByteForWrite :: "nat \<Rightarrow> object_state \<Rightarrow> object_state option" where
  "flushByteForWrite i os =
     (if isByteFlushed os i then
        Some (if isByteConcrete os i then markByteSymbolic i os
              else if isByteKnownSymbolic os i then setKnownSymbolic i None os else os)
      else do {
        v \<leftarrow> cached_byte os i;
        us \<leftarrow> ul_extend (root os) (head os) (alloc_Const 32 (int i)) v;
        let os' = os\<lparr>head := us\<rparr>;
            os'' = (if isByteConcrete os i then markByteSymbolic i os' else setKnownSymbolic i None os')
        in Some (os''\<lparr>flushMask := Some (ba_unset (flush_mask os'') i)\<rparr>)
      })"

fun for_offsets :: "(nat \<Rightarrow> object_state \<Rightarrow> object_state option) \<Rightarrow> nat list \<Rightarrow> object_state \<Rightarrow> object_state option" where
  "for_offsets f [] os = Some os"
| "for_offsets f (i # js) os = (case f i os of None \<Rightarrow> None | Some os' \<Rightarrow> for_offsets f js os')"

definition flushRangeForRead :: "nat \<Rightarrow> nat \<Rightarrow> object_state \<Rightarrow> object_state option" where
  "flushRangeForRead b n os = for_offsets flushByteForRead [b..<b + n] (os\<lparr>flushMask := Some (flush_mask os)\<rparr>)"

definition flushRangeForWrite :: "nat \<Rightarrow> nat \<Rightarrow> object_state \<Rightarrow> object_state option" where
  "flushRangeForWrite b n os = for_offsets flushByteForWrite [b..<b + n] (os\<lparr>flushMask := Some (flush_mask os)\<rparr>)"

subsection \<open>Bytes\<close>

definition read8 :: "nat \<Rightarrow> exec_context \<times> object_state \<Rightarrow> (expr \<times> exec_context \<times> object_state) option" where
  "read8 i = (\<lambda>(c, os).
     if i \<ge> os_size os then None
     else if isByteConcrete os i then Some (alloc_Const 8 (uint (concreteStore os ! i)), c, os)
     else case known os i of
         Some e \<Rightarrow> Some (e, c, os)
       | None \<Rightarrow>
           if isByteFlushed os i then do {
             (c', os') \<leftarrow> getUpdates c os;
             Some (create_Read_value (the (root os')) (head os') (alloc_Const 32 (int i)), c', os')
           } else None)"

definition read8_symbolic :: "expr \<Rightarrow> exec_context \<times> object_state \<Rightarrow> (expr \<times> exec_context \<times> object_state) option" where
  "read8_symbolic offset = (\<lambda>(c, os).
     if isConstantExpr offset then None
     else let (b, n) = fastRangeCheckOffset os offset
          in do {
            os' \<leftarrow> flushRangeForRead b n os;
            (c', os'') \<leftarrow> getUpdates c os';
            Some (create_Read_value (the (root os'')) (head os'') (create_ZExt offset 32), c', os'')
          })"

definition write8 :: "nat \<Rightarrow> 8 word \<Rightarrow> object_state \<Rightarrow> object_state option" where
  "write8 i v os =
     (if i \<ge> os_size os then None
      else Some (markByteUnflushed i (markByteConcrete i
             (setKnownSymbolic i None (os\<lparr>concreteStore := (concreteStore os)[i := v]\<rparr>)))))"

text \<open>\<open>getZExtValue(8)\<close> asserts that the constant has at most eight bits.\<close>

definition write8_expr :: "nat \<Rightarrow> expr \<Rightarrow> object_state \<Rightarrow> object_state option" where
  "write8_expr i v os =
     (case dyn_Constant v of
        Some k \<Rightarrow> if getBitWidth k \<le> 8 then write8 i (word_of_int (rawval k)) os else None
      | None \<Rightarrow> if i \<ge> os_size os then None
                else Some (markByteUnflushed i (markByteSymbolic i (setKnownSymbolic i (Some v) os))))"

definition write8_symbolic :: "expr \<Rightarrow> expr \<Rightarrow> object_state \<Rightarrow> object_state option" where
  "write8_symbolic offset v os =
     (if isConstantExpr offset then None
      else let (b, n) = fastRangeCheckOffset os offset
           in do {
             os' \<leftarrow> flushRangeForWrite b n os;
             us \<leftarrow> ul_extend (root os') (head os') (create_ZExt offset 32) v;
             Some (os'\<lparr>head := us\<rparr>)
           })"

subsection \<open>Values of several bytes\<close>

definition byte_index :: "bool \<Rightarrow> nat \<Rightarrow> nat \<Rightarrow> nat" where
  "byte_index le n i = (if le then i else n - i - 1)"

text \<open>The loop of both \<open>read\<close> functions: \<open>Res\<close> is null before the first byte.\<close>

fun read_loop :: "(nat \<Rightarrow> 'a \<Rightarrow> (expr \<times> 'a) option) \<Rightarrow> nat list \<Rightarrow> expr option \<Rightarrow> 'a \<Rightarrow> (expr option \<times> 'a) option" where
  "read_loop rd [] res s = Some (res, s)"
| "read_loop rd (i # js) res s =
     (case rd i s of
        None \<Rightarrow> None
      | Some (b, s') \<Rightarrow>
          read_loop rd js (Some (case res of None \<Rightarrow> b | Some r \<Rightarrow> create_Concat b r)) s')"

definition read_bytes :: "(nat \<Rightarrow> 'a \<Rightarrow> (expr \<times> 'a) option) \<Rightarrow> bool \<Rightarrow> nat \<Rightarrow> 'a \<Rightarrow> (expr \<times> 'a) option" where
  "read_bytes rd le w s =
     (if w = 1 then map_option (\<lambda>(b, s'). (create_Extract b 0 1, s')) (rd 0 s)
      else if w mod 8 \<noteq> 0 then None
      else case read_loop (\<lambda>i. rd (byte_index le (w div 8) i)) [0..<w div 8] None s of
          Some (Some r, s') \<Rightarrow> Some (r, s')
        | _ \<Rightarrow> None)"

definition read_const :: "bool \<Rightarrow> nat \<Rightarrow> nat \<Rightarrow> exec_context \<times> object_state \<Rightarrow> (expr \<times> exec_context \<times> object_state) option" where
  "read_const le offset w s = read_bytes (\<lambda>i. read8 (offset + i)) le w s"

definition read_obj :: "bool \<Rightarrow> expr \<Rightarrow> nat \<Rightarrow> exec_context \<times> object_state \<Rightarrow> (expr \<times> exec_context \<times> object_state) option" where
  "read_obj le offset w s =
     (let off = create_ZExt offset 32
      in case dyn_Constant off of
           Some k \<Rightarrow> read_const le (nat (rawval k)) w s
         | None \<Rightarrow> if w = 1 then read_bytes (\<lambda>i. read8_symbolic off) le w s
                   else read_bytes (\<lambda>i. read8_symbolic (create_Add off (alloc_Const 32 (int i)))) le w s)"

definition write_bytes :: "(nat \<Rightarrow> nat \<Rightarrow> object_state \<Rightarrow> object_state option) \<Rightarrow> bool \<Rightarrow> nat \<Rightarrow> object_state \<Rightarrow> object_state option" where
  "write_bytes wr le n os = for_offsets (\<lambda>i. wr (byte_index le n i) i) [0..<n] os"

definition write16 :: "bool \<Rightarrow> nat \<Rightarrow> 16 word \<Rightarrow> object_state \<Rightarrow> object_state option" where
  "write16 le offset v = write_bytes (\<lambda>idx i. write8 (offset + idx) (ucast (drop_bit (8 * i) v))) le 2"

definition write32 :: "bool \<Rightarrow> nat \<Rightarrow> 32 word \<Rightarrow> object_state \<Rightarrow> object_state option" where
  "write32 le offset v = write_bytes (\<lambda>idx i. write8 (offset + idx) (ucast (drop_bit (8 * i) v))) le 4"

definition write64 :: "bool \<Rightarrow> nat \<Rightarrow> 64 word \<Rightarrow> object_state \<Rightarrow> object_state option" where
  "write64 le offset v = write_bytes (\<lambda>idx i. write8 (offset + idx) (ucast (drop_bit (8 * i) v))) le 8"

definition isPowerOfTwo :: "64 word \<Rightarrow> bool" where
  "isPowerOfTwo x \<longleftrightarrow> x \<noteq> 0 \<and> x AND (x - 1) = 0"

text \<open>The general case of \<open>write\<close> at a constant offset.\<close>

definition write_const_general :: "bool \<Rightarrow> nat \<Rightarrow> expr \<Rightarrow> object_state \<Rightarrow> object_state option" where
  "write_const_general le offset v os =
     (let w = getWidth v
      in if w = 1 then write8_expr offset (create_ZExt v 8) os
         else if w mod 8 \<noteq> 0 then None
         else write_bytes (\<lambda>idx i. write8_expr (offset + idx) (create_Extract v (8 * i) 8)) le (w div 8) os)"

definition write_const :: "bool \<Rightarrow> nat \<Rightarrow> expr \<Rightarrow> object_state \<Rightarrow> object_state option" where
  "write_const le offset v os =
     (case dyn_Constant v of
        Some k \<Rightarrow>
          let w = getBitWidth k; val = rawval k
          in if w \<le> 64 \<and> isPowerOfTwo (of_nat w) then
               (if w = 1 \<or> w = 8 then write8 offset (word_of_int val) os
                else if w = 16 then write16 le offset (word_of_int val) os
                else if w = 32 then write32 le offset (word_of_int val) os
                else if w = 64 then write64 le offset (word_of_int val) os
                else None)
             else write_const_general le offset v os
      | None \<Rightarrow> write_const_general le offset v os)"

definition write_obj :: "bool \<Rightarrow> expr \<Rightarrow> expr \<Rightarrow> object_state \<Rightarrow> object_state option" where
  "write_obj le offset v os =
     (let off = create_ZExt offset 32; w = getWidth v
      in case dyn_Constant off of
           Some k \<Rightarrow> write_const le (nat (rawval k)) v os
         | None \<Rightarrow>
             if w = 1 then write8_symbolic off (create_ZExt v 8) os
             else if w mod 8 \<noteq> 0 then None
             else write_bytes (\<lambda>idx i. write8_symbolic (create_Add off (alloc_Const 32 (int idx)))
                                         (create_Extract v (8 * i) 8)) le (w div 8) os)"

end
