(* ===== verification/ObjectBytes.thy ===== *)
theory ObjectBytes
  imports ObjectState
begin

text \<open>
  What the operations on object states do to the bytes an object stands for: the abstraction
  \<open>obj_byte\<close>, the invariant \<open>obj_ok\<close> (the comment \<open>Cache Invariants\<close> of \<^verbatim>\<open>Memory.cpp\<close>, the shape of
  the data, and that a flushed byte agrees with the update list), and the effect of every step.
\<close>

section \<open>The bytes of an object\<close>

definition base_val :: "env \<Rightarrow> object_state \<Rightarrow> int \<Rightarrow> int" where
  "base_val \<rho> os i = (case root os of None \<Rightarrow> 0 | Some a \<Rightarrow> initial_value \<rho> a i)"

definition contents :: "env \<Rightarrow> object_state \<Rightarrow> nat \<Rightarrow> int" where
  "contents \<rho> os i = upd_val \<rho> (head os) (base_val \<rho> os (int i)) (int i)"

definition obj_byte :: "env \<Rightarrow> object_state \<Rightarrow> nat \<Rightarrow> int" where
  "obj_byte \<rho> os i =
     (if isByteConcrete os i then uint (concreteStore os ! i)
      else case known os i of Some e \<Rightarrow> eval \<rho> e | None \<Rightarrow> contents \<rho> os i)"

section \<open>The invariant\<close>

definition index_in_range :: "nat \<Rightarrow> expr \<times> expr \<Rightarrow> bool" where
  "index_in_range n = (\<lambda>(x, v). case dyn_Constant x of Some k \<Rightarrow> rawval k < int n | None \<Rightarrow> True)"

definition root_ok :: "object_state \<Rightarrow> bool" where
  "root_ok os \<longleftrightarrow>
     (case root os of
        Some a \<Rightarrow> wf_array a \<and> domain_w a = 32 \<and> range_w a = 8
      | None \<Rightarrow> list_all (index_in_range (os_size os)) (oldest_first (head os)))"

definition shape :: "object_state \<Rightarrow> bool" where
  "shape os \<longleftrightarrow>
     os_size os + 31 < 2 ^ 32 \<and> length (concreteStore os) = os_size os \<and>
     pred_option (ba_ok (os_size os)) (concreteMask os) \<and>
     pred_option (ba_ok (os_size os)) (flushMask os) \<and>
     pred_option (\<lambda>ks. length ks = os_size os \<and>
       list_all (pred_option (\<lambda>e. wt e \<and> getWidth e = 8)) ks) (knownSymbolics os) \<and>
     list_all wt_write (oldest_first (head os)) \<and> root_ok os"

definition coherent :: "object_state \<Rightarrow> bool" where
  "coherent os \<longleftrightarrow>
     (\<forall>i < os_size os.
        (isByteKnownSymbolic os i \<longrightarrow> \<not> isByteConcrete os i) \<and>
        (\<not> isByteFlushed os i \<longrightarrow> isByteConcrete os i \<or> isByteKnownSymbolic os i) \<and>
        (isByteFlushed os i \<longrightarrow> (\<forall>\<rho>. obj_byte \<rho> os i = contents \<rho> os i)))"

definition obj_ok :: "object_state \<Rightarrow> bool" where
  "obj_ok os \<longleftrightarrow> shape os \<and> coherent os"

text \<open>Nothing but the representation changes.\<close>

definition same_object :: "object_state \<Rightarrow> object_state \<Rightarrow> bool" where
  "same_object os os' \<longleftrightarrow>
     os_size os' = os_size os \<and> os_object os' = os_object os \<and> readOnly os' = readOnly os \<and>
     copyOnWriteOwner os' = copyOnWriteOwner os"

definition same_bytes :: "object_state \<Rightarrow> object_state \<Rightarrow> bool" where
  "same_bytes os os' \<longleftrightarrow>
     same_object os os' \<and> (\<forall>\<rho>. \<forall>i < os_size os. obj_byte \<rho> os' i = obj_byte \<rho> os i)"

lemma same_refl [simp]: "same_object os os" "same_bytes os os"
  by (simp_all add: same_object_def same_bytes_def)

lemma same_object_trans: "same_object a b \<Longrightarrow> same_object b c \<Longrightarrow> same_object a c"
  by (simp add: same_object_def)

lemma same_bytes_trans: "same_bytes a b \<Longrightarrow> same_bytes b c \<Longrightarrow> same_bytes a c"
  by (auto simp: same_bytes_def same_object_def)

section \<open>Masks\<close>

lemmas mark_defs = markByteConcrete_def markByteSymbolic_def markByteUnflushed_def
  markByteFlushed_def setKnownSymbolic_def

lemma mark_fields [simp]:
  "os_size (markByteConcrete i os) = os_size os" "os_size (markByteSymbolic i os) = os_size os"
  "os_size (markByteUnflushed i os) = os_size os" "os_size (markByteFlushed i os) = os_size os"
  "os_size (setKnownSymbolic i v os) = os_size os"
  "concreteStore (markByteConcrete i os) = concreteStore os" "concreteStore (markByteSymbolic i os) = concreteStore os"
  "concreteStore (markByteUnflushed i os) = concreteStore os" "concreteStore (markByteFlushed i os) = concreteStore os"
  "concreteStore (setKnownSymbolic i v os) = concreteStore os"
  "head (markByteConcrete i os) = head os" "head (markByteSymbolic i os) = head os"
  "head (markByteUnflushed i os) = head os" "head (markByteFlushed i os) = head os"
  "head (setKnownSymbolic i v os) = head os"
  "root (markByteConcrete i os) = root os" "root (markByteSymbolic i os) = root os"
  "root (markByteUnflushed i os) = root os" "root (markByteFlushed i os) = root os"
  "root (setKnownSymbolic i v os) = root os"
  "flushMask (markByteConcrete i os) = flushMask os" "flushMask (markByteSymbolic i os) = flushMask os"
  "flushMask (setKnownSymbolic i v os) = flushMask os"
  "concreteMask (markByteUnflushed i os) = concreteMask os" "concreteMask (markByteFlushed i os) = concreteMask os"
  "concreteMask (setKnownSymbolic i v os) = concreteMask os"
  "knownSymbolics (markByteUnflushed i os) = knownSymbolics os" "knownSymbolics (markByteFlushed i os) = knownSymbolics os"
  "knownSymbolics (markByteConcrete i os) = knownSymbolics os" "knownSymbolics (markByteSymbolic i os) = knownSymbolics os"
  by (simp_all add: mark_defs Let_def split: option.split)

lemma mark_same_object [simp]:
  "same_object os (markByteConcrete i os)" "same_object os (markByteSymbolic i os)"
  "same_object os (markByteUnflushed i os)" "same_object os (markByteFlushed i os)"
  "same_object os (setKnownSymbolic i v os)"
  by (simp_all add: same_object_def mark_defs Let_def split: option.split)

lemma root_ok_cong: "root os' = root os \<Longrightarrow> head os' = head os \<Longrightarrow> os_size os' = os_size os \<Longrightarrow> root_ok os' = root_ok os"
  by (simp add: root_ok_def split: option.split)

lemma shape_mark [simp]:
  assumes "shape os"
  shows "shape (markByteConcrete i os)" "shape (markByteSymbolic i os)"
    "shape (markByteUnflushed i os)" "shape (markByteFlushed i os)"
  using assms ba_ok_new[of "os_size os"]
  by (auto simp: shape_def root_ok_def markByteConcrete_def markByteSymbolic_def markByteUnflushed_def
      markByteFlushed_def Let_def pred_option_def split: option.splits)

lemma shape_known [simp]:
  assumes "shape os" "pred_option (\<lambda>e. wt e \<and> getWidth e = 8) v"
  shows "shape (setKnownSymbolic i v os)"
  using assms
  by (auto simp: shape_def root_ok_def setKnownSymbolic_def list_all_update list_all_replicate
      split: option.splits)

lemma concrete_mark [simp]:
  assumes "shape os" "i < os_size os" "j < os_size os"
  shows "isByteConcrete (markByteConcrete i os) j \<longleftrightarrow> j = i \<or> isByteConcrete os j"
    "isByteConcrete (markByteSymbolic i os) j \<longleftrightarrow> j \<noteq> i \<and> isByteConcrete os j"
  using assms ba_ok_new[of "os_size os" True] ba_get_new[of "os_size os" j True]
  by (auto simp: shape_def isByteConcrete_def markByteConcrete_def markByteSymbolic_def Let_def
      ba_get_set[of "os_size os"] ba_get_unset[of "os_size os"] split: option.splits)

lemma concrete_other [simp]:
  "isByteConcrete (markByteUnflushed i os) j = isByteConcrete os j"
  "isByteConcrete (markByteFlushed i os) j = isByteConcrete os j"
  "isByteConcrete (setKnownSymbolic i v os) j = isByteConcrete os j"
  by (simp_all add: isByteConcrete_def)

lemma flushed_mark [simp]:
  assumes "shape os" "i < os_size os" "j < os_size os"
  shows "isByteFlushed (markByteUnflushed i os) j \<longleftrightarrow> j \<noteq> i \<and> isByteFlushed os j"
  using assms
  by (auto simp: shape_def isByteFlushed_def markByteUnflushed_def ba_get_set[of "os_size os"] split: option.splits)

lemma flushed_other [simp]:
  "isByteFlushed (markByteConcrete i os) j = isByteFlushed os j"
  "isByteFlushed (markByteSymbolic i os) j = isByteFlushed os j"
  "isByteFlushed (setKnownSymbolic i v os) j = isByteFlushed os j"
  by (simp_all add: isByteFlushed_def)

lemma known_set [simp]:
  assumes "shape os" "i < os_size os" "j < os_size os"
  shows "known (setKnownSymbolic i v os) j = (if j = i then v else known os j)"
  using assms
  by (auto simp: shape_def known_def setKnownSymbolic_def nth_list_update split: option.splits)

lemma known_other [simp]:
  "known (markByteConcrete i os) j = known os j" "known (markByteSymbolic i os) j = known os j"
  "known (markByteUnflushed i os) j = known os j" "known (markByteFlushed i os) j = known os j"
  by (simp_all add: known_def)

lemma contents_mark [simp]:
  "contents \<rho> (markByteConcrete i os) j = contents \<rho> os j" "contents \<rho> (markByteSymbolic i os) j = contents \<rho> os j"
  "contents \<rho> (markByteUnflushed i os) j = contents \<rho> os j" "contents \<rho> (markByteFlushed i os) j = contents \<rho> os j"
  "contents \<rho> (setKnownSymbolic i v os) j = contents \<rho> os j"
  by (simp_all add: contents_def base_val_def)

lemma preds_update [simp]:
  "isByteConcrete (os\<lparr>concreteStore := x\<rparr>) j = isByteConcrete os j"
  "isByteConcrete (os\<lparr>head := u\<rparr>) j = isByteConcrete os j"
  "isByteConcrete (os\<lparr>root := r\<rparr>) j = isByteConcrete os j"
  "isByteConcrete (os\<lparr>flushMask := m\<rparr>) j = isByteConcrete os j"
  "isByteFlushed (os\<lparr>concreteStore := x\<rparr>) j = isByteFlushed os j"
  "isByteFlushed (os\<lparr>head := u\<rparr>) j = isByteFlushed os j"
  "isByteFlushed (os\<lparr>root := r\<rparr>) j = isByteFlushed os j"
  "known (os\<lparr>concreteStore := x\<rparr>) j = known os j"
  "known (os\<lparr>head := u\<rparr>) j = known os j"
  "known (os\<lparr>root := r\<rparr>) j = known os j"
  "known (os\<lparr>flushMask := m\<rparr>) j = known os j"
  "contents \<rho> (os\<lparr>concreteStore := x\<rparr>) j = contents \<rho> os j"
  "contents \<rho> (os\<lparr>flushMask := m\<rparr>) j = contents \<rho> os j"
  by (simp_all add: isByteConcrete_def isByteFlushed_def known_def contents_def base_val_def)

lemma known_wt:
  "shape os \<Longrightarrow> i < os_size os \<Longrightarrow> known os i = Some e \<Longrightarrow> wt e \<and> getWidth e = 8"
  by (auto simp: shape_def known_def list_all_length split: option.splits)

text \<open>The bytes and the invariant only depend on what the predicates and the contents say.\<close>

lemma coherentI:
  assumes "\<And>i. i < os_size os \<Longrightarrow> known os i \<noteq> None \<Longrightarrow> \<not> isByteConcrete os i"
    and "\<And>i. i < os_size os \<Longrightarrow> \<not> isByteFlushed os i \<Longrightarrow> isByteConcrete os i \<or> known os i \<noteq> None"
    and "\<And>i \<rho>. i < os_size os \<Longrightarrow> isByteFlushed os i \<Longrightarrow> obj_byte \<rho> os i = contents \<rho> os i"
  shows "coherent os"
  using assms by (auto simp: coherent_def isByteKnownSymbolic_def)

lemma coherentD:
  assumes "coherent os" "i < os_size os"
  shows "known os i \<noteq> None \<Longrightarrow> \<not> isByteConcrete os i"
    and "\<not> isByteFlushed os i \<Longrightarrow> isByteConcrete os i \<or> known os i \<noteq> None"
    and "isByteFlushed os i \<Longrightarrow> obj_byte \<rho> os i = contents \<rho> os i"
  using assms by (auto simp: coherent_def isByteKnownSymbolic_def)

section \<open>Writing one byte at a constant offset\<close>

lemma write8_correct:
  assumes ok: "obj_ok os" and i: "i < os_size os"
  shows "\<exists>os'. write8 i v os = Some os' \<and> obj_ok os' \<and> same_object os os' \<and>
           (\<forall>\<rho>. \<forall>j < os_size os. obj_byte \<rho> os' j = (if j = i then uint v else obj_byte \<rho> os j))"
proof -
  let ?s = "os\<lparr>concreteStore := (concreteStore os)[i := v]\<rparr>"
  let ?k = "setKnownSymbolic i None ?s" and ?c = "markByteConcrete i (setKnownSymbolic i None ?s)"
  define r where "r = markByteUnflushed i ?c"
  have s: "shape ?s" "os_size ?s = os_size os"
    using ok by (auto simp: obj_ok_def shape_def root_ok_def split: option.split)
  then have shapes: "shape ?k" "shape ?c" "shape r"
    by (simp_all add: r_def)
  have preds: "isByteConcrete r j \<longleftrightarrow> j = i \<or> isByteConcrete os j"
      "known r j = (if j = i then None else known os j)"
      "isByteFlushed r j \<longleftrightarrow> j \<noteq> i \<and> isByteFlushed os j"
      "contents \<rho> r j = contents \<rho> os j" "os_size r = os_size os"
      "concreteStore r ! j = (if j = i then v else concreteStore os ! j)" if "j < os_size os" for j \<rho>
    using that i s shapes(1,2) ok by (simp_all add: r_def nth_list_update obj_ok_def shape_def[of os])
  have same: "same_object os r"
    by (simp add: r_def same_object_def mark_defs split: option.split)
  have bytes: "obj_byte \<rho> r j = (if j = i then uint v else obj_byte \<rho> os j)" if "j < os_size os" for j \<rho>
    using preds[OF that] by (cases "j = i") (auto simp: obj_byte_def split: option.split)
  have "coherent r"
  proof (rule coherentI)
    fix j \<rho> assume "j < os_size r"
    then have j: "j < os_size os"
      using same by (simp add: same_object_def)
    note p = preds[OF j] bytes[OF j]
    have c: "coherent os"
      using ok by (simp add: obj_ok_def)
    show "known r j \<noteq> None \<Longrightarrow> \<not> isByteConcrete r j"
      using coherentD(1)[OF c j] by (simp add: p split: if_splits)
    show "\<not> isByteFlushed r j \<Longrightarrow> isByteConcrete r j \<or> known r j \<noteq> None"
      using coherentD(2)[OF c j] by (auto simp: p)
    show "isByteFlushed r j \<Longrightarrow> obj_byte \<rho> r j = contents \<rho> r j"
      using coherentD(3)[OF c j] by (simp add: p)
  qed
  then show ?thesis
    using shapes bytes same i by (auto simp: write8_def obj_ok_def r_def)
qed

section \<open>Flushing\<close>

lemma fits_uint8 [simp]: "fits 8 (uint (w :: 8 word))"
  using uint_lt2p[of w] by (simp add: fits_def)

lemma eval_alloc_Const: "fits w v \<Longrightarrow> eval \<rho> (alloc_Const w v) = v"
  by (simp add: alloc_Const_def apint_of_def take_bit_fits)

lemma wt_alloc_Const [simp]: "wt (alloc_Const w v) \<longleftrightarrow> 0 < w" "getWidth (alloc_Const w v) = w"
  by (simp_all add: alloc_Const_def apint_of_def)

lemma index_fits: "shape os \<Longrightarrow> i < os_size os \<Longrightarrow> fits 32 (int i)"
  by (simp add: shape_def fits_def)

lemma cached_byte_correct:
  assumes "shape os" "i < os_size os" "isByteConcrete os i \<or> known os i \<noteq> None"
  shows "\<exists>e. cached_byte os i = Some e \<and> wt e \<and> getWidth e = 8 \<and> (\<forall>\<rho>. eval \<rho> e = obj_byte \<rho> os i)"
  using assms known_wt[of os i] by (auto simp: cached_byte_def obj_byte_def eval_alloc_Const)

text \<open>Appending a write of a well-typed byte to the update list.\<close>

lemma extend_shape:
  assumes os: "shape os" and x: "wt x" "getWidth x = 32" and v: "wt v" "getWidth v = 8"
    and k: "root os = None \<Longrightarrow> index_in_range (os_size os) (x, v)"
  shows "ul_extend (root os) (head os) x v = Some (UpdateNode x v (head os))"
    and "shape (os\<lparr>head := UpdateNode x v (head os)\<rparr>)"
  using assms
  by (auto simp: shape_def root_ok_def ul_extend_def wt_write_def split: option.splits)

lemma contents_extend:
  "contents \<rho> (os\<lparr>head := UpdateNode x v us\<rparr>) j =
     (if eval \<rho> x = int j then eval \<rho> v else contents \<rho> (os\<lparr>head := us\<rparr>) j)"
  by (simp add: contents_def base_val_def)

lemma flush_mask_head [simp]: "flush_mask (os\<lparr>head := u\<rparr>) = flush_mask os"
  by (simp add: flush_mask_def split: option.split)

lemma flush_mask_init:
  assumes "shape os"
  shows "shape (os\<lparr>flushMask := Some (flush_mask os)\<rparr>)"
    and "i < os_size os \<Longrightarrow> isByteFlushed (os\<lparr>flushMask := Some (flush_mask os)\<rparr>) i = isByteFlushed os i"
  using assms ba_ok_new[of "os_size os" True] ba_get_new[of "os_size os" i True]
  by (auto simp: shape_def root_ok_def flush_mask_def isByteFlushed_def split: option.splits)

lemma flushed_unset:
  assumes "shape os" "i < os_size os" "j < os_size os"
  shows "isByteFlushed (os\<lparr>flushMask := Some (ba_unset (flush_mask os) i)\<rparr>) j \<longleftrightarrow> j = i \<or> isByteFlushed os j"
    and "shape (os\<lparr>flushMask := Some (ba_unset (flush_mask os) i)\<rparr>)"
  using assms ba_ok_new[of "os_size os" True] ba_get_new[of "os_size os" j True]
  by (auto simp: shape_def root_ok_def flush_mask_def isByteFlushed_def ba_get_unset[of "os_size os"]
      split: option.splits)

text \<open>The general step: a state whose predicates are known, and whose flushed bytes agree with the
  update list, satisfies the invariant.\<close>

lemma obj_okI:
  assumes "shape r"
    and "\<And>j. j < os_size r \<Longrightarrow> known r j \<noteq> None \<Longrightarrow> \<not> isByteConcrete r j"
    and "\<And>j. j < os_size r \<Longrightarrow> \<not> isByteFlushed r j \<Longrightarrow> isByteConcrete r j \<or> known r j \<noteq> None"
    and "\<And>j \<rho>. j < os_size r \<Longrightarrow> isByteFlushed r j \<Longrightarrow> obj_byte \<rho> r j = contents \<rho> r j"
  shows "obj_ok r"
  unfolding obj_ok_def by (intro conjI coherentI) (fact assms)+

lemma obj_okD:
  assumes "obj_ok os" "j < os_size os"
  shows "known os j \<noteq> None \<Longrightarrow> \<not> isByteConcrete os j"
    and "\<not> isByteFlushed os j \<Longrightarrow> isByteConcrete os j \<or> known os j \<noteq> None"
    and "isByteFlushed os j \<Longrightarrow> obj_byte \<rho> os j = contents \<rho> os j"
  using assms coherentD[of os j] by (auto simp: obj_ok_def)

lemma flush_mask_init_ok:
  assumes "obj_ok os"
  shows "obj_ok (os\<lparr>flushMask := Some (flush_mask os)\<rparr>)" "same_bytes os (os\<lparr>flushMask := Some (flush_mask os)\<rparr>)"
proof -
  let ?r = "os\<lparr>flushMask := Some (flush_mask os)\<rparr>"
  have s: "shape os" using assms by (simp add: obj_ok_def)
  have b: "obj_byte \<rho> ?r j = obj_byte \<rho> os j" for \<rho> j
    by (simp add: obj_byte_def split: option.split)
  then show "same_bytes os ?r"
    by (simp add: same_bytes_def same_object_def)
  show "obj_ok ?r"
    by (rule obj_okI) (use obj_okD[OF assms] flush_mask_init[OF s] b in \<open>simp_all\<close>)
qed

lemma flushByteForRead_correct:
  assumes ok: "obj_ok os" and i: "i < os_size os"
  shows "\<exists>os'. flushByteForRead i os = Some os' \<and> obj_ok os' \<and> same_bytes os os' \<and>
           (\<forall>j < os_size os. isByteFlushed os' j \<longleftrightarrow> j = i \<or> isByteFlushed os j)"
proof (cases "isByteFlushed os i")
  case True
  with ok show ?thesis by (auto simp: flushByteForRead_def)
next
  case False
  have s: "shape os" using ok by (simp add: obj_ok_def)
  obtain e where e: "cached_byte os i = Some e" "wt e" "getWidth e = 8" "\<And>\<rho>. eval \<rho> e = obj_byte \<rho> os i"
    using cached_byte_correct[OF s i] obj_okD(2)[OF ok i False] by blast
  let ?x = "alloc_Const 32 (int i)" and ?u = "os\<lparr>head := UpdateNode (alloc_Const 32 (int i)) e (head os)\<rparr>"
  have x: "eval \<rho> ?x = int i" for \<rho>
    using index_fits[OF s i] by (rule eval_alloc_Const)
  then have range: "index_in_range (os_size os) (?x, e)"
    using i by (auto simp: index_in_range_def split: option.split)
  note ext = extend_shape[OF s _ _ e(2,3) range, of, simplified]
  define r where "r = ?u\<lparr>flushMask := Some (ba_unset (flush_mask ?u) i)\<rparr>"
  have run: "flushByteForRead i os = Some r"
    using False e(1) ext(1) by (simp add: flushByteForRead_def r_def)
  have u: "shape ?u" "os_size ?u = os_size os"
    using ext(2) by simp_all
  have p: "isByteFlushed r j \<longleftrightarrow> j = i \<or> isByteFlushed os j" "isByteConcrete r j = isByteConcrete os j"
      "known r j = known os j" "contents \<rho> r j = (if j = i then obj_byte \<rho> os i else contents \<rho> os j)"
      "concreteStore r = concreteStore os" if "j < os_size os" for j \<rho>
    using flushed_unset(1)[OF u(1), of i j] that i x e(4)
    by (auto simp: r_def contents_extend)
  have b: "obj_byte \<rho> r j = obj_byte \<rho> os j" if "j < os_size os" for \<rho> j
  proof (cases "j = i")
    case True
    then show ?thesis
      using p[OF that] obj_okD(2)[OF ok i False] by (auto simp: obj_byte_def split: option.split)
  qed (use p[OF that] in \<open>simp add: obj_byte_def split: option.split\<close>)
  have size: "os_size r = os_size os" by (simp add: r_def)
  have "shape r"
    using flushed_unset(2)[OF u(1), of i i] i by (simp add: r_def)
  then have "obj_ok r"
    by (rule obj_okI) (use obj_okD[OF ok] p b size in auto)
  with run p b size show ?thesis
    by (auto simp: same_bytes_def same_object_def r_def)
qed

lemma flushByteForWrite_correct:
  assumes ok: "obj_ok os" and i: "i < os_size os"
  shows "\<exists>os'. flushByteForWrite i os = Some os' \<and> obj_ok os' \<and> same_bytes os os' \<and>
           (\<forall>j < os_size os. (isByteFlushed os' j \<longleftrightarrow> j = i \<or> isByteFlushed os j) \<and>
              (isByteConcrete os' j \<longleftrightarrow> j \<noteq> i \<and> isByteConcrete os j) \<and>
              (known os' j = (if j = i then None else known os j)))"
proof -
  have s: "shape os" using ok by (simp add: obj_ok_def)
  note fld = flushByteForWrite_def
  have result: "\<exists>os'. flushByteForWrite i os = Some os' \<and> shape os' \<and> same_object os os' \<and>
      concreteStore os' = concreteStore os \<and>
      (\<forall>j < os_size os. (isByteFlushed os' j \<longleftrightarrow> j = i \<or> isByteFlushed os j) \<and>
         (isByteConcrete os' j \<longleftrightarrow> j \<noteq> i \<and> isByteConcrete os j) \<and>
         (known os' j = (if j = i then None else known os j)) \<and>
         (\<forall>\<rho>. contents \<rho> os' j = (if j = i then obj_byte \<rho> os i else contents \<rho> os j)))"
  proof (cases "isByteFlushed os i")
    case True
    let ?r = "if isByteConcrete os i then markByteSymbolic i os
              else if isByteKnownSymbolic os i then setKnownSymbolic i None os else os"
    have "flushByteForWrite i os = Some ?r"
      using True by (simp add: fld)
    moreover have "shape ?r" "same_object os ?r" "concreteStore ?r = concreteStore os"
      using s by auto
    moreover have "\<forall>j < os_size os. (isByteFlushed ?r j \<longleftrightarrow> j = i \<or> isByteFlushed os j) \<and>
         (isByteConcrete ?r j \<longleftrightarrow> j \<noteq> i \<and> isByteConcrete os j) \<and>
         (known ?r j = (if j = i then None else known os j)) \<and>
         (\<forall>\<rho>. contents \<rho> ?r j = (if j = i then obj_byte \<rho> os i else contents \<rho> os j))"
      using True s i obj_okD(1)[OF ok i] obj_okD(3)[OF ok i True]
      by (auto simp: isByteKnownSymbolic_def)
    ultimately show ?thesis by blast
  next
    case False
    obtain e where e: "cached_byte os i = Some e" "wt e" "getWidth e = 8" "\<And>\<rho>. eval \<rho> e = obj_byte \<rho> os i"
      using cached_byte_correct[OF s i] obj_okD(2)[OF ok i False] by blast
    let ?x = "alloc_Const 32 (int i)" and ?u = "os\<lparr>head := UpdateNode (alloc_Const 32 (int i)) e (head os)\<rparr>"
    have x: "eval \<rho> ?x = int i" for \<rho>
      using index_fits[OF s i] by (rule eval_alloc_Const)
    then have range: "index_in_range (os_size os) (?x, e)"
      using i by (auto simp: index_in_range_def split: option.split)
    note ext = extend_shape[OF s _ _ e(2,3) range, of, simplified]
    define m where "m = (if isByteConcrete os i then markByteSymbolic i ?u else setKnownSymbolic i None ?u)"
    define r where "r = m\<lparr>flushMask := Some (ba_unset (flush_mask m) i)\<rparr>"
    have run: "flushByteForWrite i os = Some r"
      using False e(1) ext(1) by (simp add: fld r_def m_def Let_def)
    have m: "shape m" "os_size m = os_size os" "concreteStore m = concreteStore os"
      using ext(2) by (simp_all add: m_def)
    have "same_object os m"
      by (simp add: m_def same_object_def mark_defs Let_def split: option.split)
    note m = m this
    have k: "isByteConcrete os i \<Longrightarrow> known os i = None"
      using obj_okD(1)[OF ok i] by blast
    have mp: "isByteFlushed m j = isByteFlushed os j" "isByteConcrete m j \<longleftrightarrow> j \<noteq> i \<and> isByteConcrete os j"
        "known m j = (if j = i then None else known os j)"
        "contents \<rho> m j = (if j = i then obj_byte \<rho> os i else contents \<rho> os j)" if "j < os_size os" for j \<rho>
      using that i ext(2) x e(4) k
      by (auto simp: m_def contents_extend)
    have "shape r" "same_object os r" "concreteStore r = concreteStore os"
      using flushed_unset(2)[OF m(1), of i i] i m by (auto simp: r_def same_object_def)
    moreover have "isByteFlushed r j \<longleftrightarrow> j = i \<or> isByteFlushed os j" if "j < os_size os" for j
      using flushed_unset(1)[OF m(1), of i j] that i m(2) mp(1)[OF that] by (simp add: r_def)
    ultimately show ?thesis
      using run mp by (auto simp: r_def)
  qed
  then obtain r where r: "flushByteForWrite i os = Some r" "shape r" "same_object os r"
      "concreteStore r = concreteStore os"
    and p: "\<And>j. j < os_size os \<Longrightarrow> (isByteFlushed r j \<longleftrightarrow> j = i \<or> isByteFlushed os j)"
      "\<And>j. j < os_size os \<Longrightarrow> (isByteConcrete r j \<longleftrightarrow> j \<noteq> i \<and> isByteConcrete os j)"
      "\<And>j. j < os_size os \<Longrightarrow> known r j = (if j = i then None else known os j)"
      "\<And>j \<rho>. j < os_size os \<Longrightarrow> contents \<rho> r j = (if j = i then obj_byte \<rho> os i else contents \<rho> os j)"
    by blast
  have size: "os_size r = os_size os"
    using r(3) by (simp add: same_object_def)
  have b: "obj_byte \<rho> r j = obj_byte \<rho> os j" if "j < os_size os" for \<rho> j
    using p[OF that] r(4) by (cases "j = i") (auto simp: obj_byte_def split: option.split)
  have "obj_ok r"
    by (rule obj_okI[OF r(2)]) (use obj_okD[OF ok] p b size in \<open>auto split: if_splits\<close>)
  with r p b show ?thesis
    by (auto simp: same_bytes_def)
qed

text \<open>The loops over all bytes.\<close>

lemma for_offsets_append:
  "for_offsets f (xs @ ys) os = (case for_offsets f xs os of None \<Rightarrow> None | Some os' \<Rightarrow> for_offsets f ys os')"
  by (induction f xs os rule: for_offsets.induct) (auto split: option.split)

lemma flushRangeForRead_correct:
  assumes ok: "obj_ok os"
  shows "\<exists>os'. flushRangeForRead 0 (os_size os) os = Some os' \<and> obj_ok os' \<and> same_bytes os os' \<and>
           (\<forall>j < os_size os. isByteFlushed os' j)"
proof -
  let ?o = "os\<lparr>flushMask := Some (flush_mask os)\<rparr>"
  have o: "obj_ok ?o" "same_bytes os ?o"
    using flush_mask_init_ok[OF ok] by auto
  have "\<exists>os'. for_offsets flushByteForRead [0..<n] ?o = Some os' \<and> obj_ok os' \<and> same_bytes os os' \<and>
      (\<forall>j < n. isByteFlushed os' j)" if "n \<le> os_size os" for n
    using that
  proof (induction n)
    case (Suc n)
    then obtain os' where os': "for_offsets flushByteForRead [0..<n] ?o = Some os'" "obj_ok os'"
        "same_bytes os os'" "\<forall>j < n. isByteFlushed os' j"
      by auto
    have "os_size os' = os_size os"
      using os'(3) by (simp add: same_bytes_def same_object_def)
    with flushByteForRead_correct[OF os'(2), of n] Suc.prems obtain r where
      r: "flushByteForRead n os' = Some r" "obj_ok r" "same_bytes os' r"
        "\<forall>j < os_size os. isByteFlushed r j \<longleftrightarrow> j = n \<or> isByteFlushed os' j"
      by auto
    with os' Suc.prems same_bytes_trans[OF os'(3) r(3)] show ?case
      by (auto simp: for_offsets_append less_Suc_eq)
  qed (use o in simp)
  then show ?thesis
    by (simp add: flushRangeForRead_def)
qed

lemma flushRangeForWrite_correct:
  assumes ok: "obj_ok os"
  shows "\<exists>os'. flushRangeForWrite 0 (os_size os) os = Some os' \<and> obj_ok os' \<and> same_bytes os os' \<and>
           (\<forall>j < os_size os. isByteFlushed os' j \<and> \<not> isByteConcrete os' j \<and> known os' j = None)"
proof -
  let ?o = "os\<lparr>flushMask := Some (flush_mask os)\<rparr>"
  have o: "obj_ok ?o" "same_bytes os ?o"
    using flush_mask_init_ok[OF ok] by auto
  have "\<exists>os'. for_offsets flushByteForWrite [0..<n] ?o = Some os' \<and> obj_ok os' \<and> same_bytes os os' \<and>
      (\<forall>j < n. isByteFlushed os' j \<and> \<not> isByteConcrete os' j \<and> known os' j = None)" if "n \<le> os_size os" for n
    using that
  proof (induction n)
    case (Suc n)
    then obtain os' where os': "for_offsets flushByteForWrite [0..<n] ?o = Some os'" "obj_ok os'"
        "same_bytes os os'" "\<forall>j < n. isByteFlushed os' j \<and> \<not> isByteConcrete os' j \<and> known os' j = None"
      by auto
    have "os_size os' = os_size os"
      using os'(3) by (simp add: same_bytes_def same_object_def)
    with flushByteForWrite_correct[OF os'(2), of n] Suc.prems obtain r where
      r: "flushByteForWrite n os' = Some r" "obj_ok r" "same_bytes os' r"
        "\<forall>j < os_size os. (isByteFlushed r j \<longleftrightarrow> j = n \<or> isByteFlushed os' j) \<and>
           (isByteConcrete r j \<longleftrightarrow> j \<noteq> n \<and> isByteConcrete os' j) \<and>
           (known r j = (if j = n then None else known os' j))"
      by auto
    with os' Suc.prems same_bytes_trans[OF os'(3) r(3)] show ?case
      by (auto simp: for_offsets_append less_Suc_eq)
  qed (use o in simp)
  then show ?thesis
    by (simp add: flushRangeForWrite_def)
qed

section \<open>Materialising the constant array\<close>

definition push_fold :: "env \<Rightarrow> int \<Rightarrow> (expr \<times> expr) list \<Rightarrow> int \<Rightarrow> int" where
  "push_fold \<rho> i ws b = fold (write_val \<rho> i) ws b"

lemma push_writes_correct:
  assumes "list_all wt_write ws" "list_all (index_in_range (length cs)) ws" "list_all (fits 8) cs"
  shows "\<exists>cs' rest. push_writes cs ws = Some (cs', rest) \<and> length cs' = length cs \<and>
           list_all (fits 8) cs' \<and> list_all wt_write rest \<and>
           (\<forall>\<rho>. \<forall>i < length cs. push_fold \<rho> (int i) ws (cs ! i) = push_fold \<rho> (int i) rest (cs' ! i))"
  using assms
proof (induction cs ws rule: push_writes.induct)
  case (2 cs x v ws)
  show ?case
  proof (cases "\<exists>cx cv. x = ConstantExpr cx \<and> v = ConstantExpr cv")
    case True
    then obtain cx cv where c: "x = ConstantExpr cx" "v = ConstantExpr cv" by blast
    then have cv: "fits 8 (rawval cv)" and cx: "0 \<le> rawval cx" "rawval cx < int (length cs)"
      using 2 by (auto simp: wt_write_def index_in_range_def dest: fits_nonneg)
    let ?cs = "cs[nat (rawval cx) := rawval cv]"
    have "list_all (fits 8) ?cs"
      using 2(4) cv by (simp add: list_all_update)
    moreover have "dyn_Constant x = Some cx" "dyn_Constant v = Some cv"
      "list_all wt_write ws" "list_all (index_in_range (length ?cs)) ws"
      using 2(2,3) c by simp_all
    ultimately have "\<exists>cs' rest. push_writes ?cs ws = Some (cs', rest) \<and> length cs' = length ?cs \<and>
           list_all (fits 8) cs' \<and> list_all wt_write rest \<and>
           (\<forall>\<rho>. \<forall>i < length ?cs. push_fold \<rho> (int i) ws (?cs ! i) = push_fold \<rho> (int i) rest (cs' ! i))"
      using "2.IH"[of cx cv] cx by blast
    then obtain cs' rest where r: "push_writes ?cs ws = Some (cs', rest)" "length cs' = length cs"
        "list_all (fits 8) cs'" "list_all wt_write rest"
        "\<forall>\<rho>. \<forall>i < length cs. push_fold \<rho> (int i) ws (?cs ! i) = push_fold \<rho> (int i) rest (cs' ! i)"
      by (simp only: length_list_update) blast
    have "push_fold \<rho> (int i) ((x, v) # ws) (cs ! i) = push_fold \<rho> (int i) ws (?cs ! i)" if "i < length cs" for \<rho> i
      using that c cx by (auto simp: push_fold_def write_val_def nth_list_update)
    with r c cx show ?thesis by auto
  next
    case False
    then have "push_writes cs ((x, v) # ws) = Some (cs, (x, v) # ws)"
      by (auto split: option.split)
    with 2 show ?thesis by simp
  qed
qed simp

text \<open>A cache never hands out a constant array with other contents than asked for.\<close>

lemma CreateArray_constant:
  assumes "vals \<noteq> []" "length vals = n"
  shows "\<exists>a c'. CreateArray nm n vals dw rw c = Some (a, c') \<and> constantValues a = vals \<and>
           arr_size a = n \<and> domain_w a = dw \<and> range_w a = rw"
  using assms by (simp add: CreateArray_def new_Array_def isSymbolicArray_def Let_def)

lemma getUpdates_correct:
  assumes ok: "obj_ok os" and size: "0 < os_size os"
  shows "\<exists>c' os' a. getUpdates c os = Some (c', os') \<and> root os' = Some a \<and> obj_ok os' \<and> same_bytes os os' \<and>
           (\<forall>\<rho>. \<forall>i < os_size os. contents \<rho> os' i = contents \<rho> os i) \<and>
           (\<forall>i. isByteFlushed os' i = isByteFlushed os i)"
proof (cases "root os")
  case (Some a)
  with ok show ?thesis by (auto simp: getUpdates_def)
next
  case None
  have s: "shape os" using ok by (simp add: obj_ok_def)
  let ?ws = "oldest_first (head os)" and ?z = "replicate (os_size os) (0 :: int)"
  have "list_all wt_write ?ws" "list_all (index_in_range (length ?z)) ?ws" "list_all (fits 8) ?z"
    using s None by (auto simp: shape_def root_ok_def list_all_replicate)
  from push_writes_correct[OF this] obtain cs rest where
    p: "push_writes ?z ?ws = Some (cs, rest)" "length cs = os_size os" "list_all (fits 8) cs" "list_all wt_write rest"
      "\<And>\<rho> i. i < os_size os \<Longrightarrow> push_fold \<rho> (int i) ?ws 0 = push_fold \<rho> (int i) rest (cs ! i)"
    by auto
  obtain a c' where
    a: "CreateArray (''const_arr'' @ utostr (const_id c + 1)) (os_size os) cs 32 8 (cache c) = Some (a, c')"
      "constantValues a = cs" "arr_size a = os_size os" "domain_w a = 32" "range_w a = 8"
    using CreateArray_constant[of cs "os_size os"] p(2) size by (metis list.size(3) less_irrefl)
  obtain us where us: "extend_all (Some a) NoUpdate rest = Some us"
    using extend_all_Some[of "Some a" rest NoUpdate] a p(4) by auto
  then have oldest: "oldest_first us = rest"
    using extend_all_oldest by fastforce
  let ?r = "os\<lparr>root := Some a, head := us\<rparr>"
  have run: "getUpdates c os = Some (\<lparr>cache = c', const_id = const_id c + 1\<rparr>, ?r)"
    using None p(1) a(1) us by (simp add: getUpdates_def)
  have base: "base_val \<rho> ?r (int i) = cs ! i" if "i < os_size os" for \<rho> i
    using that a p(2) size by (auto simp: base_val_def initial_value_def isConstantArray_def isSymbolicArray_def)
  have contents: "contents \<rho> ?r i = contents \<rho> os i" if "i < os_size os" for \<rho> i
    using p(5)[OF that, of \<rho>] base[OF that, of \<rho>] None
    by (simp add: contents_def upd_val_def push_fold_def oldest base_val_def[of \<rho> os])
  have preds: "isByteConcrete ?r i = isByteConcrete os i" "isByteFlushed ?r i = isByteFlushed os i"
      "known ?r i = known os i" for i
    by (simp_all add: isByteConcrete_def isByteFlushed_def known_def)
  have bytes: "obj_byte \<rho> ?r i = obj_byte \<rho> os i" if "i < os_size os" for \<rho> i
    using contents[OF that] preds by (simp add: obj_byte_def split: option.split)
  have "shape ?r"
    using s a p oldest by (auto simp: shape_def root_ok_def wf_array_def isSymbolicArray_def)
  then have "obj_ok ?r"
    by (rule obj_okI) (use obj_okD[OF ok] preds bytes contents in auto)
  with run contents preds bytes show ?thesis
    by (auto simp: same_bytes_def same_object_def)
qed

end
