(* ===== verification/ObjectRefine.thy ===== *)
theory ObjectRefine
  imports ObjectBytes
begin

text \<open>
  Object states refine arrays of bytes: reads and writes of any width, at constant and at symbolic
  offsets, in both byte orders, are loads from and stores to the bytes of \<open>obj_byte\<close>.
\<close>

section \<open>Bytes\<close>

lemma root_wt:
  "shape os \<Longrightarrow> root os = Some a \<Longrightarrow> wf_array a \<and> domain_w a = 32 \<and> range_w a = 8 \<and> wt_updates a (head os)"
  by (auto simp: shape_def root_ok_def wt_updates_oldest)

lemma create_Read_contents:
  assumes "shape os" "root os = Some a" "wt x" "getWidth x = 32"
  shows "wt (create_Read_value a (head os) x) \<and> getWidth (create_Read_value a (head os) x) = 8 \<and>
         eval \<rho> (create_Read_value a (head os) x) = contents \<rho> os (nat (eval \<rho> x))"
proof -
  have "wt (ReadExpr a (head os) x)" "range_w a = 8"
    using root_wt[OF assms(1,2)] assms(3,4) by simp_all
  with simplifiesD[OF simplifies_create_Read_value, of a "head os" x] show ?thesis
    using assms by (simp add: contents_def base_val_def read_updates_upd_val)
qed

text \<open>The result of a byte read: the expression denotes \<open>f \<rho>\<close> and only the representation changes.\<close>

definition yields :: "object_state \<Rightarrow> (expr \<times> exec_context \<times> object_state) option \<Rightarrow> nat \<Rightarrow> (env \<Rightarrow> int \<Rightarrow> bool) \<Rightarrow> bool" where
  "yields os r w P \<longleftrightarrow>
     (\<exists>e c' os'. r = Some (e, c', os') \<and> wt e \<and> getWidth e = w \<and> obj_ok os' \<and> same_bytes os os' \<and>
        (\<forall>\<rho>. P \<rho> (eval \<rho> e)))"

lemma read8_correct:
  assumes ok: "obj_ok os" and i: "i < os_size os"
  shows "yields os (read8 i (c, os)) 8 (\<lambda>\<rho> v. v = obj_byte \<rho> os i)"
proof -
  have s: "shape os" using ok by (simp add: obj_ok_def)
  consider "isByteConcrete os i" | e where "\<not> isByteConcrete os i" "known os i = Some e"
    | "\<not> isByteConcrete os i" "known os i = None" "isByteFlushed os i"
    using obj_okD(2)[OF ok i] by (cases "known os i") auto
  then show ?thesis
  proof cases
    case 1
    with i ok show ?thesis
      by (simp add: yields_def read8_def obj_byte_def eval_alloc_Const)
  next
    case 2
    with i ok known_wt[OF s i] show ?thesis
      by (simp add: yields_def read8_def obj_byte_def)
  next
    case 3
    obtain c' os' a where g: "getUpdates c os = Some (c', os')" "root os' = Some a" "obj_ok os'" "same_bytes os os'"
        "\<forall>\<rho>. \<forall>i < os_size os. contents \<rho> os' i = contents \<rho> os i"
      using getUpdates_correct[OF ok, of c] i by auto
    have "eval \<rho> (alloc_Const 32 (int i)) = int i" for \<rho>
      using index_fits[OF s i] by (rule eval_alloc_Const)
    with create_Read_contents[of os' a "alloc_Const 32 (int i)"] g 3 i show ?thesis
      by (simp add: yields_def read8_def obj_ok_def obj_byte_def)
  qed
qed

lemma read8_symbolic_correct:
  assumes ok: "obj_ok os" and off: "wt off" "getWidth off = 32" "\<not> isConstantExpr off" and size: "0 < os_size os"
  shows "yields os (read8_symbolic off (c, os)) 8
    (\<lambda>\<rho> v. eval \<rho> off < int (os_size os) \<longrightarrow> v = obj_byte \<rho> os (nat (eval \<rho> off)))"
proof -
  obtain r where r: "flushRangeForRead 0 (os_size os) os = Some r" "obj_ok r" "same_bytes os r"
      "\<forall>j < os_size os. isByteFlushed r j"
    using flushRangeForRead_correct[OF ok] by blast
  have rs: "os_size r = os_size os"
    using r(3) by (simp add: same_bytes_def same_object_def)
  obtain c' os' a where g: "getUpdates c r = Some (c', os')" "root os' = Some a" "obj_ok os'" "same_bytes r os'"
      "\<forall>\<rho>. \<forall>i < os_size r. contents \<rho> os' i = contents \<rho> r i"
    using getUpdates_correct[OF r(2), of c] size rs by auto
  have "contents \<rho> os' i = obj_byte \<rho> os i" if "i < os_size os" for \<rho> i
    using g(5) r(3,4) obj_okD(3)[OF r(2)] that rs by (simp add: same_bytes_def)
  moreover have "create_ZExt off 32 = off"
    using off(2) by (simp add: create_ZExt_def)
  moreover have "0 \<le> eval \<rho> off" for \<rho>
    using off(1) by simp
  ultimately show ?thesis
    using create_Read_contents[of os' a off] g off r same_bytes_trans[OF r(3) g(4)]
    by (simp add: yields_def read8_symbolic_def obj_ok_def fastRangeCheckOffset_def nat_less_iff)
qed

text \<open>The result of a byte write.\<close>

definition stores :: "object_state \<Rightarrow> object_state option \<Rightarrow> (env \<Rightarrow> nat \<Rightarrow> int option) \<Rightarrow> bool" where
  "stores os r f \<longleftrightarrow>
     (\<exists>os'. r = Some os' \<and> obj_ok os' \<and> same_object os os' \<and>
        (\<forall>\<rho>. \<forall>j < os_size os. obj_byte \<rho> os' j = (case f \<rho> j of Some v \<Rightarrow> v | None \<Rightarrow> obj_byte \<rho> os j)))"

lemma write8_stores:
  "obj_ok os \<Longrightarrow> i < os_size os \<Longrightarrow> stores os (write8 i v os) (\<lambda>\<rho> j. if j = i then Some (uint v) else None)"
  using write8_correct[of os i v] by (auto simp: stores_def)

lemma write8_expr_stores:
  assumes ok: "obj_ok os" and i: "i < os_size os" and v: "wt v" "getWidth v = 8"
  shows "stores os (write8_expr i v os) (\<lambda>\<rho> j. if j = i then Some (eval \<rho> v) else None)"
proof (cases "dyn_Constant v")
  case (Some k)
  then have "uint (word_of_int (rawval k) :: 8 word) = rawval k"
    using v by (simp add: take_bit_fits uint_word_of_int_eq)
  with Some v write8_stores[OF ok i, of "word_of_int (rawval k)"] show ?thesis
    by (simp add: write8_expr_def cong: if_cong)
next
  case None
  let ?k = "setKnownSymbolic i (Some v) os"
  define r where "r = markByteUnflushed i (markByteSymbolic i ?k)"
  have s: "shape os" using ok by (simp add: obj_ok_def)
  then have shapes: "shape ?k" "shape (markByteSymbolic i ?k)" "shape r"
    using v by (simp_all add: r_def)
  have p: "isByteConcrete r j \<longleftrightarrow> j \<noteq> i \<and> isByteConcrete os j"
      "known r j = (if j = i then Some v else known os j)"
      "isByteFlushed r j \<longleftrightarrow> j \<noteq> i \<and> isByteFlushed os j"
      "contents \<rho> r j = contents \<rho> os j" "concreteStore r = concreteStore os" if "j < os_size os" for j \<rho>
    using that i s shapes(1,2) by (simp_all add: r_def)
  have same: "same_object os r"
    by (simp add: r_def same_object_def mark_defs Let_def split: option.split)
  have b: "obj_byte \<rho> r j = (if j = i then eval \<rho> v else obj_byte \<rho> os j)" if "j < os_size os" for j \<rho>
    using p[OF that] by (cases "j = i") (auto simp: obj_byte_def split: option.split)
  have size: "os_size r = os_size os" by (simp add: r_def)
  have "obj_ok r"
    by (rule obj_okI[OF shapes(3)]) (use obj_okD[OF ok] p b size in \<open>auto split: if_splits\<close>)
  with None i same b show ?thesis
    by (auto simp: stores_def write8_expr_def r_def)
qed

lemma write8_symbolic_stores:
  assumes ok: "obj_ok os" and off: "wt off" "getWidth off = 32" "\<not> isConstantExpr off"
    and v: "wt v" "getWidth v = 8"
  shows "stores os (write8_symbolic off v os) (\<lambda>\<rho> j. if eval \<rho> off = int j then Some (eval \<rho> v) else None)"
proof -
  obtain w where w: "flushRangeForWrite 0 (os_size os) os = Some w" "obj_ok w" "same_bytes os w"
      "\<forall>j < os_size os. isByteFlushed w j \<and> \<not> isByteConcrete w j \<and> known w j = None"
    using flushRangeForWrite_correct[OF ok] by blast
  have size: "os_size w = os_size os"
    using w(3) by (simp add: same_bytes_def same_object_def)
  have s: "shape w" using w(2) by (simp add: obj_ok_def)
  let ?r = "w\<lparr>head := UpdateNode off v (head w)\<rparr>"
  have range: "index_in_range (os_size w) (off, v)"
    using off(3) by (auto simp: index_in_range_def split: option.split)
  note ext = extend_shape[OF s off(1,2) v range]
  have "create_ZExt off 32 = off"
    using off(2) by (simp add: create_ZExt_def)
  with w(1) off(3) ext(1) have run: "write8_symbolic off v os = Some ?r"
    by (simp add: write8_symbolic_def fastRangeCheckOffset_def)
  have wb: "obj_byte \<rho> os j = contents \<rho> w j" if "j < os_size os" for \<rho> j
    using w(3,4) obj_okD(3)[OF w(2)] that size by (simp add: same_bytes_def)
  have rb: "obj_byte \<rho> ?r j = contents \<rho> ?r j" if "j < os_size os" for \<rho> j
    using w(4) that by (simp add: obj_byte_def)
  have "obj_ok ?r"
    by (rule obj_okI[OF ext(2)[of, simplified]]) (use w(4) rb size in auto)
  moreover have "same_object os ?r"
    using w(3) by (simp add: same_bytes_def same_object_def)
  ultimately show ?thesis
    using run rb wb by (simp add: stores_def contents_extend)
qed

section \<open>Values of several bytes\<close>

text \<open>The bytes of a number, and the loads and stores of an array of bytes.\<close>

definition byte_of :: "int \<Rightarrow> nat \<Rightarrow> int" where
  "byte_of v i = take_bit 8 (drop_bit (8 * i) v)"

definition load_bytes :: "bool \<Rightarrow> nat \<Rightarrow> (nat \<Rightarrow> int) \<Rightarrow> nat \<Rightarrow> int" where
  "load_bytes le n f a = (\<Sum>i<n. f (a + byte_index le n i) * 256 ^ i)"

definition store_bytes :: "bool \<Rightarrow> nat \<Rightarrow> int \<Rightarrow> nat \<Rightarrow> (nat \<Rightarrow> int) \<Rightarrow> nat \<Rightarrow> int" where
  "store_bytes le n v a f j = (if a \<le> j \<and> j < a + n then byte_of v (byte_index le n (j - a)) else f j)"

definition bytes_of_width :: "nat \<Rightarrow> nat" where
  "bytes_of_width w = (if w = 1 then 1 else w div 8)"

lemma byte_index_less [simp]: "i < n \<Longrightarrow> byte_index le n i < n"
  by (auto simp: byte_index_def)

lemma byte_index_involution [simp]: "i < n \<Longrightarrow> byte_index le n (byte_index le n i) = i"
  by (auto simp: byte_index_def)

lemma sum_byte_of: "0 \<le> v \<Longrightarrow> v < 256 ^ n \<Longrightarrow> (\<Sum>i<n. byte_of v i * 256 ^ i) = v"
proof (induction n arbitrary: v)
  case (Suc n)
  have "byte_of v (Suc i) = byte_of (v div 256) i" for i
    by (simp add: byte_of_def drop_bit_eq_div power_add zdiv_zmult2_eq)
  moreover have "(\<Sum>i<n. byte_of (v div 256) i * 256 ^ i) = v div 256"
    using Suc.prems by (intro Suc.IH) (auto simp: div_less_iff_less_mult mult.commute)
  moreover have "byte_of v 0 = v mod 256"
    by (simp add: byte_of_def take_bit_eq_mod)
  ultimately have "(\<Sum>i<Suc n. byte_of v i * 256 ^ i) = v mod 256 + 256 * (v div 256)"
    by (simp add: sum.lessThan_Suc_shift mult.assoc mult.left_commute[of _ 256] del: sum.lessThan_Suc
        flip: sum_distrib_left)
  then show ?case by simp
qed simp

text \<open>A load after a store of the same width at the same place gives the value back.\<close>

lemma load_store:
  assumes "0 \<le> v" "v < 256 ^ n"
  shows "load_bytes le n (store_bytes le n v a f) a = v"
proof -
  have "store_bytes le n v a f (a + byte_index le n i) = byte_of v i" if "i < n" for i
    using that by (simp add: store_bytes_def)
  then have "load_bytes le n (store_bytes le n v a f) a = (\<Sum>i<n. byte_of v i * 256 ^ i)"
    by (simp add: load_bytes_def)
  with sum_byte_of[OF assms] show ?thesis by simp
qed

lemma load_cong: "(\<And>i. i < n \<Longrightarrow> f (a + i) = g (a + i)) \<Longrightarrow> load_bytes le n f a = load_bytes le n g a"
  by (simp add: load_bytes_def)

section \<open>Reading\<close>

text \<open>A byte reader and what its bytes are, under an environment at hand.\<close>

definition reads_byte :: "(nat \<Rightarrow> exec_context \<times> object_state \<Rightarrow> (expr \<times> exec_context \<times> object_state) option) \<Rightarrow>
    nat \<Rightarrow> object_state \<Rightarrow> (env \<Rightarrow> bool) \<Rightarrow> (env \<Rightarrow> nat \<Rightarrow> int) \<Rightarrow> bool" where
  "reads_byte rd n os P f \<longleftrightarrow>
     (\<forall>i < n. \<forall>c os'. obj_ok os' \<longrightarrow> same_bytes os os' \<longrightarrow>
        yields os' (rd i (c, os')) 8 (\<lambda>\<rho> v. P \<rho> \<longrightarrow> v = f \<rho> i))"

lemma reads_byteD:
  assumes "reads_byte rd n os P f" "i < n" "obj_ok os'" "same_bytes os os'"
  obtains e c' r where "rd i (c, os') = Some (e, c', r)" "wt e" "getWidth e = 8" "obj_ok r"
    "same_bytes os r" "\<And>\<rho>. P \<rho> \<Longrightarrow> eval \<rho> e = f \<rho> i"
  using assms same_bytes_trans[OF assms(4)] unfolding reads_byte_def yields_def by blast

lemma eval_create_Concat:
  assumes "wt a" "wt b"
  shows "wt (create_Concat a b)" "getWidth (create_Concat a b) = getWidth a + getWidth b"
    "eval \<rho> (create_Concat a b) = eval \<rho> a * 2 ^ getWidth b + eval \<rho> b"
  using simplifiesD[OF simplifies_create_Concat[of a b]] assms push_or_add[OF fits_eval[OF assms(2) refl]]
  by simp_all

lemma read_loop_append:
  "read_loop rd (xs @ ys) res s =
     (case read_loop rd xs res s of None \<Rightarrow> None | Some (r, s') \<Rightarrow> read_loop rd ys r s')"
  by (induction rd xs res s rule: read_loop.induct) (auto split: option.split)

lemma read_loop_correct:
  assumes rd: "reads_byte rd N os P f" and ok: "obj_ok os"
  shows "n \<le> N \<Longrightarrow> \<exists>res c' os'. read_loop rd [0..<n] None (c, os) = Some (res, c', os') \<and> obj_ok os' \<and>
           same_bytes os os' \<and>
           (case res of
              None \<Rightarrow> n = 0
            | Some e \<Rightarrow> 0 < n \<and> wt e \<and> getWidth e = 8 * n \<and>
                (\<forall>\<rho>. P \<rho> \<longrightarrow> eval \<rho> e = (\<Sum>i<n. f \<rho> i * 256 ^ i)))"
proof (induction n)
  case (Suc n)
  then obtain res c' os' where l: "read_loop rd [0..<n] None (c, os) = Some (res, c', os')" "obj_ok os'"
      "same_bytes os os'"
      "case res of
              None \<Rightarrow> n = 0
            | Some e \<Rightarrow> 0 < n \<and> wt e \<and> getWidth e = 8 * n \<and>
                (\<forall>\<rho>. P \<rho> \<longrightarrow> eval \<rho> e = (\<Sum>i<n. f \<rho> i * 256 ^ i))"
    by auto
  obtain b c'' r where b: "rd n (c', os') = Some (b, c'', r)" "wt b" "getWidth b = 8" "obj_ok r"
      "same_bytes os r" "\<And>\<rho>. P \<rho> \<Longrightarrow> eval \<rho> b = f \<rho> n"
    using reads_byteD[OF rd _ l(2,3), of n c'] Suc.prems by auto
  show ?case
  proof (cases res)
    case None
    with l b show ?thesis by (simp add: read_loop_append)
  next
    case (Some e)
    with l(4) b(2) have "wt (create_Concat b e)" "getWidth (create_Concat b e) = 8 * Suc n"
        "\<And>\<rho>. P \<rho> \<Longrightarrow> eval \<rho> (create_Concat b e) = (\<Sum>i<Suc n. f \<rho> i * 256 ^ i)"
      using b(3,6) by (auto simp: eval_create_Concat power_mult)
    with Some l(1) b show ?thesis by (simp add: read_loop_append)
  qed
qed (use ok in simp)

lemma eval_Bool_extract:
  assumes "wt b" "getWidth b = 8"
  shows "wt (create_Extract b 0 1)" "getWidth (create_Extract b 0 1) = 1"
    "eval \<rho> (create_Extract b 0 1) = eval \<rho> b mod 2"
  using simplifiesD[OF simplifies_create_Extract[of b 0 1]] assms by (simp_all add: take_bit_eq_mod)

lemma read_bytes_correct:
  assumes rd: "reads_byte rd (bytes_of_width w) os P (\<lambda>\<rho> i. B \<rho> (a \<rho> + i))" and ok: "obj_ok os"
    and w: "w = 1 \<or> (w mod 8 = 0 \<and> 0 < w)"
  shows "yields os (read_bytes rd le w (c, os)) w
    (\<lambda>\<rho> v. P \<rho> \<longrightarrow> v = load_bytes le (bytes_of_width w) (B \<rho>) (a \<rho>) mod 2 ^ w)"
proof (cases "w = 1")
  case True
  obtain b c' r where "rd 0 (c, os) = Some (b, c', r)" "wt b" "getWidth b = 8" "obj_ok r"
      "same_bytes os r" "\<And>\<rho>. P \<rho> \<Longrightarrow> eval \<rho> b = B \<rho> (a \<rho> + 0)"
    using reads_byteD[OF rd _ ok, of 0 c] True by (auto simp: bytes_of_width_def)
  with True eval_Bool_extract[of b] show ?thesis
    by (auto simp: read_bytes_def yields_def load_bytes_def bytes_of_width_def byte_index_def)
next
  case False
  let ?n = "w div 8"
  have n: "bytes_of_width w = ?n" "w = 8 * ?n" "0 < ?n"
    using False w by (auto simp: bytes_of_width_def)
  have "reads_byte (\<lambda>i. rd (byte_index le ?n i)) ?n os P (\<lambda>\<rho> i. B \<rho> (a \<rho> + byte_index le ?n i))"
    using rd byte_index_less n(1) unfolding reads_byte_def by simp
  from read_loop_correct[OF this ok, of ?n c] n(3) obtain e c' r where
    e: "read_loop (\<lambda>i. rd (byte_index le ?n i)) [0..<?n] None (c, os) = Some (Some e, c', r)" "obj_ok r" "same_bytes os r"
      "wt e" "getWidth e = 8 * ?n" "\<And>\<rho>. P \<rho> \<Longrightarrow> eval \<rho> e = load_bytes le ?n (B \<rho>) (a \<rho>)"
    by (auto simp: load_bytes_def split: option.splits)
  have "eval \<rho> e mod 2 ^ w = eval \<rho> e" for \<rho>
    using fits_eval[OF e(4,5)] n(2)[symmetric] by (simp add: fits_def)
  then have "P \<rho> \<longrightarrow> eval \<rho> e = load_bytes le ?n (B \<rho>) (a \<rho>) mod 2 ^ w" for \<rho>
    using e(6)[of \<rho>] by metis
  then show ?thesis
    unfolding yields_def read_bytes_def n(1) using e(1-5) n(2)[symmetric] w False by (simp del: One_nat_def)
qed

section \<open>Writing\<close>

text \<open>The result of a write under the environments that satisfy \<open>P\<close>.\<close>

definition writes :: "object_state \<Rightarrow> object_state option \<Rightarrow> (env \<Rightarrow> bool) \<Rightarrow> (env \<Rightarrow> (nat \<Rightarrow> int) \<Rightarrow> nat \<Rightarrow> int) \<Rightarrow> bool" where
  "writes os r P f \<longleftrightarrow>
     (\<exists>os'. r = Some os' \<and> obj_ok os' \<and> same_object os os' \<and>
        (\<forall>\<rho>. P \<rho> \<longrightarrow> (\<forall>j < os_size os. obj_byte \<rho> os' j = f \<rho> (obj_byte \<rho> os) j)))"

lemma stores_writes:
  assumes "stores os r g"
    and "\<And>\<rho> j. P \<rho> \<Longrightarrow> j < os_size os \<Longrightarrow>
      (case g \<rho> j of Some v \<Rightarrow> v | None \<Rightarrow> obj_byte \<rho> os j) = f \<rho> (obj_byte \<rho> os) j"
  shows "writes os r P f"
  using assms unfolding stores_def writes_def by fastforce

definition put_byte :: "nat \<Rightarrow> int \<Rightarrow> (nat \<Rightarrow> int) \<Rightarrow> nat \<Rightarrow> int" where
  "put_byte a b f j = (if j = a then b else f j)"

lemma write_bytes_correct:
  assumes wr: "\<And>i os'. i < n \<Longrightarrow> obj_ok os' \<Longrightarrow> same_object os os' \<Longrightarrow>
      writes os' (wr (byte_index le n i) i os') P (\<lambda>\<rho>. put_byte (a \<rho> + byte_index le n i) (byte_of (v \<rho>) i))"
    and ok: "obj_ok os"
  shows "writes os (write_bytes wr le n os) P (\<lambda>\<rho>. store_bytes le n (v \<rho>) (a \<rho>))"
proof -
  let ?b = "\<lambda>\<rho> m j. if \<exists>i<m. j = a \<rho> + byte_index le n i then byte_of (v \<rho>) (byte_index le n (j - a \<rho>)) else obj_byte \<rho> os j"
  have "\<exists>r. for_offsets (\<lambda>i. wr (byte_index le n i) i) [0..<m] os = Some r \<and> obj_ok r \<and> same_object os r \<and>
      (\<forall>\<rho>. P \<rho> \<longrightarrow> (\<forall>j < os_size os. obj_byte \<rho> r j = ?b \<rho> m j))" if "m \<le> n" for m
    using that
  proof (induction m)
    case (Suc m)
    then obtain r where r: "for_offsets (\<lambda>i. wr (byte_index le n i) i) [0..<m] os = Some r" "obj_ok r" "same_object os r"
        "\<And>\<rho> j. P \<rho> \<Longrightarrow> j < os_size os \<Longrightarrow> obj_byte \<rho> r j = ?b \<rho> m j"
      by auto
    obtain t where t: "wr (byte_index le n m) m r = Some t" "obj_ok t" "same_object r t"
        "\<And>\<rho> j. P \<rho> \<Longrightarrow> j < os_size r \<Longrightarrow>
           obj_byte \<rho> t j = put_byte (a \<rho> + byte_index le n m) (byte_of (v \<rho>) m) (obj_byte \<rho> r) j"
      using wr[OF _ r(2,3), of m] Suc.prems by (auto simp: writes_def)
    have size: "os_size r = os_size os"
      using r(3) by (simp add: same_object_def)
    have "obj_byte \<rho> t j = ?b \<rho> (Suc m) j" if "P \<rho>" "j < os_size os" for \<rho> j
      using t(4)[of \<rho> j] r(4)[OF that] that Suc.prems size by (auto simp: put_byte_def less_Suc_eq)
    with r(1) t same_object_trans[OF r(3) t(3)] show ?case
      by (simp add: for_offsets_append)
  qed (use ok in simp)
  then obtain r where r: "write_bytes wr le n os = Some r" "obj_ok r" "same_object os r"
      "\<And>\<rho> j. P \<rho> \<Longrightarrow> j < os_size os \<Longrightarrow> obj_byte \<rho> r j = ?b \<rho> n j"
    unfolding write_bytes_def by blast
  have "(\<exists>i<n. j = a \<rho> + byte_index le n i) \<longleftrightarrow> a \<rho> \<le> j \<and> j < a \<rho> + n" for j \<rho>
  proof
    show "a \<rho> \<le> j \<and> j < a \<rho> + n \<Longrightarrow> \<exists>i<n. j = a \<rho> + byte_index le n i"
      by (rule exI[of _ "byte_index le n (j - a \<rho>)"]) auto
  qed auto
  with r show ?thesis
    by (auto simp: writes_def store_bytes_def)
qed

text \<open>The bytes of constants of 16, 32 and 64 bits.\<close>

lemma uint_byte:
  fixes x :: "'a::len word"
  assumes "fits (LENGTH('a)) v" "x = word_of_int v"
  shows "uint (ucast (drop_bit (8 * i) x) :: 8 word) = byte_of v i"
  using assms
  by (simp add: byte_of_def unsigned_ucast_eq unsigned_drop_bit_eq uint_word_of_int_eq take_bit_fits)

lemma write8_puts:
  "obj_ok os \<Longrightarrow> i < os_size os \<Longrightarrow> uint v = b \<Longrightarrow> writes os (write8 i v os) P (\<lambda>\<rho>. put_byte i b)"
  by (rule stores_writes[OF write8_stores]) (auto simp: put_byte_def)

lemma write8_expr_puts:
  assumes "obj_ok os" "i < os_size os" "wt e" "getWidth e = 8" "\<And>\<rho>. eval \<rho> e = b \<rho>"
  shows "writes os (write8_expr i e os) P (\<lambda>\<rho>. put_byte i (b \<rho>))"
  by (rule stores_writes[OF write8_expr_stores[OF assms(1-4)]]) (auto simp: put_byte_def assms(5))

lemma eval_Extract_byte:
  assumes "wt v" "8 * i + 8 \<le> getWidth v"
  shows "wt (create_Extract v (8 * i) 8)" "getWidth (create_Extract v (8 * i) 8) = 8"
    "eval \<rho> (create_Extract v (8 * i) 8) = byte_of (eval \<rho> v) i"
  using simplifiesD[OF simplifies_create_Extract[of v "8 * i" 8]] assms by (simp_all add: byte_of_def)

lemma eval_ZExt_Bool:
  assumes "wt v" "getWidth v = 1"
  shows "wt (create_ZExt v 8)" "getWidth (create_ZExt v 8) = 8" "eval \<rho> (create_ZExt v 8) = byte_of (eval \<rho> v) 0"
  using simplifiesD[OF simplifies_create_ZExt[of v 8]] assms by (simp_all add: byte_of_def)

text \<open>A width that the code accepts: booleans and whole bytes.\<close>

definition valid_width :: "nat \<Rightarrow> bool" where
  "valid_width w \<longleftrightarrow> w = 1 \<or> (w mod 8 = 0 \<and> 0 < w)"

lemma same_object_size: "same_object os os' \<Longrightarrow> os_size os' = os_size os"
  by (simp add: same_object_def)

lemma store_one: "store_bytes le 1 v a f j = put_byte a (byte_of v 0) f j"
  by (auto simp: store_bytes_def put_byte_def byte_index_def)

lemma write_const_general_correct:
  assumes ok: "obj_ok os" and v: "wt v" and w: "valid_width (getWidth v)"
    and range: "a + bytes_of_width (getWidth v) \<le> os_size os"
  shows "writes os (write_const_general le a v os) P (\<lambda>\<rho>. store_bytes le (bytes_of_width (getWidth v)) (eval \<rho> v) a)"
proof (cases "getWidth v = 1")
  case True
  with range ok have "a < os_size os" by (simp add: bytes_of_width_def)
  from write8_expr_puts[OF ok this eval_ZExt_Bool(1,2)[OF v True] eval_ZExt_Bool(3)[OF v True], of P]
  show ?thesis
    using True by (simp add: write_const_general_def bytes_of_width_def store_one[abs_def] del: One_nat_def)
next
  case False
  let ?n = "getWidth v div 8"
  have n: "bytes_of_width (getWidth v) = ?n" "getWidth v mod 8 = 0" "8 * ?n = getWidth v"
    using False w by (auto simp: bytes_of_width_def valid_width_def)
  have "writes os (write_bytes (\<lambda>idx i. write8_expr (a + idx) (create_Extract v (8 * i) 8)) le ?n os) P
      (\<lambda>\<rho>. store_bytes le ?n (eval \<rho> v) a)"
  proof (rule write_bytes_correct[OF _ ok])
    fix i os' assume i: "i < ?n" and os': "obj_ok os'" "same_object os os'"
    have "8 * i + 8 \<le> getWidth v"
      using i n(3) by linarith
    moreover have "a + byte_index le ?n i < os_size os'"
      using byte_index_less[OF i, of le] range n(1) same_object_size[OF os'(2)] by linarith
    ultimately show "writes os' (write8_expr (a + byte_index le ?n i) (create_Extract v (8 * i) 8) os') P
        (\<lambda>\<rho>. put_byte (a + byte_index le ?n i) (byte_of (eval \<rho> v) i))"
      using os' v by (intro write8_expr_puts) (simp_all add: eval_Extract_byte)
  qed
  with False n show ?thesis
    by (simp add: write_const_general_def Let_def)
qed

text \<open>A constant of 16, 32 or 64 bits goes through a machine integer, a shift and a cast per byte.\<close>

lemma write_words_correct:
  fixes x :: "'a::len word"
  assumes ok: "obj_ok os" and c: "fits (LENGTH('a)) v" "x = word_of_int v" and range: "a + n \<le> os_size os"
  shows "writes os (write_bytes (\<lambda>idx i. write8 (a + idx) (ucast (drop_bit (8 * i) x))) le n os) P
    (\<lambda>\<rho>. store_bytes le n v a)"
proof (rule write_bytes_correct[OF _ ok])
  fix i os' assume i: "i < n" and os': "obj_ok os'" "same_object os os'"
  have "a + byte_index le n i < os_size os'"
    using byte_index_less[OF i, of le] range same_object_size[OF os'(2)] by linarith
  from write8_puts[OF os'(1) this uint_byte[OF c]]
  show "writes os' (write8 (a + byte_index le n i) (ucast (drop_bit (8 * i) x)) os') P
      (\<lambda>\<rho>. put_byte (a + byte_index le n i) (byte_of v i))" .
qed

lemma power_of_two_widths:
  assumes "w \<le> 64" "isPowerOfTwo (of_nat w)" "valid_width w"
  shows "w \<in> {1, 8, 16, 32, 64}"
proof -
  have "\<forall>w \<in> set [0..<65]. isPowerOfTwo (of_nat w) \<longrightarrow> valid_width w \<longrightarrow> w \<in> {1, 8, 16, 32, 64}"
    by code_simp
  with assms show ?thesis by auto
qed

lemma write_const_correct:
  assumes ok: "obj_ok os" and v: "wt v" and w: "valid_width (getWidth v)"
    and range: "a + bytes_of_width (getWidth v) \<le> os_size os"
  shows "writes os (write_const le a v os) P (\<lambda>\<rho>. store_bytes le (bytes_of_width (getWidth v)) (eval \<rho> v) a)"
proof (cases "\<exists>k. v = ConstantExpr k \<and> getBitWidth k \<le> 64 \<and> isPowerOfTwo (of_nat (getBitWidth k))")
  case False
  then have "write_const le a v os = write_const_general le a v os"
    by (auto simp: write_const_def Let_def split: option.split)
  with write_const_general_correct[OF assms] show ?thesis by simp
next
  case True
  then obtain k where k: "v = ConstantExpr k" "getBitWidth k \<le> 64" "isPowerOfTwo (of_nat (getBitWidth k))"
    by blast
  have f: "fits (getBitWidth k) (rawval k)"
    using v k(1) by simp
  consider "getBitWidth k = 1" | "getBitWidth k = 8" | "getBitWidth k = 16" | "getBitWidth k = 32" | "getBitWidth k = 64"
    using power_of_two_widths[OF k(2,3)] w k(1) by auto
  then show ?thesis
  proof cases
    case 1
    then have a: "a < os_size os" using range k(1) by (simp add: bytes_of_width_def)
    have b: "uint (word_of_int (rawval k) :: 8 word) = byte_of (rawval k) 0"
      using fits_mono[OF f, of 8] 1 by (simp add: byte_of_def uint_word_of_int_eq)
    show ?thesis
      using write8_puts[OF ok a b, of P] k 1
      by (simp add: write_const_def bytes_of_width_def store_one[abs_def] del: One_nat_def)
  next
    case 2
    then have a: "a < os_size os" using range k(1) by (simp add: bytes_of_width_def)
    have b: "uint (word_of_int (rawval k) :: 8 word) = byte_of (rawval k) 0"
      by (simp add: byte_of_def uint_word_of_int_eq)
    show ?thesis
      using write8_puts[OF ok a b, of P] k 2
      by (simp add: write_const_def bytes_of_width_def store_one[abs_def] del: One_nat_def)
  next
    case 3
    with range f k(1) have "fits (LENGTH(16)) (rawval k)" "a + 2 \<le> os_size os"
      by (simp_all add: bytes_of_width_def)
    from write_words_correct[OF ok this(1) refl this(2), of le P] k 3 show ?thesis
      by (simp add: write_const_def bytes_of_width_def write16_def)
  next
    case 4
    with range f k(1) have "fits (LENGTH(32)) (rawval k)" "a + 4 \<le> os_size os"
      by (simp_all add: bytes_of_width_def)
    from write_words_correct[OF ok this(1) refl this(2), of le P] k 4 show ?thesis
      by (simp add: write_const_def bytes_of_width_def write32_def)
  next
    case 5
    with range f k(1) have "fits (LENGTH(64)) (rawval k)" "a + 8 \<le> os_size os"
      by (simp_all add: bytes_of_width_def)
    from write_words_correct[OF ok this(1) refl this(2), of le P] k 5 show ?thesis
      by (simp add: write_const_def bytes_of_width_def write64_def)
  qed
qed

section \<open>Symbolic offsets\<close>

text \<open>
  The offset as the code truncates it, and the assertion that the offset of each byte is not a
  constant (canonical expressions do not fold when a constant is added).
\<close>

definition offset32 :: "env \<Rightarrow> expr \<Rightarrow> nat" where
  "offset32 \<rho> offset = nat (take_bit 32 (eval \<rho> offset))"

definition byte_offset :: "expr \<Rightarrow> nat \<Rightarrow> expr" where
  "byte_offset offset i = create_Add (create_ZExt offset 32) (alloc_Const 32 (int i))"

definition proper_offset :: "expr \<Rightarrow> nat \<Rightarrow> bool" where
  "proper_offset offset n \<longleftrightarrow>
     wt offset \<and> (isConstantExpr (create_ZExt offset 32) \<or> (\<forall>i < n. \<not> isConstantExpr (byte_offset offset i)))"

text \<open>The access lies inside the object.\<close>

definition in_bounds :: "nat \<Rightarrow> expr \<Rightarrow> nat \<Rightarrow> env \<Rightarrow> bool" where
  "in_bounds sz offset n \<rho> \<longleftrightarrow> offset32 \<rho> offset + n \<le> sz"

lemma create_ZExt_32:
  assumes "wt e"
  shows "wt (create_ZExt e 32)" "getWidth (create_ZExt e 32) = 32"
    "eval \<rho> (create_ZExt e 32) = take_bit 32 (eval \<rho> e)"
proof -
  consider "getWidth e = 32" | "getWidth e < 32" | "32 < getWidth e" by linarith
  then have "wt (create_ZExt e 32) \<and> getWidth (create_ZExt e 32) = 32 \<and>
      eval \<rho> (create_ZExt e 32) = take_bit 32 (eval \<rho> e)"
  proof cases
    case 3
    then show ?thesis
      using simplifiesD[OF simplifies_create_Extract[of e 0 32]] assms by (simp add: create_ZExt_def)
  qed (use simplifiesD[OF simplifies_create_ZExt[of e 32]] assms in \<open>simp_all\<close>)
  then show "wt (create_ZExt e 32)" "getWidth (create_ZExt e 32) = 32"
    "eval \<rho> (create_ZExt e 32) = take_bit 32 (eval \<rho> e)"
    by simp_all
qed

lemma byte_offset_correct:
  assumes "wt off" "n < 2 ^ 32" "i < n" "offset32 \<rho> off + n \<le> sz" "sz < 2 ^ 32"
  shows "eval \<rho> (byte_offset off i) = int (offset32 \<rho> off + i)"
proof -
  let ?o = "create_ZExt off 32"
  have o: "wt ?o" "getWidth ?o = 32" "eval \<rho> ?o = int (offset32 \<rho> off)"
    using create_ZExt_32[OF assms(1)] by (simp_all add: offset32_def)
  have i: "fits 32 (int i)"
    using assms(2,3) by (simp add: fits_def)
  have "eval \<rho> (byte_offset off i) = bv_add 32 (int (offset32 \<rho> off)) (int i)"
    using simplifiesD[OF simplifies_create_Add[of ?o "alloc_Const 32 (int i)"]] o eval_alloc_Const[OF i]
    by (simp add: byte_offset_def)
  also have "\<dots> = int (offset32 \<rho> off + i)"
    using assms by (simp add: bv_add_def take_bit_int_eq_self_iff)
  finally show ?thesis .
qed

lemma byte_offset_wt:
  assumes "wt off"
  shows "wt (byte_offset off i)" "getWidth (byte_offset off i) = 32"
  using simplifiesD[OF simplifies_create_Add[of "create_ZExt off 32" "alloc_Const 32 (int i)"]]
    create_ZExt_32[OF assms]
  by (simp_all add: byte_offset_def)

lemma constant_offset:
  assumes "wt off" "create_ZExt off 32 = ConstantExpr k"
  shows "offset32 \<rho> off = nat (rawval k)"
  using create_ZExt_32(3)[OF assms(1), of \<rho>] assms(2) by (simp add: offset32_def)

lemma byte_offset_in_bounds:
  assumes "shape os" "wt off" "i < n" "in_bounds (os_size os) off n \<rho>"
  shows "eval \<rho> (byte_offset off i) = int (offset32 \<rho> off + i)" "offset32 \<rho> off + i < os_size os"
  using byte_offset_correct[of off n i \<rho> "os_size os"] assms by (auto simp: in_bounds_def shape_def)

lemma shape_same: "obj_ok os' \<Longrightarrow> same_object os os' \<Longrightarrow> shape os' \<and> os_size os' = os_size os"
  by (simp add: obj_ok_def same_object_def)

lemma read_obj_correct:
  assumes ok: "obj_ok os" and off: "proper_offset off (bytes_of_width w)" and w: "valid_width w"
    and c: "\<And>\<rho>. isConstantExpr (create_ZExt off 32) \<Longrightarrow> in_bounds (os_size os) off (bytes_of_width w) \<rho>"
    and size: "0 < os_size os"
  shows "yields os (read_obj le off w (c, os)) w
    (\<lambda>\<rho> v. in_bounds (os_size os) off (bytes_of_width w) \<rho> \<longrightarrow>
       v = load_bytes le (bytes_of_width w) (obj_byte \<rho> os) (offset32 \<rho> off) mod 2 ^ w)"
proof -
  let ?n = "bytes_of_width w" and ?o = "create_ZExt off 32"
  have wt: "wt off" and s: "shape os"
    using off ok by (simp_all add: proper_offset_def obj_ok_def)
  have w': "w = 1 \<or> (w mod 8 = 0 \<and> 0 < w)"
    using w by (simp add: valid_width_def)
  show ?thesis
  proof (cases "dyn_Constant ?o")
    case (Some k)
    let ?a = "nat (rawval k)"
    have a: "offset32 \<rho> off = ?a" for \<rho>
      using constant_offset[OF wt] Some by simp
    have range: "?a + ?n \<le> os_size os"
      using c Some a by (simp add: in_bounds_def)
    have "reads_byte (\<lambda>i. read8 (?a + i)) ?n os (in_bounds (os_size os) off ?n) (\<lambda>\<rho> i. obj_byte \<rho> os (?a + i))"
      unfolding reads_byte_def
    proof (intro allI impI)
      fix i c os' assume i: "i < ?n" and os': "obj_ok os'" "same_bytes os os'"
      have "?a + i < os_size os'"
        using i range os'(2) by (simp add: same_bytes_def same_object_def)
      moreover have "obj_byte \<rho> os' (?a + i) = obj_byte \<rho> os (?a + i)" for \<rho>
        using i range os'(2) by (simp add: same_bytes_def)
      ultimately show "yields os' (read8 (?a + i) (c, os')) 8
          (\<lambda>\<rho> v. in_bounds (os_size os) off ?n \<rho> \<longrightarrow> v = obj_byte \<rho> os (?a + i))"
        using read8_correct[OF os'(1), of "?a + i" c] by (auto simp: yields_def)
    qed
    from read_bytes_correct[where a = "\<lambda>_. ?a" and B = "\<lambda>\<rho>. obj_byte \<rho> os", OF this ok w'] Some show ?thesis
      by (simp add: read_obj_def read_const_def a)
  next
    case None
    have nc: "\<not> isConstantExpr ?o" "\<And>i. i < ?n \<Longrightarrow> \<not> isConstantExpr (byte_offset off i)"
      using None off by (simp_all add: proper_offset_def isConstantExpr_def)
    define rd where "rd = (\<lambda>i. read8_symbolic (if w = 1 then ?o else byte_offset off i))"
    have "reads_byte rd ?n os (in_bounds (os_size os) off ?n) (\<lambda>\<rho> i. obj_byte \<rho> os (offset32 \<rho> off + i))"
      unfolding reads_byte_def
    proof (intro allI impI)
      fix i c os' assume i: "i < ?n" and os': "obj_ok os'" "same_bytes os os'"
      let ?x = "if w = 1 then ?o else byte_offset off i"
      have x: "wt ?x" "getWidth ?x = 32" "\<not> isConstantExpr ?x"
        using create_ZExt_32(1,2)[OF wt] byte_offset_wt[OF wt] nc i by auto
      have same: "os_size os' = os_size os" "0 < os_size os'"
        using os'(2) size by (simp_all add: same_bytes_def same_object_def)
      have ev: "eval \<rho> ?x = int (offset32 \<rho> off + i)" "offset32 \<rho> off + i < os_size os"
        if "in_bounds (os_size os) off ?n \<rho>" for \<rho>
        using byte_offset_in_bounds[OF s wt i that] create_ZExt_32(3)[OF wt, of \<rho>] i
        by (auto simp: offset32_def bytes_of_width_def)
      have "obj_byte \<rho> os' j = obj_byte \<rho> os j" if "j < os_size os" for \<rho> j
        using os'(2) that by (simp add: same_bytes_def)
      then show "yields os' (rd i (c, os')) 8
          (\<lambda>\<rho> v. in_bounds (os_size os) off ?n \<rho> \<longrightarrow> v = obj_byte \<rho> os (offset32 \<rho> off + i))"
        using read8_symbolic_correct[OF os'(1) x same(2), of c] ev same(1)
        unfolding rd_def yields_def by (metis nat_int of_nat_less_iff)
    qed
    from read_bytes_correct[where a = "\<lambda>\<rho>. offset32 \<rho> off" and B = "\<lambda>\<rho>. obj_byte \<rho> os", OF this ok w', of le c]
    show ?thesis
      using None by (cases "w = 1") (simp_all add: read_obj_def rd_def byte_offset_def)
  qed
qed

lemma write8_symbolic_puts:
  assumes ok: "obj_ok os" and x: "wt x" "getWidth x = 32" "\<not> isConstantExpr x" and v: "wt v" "getWidth v = 8"
    and ev: "\<And>\<rho>. P \<rho> \<Longrightarrow> eval \<rho> x = int (a \<rho>)" "\<And>\<rho>. eval \<rho> v = b \<rho>"
  shows "writes os (write8_symbolic x v os) P (\<lambda>\<rho>. put_byte (a \<rho>) (b \<rho>))"
  by (rule stores_writes[OF write8_symbolic_stores[OF ok x v]]) (auto simp: put_byte_def ev)

lemma write_obj_correct:
  assumes ok: "obj_ok os" and off: "proper_offset off (bytes_of_width (getWidth v))"
    and v: "wt v" "valid_width (getWidth v)"
    and c: "\<And>\<rho>. isConstantExpr (create_ZExt off 32) \<Longrightarrow> in_bounds (os_size os) off (bytes_of_width (getWidth v)) \<rho>"
  shows "writes os (write_obj le off v os) (in_bounds (os_size os) off (bytes_of_width (getWidth v)))
    (\<lambda>\<rho>. store_bytes le (bytes_of_width (getWidth v)) (eval \<rho> v) (offset32 \<rho> off))"
proof -
  let ?w = "getWidth v" and ?o = "create_ZExt off 32"
  let ?n = "bytes_of_width ?w"
  let ?P = "in_bounds (os_size os) off ?n"
  have wt: "wt off" and s: "shape os"
    using off ok by (simp_all add: proper_offset_def obj_ok_def)
  show ?thesis
  proof (cases "dyn_Constant ?o")
    case (Some k)
    have a: "offset32 \<rho> off = nat (rawval k)" for \<rho>
      using constant_offset[OF wt] Some by simp
    have "nat (rawval k) + ?n \<le> os_size os"
      using c Some a by (simp add: in_bounds_def)
    from write_const_correct[OF ok v this, of le ?P] Some show ?thesis
      by (simp add: write_obj_def a)
  next
    case None
    have nc: "\<not> isConstantExpr ?o" "\<And>i. i < ?n \<Longrightarrow> \<not> isConstantExpr (byte_offset off i)"
      using None off by (simp_all add: proper_offset_def isConstantExpr_def)
    show ?thesis
    proof (cases "?w = 1")
      case True
      have "eval \<rho> ?o = int (offset32 \<rho> off)" for \<rho>
        using create_ZExt_32(3)[OF wt, of \<rho>] by (simp add: offset32_def)
      from write8_symbolic_puts[OF ok create_ZExt_32(1,2)[OF wt] nc(1) eval_ZExt_Bool(1,2)[OF v(1) True] this
          eval_ZExt_Bool(3)[OF v(1) True], of ?P]
      show ?thesis
        using None True
        by (simp add: write_obj_def bytes_of_width_def store_one[abs_def] del: One_nat_def)
    next
      case False
      have n: "?n = ?w div 8" "?w mod 8 = 0" "8 * ?n = ?w"
        using False v(2) by (auto simp: bytes_of_width_def valid_width_def)
      have "writes os (write_bytes (\<lambda>idx i. write8_symbolic (byte_offset off idx) (create_Extract v (8 * i) 8)) le ?n os) ?P
          (\<lambda>\<rho>. store_bytes le ?n (eval \<rho> v) (offset32 \<rho> off))"
      proof (rule write_bytes_correct[OF _ ok])
        fix i os' assume i: "i < ?n" and os': "obj_ok os'" "same_object os os'"
        let ?j = "byte_index le ?n i"
        have "8 * i + 8 \<le> ?w"
          using i n(3) by linarith
        note e = eval_Extract_byte[OF v(1) this]
        show "writes os' (write8_symbolic (byte_offset off ?j) (create_Extract v (8 * i) 8) os') ?P
            (\<lambda>\<rho>. put_byte (offset32 \<rho> off + ?j) (byte_of (eval \<rho> v) i))"
          by (rule write8_symbolic_puts[OF os'(1) byte_offset_wt[OF wt] nc(2)[OF byte_index_less[OF i]] e(1,2)
                byte_offset_in_bounds(1)[OF s wt byte_index_less[OF i]] e(3)])
      qed
      with None False n show ?thesis
        by (simp add: write_obj_def byte_offset_def Let_def)
    qed
  qed
qed

end
