(* ===== verification/ObjectProps.thy ===== *)
theory ObjectProps
  imports ObjectRefine ExprProps
begin

text \<open>
  The properties of memory objects: construction, reads and writes as accesses to an array of bytes,
  and bounds checks; with instances on a small object.
\<close>

section \<open>Construction\<close>

lemma new_object_state_ok:
  assumes "mo_size mo + 31 < 2 ^ 32"
  shows "obj_ok (new_object_state mo)"
  using assms
  by (auto simp: obj_ok_def shape_def root_ok_def coherent_def new_object_state_def isByteKnownSymbolic_def
      isByteConcrete_def isByteFlushed_def known_def)

lemma new_object_state_byte: "i < mo_size mo \<Longrightarrow> obj_byte \<rho> (new_object_state mo) i = 0"
  by (simp add: new_object_state_def isByteConcrete_def obj_byte_def)

lemma flushed_markFlushed:
  assumes "shape os" "i < os_size os" "j < os_size os"
  shows "isByteFlushed (markByteFlushed i os) j \<longleftrightarrow> j = i \<or> isByteFlushed os j \<or> flushMask os = None"
  using assms ba_get_new[of "os_size os" j False]
  by (auto simp: shape_def isByteFlushed_def markByteFlushed_def ba_get_unset[of "os_size os"] split: option.splits)

lemma makeSymbolic_loop_correct:
  assumes "shape os" "set js \<subseteq> {..<os_size os}" "\<And>i. i < os_size os \<Longrightarrow> known os i = None"
  shows "shape (makeSymbolic_loop js os) \<and> same_object os (makeSymbolic_loop js os) \<and>
    root (makeSymbolic_loop js os) = root os \<and> head (makeSymbolic_loop js os) = head os \<and>
    (\<forall>i < os_size os. known (makeSymbolic_loop js os) i = None \<and>
      (isByteConcrete (makeSymbolic_loop js os) i \<longleftrightarrow> i \<notin> set js \<and> isByteConcrete os i) \<and>
      (isByteFlushed (makeSymbolic_loop js os) i \<longleftrightarrow>
         i \<in> set js \<or> isByteFlushed os i \<or> (js \<noteq> [] \<and> flushMask os = None)))"
  using assms
proof (induction js arbitrary: os)
  case (Cons j js)
  let ?k = "setKnownSymbolic j None (markByteSymbolic j os)"
  let ?s = "markByteFlushed j ?k"
  have j: "j < os_size os" using Cons.prems by simp
  have k: "shape ?k" "os_size ?k = os_size os" "flushMask ?k = flushMask os"
    using Cons.prems(1) by simp_all
  have s: "shape ?s" "flushMask ?s \<noteq> None"
    using k(1) by simp (simp add: markByteFlushed_def)
  have p: "known ?s i = None" "isByteConcrete ?s i \<longleftrightarrow> i \<noteq> j \<and> isByteConcrete os i"
      "isByteFlushed ?s i \<longleftrightarrow> i = j \<or> isByteFlushed os i \<or> flushMask os = None" if "i < os_size os" for i
    using Cons.prems(1,3) that j k flushed_markFlushed[OF k(1), of j i] by simp_all
  have same: "same_object os ?s"
    by (simp add: same_object_def mark_defs Let_def split: option.split)
  have IH: "shape (makeSymbolic_loop js ?s) \<and> same_object ?s (makeSymbolic_loop js ?s) \<and>
    root (makeSymbolic_loop js ?s) = root ?s \<and> head (makeSymbolic_loop js ?s) = head ?s \<and>
    (\<forall>i < os_size ?s. known (makeSymbolic_loop js ?s) i = None \<and>
      (isByteConcrete (makeSymbolic_loop js ?s) i \<longleftrightarrow> i \<notin> set js \<and> isByteConcrete ?s i) \<and>
      (isByteFlushed (makeSymbolic_loop js ?s) i \<longleftrightarrow>
         i \<in> set js \<or> isByteFlushed ?s i \<or> (js \<noteq> [] \<and> flushMask ?s = None)))"
    using Cons.prems p(1) by (intro Cons.IH[OF s(1)]) auto
  with p s(2) same_object_trans[OF same] show ?case
    by auto
qed (simp add: same_object_def)

lemma new_symbolic_object_ok:
  assumes "mo_size mo + 31 < 2 ^ 32" "wf_array a" "domain_w a = 32" "range_w a = 8"
  shows "\<exists>os. new_symbolic_object mo a = Some os \<and> obj_ok os \<and> os_object os = mo \<and>
    os_size os = mo_size mo \<and> \<not> readOnly os \<and>
    (\<forall>\<rho>. \<forall>i < mo_size mo. obj_byte \<rho> os i = initial_value \<rho> a (int i))"
proof -
  let ?o = "(new_object_state mo)\<lparr>root := Some a\<rparr>"
  let ?l = "makeSymbolic_loop [0..<mo_size mo] ?o"
  let ?r = "?l\<lparr>concreteStore := replicate (os_size ?l) 0\<rparr>"
  have o: "shape ?o" "os_size ?o = mo_size mo" "\<And>i. known ?o i = None" "flushMask ?o = None" "head ?o = NoUpdate"
    "root ?o = Some a" "os_object ?o = mo"
    using assms by (auto simp: shape_def root_ok_def new_object_state_def known_def)
  have "set [0..<mo_size mo] \<subseteq> {..<os_size ?o}"
    using o(2) by auto
  note l = makeSymbolic_loop_correct[OF o(1) this o(3)]
  have size: "os_size ?l = mo_size mo"
    using l o(2) by (simp add: same_object_def)
  have p: "known ?l i = None" "\<not> isByteConcrete ?l i" "isByteFlushed ?l i" if "i < mo_size mo" for i
    using l o(2) that by auto
  have heads: "head ?l = NoUpdate" "root ?l = Some a"
    using l o(5,6) by metis+
  have b: "obj_byte \<rho> ?r i = contents \<rho> ?r i" "contents \<rho> ?r i = initial_value \<rho> a (int i)" if "i < mo_size mo" for \<rho> i
    using p[OF that] heads by (simp_all add: obj_byte_def contents_def base_val_def)
  have "shape ?r"
    using l size by (auto simp: shape_def root_ok_def split: option.split)
  then have "obj_ok ?r"
    by (rule obj_okI) (use p size b in simp_all)
  moreover have "new_symbolic_object mo a = Some ?r"
    using o(2,5) by (simp add: new_symbolic_object_def makeSymbolic_def)
  moreover have "os_object ?r = mo" "os_size ?r = mo_size mo" "\<not> readOnly ?r"
    using l o(7) size by (simp_all add: same_object_def new_object_state_def)
  ultimately show ?thesis
    using b by auto
qed

lemma copy_preds:
  assumes "shape os" "i < os_size os" "copy_object_state os = Some os'"
  shows "isByteConcrete os' i = isByteConcrete os i" "isByteFlushed os' i = isByteFlushed os i"
    "known os' i = known os i" "contents \<rho> os' i = contents \<rho> os i"
    "concreteStore os' = concreteStore os"
  using assms
  by (auto simp: copy_object_state_def isByteConcrete_def isByteFlushed_def known_def contents_def base_val_def
      shape_def ba_get_copy split: if_splits option.splits)

lemma copy_object_state_ok:
  assumes ok: "obj_ok os" and ro: "\<not> readOnly os"
  shows "\<exists>os'. copy_object_state os = Some os' \<and> obj_ok os' \<and> os_object os' = os_object os \<and>
    os_size os' = os_size os \<and> copyOnWriteOwner os' = 0 \<and> \<not> readOnly os' \<and>
    (\<forall>\<rho>. \<forall>i < os_size os. obj_byte \<rho> os' i = obj_byte \<rho> os i)"
proof -
  obtain os' where os': "copy_object_state os = Some os'"
    using ro by (simp add: copy_object_state_def)
  have s: "shape os" using ok by (simp add: obj_ok_def)
  have f: "os_size os' = os_size os" "os_object os' = os_object os" "copyOnWriteOwner os' = 0" "\<not> readOnly os'"
    using os' ro by (auto simp: copy_object_state_def)
  note p = copy_preds[OF s _ os']
  have b: "obj_byte \<rho> os' i = obj_byte \<rho> os i" if "i < os_size os" for \<rho> i
    using p[OF that] by (simp add: obj_byte_def split: option.split)
  have "shape os'"
    using s os' ba_ok_copy[of "os_size os"]
    by (auto simp: copy_object_state_def shape_def root_ok_def pred_option_def split: option.splits if_splits)
  then have "obj_ok os'"
    by (rule obj_okI) (use obj_okD[OF ok] p b f(1) in auto)
  with os' f b show ?thesis by auto
qed

lemma initialize_ok:
  assumes "obj_ok os"
  shows "obj_ok (initializeToZero os)" "obj_ok (initializeToRandom os)"
    "i < os_size os \<Longrightarrow> obj_byte \<rho> (initializeToZero os) i = 0"
    "i < os_size os \<Longrightarrow> obj_byte \<rho> (initializeToRandom os) i = 0xAB"
  using assms
  by (auto simp: obj_ok_def shape_def root_ok_def coherent_def initializeToZero_def initializeToRandom_def
      makeConcrete_def isByteKnownSymbolic_def isByteConcrete_def isByteFlushed_def known_def obj_byte_def
      split: option.splits)

section \<open>Sample inputs\<close>

definition sample_mo :: memory_object where
  "sample_mo = \<lparr>mo_id = 1, address = 4096, mo_size = 16, mo_name = ''buf'', isLocal = False, isGlobal = False,
                isFixed = False, isUserSpecified = False\<rparr>"

definition sample_object :: object_state where
  "sample_object = the (new_symbolic_object sample_mo sample_array)"

definition sample_index :: expr where
  "sample_index = ZExtExpr (sample_byte 0) 32"

definition sample_context :: exec_context where
  "sample_context = \<lparr>cache = \<lparr>next_addr = 200, cachedSymbolicArrays = [], concreteArrays = []\<rparr>, const_id = 0\<rparr>"

lemma sample_object_ok:
  "obj_ok sample_object" "os_size sample_object = 16" "\<not> readOnly sample_object"
  "i < 16 \<Longrightarrow> obj_byte \<rho> sample_object i = initial_value \<rho> sample_array (int i)"
proof -
  have "wf_array sample_array" "domain_w sample_array = 32" "range_w sample_array = 8" "mo_size sample_mo = 16"
    by (simp_all add: sample_array_def sample_mo_def wf_array_def isSymbolicArray_def)
  note s = this
  have "mo_size sample_mo + 31 < 2 ^ 32"
    by (simp add: s(4))
  from new_symbolic_object_ok[OF this s(1-3), unfolded s(4)]
  obtain os where "new_symbolic_object sample_mo sample_array = Some os" "obj_ok os" "os_size os = 16"
      "\<not> readOnly os" "\<forall>\<rho>. \<forall>i < 16. obj_byte \<rho> os i = initial_value \<rho> sample_array (int i)"
    by blast
  then show "obj_ok sample_object" "os_size sample_object = 16" "\<not> readOnly sample_object"
    "i < 16 \<Longrightarrow> obj_byte \<rho> sample_object i = initial_value \<rho> sample_array (int i)"
    by (simp_all add: sample_object_def)
qed

lemma sample_initial: "initial_value (\<lambda>a i. i + 2) sample_array n = take_bit 8 (n + 2)"
  by (simp add: initial_value_def sample_array_def isConstantArray_def isSymbolicArray_def)

lemma sample_index_proper: "proper_offset sample_index (bytes_of_width 16)" "\<not> isConstantExpr (create_ZExt sample_index 32)"
proof -
  have "wt sample_index" "\<not> isConstantExpr (byte_offset sample_index 0)" "\<not> isConstantExpr (byte_offset sample_index 1)"
    by code_simp+
  then show "proper_offset sample_index (bytes_of_width 16)"
    by (auto simp: proper_offset_def bytes_of_width_def less_Suc_eq numeral_2_eq_2)
  show "\<not> isConstantExpr (create_ZExt sample_index 32)"
    by code_simp
qed

section \<open>Properties\<close>

text \<open>C13: Every way to make an object state yields one that satisfies the cache invariants: a concrete
  object is all zeros, a symbolic one has the contents of its array, a copy has the bytes of the
  original, and the initialisers overwrite every byte.\<close>

theorem object_construction:
  assumes "mo_size mo + 31 < 2 ^ 32" and "wf_array a" "domain_w a = 32" "range_w a = 8"
    and "obj_ok os" "\<not> readOnly os"
  shows "obj_ok (new_object_state mo) \<and> (\<forall>\<rho>. \<forall>i < mo_size mo. obj_byte \<rho> (new_object_state mo) i = 0) \<and>
         (\<exists>s. new_symbolic_object mo a = Some s \<and> obj_ok s \<and>
            (\<forall>\<rho>. \<forall>i < mo_size mo. obj_byte \<rho> s i = initial_value \<rho> a (int i))) \<and>
         (\<exists>s. copy_object_state os = Some s \<and> obj_ok s \<and> copyOnWriteOwner s = 0 \<and>
            (\<forall>\<rho>. \<forall>i < os_size os. obj_byte \<rho> s i = obj_byte \<rho> os i)) \<and>
         obj_ok (initializeToZero os) \<and> (\<forall>\<rho>. \<forall>i < os_size os. obj_byte \<rho> (initializeToZero os) i = 0) \<and>
         obj_ok (initializeToRandom os) \<and> (\<forall>\<rho>. \<forall>i < os_size os. obj_byte \<rho> (initializeToRandom os) i = 0xAB)"
proof (intro conjI allI impI)
  show "\<exists>s. new_symbolic_object mo a = Some s \<and> obj_ok s \<and>
            (\<forall>\<rho>. \<forall>i < mo_size mo. obj_byte \<rho> s i = initial_value \<rho> a (int i))"
    using new_symbolic_object_ok[OF assms(1-4)] by blast
  show "\<exists>s. copy_object_state os = Some s \<and> obj_ok s \<and> copyOnWriteOwner s = 0 \<and>
            (\<forall>\<rho>. \<forall>i < os_size os. obj_byte \<rho> s i = obj_byte \<rho> os i)"
    using copy_object_state_ok[OF assms(5,6)] by blast
  show "obj_ok (new_object_state mo)"
    by (rule new_object_state_ok[OF assms(1)])
  show "obj_byte \<rho> (new_object_state mo) i = 0" if "i < mo_size mo" for \<rho> i
    by (rule new_object_state_byte[OF that])
  show "obj_ok (initializeToZero os)" "obj_ok (initializeToRandom os)"
    by (rule initialize_ok[OF assms(5)])+
  show "obj_byte \<rho> (initializeToZero os) i = 0" "obj_byte \<rho> (initializeToRandom os) i = 0xAB" if "i < os_size os" for \<rho> i
    by (rule initialize_ok(3,4)[OF assms(5) that])+
qed

theorem object_construction_witness: "obj_ok (initializeToZero sample_object)"
proof -
  have "mo_size sample_mo + 31 < 2 ^ 32" "wf_array sample_array" "domain_w sample_array = 32"
      "range_w sample_array = 8"
    by (simp_all add: sample_array_def sample_mo_def wf_array_def isSymbolicArray_def)
  from object_construction[OF this sample_object_ok(1,3)] show ?thesis
    by (elim conjE)
qed

lemma read_obj_invalid: "\<not> valid_width w \<Longrightarrow> 0 < w \<Longrightarrow> read_obj le off w s = None"
  by (auto simp: valid_width_def read_obj_def read_const_def read_bytes_def Let_def split: option.split)

lemma write_obj_invalid:
  assumes "\<not> valid_width (getWidth v)" "0 < getWidth v"
  shows "write_obj le off v os = None"
proof -
  have w: "getWidth v \<noteq> 1" "getWidth v mod 8 \<noteq> 0"
    using assms by (auto simp: valid_width_def)
  then have "getWidth v \<notin> {1, 8, 16, 32, 64}"
    by auto
  then have "write_const le a v os = None" for a
    using w by (cases v) (auto simp: write_const_def write_const_general_def Let_def)
  then show ?thesis
    using w by (auto simp: write_obj_def Let_def split: option.split)
qed

text \<open>C14: A read of one bit or of whole bytes succeeds, keeps the invariant and every byte of the object,
  and returns a well-typed expression whose value is the number that the bytes from the offset on
  spell in the target's byte order, wherever that access is in bounds; a read of any other width
  fails its assertion. The offset is a constant at which the access is in bounds, or an expression
  whose truncation to 32 bits, and each sum of it with the index of a byte, is not folded to a
  constant.\<close>

theorem object_read_refines:
  assumes "obj_ok os" "0 < os_size os" "proper_offset off (bytes_of_width w)" "0 < w"
    and "\<And>\<rho>. isConstantExpr (create_ZExt off 32) \<Longrightarrow> in_bounds (os_size os) off (bytes_of_width w) \<rho>"
  shows "if w = 1 \<or> w mod 8 = 0 then
           \<exists>e c' os'. read_obj le off w (c, os) = Some (e, c', os') \<and> wt e \<and> getWidth e = w \<and>
             obj_ok os' \<and> same_bytes os os' \<and>
             (\<forall>\<rho>. in_bounds (os_size os) off (bytes_of_width w) \<rho> \<longrightarrow>
                eval \<rho> e = load_bytes le (bytes_of_width w) (obj_byte \<rho> os) (offset32 \<rho> off) mod 2 ^ w)
         else read_obj le off w (c, os) = None"
proof (cases "valid_width w")
  case True
  with read_obj_correct[OF assms(1,3) True assms(5,2), of le c] show ?thesis
    by (auto simp: yields_def valid_width_def)
next
  case False
  with read_obj_invalid[OF False assms(4), of le off "(c, os)"] assms(4) show ?thesis
    by (auto simp: valid_width_def)
qed

theorem object_read_refines_witness:
  "\<exists>e c' os'. read_obj True sample_index 16 (sample_context, sample_object) = Some (e, c', os') \<and>
     eval (\<lambda>a i. i + 2) e = 1284"
proof -
  have c: "in_bounds (os_size sample_object) sample_index (bytes_of_width 16) \<rho>"
    if "isConstantExpr (create_ZExt sample_index 32)" for \<rho>
    using sample_index_proper(2) that by simp
  have v: "0 < (16 :: nat)" "0 < os_size sample_object"
    using sample_object_ok(2) by simp_all
  obtain e c' os' where e: "read_obj True sample_index 16 (sample_context, sample_object) = Some (e, c', os')"
    "\<forall>\<rho>. in_bounds (os_size sample_object) sample_index (bytes_of_width 16) \<rho> \<longrightarrow>
       eval \<rho> e = load_bytes True (bytes_of_width 16) (obj_byte \<rho> sample_object) (offset32 \<rho> sample_index) mod 2 ^ 16"
    using object_read_refines[OF sample_object_ok(1) v(2) sample_index_proper(1) v(1) c, of True sample_context]
    by auto
  have o: "offset32 (\<lambda>a i. i + 2) sample_index = 2" "bytes_of_width 16 = 2"
    by code_simp+
  then have "in_bounds (os_size sample_object) sample_index (bytes_of_width 16) (\<lambda>a i. i + 2)"
    by (simp add: in_bounds_def sample_object_ok(2))
  moreover have "load_bytes True 2 (obj_byte (\<lambda>a i. i + 2) sample_object) 2 mod 2 ^ 16 = 1284"
    by (simp add: load_bytes_def byte_index_def sample_object_ok(4) sample_initial eval_nat_numeral take_bit_eq_mod)
  ultimately show ?thesis
    using e o by auto
qed

text \<open>C15: A write of a value of one bit or of whole bytes succeeds, keeps the invariant, and stores the
  bytes of the value in the target's byte order from the offset on, leaving all others alone,
  wherever the access is in bounds; a write of any other width fails an assertion. The offset is as
  for a read.\<close>

theorem object_write_refines:
  assumes "obj_ok os" "proper_offset off (bytes_of_width (getWidth v))" "wt v"
    and "\<And>\<rho>. isConstantExpr (create_ZExt off 32) \<Longrightarrow> in_bounds (os_size os) off (bytes_of_width (getWidth v)) \<rho>"
  shows "if getWidth v = 1 \<or> getWidth v mod 8 = 0 then
           \<exists>os'. write_obj le off v os = Some os' \<and> obj_ok os' \<and> same_object os os' \<and>
             (\<forall>\<rho>. in_bounds (os_size os) off (bytes_of_width (getWidth v)) \<rho> \<longrightarrow>
                (\<forall>j < os_size os. obj_byte \<rho> os' j =
                   store_bytes le (bytes_of_width (getWidth v)) (eval \<rho> v) (offset32 \<rho> off) (obj_byte \<rho> os) j))
         else write_obj le off v os = None"
proof (cases "valid_width (getWidth v)")
  case True
  with write_obj_correct[OF assms(1-3) True assms(4), of le] show ?thesis
    by (auto simp: writes_def valid_width_def)
next
  case False
  with write_obj_invalid[OF False wt_width_pos[OF assms(3)], of le off os] wt_width_pos[OF assms(3)] show ?thesis
    by (auto simp: valid_width_def)
qed

theorem object_write_refines_witness:
  "\<exists>os'. write_obj False sample_index (ConstantExpr (APInt 16 258)) sample_object = Some os' \<and>
     obj_byte (\<lambda>a i. i + 2) os' 2 = 1 \<and> obj_byte (\<lambda>a i. i + 2) os' 3 = 2 \<and> obj_byte (\<lambda>a i. i + 2) os' 4 = 6"
proof -
  let ?v = "ConstantExpr (APInt 16 258)" and ?r = "\<lambda>a i. i + 2"
  have v: "wt ?v" "bytes_of_width (getWidth ?v) = bytes_of_width 16"
    by (simp_all add: fits_def)
  have c: "in_bounds (os_size sample_object) sample_index (bytes_of_width (getWidth ?v)) \<rho>"
    if "isConstantExpr (create_ZExt sample_index 32)" for \<rho>
    using sample_index_proper(2) that by simp
  obtain os' where os': "write_obj False sample_index ?v sample_object = Some os'"
    "\<forall>\<rho>. in_bounds (os_size sample_object) sample_index (bytes_of_width (getWidth ?v)) \<rho> \<longrightarrow>
       (\<forall>j < os_size sample_object. obj_byte \<rho> os' j = store_bytes False (bytes_of_width (getWidth ?v)) (eval \<rho> ?v)
          (offset32 \<rho> sample_index) (obj_byte \<rho> sample_object) j)"
    using object_write_refines[OF sample_object_ok(1) sample_index_proper(1)[folded v(2)] v(1) c, of False]
    by auto
  have o: "offset32 ?r sample_index = 2" "bytes_of_width (getWidth ?v) = 2"
    by code_simp+
  then have "in_bounds (os_size sample_object) sample_index (bytes_of_width (getWidth ?v)) ?r"
    by (simp add: in_bounds_def sample_object_ok(2))
  with os' have "obj_byte ?r os' j = store_bytes False 2 (eval ?r ?v) 2 (obj_byte ?r sample_object) j" if "j < 16" for j
    using that sample_object_ok(2) o by simp
  moreover have "store_bytes False 2 (eval ?r ?v) 2 (obj_byte ?r sample_object) 2 = 1"
    "store_bytes False 2 (eval ?r ?v) 2 (obj_byte ?r sample_object) 3 = 2"
    "store_bytes False 2 (eval ?r ?v) 2 (obj_byte ?r sample_object) 4 = 6"
    by (simp_all add: store_bytes_def byte_of_def byte_index_def sample_object_ok(4) sample_initial
        take_bit_eq_mod drop_bit_eq_div)
  ultimately show ?thesis
    using os'(1) by simp
qed

text \<open>C16: Reading back what was just written at the same offset, with the width of the value, gives an
  expression equal to the value wherever the access is in bounds.\<close>

theorem object_read_after_write:
  assumes "obj_ok os" "0 < os_size os" "proper_offset off (bytes_of_width (getWidth v))" "wt v" "valid_width (getWidth v)"
    and "\<And>\<rho>. isConstantExpr (create_ZExt off 32) \<Longrightarrow> in_bounds (os_size os) off (bytes_of_width (getWidth v)) \<rho>"
  shows "\<exists>os' e c' os''. write_obj le off v os = Some os' \<and>
           read_obj le off (getWidth v) (c, os') = Some (e, c', os'') \<and>
           (\<forall>\<rho>. in_bounds (os_size os) off (bytes_of_width (getWidth v)) \<rho> \<longrightarrow> eval \<rho> e = eval \<rho> v)"
proof -
  let ?w = "getWidth v"
  let ?n = "bytes_of_width ?w"
  obtain os' where w: "write_obj le off v os = Some os'" "obj_ok os'" "same_object os os'"
    "\<And>\<rho> j. in_bounds (os_size os) off ?n \<rho> \<Longrightarrow> j < os_size os \<Longrightarrow>
       obj_byte \<rho> os' j = store_bytes le ?n (eval \<rho> v) (offset32 \<rho> off) (obj_byte \<rho> os) j"
    using write_obj_correct[OF assms(1,3-6), of le] unfolding writes_def by blast
  have size: "os_size os' = os_size os"
    using w(3) by (simp add: same_object_def)
  obtain e c' os'' where r: "read_obj le off ?w (c, os') = Some (e, c', os'')"
    "\<And>\<rho>. in_bounds (os_size os') off ?n \<rho> \<Longrightarrow> eval \<rho> e = load_bytes le ?n (obj_byte \<rho> os') (offset32 \<rho> off) mod 2 ^ ?w"
    using read_obj_correct[OF w(2) assms(3,5), of le c] assms(2,6) size unfolding yields_def by metis
  have "eval \<rho> e = eval \<rho> v" if b: "in_bounds (os_size os) off ?n \<rho>" for \<rho>
  proof -
    let ?a = "offset32 \<rho> off"
    have fits: "fits ?w (eval \<rho> v)"
      using assms(4) by simp
    moreover have "?w \<le> 8 * ?n"
      using assms(5) by (auto simp: valid_width_def bytes_of_width_def)
    ultimately have "fits (8 * ?n) (eval \<rho> v)"
      by (rule fits_mono)
    then have v: "0 \<le> eval \<rho> v" "eval \<rho> v < 256 ^ ?n"
      by (simp_all add: fits_def power_mult)
    have "load_bytes le ?n (obj_byte \<rho> os') ?a = load_bytes le ?n (store_bytes le ?n (eval \<rho> v) ?a (obj_byte \<rho> os)) ?a"
      using w(4)[OF b] b by (intro load_cong) (simp add: in_bounds_def)
    also have "\<dots> = eval \<rho> v"
      by (rule load_store[OF v])
    finally show ?thesis
      using r(2)[of \<rho>] b fits size by (simp add: fits_def)
  qed
  with w(1) r(1) show ?thesis by blast
qed

theorem object_read_after_write_witness:
  "\<exists>os' e c' os''. write_obj True sample_index (BinaryExpr Add (ConstantExpr (APInt 16 300)) (ZExtExpr (sample_byte 1) 16)) sample_object = Some os' \<and>
     read_obj True sample_index 16 (sample_context, os') = Some (e, c', os'') \<and> eval (\<lambda>a i. i + 2) e = 303"
proof -
  let ?v = "BinaryExpr Add (ConstantExpr (APInt 16 300)) (ZExtExpr (sample_byte 1) 16)" and ?r = "\<lambda>a i. i + 2"
  have v: "wt ?v" "valid_width (getWidth ?v)" "getWidth ?v = 16" "0 < os_size sample_object"
      "bytes_of_width (getWidth ?v) = bytes_of_width 16"
    by (simp_all add: sample_object_ok fits_def valid_width_def sample_byte_def sample_array_def wf_array_def
        isSymbolicArray_def)
  have c: "in_bounds (os_size sample_object) sample_index (bytes_of_width (getWidth ?v)) \<rho>"
    if "isConstantExpr (create_ZExt sample_index 32)" for \<rho>
    using sample_index_proper(2) that by simp
  have o: "offset32 ?r sample_index = 2" "bytes_of_width (getWidth ?v) = 2" "eval ?r ?v = 303"
    by code_simp+
  have "in_bounds (os_size sample_object) sample_index (bytes_of_width (getWidth ?v)) ?r"
    by (simp only: in_bounds_def o sample_object_ok(2))
  note inb = this
  obtain os' e c' os'' where "write_obj True sample_index ?v sample_object = Some os'"
      "read_obj True sample_index (getWidth ?v) (sample_context, os') = Some (e, c', os'')"
      "\<forall>\<rho>. in_bounds (os_size sample_object) sample_index (bytes_of_width (getWidth ?v)) \<rho> \<longrightarrow> eval \<rho> e = eval \<rho> ?v"
    using object_read_after_write[OF sample_object_ok(1) v(4) sample_index_proper(1)[folded v(5)] v(1,2) c, of True sample_context]
    by blast
  then show ?thesis
    using inb o(3) v(3) by (intro exI[of _ os'] exI[of _ e] exI[of _ c'] exI[of _ os'']) (simp only: simp_thms)
qed

text \<open>C17: The bounds check of an access of \<open>bytes\<close> bytes at a pointer is a boolean expression that is
  true exactly when the access starts at an offset from the base, modulo the address space, with
  that many bytes left in the object.\<close>

theorem bounds_check_exact:
  assumes "wt p" "getWidth p = pw" "int (mo_size mo) < 2 ^ pw - 1" "0 < bytes"
  shows "wt (getBoundsCheckPointer_bytes pw mo p bytes) \<and> getWidth (getBoundsCheckPointer_bytes pw mo p bytes) = 1 \<and>
         (eval \<rho> (getBoundsCheckPointer_bytes pw mo p bytes) = 1 \<longleftrightarrow>
            take_bit pw (eval \<rho> p - uint (address mo)) + int bytes \<le> int (mo_size mo)) \<and>
         (0 < mo_size mo \<longrightarrow>
            (eval \<rho> (getBoundsCheckPointer pw mo p) = 1 \<longleftrightarrow>
               take_bit pw (eval \<rho> p - uint (address mo)) < int (mo_size mo)))"
proof -
  have pw: "0 < pw"
    using wt_width_pos assms(1,2) by auto
  let ?off = "getOffsetExpr pw mo p"
  have off: "wt ?off" "getWidth ?off = pw" "eval \<rho> ?off = take_bit pw (eval \<rho> p - uint (address mo))"
    using simplifiesD[OF simplifies_create_Sub[of p "getBaseExpr pw mo"]] assms(1,2) pw
    by (simp_all add: getOffsetExpr_def getBaseExpr_def alloc_Const_def apint_of_def bv_sub_def)
  have ult: "wt (create_Ult ?off (alloc_Const pw n)) \<and> getWidth (create_Ult ?off (alloc_Const pw n)) = 1 \<and>
      eval \<rho> (create_Ult ?off (alloc_Const pw n)) = of_bool (eval \<rho> ?off < n)" if "fits pw n" for n
    using simplifiesD[OF simplifies_create_Binary[of Ult ?off "alloc_Const pw n"]] off(1,2) pw eval_alloc_Const[OF that]
    by (simp add: isDivKind_def)
  have f: "fits pw (int (mo_size mo))" "fits pw (int (mo_size mo - bytes + 1))"
    using assms(3,4) pw one_less_power[of "2 :: int" pw] unfolding fits_def
    by (linarith, cases "bytes \<le> mo_size mo") (simp_all add: of_nat_diff)
  have "\<not> bytes \<le> mo_size mo \<Longrightarrow> \<not> take_bit pw (eval \<rho> p - uint (address mo)) + int bytes \<le> int (mo_size mo)"
    using take_bit_nonnegative[of pw "eval \<rho> p - uint (address mo)"] by linarith
  moreover have "eval \<rho> (alloc_Const 1 0) = 0"
    by (rule eval_alloc_Const) simp
  ultimately show ?thesis
    using ult[OF f(1)] ult[OF f(2)] off(3) assms(3,4)
    by (auto simp: getBoundsCheckPointer_bytes_def getBoundsCheckOffset_bytes_def getBoundsCheckPointer_def
        getBoundsCheckOffset_def getSizeExpr_def of_nat_diff of_bool_eq_iff)
qed

theorem bounds_check_exact_witness:
  "eval sample_env (getBoundsCheckPointer_bytes 64 sample_mo (ConstantExpr (APInt 64 4108)) 4) = 1 \<and>
   eval sample_env (getBoundsCheckPointer_bytes 64 sample_mo (ConstantExpr (APInt 64 4109)) 4) \<noteq> 1"
proof -
  have "wt (ConstantExpr (APInt 64 4108))" "wt (ConstantExpr (APInt 64 4109))" "int (mo_size sample_mo) < 2 ^ 64 - 1"
    by (simp_all add: fits_def sample_mo_def)
  moreover have "take_bit 64 (4108 - uint (address sample_mo)) + 4 \<le> int (mo_size sample_mo)"
    "\<not> take_bit 64 (4109 - uint (address sample_mo)) + 4 \<le> int (mo_size sample_mo)"
    by (simp_all add: sample_mo_def)
  ultimately show ?thesis
    using bounds_check_exact[of "ConstantExpr (APInt 64 4108)" 64 sample_mo 4 sample_env]
      bounds_check_exact[of "ConstantExpr (APInt 64 4109)" 64 sample_mo 4 sample_env]
    by simp
qed

end
