(* ===== verification/Solver.thy ===== *)
theory Solver
  imports ExprCreateCorrect
begin

text \<open>
  Queries, the interface of solver implementations and the facade over it
  (\<^verbatim>\<open>include/klee/Solver.h\<close>, \<^verbatim>\<open>include/klee/SolverImpl.h\<close>, \<^verbatim>\<open>lib/klee/Solver/Solver.cpp\<close>, \<^verbatim>\<open>SolverImpl.cpp\<close>,
  \<^verbatim>\<open>DummySolver.cpp\<close>). An implementation is a record of operations on a state \<open>'s\<close>; an operation that
  returns \<open>false\<close> (a failure) gives \<open>None\<close>. The locale \<open>solver_contract\<close> states what the documentation
  promises of an implementation, against the value of expressions.
\<close>

section \<open>Queries\<close>

record query =
  constraints :: "expr list"
  qexpr :: expr

definition withExpr :: "query \<Rightarrow> expr \<Rightarrow> query" where
  "withExpr q e = q\<lparr>qexpr := e\<rparr>"
definition withFalse :: "query \<Rightarrow> query" where
  "withFalse q = withExpr q (alloc_Const 1 0)"
definition negateExpr :: "query \<Rightarrow> query" where
  "negateExpr q = withExpr q (createIsZero (qexpr q))"

lemma withExpr_sel [simp]:
  "constraints (withExpr q e) = constraints q" "qexpr (withExpr q e) = e"
  by (simp_all add: withExpr_def)

lemma negateExpr_sel [simp]:
  "constraints (negateExpr q) = constraints q" "qexpr (negateExpr q) = createIsZero (qexpr q)"
  by (simp_all add: negateExpr_def)

text \<open>Environments that satisfy the constraints, and validity of the query expression in them.\<close>

definition holds :: "env \<Rightarrow> expr \<Rightarrow> bool" where
  "holds \<rho> e \<longleftrightarrow> eval \<rho> e \<noteq> 0"

definition models :: "env \<Rightarrow> expr list \<Rightarrow> bool" where
  "models \<rho> cs \<longleftrightarrow> list_all (holds \<rho>) cs"

definition valid :: "query \<Rightarrow> bool" where
  "valid q \<longleftrightarrow> (\<forall>\<rho>. models \<rho> (constraints q) \<longrightarrow> holds \<rho> (qexpr q))"

definition refuted :: "query \<Rightarrow> bool" where
  "refuted q \<longleftrightarrow> (\<forall>\<rho>. models \<rho> (constraints q) \<longrightarrow> \<not> holds \<rho> (qexpr q))"

text \<open>
  The constraints of a state are boolean and have a solution; \<open>query_ok\<close> is what every query of
  the interpreter satisfies, \<open>bool_query\<close> adds the type of the expression.
\<close>

definition constraints_ok :: "expr list \<Rightarrow> bool" where
  "constraints_ok cs \<longleftrightarrow> list_all (\<lambda>c. wt c \<and> getWidth c = 1) cs \<and> (\<exists>\<rho>. models \<rho> cs)"

definition query_ok :: "query \<Rightarrow> bool" where
  "query_ok q \<longleftrightarrow> constraints_ok (constraints q) \<and> wt (qexpr q)"

definition bool_query :: "query \<Rightarrow> bool" where
  "bool_query q \<longleftrightarrow> query_ok q \<and> getWidth (qexpr q) = 1"

lemma createIsZero_bool:
  assumes "wt e" "getWidth e = 1"
  shows "wt (createIsZero e)" "getWidth (createIsZero e) = 1"
    "holds \<rho> (createIsZero e) \<longleftrightarrow> \<not> holds \<rho> e"
proof -
  have wt: "wt (BinaryExpr Eq e (alloc_Const (getWidth e) 0))"
    using assms by (simp add: alloc_Const_def apint_of_def)
  show "wt (createIsZero e)" "getWidth (createIsZero e) = 1"
    "holds \<rho> (createIsZero e) \<longleftrightarrow> \<not> holds \<rho> e"
    using simplifiesD[OF simplifies_createIsZero wt]
    by (simp_all add: holds_def alloc_Const_def apint_of_def)
qed

lemma bool_query_negate [simp, intro]: "bool_query q \<Longrightarrow> bool_query (negateExpr q)"
  by (simp add: bool_query_def query_ok_def createIsZero_bool)

lemma query_ok_withExpr: "query_ok q \<Longrightarrow> wt e \<Longrightarrow> query_ok (withExpr q e)"
  by (simp add: query_ok_def)

lemma bool_query_withExpr: "query_ok q \<Longrightarrow> wt e \<Longrightarrow> getWidth e = 1 \<Longrightarrow> bool_query (withExpr q e)"
  by (simp add: query_ok_def bool_query_def)

lemma bool_queryD: "bool_query q \<Longrightarrow> query_ok q" "bool_query q \<Longrightarrow> getWidth (qexpr q) = 1"
  "bool_query q \<Longrightarrow> wt (qexpr q)"
  by (simp_all add: bool_query_def query_ok_def)

lemma valid_negate [simp]: "bool_query q \<Longrightarrow> valid (negateExpr q) \<longleftrightarrow> refuted q"
  by (simp add: valid_def refuted_def bool_query_def query_ok_def createIsZero_bool)

lemma refuted_negate [simp]: "bool_query q \<Longrightarrow> refuted (negateExpr q) \<longleftrightarrow> valid q"
  by (simp add: valid_def refuted_def bool_query_def query_ok_def createIsZero_bool)

lemma valid_not_refuted: "query_ok q \<Longrightarrow> valid q \<Longrightarrow> \<not> refuted q"
  by (auto simp: valid_def refuted_def query_ok_def constraints_ok_def)

lemma not_valid_iff: "\<not> valid q \<longleftrightarrow> (\<exists>\<rho>. models \<rho> (constraints q) \<and> \<not> holds \<rho> (qexpr q))"
  by (simp add: valid_def)

lemma valid_withFalse: "query_ok q \<Longrightarrow> \<not> valid (withFalse q)"
  by (auto simp: valid_def withFalse_def query_ok_def constraints_ok_def holds_def alloc_Const_def apint_of_def)

section \<open>Validity\<close>

datatype Validity = VTrue | VFalse | Unknown

definition validity_of :: "query \<Rightarrow> Validity" where
  "validity_of q = (if valid q then VTrue else if refuted q then VFalse else Unknown)"

text \<open>\<open>Solver::validity_to_str\<close>.\<close>

fun validity_to_str :: "Validity \<Rightarrow> string" where
  "validity_to_str VTrue = ''True''"
| "validity_to_str VFalse = ''False''"
| "validity_to_str Unknown = ''Unknown''"

section \<open>Implementations\<close>

text \<open>
  \<open>computeInitialValues\<close> gives the contents of the requested arrays, or \<open>None\<close> inside the result
  when it reports \<open>hasSolution = false\<close>.
\<close>

record 's solver_impl =
  computeTruth :: "query \<Rightarrow> 's \<Rightarrow> bool option \<times> 's"
  computeValidity :: "query \<Rightarrow> 's \<Rightarrow> Validity option \<times> 's"
  computeValue :: "query \<Rightarrow> 's \<Rightarrow> expr option \<times> 's"
  computeInitialValues :: "query \<Rightarrow> array list \<Rightarrow> 's \<Rightarrow> int list list option option \<times> 's"

text \<open>The default \<open>SolverImpl::computeValidity\<close>, for an implementation of \<open>computeTruth\<close>.\<close>

definition default_computeValidity ::
    "(query \<Rightarrow> 's \<Rightarrow> bool option \<times> 's) \<Rightarrow> query \<Rightarrow> 's \<Rightarrow> Validity option \<times> 's" where
  "default_computeValidity truth q s =
     (case truth q s of
        (None, s1) \<Rightarrow> (None, s1)
      | (Some True, s1) \<Rightarrow> (Some VTrue, s1)
      | (Some False, s1) \<Rightarrow>
          (case truth (negateExpr q) s1 of
             (None, s2) \<Rightarrow> (None, s2)
           | (Some True, s2) \<Rightarrow> (Some VFalse, s2)
           | (Some False, s2) \<Rightarrow> (Some Unknown, s2)))"

text \<open>\<open>SolverImpl::getOperationStatusString\<close>.\<close>

datatype SolverRunStatus =
    SUCCESS_SOLVABLE | SUCCESS_UNSOLVABLE | FAILURE | TIMEOUT | FORK_FAILED | INTERRUPTED
  | UNEXPECTED_EXIT_CODE | WAITPID_FAILED

fun getOperationStatusString :: "SolverRunStatus \<Rightarrow> string" where
  "getOperationStatusString SUCCESS_SOLVABLE = ''OPERATION SUCCESSFUL, QUERY IS SOLVABLE''"
| "getOperationStatusString SUCCESS_UNSOLVABLE = ''OPERATION SUCCESSFUL, QUERY IS UNSOLVABLE''"
| "getOperationStatusString FAILURE = ''OPERATION FAILED''"
| "getOperationStatusString TIMEOUT = ''SOLVER TIMEOUT''"
| "getOperationStatusString FORK_FAILED = ''FORK FAILED''"
| "getOperationStatusString INTERRUPTED = ''SOLVER PROCESS INTERRUPTED''"
| "getOperationStatusString UNEXPECTED_EXIT_CODE = ''UNEXPECTED SOLVER PROCESS EXIT CODE''"
| "getOperationStatusString WAITPID_FAILED = ''WAITPID FAILED FOR SOLVER PROCESS''"

section \<open>The contract\<close>

definition array_values :: "env \<Rightarrow> array \<Rightarrow> int list" where
  "array_values \<rho> a = map (\<lambda>i. initial_value \<rho> a (int i)) [0..<arr_size a]"

text \<open>What a successful answer of each operation says.\<close>

definition value_ok :: "query \<Rightarrow> expr \<Rightarrow> bool" where
  "value_ok q v \<longleftrightarrow> (\<exists>c \<rho>. v = ConstantExpr c \<and> getBitWidth c = getWidth (qexpr q) \<and>
     models \<rho> (constraints q) \<and> rawval c = eval \<rho> (qexpr q))"

definition counterexample_ok :: "query \<Rightarrow> array list \<Rightarrow> int list list option \<Rightarrow> bool" where
  "counterexample_ok q objs vs =
     (case vs of
        None \<Rightarrow> valid q
      | Some vals \<Rightarrow> (\<exists>\<rho>. models \<rho> (constraints q) \<and> \<not> holds \<rho> (qexpr q) \<and>
                          vals = map (array_values \<rho>) objs))"

locale solver_contract =
  fixes impl :: "'s solver_impl" and good :: "'s \<Rightarrow> bool"
  assumes truth: "\<lbrakk>good s; bool_query q; computeTruth impl q s = (r, s')\<rbrakk>
      \<Longrightarrow> good s' \<and> (\<forall>b. r = Some b \<longrightarrow> b = valid q)"
    and validity: "\<lbrakk>good s; bool_query q; computeValidity impl q s = (v, s')\<rbrakk>
      \<Longrightarrow> good s' \<and> (\<forall>b. v = Some b \<longrightarrow> b = validity_of q)"
    and some_value: "\<lbrakk>good s; query_ok q; computeValue impl q s = (e, s')\<rbrakk>
      \<Longrightarrow> good s' \<and> (\<forall>c. e = Some c \<longrightarrow> value_ok q c)"
    and initial_values: "\<lbrakk>good s; bool_query q; list_all wf_array objs;
        computeInitialValues impl q objs s = (vs, s')\<rbrakk>
      \<Longrightarrow> good s' \<and> (\<forall>w. vs = Some w \<longrightarrow> counterexample_ok q objs w)"

text \<open>The default validity satisfies the contract wherever the truth it asks for does.\<close>

lemma default_computeValidity_ok:
  assumes truth: "\<And>q s r s'. good s \<Longrightarrow> bool_query q \<Longrightarrow> truth q s = (r, s')
      \<Longrightarrow> good s' \<and> (\<forall>b. r = Some b \<longrightarrow> b = valid q)"
    and "good s" "bool_query q" "default_computeValidity truth q s = (v, s')"
  shows "good s' \<and> (\<forall>b. v = Some b \<longrightarrow> b = validity_of q)"
proof -
  obtain r s1 where 1: "truth q s = (r, s1)" by fastforce
  obtain r' s2 where 2: "truth (negateExpr q) s1 = (r', s2)" by fastforce
  have s1: "good s1" "r = Some b \<Longrightarrow> b = valid q" for b
    using truth[OF assms(2,3) 1] by auto
  have s2: "good s2" "r' = Some b \<Longrightarrow> b = refuted q" for b
    using truth[OF s1(1) bool_query_negate[OF assms(3)] 2] assms(3) by auto
  show ?thesis
    using assms(4) 1 2 s1 s2
    by (auto simp: default_computeValidity_def validity_of_def split: option.splits bool.splits)
qed

section \<open>The dummy solver\<close>

text \<open>Every operation fails; the state counts queries and counterexample queries.\<close>

type_synonym dummy_stats = "nat \<times> nat"

definition DummySolver :: "dummy_stats solver_impl" where
  "DummySolver =
     \<lparr>computeTruth = \<lambda>q (n, c). (None, (n + 1, c)),
      computeValidity = \<lambda>q (n, c). (None, (n + 1, c)),
      computeValue = \<lambda>q (n, c). (None, (n + 1, c + 1)),
      computeInitialValues = \<lambda>q objs (n, c). (None, (n + 1, c + 1))\<rparr>"

section \<open>The facade\<close>

definition evaluate_q :: "'s solver_impl \<Rightarrow> query \<Rightarrow> 's \<Rightarrow> Validity option \<times> 's" where
  "evaluate_q impl q s =
     (case dyn_Constant (qexpr q) of
        Some c \<Rightarrow> (Some (if CE_isTrue c then VTrue else VFalse), s)
      | None \<Rightarrow> computeValidity impl q s)"

definition mustBeTrue :: "'s solver_impl \<Rightarrow> query \<Rightarrow> 's \<Rightarrow> bool option \<times> 's" where
  "mustBeTrue impl q s =
     (case dyn_Constant (qexpr q) of
        Some c \<Rightarrow> (Some (CE_isTrue c), s)
      | None \<Rightarrow> computeTruth impl q s)"

definition mustBeFalse :: "'s solver_impl \<Rightarrow> query \<Rightarrow> 's \<Rightarrow> bool option \<times> 's" where
  "mustBeFalse impl q = mustBeTrue impl (negateExpr q)"

definition mayBeTrue :: "'s solver_impl \<Rightarrow> query \<Rightarrow> 's \<Rightarrow> bool option \<times> 's" where
  "mayBeTrue impl q s = (case mustBeFalse impl q s of (r, s') \<Rightarrow> (map_option Not r, s'))"

definition mayBeFalse :: "'s solver_impl \<Rightarrow> query \<Rightarrow> 's \<Rightarrow> bool option \<times> 's" where
  "mayBeFalse impl q s = (case mustBeTrue impl q s of (r, s') \<Rightarrow> (map_option Not r, s'))"

definition getValue :: "'s solver_impl \<Rightarrow> query \<Rightarrow> 's \<Rightarrow> apint option \<times> 's" where
  "getValue impl q s =
     (case dyn_Constant (qexpr q) of
        Some c \<Rightarrow> (Some c, s)
      | None \<Rightarrow>
          (case computeValue impl q s of
             (None, s') \<Rightarrow> (None, s')
           | (Some e, s') \<Rightarrow> (dyn_Constant e, s')))"

definition getInitialValues ::
    "'s solver_impl \<Rightarrow> query \<Rightarrow> array list \<Rightarrow> 's \<Rightarrow> int list list option \<times> 's" where
  "getInitialValues impl q objs s =
     (case computeInitialValues impl q objs s of
        (Some (Some vals), s') \<Rightarrow> (Some vals, s')
      | (_, s') \<Rightarrow> (None, s'))"

lemma constant_query:
  assumes "bool_query q" "dyn_Constant (qexpr q) = Some c"
  shows "valid q \<longleftrightarrow> CE_isTrue c" "refuted q \<longleftrightarrow> \<not> CE_isTrue c"
proof -
  have e: "qexpr q = ConstantExpr c"
    using assms(2) by (cases "qexpr q") simp_all
  then have "holds \<rho> (qexpr q) \<longleftrightarrow> CE_isTrue c" for \<rho>
    using assms(1) by (simp add: holds_def CE_isTrue_def bool_query_def)
  then show "valid q \<longleftrightarrow> CE_isTrue c" "refuted q \<longleftrightarrow> \<not> CE_isTrue c"
    using assms(1) by (auto simp: valid_def refuted_def bool_query_def query_ok_def constraints_ok_def)
qed

context solver_contract
begin

lemma evaluate_ok:
  assumes "good s" "bool_query q" "evaluate_q impl q s = (v, s')"
  shows "good s' \<and> (\<forall>b. v = Some b \<longrightarrow> b = validity_of q)"
  using assms validity[OF assms(1,2), of v s'] constant_query[OF assms(2)]
  by (auto simp: evaluate_q_def validity_of_def split: option.splits)

lemma mustBeTrue_ok:
  assumes "good s" "bool_query q" "mustBeTrue impl q s = (r, s')"
  shows "good s' \<and> (\<forall>b. r = Some b \<longrightarrow> b = valid q)"
  using assms truth[OF assms(1,2), of r s'] constant_query[OF assms(2)]
  by (auto simp: mustBeTrue_def split: option.splits)

lemma mustBeFalse_ok:
  assumes "good s" "bool_query q" "mustBeFalse impl q s = (r, s')"
  shows "good s' \<and> (\<forall>b. r = Some b \<longrightarrow> b = refuted q)"
  using mustBeTrue_ok[OF assms(1) bool_query_negate[OF assms(2)] assms(3)[unfolded mustBeFalse_def]]
    assms(2) by simp

lemma mayBeTrue_ok:
  assumes "good s" "bool_query q" "mayBeTrue impl q s = (r, s')"
  shows "good s' \<and> (\<forall>b. r = Some b \<longrightarrow> b = (\<not> refuted q))"
proof -
  obtain r1 where "mustBeFalse impl q s = (r1, s')" "r = map_option Not r1"
    using assms(3) by (auto simp: mayBeTrue_def split: prod.splits)
  with mustBeFalse_ok[OF assms(1,2)] show ?thesis by (cases r1) auto
qed

lemma mayBeFalse_ok:
  assumes "good s" "bool_query q" "mayBeFalse impl q s = (r, s')"
  shows "good s' \<and> (\<forall>b. r = Some b \<longrightarrow> b = (\<not> valid q))"
proof -
  obtain r1 where "mustBeTrue impl q s = (r1, s')" "r = map_option Not r1"
    using assms(3) by (auto simp: mayBeFalse_def split: prod.splits)
  with mustBeTrue_ok[OF assms(1,2)] show ?thesis by (cases r1) auto
qed

lemma getValue_ok:
  assumes "good s" "query_ok q" "getValue impl q s = (r, s')"
  shows "good s' \<and> (\<forall>c. r = Some c \<longrightarrow> value_ok q (ConstantExpr c))"
proof (cases "dyn_Constant (qexpr q)")
  case (Some c)
  then have "qexpr q = ConstantExpr c" by (cases "qexpr q") simp_all
  then show ?thesis
    using assms by (auto simp: getValue_def value_ok_def query_ok_def constraints_ok_def)
next
  case None
  then show ?thesis
    using assms some_value[OF assms(1,2)]
    by (auto simp: getValue_def value_ok_def split: option.splits prod.splits)
qed

lemma getInitialValues_ok:
  assumes "good s" "bool_query q" "list_all wf_array objs" "getInitialValues impl q objs s = (r, s')"
  shows "good s' \<and> (\<forall>w. r = Some w \<longrightarrow> counterexample_ok q objs (Some w))"
  using assms(4) initial_values[OF assms(1-3)]
  by (auto simp: getInitialValues_def split: option.splits prod.splits)

end

section \<open>Sequences of calls\<close>

inductive calls :: "'s solver_impl \<Rightarrow> 's \<Rightarrow> 's \<Rightarrow> bool" for impl where
  calls_none: "calls impl s s"
| calls_truth: "calls impl s s' \<Longrightarrow> bool_query q \<Longrightarrow> computeTruth impl q s' = (r, s'') \<Longrightarrow> calls impl s s''"
| calls_validity: "calls impl s s' \<Longrightarrow> bool_query q \<Longrightarrow> computeValidity impl q s' = (v, s'') \<Longrightarrow> calls impl s s''"
| calls_value: "calls impl s s' \<Longrightarrow> query_ok q \<Longrightarrow> computeValue impl q s' = (e, s'') \<Longrightarrow> calls impl s s''"
| calls_values: "calls impl s s' \<Longrightarrow> bool_query q \<Longrightarrow> list_all wf_array objs \<Longrightarrow>
    computeInitialValues impl q objs s' = (vs, s'') \<Longrightarrow> calls impl s s''"

context solver_contract
begin

lemma calls_good:
  "calls impl s s' \<Longrightarrow> good s \<Longrightarrow> good s'"
proof (induction rule: calls.induct)
  case (calls_truth s s' q r s'')
  then show ?case using truth[of s' q r s''] by simp
next
  case (calls_validity s s' q v s'')
  then show ?case using validity[of s' q v s''] by simp
next
  case (calls_value s s' q e s'')
  then show ?case using some_value[of s' q e s''] by simp
next
  case (calls_values s s' q objs vs s'')
  then show ?case using initial_values[of s' q objs vs s''] by simp
qed

end

interpretation dummy: solver_contract DummySolver "\<lambda>_. True"
  by unfold_locales (auto simp: DummySolver_def split: prod.splits)

section \<open>A perfect solver\<close>

text \<open>
  The documented behaviour of a core solver that always answers, as one function: the instance of
  the contract at which the properties of the solver chain are shown to apply.
\<close>

definition perfect_value :: "query \<Rightarrow> expr" where
  "perfect_value q = ConstantExpr (APInt (getWidth (qexpr q))
     (eval (SOME \<rho>. models \<rho> (constraints q)) (qexpr q)))"

definition perfect_values :: "query \<Rightarrow> array list \<Rightarrow> int list list option" where
  "perfect_values q objs =
     (if valid q then None
      else Some (map (array_values (SOME \<rho>. models \<rho> (constraints q) \<and> \<not> holds \<rho> (qexpr q))) objs))"

definition perfect_solver :: "unit solver_impl" where
  "perfect_solver =
     \<lparr>computeTruth = \<lambda>q s. (Some (valid q), s),
      computeValidity = \<lambda>q s. (Some (validity_of q), s),
      computeValue = \<lambda>q s. (Some (perfect_value q), s),
      computeInitialValues = \<lambda>q objs s. (Some (perfect_values q objs), s)\<rparr>"

lemma perfect_value_ok: "query_ok q \<Longrightarrow> value_ok q (perfect_value q)"
proof -
  assume "query_ok q"
  then have "models (SOME \<rho>. models \<rho> (constraints q)) (constraints q)"
    by (metis constraints_ok_def query_ok_def someI_ex)
  then show ?thesis
    by (auto simp: value_ok_def perfect_value_def)
qed

lemma perfect_values_ok: "counterexample_ok q objs (perfect_values q objs)"
proof (cases "valid q")
  case False
  then have "\<exists>\<rho>. models \<rho> (constraints q) \<and> \<not> holds \<rho> (qexpr q)"
    by (simp add: not_valid_iff)
  from someI_ex[OF this] False show ?thesis
    by (auto simp: counterexample_ok_def perfect_values_def)
qed (simp add: counterexample_ok_def perfect_values_def)

interpretation perfect: solver_contract perfect_solver "\<lambda>_. True"
  by unfold_locales (auto simp: perfect_solver_def perfect_value_ok perfect_values_ok)

end
