(* ===== verification/SolverCache.thy ===== *)
theory SolverCache
  imports Solver ExprCompare ExprProps
begin

text \<open>
  Partial answers, the staging of an incomplete solver before a complete one
  (\<^verbatim>\<open>include/klee/IncompleteSolver.h\<close>, \<^verbatim>\<open>lib/klee/Solver/IncompleteSolver.cpp\<close>), and the cache of
  answers keyed by canonical queries (\<^verbatim>\<open>lib/klee/Solver/CachingSolver.cpp\<close>).
\<close>

section \<open>Partial validity\<close>

datatype PartialValidity = MustBeTrue | MustBeFalse | MayBeTrue | MayBeFalse | TrueOrFalse | PVNone

text \<open>Negating \<open>None\<close> is an assertion failure.\<close>

fun negatePartialValidity :: "PartialValidity \<Rightarrow> PartialValidity option" where
  "negatePartialValidity MustBeTrue = Some MustBeFalse"
| "negatePartialValidity MustBeFalse = Some MustBeTrue"
| "negatePartialValidity MayBeTrue = Some MayBeFalse"
| "negatePartialValidity MayBeFalse = Some MayBeTrue"
| "negatePartialValidity TrueOrFalse = Some TrueOrFalse"
| "negatePartialValidity PVNone = None"

text \<open>What the documentation says of each value.\<close>

fun pv_ok :: "query \<Rightarrow> PartialValidity \<Rightarrow> bool" where
  "pv_ok q MustBeTrue = valid q"
| "pv_ok q MustBeFalse = refuted q"
| "pv_ok q MayBeTrue = (\<not> refuted q)"
| "pv_ok q MayBeFalse = (\<not> valid q)"
| "pv_ok q TrueOrFalse = (\<not> valid q \<and> \<not> refuted q)"
| "pv_ok q PVNone = True"

lemma pv_ok_negate:
  "bool_query q \<Longrightarrow> negatePartialValidity pv = Some pv' \<Longrightarrow> pv_ok (negateExpr q) pv' \<longleftrightarrow> pv_ok q pv"
  by (cases pv) auto

lemma negatePartialValidity_twice:
  "negatePartialValidity pv = Some pv' \<Longrightarrow> negatePartialValidity pv' = Some pv"
  by (cases pv) auto

section \<open>Staging\<close>

record incomplete_impl =
  ic_computeTruth :: "query \<Rightarrow> PartialValidity"
  ic_computeValidity :: "query \<Rightarrow> PartialValidity"
  ic_computeValue :: "query \<Rightarrow> expr option"
  ic_computeInitialValues :: "query \<Rightarrow> array list \<Rightarrow> int list list option option"

text \<open>The default \<open>IncompleteSolver::computeValidity\<close>.\<close>

definition default_ic_computeValidity :: "(query \<Rightarrow> PartialValidity) \<Rightarrow> query \<Rightarrow> PartialValidity" where
  "default_ic_computeValidity truth q =
     (let trueResult = truth q in
      if trueResult = MustBeTrue then MustBeTrue
      else let falseResult = truth (negateExpr q) in
        if falseResult = MustBeTrue then MustBeFalse
        else let trueCorrect = trueResult \<noteq> PVNone; falseCorrect = falseResult \<noteq> PVNone in
          if trueCorrect \<and> falseCorrect then TrueOrFalse
          else if trueCorrect then MayBeFalse
          else if falseCorrect then MayBeTrue
          else PVNone)"

definition staged_computeTruth ::
    "incomplete_impl \<Rightarrow> 's solver_impl \<Rightarrow> query \<Rightarrow> 's \<Rightarrow> bool option \<times> 's" where
  "staged_computeTruth primary secondary q s =
     (let trueResult = ic_computeTruth primary q in
      if trueResult \<noteq> PVNone then (Some (trueResult = MustBeTrue), s)
      else computeTruth secondary q s)"

definition staged_computeValidity ::
    "incomplete_impl \<Rightarrow> 's solver_impl \<Rightarrow> query \<Rightarrow> 's \<Rightarrow> Validity option \<times> 's" where
  "staged_computeValidity primary secondary q s =
     (case ic_computeValidity primary q of
        MustBeTrue \<Rightarrow> (Some VTrue, s)
      | MustBeFalse \<Rightarrow> (Some VFalse, s)
      | TrueOrFalse \<Rightarrow> (Some Unknown, s)
      | MayBeTrue \<Rightarrow>
          (case computeTruth secondary q s of
             (r, s') \<Rightarrow> (map_option (\<lambda>t. if t then VTrue else Unknown) r, s'))
      | MayBeFalse \<Rightarrow>
          (case computeTruth secondary (negateExpr q) s of
             (r, s') \<Rightarrow> (map_option (\<lambda>t. if t then VFalse else Unknown) r, s'))
      | PVNone \<Rightarrow> computeValidity secondary q s)"

definition staged_computeValue ::
    "incomplete_impl \<Rightarrow> 's solver_impl \<Rightarrow> query \<Rightarrow> 's \<Rightarrow> expr option \<times> 's" where
  "staged_computeValue primary secondary q s =
     (case ic_computeValue primary q of
        Some v \<Rightarrow> (Some v, s)
      | None \<Rightarrow> computeValue secondary q s)"

definition staged_computeInitialValues ::
    "incomplete_impl \<Rightarrow> 's solver_impl \<Rightarrow> query \<Rightarrow> array list \<Rightarrow> 's \<Rightarrow> int list list option option \<times> 's" where
  "staged_computeInitialValues primary secondary q objs s =
     (case ic_computeInitialValues primary q objs of
        Some vs \<Rightarrow> (Some vs, s)
      | None \<Rightarrow> computeInitialValues secondary q objs s)"

definition StagedSolver :: "incomplete_impl \<Rightarrow> 's solver_impl \<Rightarrow> 's solver_impl" where
  "StagedSolver primary secondary =
     \<lparr>computeTruth = staged_computeTruth primary secondary,
      computeValidity = staged_computeValidity primary secondary,
      computeValue = staged_computeValue primary secondary,
      computeInitialValues = staged_computeInitialValues primary secondary\<rparr>"

lemma StagedSolver_sel [simp]:
  "computeTruth (StagedSolver p i) = staged_computeTruth p i"
  "computeValidity (StagedSolver p i) = staged_computeValidity p i"
  "computeValue (StagedSolver p i) = staged_computeValue p i"
  "computeInitialValues (StagedSolver p i) = staged_computeInitialValues p i"
  by (simp_all add: StagedSolver_def)

text \<open>
  What an incomplete solver promises: every answer it gives is right. \<open>computeTruth\<close> does not answer
  \<open>MayBeTrue\<close>: the staged solver would take it for a refusal (\<open>staged_MayBeTrue\<close>).
\<close>

locale incomplete_contract =
  fixes primary :: incomplete_impl
  assumes ic_truth: "bool_query q \<Longrightarrow>
      ic_computeTruth primary q \<noteq> MayBeTrue \<and> pv_ok q (ic_computeTruth primary q)"
    and ic_validity: "bool_query q \<Longrightarrow> pv_ok q (ic_computeValidity primary q)"
    and ic_value: "query_ok q \<Longrightarrow> ic_computeValue primary q = Some v \<Longrightarrow> value_ok q v"
    and ic_values: "bool_query q \<Longrightarrow> list_all wf_array objs \<Longrightarrow>
      ic_computeInitialValues primary q objs = Some vs \<Longrightarrow> counterexample_ok q objs vs"

lemma default_ic_computeValidity_ok:
  assumes "\<And>q. bool_query q \<Longrightarrow> truth q \<noteq> MayBeTrue \<and> pv_ok q (truth q)"
    and "bool_query q"
  shows "pv_ok q (default_ic_computeValidity truth q)"
proof -
  have "valid q \<Longrightarrow> \<not> refuted q"
    using valid_not_refuted bool_queryD(1)[OF assms(2)] by blast
  then show ?thesis
    using assms(1)[OF assms(2)] assms(1)[OF bool_query_negate[OF assms(2)]] assms(2)
    by (cases "truth q"; cases "truth (negateExpr q)") (auto simp: default_ic_computeValidity_def Let_def)
qed

lemma staged_MayBeTrue:
  "ic_computeTruth primary q = MayBeTrue \<Longrightarrow> staged_computeTruth primary secondary q s = (Some False, s)"
  by (simp add: staged_computeTruth_def)

locale staged_contract =
  incomplete_contract primary + solver_contract impl good
  for primary :: incomplete_impl and impl :: "'s solver_impl" and good :: "'s \<Rightarrow> bool"

context staged_contract
begin

lemma staged_truth_ok:
  assumes "good s" "bool_query q" "staged_computeTruth primary impl q s = (r, s')"
  shows "good s' \<and> (\<forall>b. r = Some b \<longrightarrow> b = valid q)"
proof (cases "ic_computeTruth primary q = PVNone")
  case True
  then show ?thesis
    using assms truth[OF assms(1,2)] by (simp add: staged_computeTruth_def)
next
  case False
  then show ?thesis
    using assms ic_truth[OF assms(2)] valid_not_refuted[OF bool_queryD(1)[OF assms(2)]]
    by (cases "ic_computeTruth primary q") (auto simp: staged_computeTruth_def)
qed

lemma staged_validity_ok:
  assumes "good s" "bool_query q" "staged_computeValidity primary impl q s = (v, s')"
  shows "good s' \<and> (\<forall>b. v = Some b \<longrightarrow> b = validity_of q)"
proof -
  note pv = ic_validity[OF assms(2)]
  have excl: "valid q \<Longrightarrow> \<not> refuted q"
    using valid_not_refuted bool_queryD(1)[OF assms(2)] by blast
  obtain r s1 where 1: "computeTruth impl q s = (r, s1)" by fastforce
  obtain r' s2 where 2: "computeTruth impl (negateExpr q) s = (r', s2)" by fastforce
  have r: "good s1 \<and> (\<forall>b. r = Some b \<longrightarrow> b = valid q)"
    by (rule truth[OF assms(1,2) 1])
  have r': "good s2 \<and> (\<forall>b. r' = Some b \<longrightarrow> b = refuted q)"
    using truth[OF assms(1) bool_query_negate[OF assms(2)] 2] assms(2) by simp
  show ?thesis
  proof (cases "ic_computeValidity primary q")
    case PVNone
    then show ?thesis
      using validity[OF assms(1,2)] assms(3) by (simp add: staged_computeValidity_def)
  next
    case MayBeTrue
    then show ?thesis
      using assms(3) pv 1 r by (cases r) (auto simp: staged_computeValidity_def validity_of_def)
  next
    case MayBeFalse
    then show ?thesis
      using assms(3) pv 2 r' by (cases r') (auto simp: staged_computeValidity_def validity_of_def)
  qed (use assms(1,3) pv excl in \<open>auto simp: staged_computeValidity_def validity_of_def\<close>)
qed

lemma staged_value_ok:
  assumes "good s" "query_ok q" "staged_computeValue primary impl q s = (e, s')"
  shows "good s' \<and> (\<forall>c. e = Some c \<longrightarrow> value_ok q c)"
  using assms some_value[OF assms(1,2)] ic_value[OF assms(2)]
  by (cases "ic_computeValue primary q") (auto simp: staged_computeValue_def)

lemma staged_values_ok:
  assumes "good s" "bool_query q" "list_all wf_array objs"
    "staged_computeInitialValues primary impl q objs s = (vs, s')"
  shows "good s' \<and> (\<forall>w. vs = Some w \<longrightarrow> counterexample_ok q objs w)"
  using assms(1,4) initial_values[OF assms(1-3)] ic_values[OF assms(2,3)]
  by (cases "ic_computeInitialValues primary q objs") (auto simp: staged_computeInitialValues_def)

lemma staged_sound: "solver_contract (StagedSolver primary impl) good"
  by unfold_locales
    (unfold StagedSolver_sel,
     (rule staged_truth_ok staged_validity_ok staged_value_ok staged_values_ok; assumption)+)

end

sublocale staged_contract \<subseteq> staged: solver_contract "StagedSolver primary impl" good
  by (rule staged_sound)

section \<open>The cache\<close>

record 's caching_state =
  inner :: 's
  cache :: "expr list \<times> expr \<Rightarrow> PartialValidity option"
  cacheHits :: nat
  cacheMisses :: nat

definition canonicalizeQuery :: "(apint \<Rightarrow> 32 word) \<Rightarrow> expr \<Rightarrow> expr \<times> bool" where
  "canonicalizeQuery hv e =
     (let negated = createIsZero e in
      if expr_compare hv e negated < 0 then (e, False) else (negated, True))"

definition cacheLookup ::
    "(apint \<Rightarrow> 32 word) \<Rightarrow> query \<Rightarrow> 's caching_state \<Rightarrow> PartialValidity option" where
  "cacheLookup hv q st =
     (case canonicalizeQuery hv (qexpr q) of (ce, negationUsed) \<Rightarrow>
        (case cache st (constraints q, ce) of
           Some pv \<Rightarrow> (if negationUsed then negatePartialValidity pv else Some pv)
         | None \<Rightarrow> None))"

text \<open>
  The cache never holds \<open>None\<close> (lemma \<open>caching_good\<close> below), so the assertion of
  \<open>negatePartialValidity\<close> is not reached from a lookup. \<open>unordered_map::insert\<close> keeps an entry that is already there.\<close>

definition cacheInsert ::
    "(apint \<Rightarrow> 32 word) \<Rightarrow> query \<Rightarrow> PartialValidity \<Rightarrow> 's caching_state \<Rightarrow> 's caching_state" where
  "cacheInsert hv q result st =
     (case canonicalizeQuery hv (qexpr q) of (ce, negationUsed) \<Rightarrow>
        (case (if negationUsed then negatePartialValidity result else Some result) of
           Some cachedResult \<Rightarrow>
             (if cache st (constraints q, ce) = None
              then st\<lparr>cache := (cache st)((constraints q, ce) \<mapsto> cachedResult)\<rparr>
              else st)
         | None \<Rightarrow> st))"

definition cache_hit :: "'s caching_state \<Rightarrow> 's caching_state" where
  "cache_hit st = st\<lparr>cacheHits := cacheHits st + 1\<rparr>"
definition cache_miss :: "'s caching_state \<Rightarrow> 's caching_state" where
  "cache_miss st = st\<lparr>cacheMisses := cacheMisses st + 1\<rparr>"

text \<open>A call of the underlying solver.\<close>

definition with_inner :: "('s \<Rightarrow> 'a \<times> 's) \<Rightarrow> 's caching_state \<Rightarrow> 'a \<times> 's caching_state" where
  "with_inner f st = (case f (inner st) of (r, s') \<Rightarrow> (r, st\<lparr>inner := s'\<rparr>))"

fun validity_pv :: "Validity \<Rightarrow> PartialValidity" where
  "validity_pv VTrue = MustBeTrue"
| "validity_pv VFalse = MustBeFalse"
| "validity_pv Unknown = TrueOrFalse"

definition caching_computeValidity ::
    "(apint \<Rightarrow> 32 word) \<Rightarrow> 's solver_impl \<Rightarrow> query \<Rightarrow> 's caching_state \<Rightarrow> Validity option \<times> 's caching_state" where
  "caching_computeValidity hv solver q st =
     (case cacheLookup hv q st of
        Some MustBeTrue \<Rightarrow> (Some VTrue, cache_hit st)
      | Some MustBeFalse \<Rightarrow> (Some VFalse, cache_hit st)
      | Some TrueOrFalse \<Rightarrow> (Some Unknown, cache_hit st)
      | Some MayBeTrue \<Rightarrow>
          (case with_inner (computeTruth solver q) (cache_miss st) of
             (None, st1) \<Rightarrow> (None, st1)
           | (Some True, st1) \<Rightarrow> (Some VTrue, cacheInsert hv q MustBeTrue st1)
           | (Some False, st1) \<Rightarrow> (Some Unknown, cacheInsert hv q TrueOrFalse st1))
      | Some MayBeFalse \<Rightarrow>
          (case with_inner (computeTruth solver (negateExpr q)) (cache_miss st) of
             (None, st1) \<Rightarrow> (None, st1)
           | (Some True, st1) \<Rightarrow> (Some VFalse, cacheInsert hv q MustBeFalse st1)
           | (Some False, st1) \<Rightarrow> (Some Unknown, cacheInsert hv q TrueOrFalse st1))
      | Some PVNone \<Rightarrow> (None, st)
      | None \<Rightarrow>
          (case with_inner (computeValidity solver q) (cache_miss st) of
             (None, st1) \<Rightarrow> (None, st1)
           | (Some v, st1) \<Rightarrow> (Some v, cacheInsert hv q (validity_pv v) st1)))"

definition caching_computeTruth ::
    "(apint \<Rightarrow> 32 word) \<Rightarrow> 's solver_impl \<Rightarrow> query \<Rightarrow> 's caching_state \<Rightarrow> bool option \<times> 's caching_state" where
  "caching_computeTruth hv solver q st =
     (let cached = cacheLookup hv q st in
      if cached \<noteq> None \<and> cached \<noteq> Some MayBeTrue
      then (Some (cached = Some MustBeTrue), cache_hit st)
      else
        (case with_inner (computeTruth solver q) (cache_miss st) of
           (None, st1) \<Rightarrow> (None, st1)
         | (Some isValid, st1) \<Rightarrow>
             (Some isValid,
              cacheInsert hv q (if isValid then MustBeTrue
                                else if cached \<noteq> None then TrueOrFalse else MayBeFalse) st1)))"

definition CachingSolver :: "(apint \<Rightarrow> 32 word) \<Rightarrow> 's solver_impl \<Rightarrow> 's caching_state solver_impl" where
  "CachingSolver hv solver =
     \<lparr>computeTruth = caching_computeTruth hv solver,
      computeValidity = caching_computeValidity hv solver,
      computeValue = \<lambda>q st. with_inner (computeValue solver q) (cache_miss st),
      computeInitialValues = \<lambda>q objs st. with_inner (computeInitialValues solver q objs) (cache_miss st)\<rparr>"

lemma CachingSolver_sel [simp]:
  "computeTruth (CachingSolver hv i) = caching_computeTruth hv i"
  "computeValidity (CachingSolver hv i) = caching_computeValidity hv i"
  "computeValue (CachingSolver hv i) q st = with_inner (computeValue i q) (cache_miss st)"
  "computeInitialValues (CachingSolver hv i) q objs st = with_inner (computeInitialValues i q objs) (cache_miss st)"
  by (simp_all add: CachingSolver_def)

section \<open>Canonical queries\<close>

definition as_query :: "expr list \<times> expr \<Rightarrow> query" where
  "as_query k = \<lparr>constraints = fst k, qexpr = snd k\<rparr>"

lemma as_query_simps [simp]: "as_query (constraints q, e) = withExpr q e"
  by (simp add: as_query_def withExpr_def)

lemma canonicalizeQuery_cases:
  assumes "canonicalizeQuery hv e = (ce, neg)"
  shows "neg \<and> ce = createIsZero e \<or> \<not> neg \<and> ce = e"
  using assms by (auto simp: canonicalizeQuery_def Let_def split: if_splits)

text \<open>Every entry is right for every query it may be looked up for.\<close>

definition cache_ok :: "(expr list \<times> expr \<Rightarrow> PartialValidity option) \<Rightarrow> bool" where
  "cache_ok m \<longleftrightarrow>
     (\<forall>k pv. m k = Some pv \<longrightarrow> pv \<noteq> PVNone \<and> (bool_query (as_query k) \<longrightarrow> pv_ok (as_query k) pv))"

lemma cache_okD: "cache_ok m \<Longrightarrow> m k = Some pv \<Longrightarrow> pv \<noteq> PVNone"
  "cache_ok m \<Longrightarrow> m k = Some pv \<Longrightarrow> bool_query (as_query k) \<Longrightarrow> pv_ok (as_query k) pv"
  unfolding cache_ok_def by blast+

lemma withExpr_self [simp]: "withExpr q (qexpr q) = q"
  by (simp add: withExpr_def)

lemma withExpr_negate: "withExpr q (createIsZero (qexpr q)) = negateExpr q"
  by (simp add: negateExpr_def)

lemma cacheLookup_ok:
  assumes "cache_ok (cache st)" "bool_query q" "cacheLookup hv q st = Some pv"
  shows "pv \<noteq> PVNone" "pv_ok q pv"
proof -
  obtain ce neg where c: "canonicalizeQuery hv (qexpr q) = (ce, neg)" by fastforce
  then obtain pv0 where pv0: "cache st (constraints q, ce) = Some pv0"
    "(if neg then negatePartialValidity pv0 else Some pv0) = Some pv"
    using assms(3) by (auto simp: cacheLookup_def split: option.splits)
  note ok = cache_okD[OF assms(1) pv0(1)]
  have "pv \<noteq> PVNone \<and> pv_ok q pv"
  proof (cases neg)
    case True
    then have ce: "withExpr q ce = negateExpr q"
      using canonicalizeQuery_cases[OF c] by (simp add: withExpr_negate)
    have "negatePartialValidity pv0 = Some pv" using pv0 True by simp
    note n = this negatePartialValidity_twice[OF this]
    show ?thesis
      using ok ce n pv_ok_negate[OF assms(2) n(2)] assms(2) by (cases pv0) auto
  next
    case False
    then show ?thesis
      using canonicalizeQuery_cases[OF c] ok pv0 assms(2) by simp
  qed
  then show "pv \<noteq> PVNone" "pv_ok q pv" by simp_all
qed

lemma cacheInsert_sel [simp]: "inner (cacheInsert hv q pv st) = inner st"
  by (auto simp: cacheInsert_def split: prod.splits option.splits)

lemma cacheInsert_ok:
  assumes "cache_ok (cache st)" "bool_query q" "pv_ok q pv" "pv \<noteq> PVNone"
  shows "cache_ok (cache (cacheInsert hv q pv st))"
proof -
  obtain ce neg where c: "canonicalizeQuery hv (qexpr q) = (ce, neg)" by fastforce
  obtain pv' where n: "negatePartialValidity pv = Some pv'"
    using assms(4) by (cases pv) auto
  let ?pv = "if neg then pv' else pv"
  have "?pv \<noteq> PVNone \<and> pv_ok (withExpr q ce) ?pv"
    using canonicalizeQuery_cases[OF c] pv_ok_negate[OF assms(2) n] assms(3,4)
      negatePartialValidity_twice[OF n] by (cases neg) (auto simp: withExpr_negate)
  then show ?thesis
    using assms(1) c n by (auto simp: cacheInsert_def cache_ok_def)
qed

lemma with_inner_sel:
  assumes "with_inner f st = (r, st')"
  shows "f (inner st) = (r, inner st')" "cache st' = cache st" "cacheHits st' = cacheHits st"
    "cacheMisses st' = cacheMisses st"
  using assms by (auto simp: with_inner_def split: prod.splits)

lemma cache_hit_miss_sel [simp]:
  "inner (cache_hit st) = inner st" "cache (cache_hit st) = cache st"
  "inner (cache_miss st) = inner st" "cache (cache_miss st) = cache st"
  by (simp_all add: cache_hit_def cache_miss_def)

definition caching_good :: "('s \<Rightarrow> bool) \<Rightarrow> 's caching_state \<Rightarrow> bool" where
  "caching_good good st \<longleftrightarrow> good (inner st) \<and> cache_ok (cache st)"

context solver_contract
begin

lemma caching_truth_ok:
  assumes "caching_good good st" "bool_query q" "caching_computeTruth hv impl q st = (r, st')"
  shows "caching_good good st' \<and> (\<forall>b. r = Some b \<longrightarrow> b = valid q)"
proof -
  have g: "good (inner st)" "cache_ok (cache st)"
    using assms(1) by (simp_all add: caching_good_def)
  note lk = cacheLookup_ok[OF g(2) assms(2), of hv]
  have excl: "valid q \<Longrightarrow> \<not> refuted q"
    using valid_not_refuted bool_queryD(1)[OF assms(2)] by blast
  show ?thesis
  proof (cases "cacheLookup hv q st \<noteq> None \<and> cacheLookup hv q st \<noteq> Some MayBeTrue")
    case True
    then obtain pv where pv: "cacheLookup hv q st = Some pv" "pv \<noteq> MayBeTrue" by auto
    have "(pv = MustBeTrue) = valid q"
      using lk[OF pv(1)] pv(2) excl by (cases pv) auto
    then show ?thesis
      using assms(3) pv g by (auto simp: caching_computeTruth_def caching_good_def)
  next
    case False
    obtain t st1 where 1: "with_inner (computeTruth impl q) (cache_miss st) = (t, st1)" by fastforce
    note w = with_inner_sel[OF 1]
    have t: "good (inner st1) \<and> (\<forall>b. t = Some b \<longrightarrow> b = valid q)"
      using truth[OF g(1) assms(2)] w(1) by simp
    show ?thesis
    proof (cases t)
      case None
      then show ?thesis
        using assms(3) False 1 t w(2) g by (auto simp: caching_computeTruth_def caching_good_def)
    next
      case (Some b)
      let ?pv = "if b then MustBeTrue else if cacheLookup hv q st \<noteq> None then TrueOrFalse else MayBeFalse"
      have "pv_ok q ?pv"
        using t Some False lk[of MayBeTrue] by auto
      then have "cache_ok (cache (cacheInsert hv q ?pv st1))"
        using cacheInsert_ok[of st1 q ?pv hv] w(2) g assms(2) by simp
      then show ?thesis
        using assms(3) False 1 Some t by (auto simp: caching_computeTruth_def caching_good_def)
    qed
  qed
qed

lemma caching_insert_good:
  assumes "good (inner st1)" "cache_ok (cache st1)" "bool_query q" "pv_ok q pv" "pv \<noteq> PVNone"
  shows "caching_good good (cacheInsert hv q pv st1)"
  using assms cacheInsert_ok[OF assms(2-5)] by (simp add: caching_good_def)

lemma caching_validity_ok:
  assumes "caching_good good st" "bool_query q" "caching_computeValidity hv impl q st = (v, st')"
  shows "caching_good good st' \<and> (\<forall>b. v = Some b \<longrightarrow> b = validity_of q)"
proof -
  have g: "good (inner st)" "cache_ok (cache st)"
    using assms(1) by (simp_all add: caching_good_def)
  note lk = cacheLookup_ok[OF g(2) assms(2), of hv]
  have excl: "valid q \<Longrightarrow> \<not> refuted q"
    using valid_not_refuted bool_queryD(1)[OF assms(2)] by blast
  have hit: "caching_good good (cache_hit st)"
    using assms(1) by (simp add: caching_good_def)
  note defs = caching_computeValidity_def validity_of_def
  show ?thesis
  proof (cases "cacheLookup hv q st")
    case None
    obtain t st1 where 1: "with_inner (computeValidity impl q) (cache_miss st) = (t, st1)" by fastforce
    note w = with_inner_sel[OF 1]
    have t: "good (inner st1) \<and> (\<forall>b. t = Some b \<longrightarrow> b = validity_of q)"
      using validity[OF g(1) assms(2)] w(1) by simp
    have "caching_good good (cacheInsert hv q (validity_pv (validity_of q)) st1)"
      using caching_insert_good[of st1 q "validity_pv (validity_of q)" hv] t w(2) g(2) assms(2)
      by (auto simp: validity_of_def)
    note ins = this
    show ?thesis
    proof (cases t)
      case None
      then have "v = None" "st' = st1"
        using assms(3) \<open>cacheLookup hv q st = None\<close> 1 by (simp_all add: caching_computeValidity_def)
      then show ?thesis
        using t w(2) g(2) by (simp add: caching_good_def)
    next
      case (Some b)
      then have "v = Some b" "st' = cacheInsert hv q (validity_pv b) st1"
        using assms(3) None 1 by (simp_all add: caching_computeValidity_def)
      then show ?thesis
        using t Some ins by simp
    qed
  next
    case (Some pv)
    note pv = lk[OF Some]
    show ?thesis
    proof (cases pv)
      case MayBeTrue
      obtain t st1 where 1: "with_inner (computeTruth impl q) (cache_miss st) = (t, st1)" by fastforce
      note w = with_inner_sel[OF 1]
      have t: "good (inner st1) \<and> (\<forall>b. t = Some b \<longrightarrow> b = valid q)"
        using truth[OF g(1) assms(2)] w(1) by simp
      have ins: "pv_ok q p \<Longrightarrow> p \<noteq> PVNone \<Longrightarrow> caching_good good (cacheInsert hv q p st1)" for p
        using t w(2) g(2) assms(2) by (intro caching_insert_good) simp_all
      consider "t = None" | "t = Some True" | "t = Some False" by (cases t) auto
      then show ?thesis
      proof cases
        case 1
        then show ?thesis
          using assms(3) Some MayBeTrue \<open>with_inner _ _ = _\<close> t w(2) g(2)
          by (auto simp: caching_computeValidity_def caching_good_def)
      next
        case 2
        then show ?thesis
          using assms(3) Some MayBeTrue \<open>with_inner _ _ = _\<close> t ins[of MustBeTrue]
          by (auto simp: defs)
      next
        case 3
        then show ?thesis
          using assms(3) Some MayBeTrue \<open>with_inner _ _ = _\<close> t pv ins[of TrueOrFalse]
          by (auto simp: defs)
      qed
    next
      case MayBeFalse
      obtain t st1 where 1: "with_inner (computeTruth impl (negateExpr q)) (cache_miss st) = (t, st1)"
        by fastforce
      note w = with_inner_sel[OF 1]
      have t: "good (inner st1) \<and> (\<forall>b. t = Some b \<longrightarrow> b = refuted q)"
        using truth[OF g(1) bool_query_negate[OF assms(2)]] w(1) assms(2) by simp
      have ins: "pv_ok q p \<Longrightarrow> p \<noteq> PVNone \<Longrightarrow> caching_good good (cacheInsert hv q p st1)" for p
        using t w(2) g(2) assms(2) by (intro caching_insert_good) simp_all
      consider "t = None" | "t = Some True" | "t = Some False" by (cases t) auto
      then show ?thesis
      proof cases
        case 1
        then show ?thesis
          using assms(3) Some MayBeFalse \<open>with_inner _ _ = _\<close> t w(2) g(2)
          by (auto simp: caching_computeValidity_def caching_good_def)
      next
        case 2
        then show ?thesis
          using assms(3) Some MayBeFalse \<open>with_inner _ _ = _\<close> t pv ins[of MustBeFalse]
          by (auto simp: defs)
      next
        case 3
        then show ?thesis
          using assms(3) Some MayBeFalse \<open>with_inner _ _ = _\<close> t pv ins[of TrueOrFalse]
          by (auto simp: defs)
      qed
    qed (use assms(3) Some pv hit excl in \<open>auto simp: defs\<close>)
  qed
qed

lemma caching_inner_ok:
  assumes "caching_good good st" "with_inner f (cache_miss st) = (r, st')"
    and "\<And>s'. good (inner st) \<Longrightarrow> f (inner st) = (r, s') \<Longrightarrow> good s' \<and> P"
  shows "caching_good good st' \<and> P"
  using assms(1,3) with_inner_sel[OF assms(2)] by (simp add: caching_good_def)

lemma caching_sound: "solver_contract (CachingSolver hv impl) (caching_good good)"
proof
  fix st q e st'
  assume "caching_good good st" "query_ok q" "computeValue (CachingSolver hv impl) q st = (e, st')"
  then show "caching_good good st' \<and> (\<forall>c. e = Some c \<longrightarrow> value_ok q c)"
    unfolding CachingSolver_sel
    by (elim caching_inner_ok) (assumption, rule some_value)
next
  fix st q objs vs st'
  assume "caching_good good st" "bool_query q" "list_all wf_array objs"
    "computeInitialValues (CachingSolver hv impl) q objs st = (vs, st')"
  then show "caching_good good st' \<and> (\<forall>w. vs = Some w \<longrightarrow> counterexample_ok q objs w)"
    unfolding CachingSolver_sel
    by (elim caching_inner_ok) (assumption, rule initial_values)
qed (unfold CachingSolver_sel, (rule caching_truth_ok caching_validity_ok; assumption)+)

end

interpretation caching_dummy: solver_contract "CachingSolver hv DummySolver" "caching_good (\<lambda>_. True)" for hv
  by (rule dummy.caching_sound)

section \<open>Properties\<close>

definition empty_cache :: "'s \<Rightarrow> 's caching_state" where
  "empty_cache s = \<lparr>inner = s, cache = Map.empty, cacheHits = 0, cacheMisses = 0\<rparr>"

lemma caching_good_empty [simp]: "caching_good good (empty_cache s) \<longleftrightarrow> good s"
  by (simp add: caching_good_def empty_cache_def cache_ok_def)

text \<open>C18: The caching solver is sound over any solver that is: starting from an empty cache and
  after any sequence of calls, whatever was stored for a query or for its negation, \<open>computeTruth\<close>
  answers whether the query is valid and \<open>computeValidity\<close> whether it is valid, refuted or
  neither, in all environments that satisfy the constraints.\<close>

theorem CachingSolver_sound:
  assumes "solver_contract S good" "good s" "calls (CachingSolver hv S) (empty_cache s) st" "bool_query q"
  shows "(\<forall>b st'. computeTruth (CachingSolver hv S) q st = (Some b, st') \<longrightarrow> b = valid q) \<and>
         (\<forall>v st'. computeValidity (CachingSolver hv S) q st = (Some v, st') \<longrightarrow> v = validity_of q)"
proof -
  note c = solver_contract.caching_sound[OF assms(1), of hv]
  have "caching_good good st"
    using solver_contract.calls_good[OF c assms(3)] assms(2) by simp
  note good = this
  show ?thesis
    by (auto dest: solver_contract.truth[OF c good assms(4)] solver_contract.validity[OF c good assms(4)]
        simp del: CachingSolver_sel)
qed

definition sample_query :: "bkind \<Rightarrow> int \<Rightarrow> query" where
  "sample_query k n = \<lparr>constraints = [BinaryExpr Ult (sample_byte 0) (ConstantExpr (APInt 8 10))],
     qexpr = BinaryExpr k (ConstantExpr (APInt 8 n)) (sample_byte 0)\<rparr>"

lemma eval_sample_byte [simp]: "0 \<le> i \<Longrightarrow> i < 16 \<Longrightarrow> eval \<rho> (sample_byte i) = take_bit 8 (\<rho> sample_array i)"
  by (simp add: sample_byte_def initial_value_def isConstantArray_def isSymbolicArray_def sample_array_def)

lemma wt_sample_byte [simp]: "0 \<le> i \<Longrightarrow> i < 16 \<Longrightarrow> wt (sample_byte i)" "getWidth (sample_byte i) = 8"
  by (simp_all add: sample_byte_def wf_array_def isSymbolicArray_def sample_array_def fits_def)

lemma fits_8_10 [simp]: "fits 8 10"
  by (simp add: fits_def)

lemma sample_query_ok: "fits 8 n \<Longrightarrow> isCmpKind k \<Longrightarrow> bool_query (sample_query k n)"
proof -
  assume n: "fits 8 n" and k: "isCmpKind k"
  have "models (\<lambda>_ _. 0) (constraints (sample_query k n))"
    by (simp add: sample_query_def models_def holds_def)
  then have "constraints_ok (constraints (sample_query k n))"
    unfolding constraints_ok_def by (intro conjI exI) (simp_all add: sample_query_def)
  then show ?thesis
    using n k by (simp add: bool_query_def query_ok_def sample_query_def)
qed

lemma sample_query_valid: "valid (sample_query Ugt 10)" "\<not> valid (sample_query Eq 5)"
  "\<not> refuted (sample_query Eq 5)"
proof -
  show "valid (sample_query Ugt 10)"
    by (simp add: sample_query_def valid_def models_def holds_def)
  show "\<not> valid (sample_query Eq 5)"
    unfolding not_valid_iff
    by (intro exI[of _ "\<lambda>_ _. 0"]) (simp add: sample_query_def models_def holds_def)
  show "\<not> refuted (sample_query Eq 5)"
    unfolding refuted_def not_all not_imp
    by (intro exI[of _ "\<lambda>_ _. 5"]) (simp add: sample_query_def models_def holds_def)
qed

theorem CachingSolver_sound_witness:
  "fst (computeTruth (CachingSolver (\<lambda>_. 0) perfect_solver) (sample_query Ugt 10) (empty_cache ())) = Some True \<and>
   fst (computeValidity (CachingSolver (\<lambda>_. 0) perfect_solver) (sample_query Eq 5) (empty_cache ())) = Some Unknown"
proof -
  let ?C = "CachingSolver (\<lambda>_. 0) perfect_solver" and ?st = "empty_cache () :: unit caching_state"
  have lk: "cacheLookup (\<lambda>_. 0) q ?st = None" for q
    by (simp add: empty_cache_def cacheLookup_def split: prod.splits)
  obtain b st1 where 1: "computeTruth ?C (sample_query Ugt 10) ?st = (Some b, st1)"
    using lk by (simp add: caching_computeTruth_def with_inner_def perfect_solver_def)
  obtain v st2 where 2: "computeValidity ?C (sample_query Eq 5) ?st = (Some v, st2)"
    using lk by (simp add: caching_computeValidity_def with_inner_def perfect_solver_def)
  note s = CachingSolver_sound[OF perfect.solver_contract_axioms TrueI calls_none, where hv = "\<lambda>_. 0"]
  have "b = valid (sample_query Ugt 10)"
    using s[OF sample_query_ok[of 10 Ugt]] 1 by (simp add: fits_def del: CachingSolver_sel)
  moreover have "v = validity_of (sample_query Eq 5)"
    using s[OF sample_query_ok[of 5 Eq]] 2 by (simp add: fits_def del: CachingSolver_sel)
  ultimately show ?thesis
    using 1 2 sample_query_valid by (simp add: validity_of_def del: CachingSolver_sel)
qed

lemma cacheLookup_cong: "cache st' = cache st \<Longrightarrow> cacheLookup hv q st' = cacheLookup hv q st"
  by (simp add: cacheLookup_def)

lemma cacheLookup_None:
  assumes "cache_ok (cache st)" "canonicalizeQuery hv (qexpr q) = (ce, neg)"
  shows "cacheLookup hv q st = None \<longleftrightarrow> cache st (constraints q, ce) = None"
proof (cases "cache st (constraints q, ce)")
  case (Some pv)
  then show ?thesis
    using assms(2) cache_okD(1)[OF assms(1) Some] by (cases pv) (simp_all add: cacheLookup_def)
qed (use assms(2) in \<open>simp add: cacheLookup_def\<close>)

lemma cacheLookup_insert:
  assumes "cache_ok (cache st)" "cacheLookup hv q st = None" "pv \<noteq> PVNone"
  shows "cacheLookup hv q (cacheInsert hv q pv st) = Some pv"
proof -
  obtain ce neg where c: "canonicalizeQuery hv (qexpr q) = (ce, neg)" by fastforce
  then show ?thesis
    using assms(2,3) cacheLookup_None[OF assms(1) c]
    by (cases pv) (simp_all add: cacheLookup_def cacheInsert_def)
qed

lemma cacheInsert_present:
  assumes "cache_ok (cache st)" "cacheLookup hv q st \<noteq> None"
  shows "cacheInsert hv q pv st = st"
proof -
  obtain ce neg where c: "canonicalizeQuery hv (qexpr q) = (ce, neg)" by fastforce
  then show ?thesis
    using assms(2) cacheLookup_None[OF assms(1) c]
    by (auto simp: cacheInsert_def split: option.splits)
qed

text \<open>C19: Repeating a call of \<open>computeTruth\<close> is answered from the cache, with the same answer and
  without asking the underlying solver; except after a hit on \<open>MayBeTrue\<close>, whose refined answer
  \<open>insert\<close> drops because the key is present, so that every repetition asks again.\<close>

theorem caching_reuse:
  assumes "cache_ok (cache st)" "caching_computeTruth hv S q st = (Some b, st')"
  shows "(cacheLookup hv q st \<noteq> Some MayBeTrue \<longrightarrow>
            caching_computeTruth hv S q st' = (Some b, cache_hit st')) \<and>
         (cacheLookup hv q st = Some MayBeTrue \<longrightarrow>
            cache st' = cache st \<and> cacheMisses st' = cacheMisses st + 1)"
proof (cases "cacheLookup hv q st \<noteq> None \<and> cacheLookup hv q st \<noteq> Some MayBeTrue")
  case True
  then have "st' = cache_hit st" "b = (cacheLookup hv q st = Some MustBeTrue)"
    using assms(2) by (auto simp: caching_computeTruth_def)
  then show ?thesis
    using True cacheLookup_cong[of "cache_hit st" st hv q] by (auto simp: caching_computeTruth_def)
next
  case False
  obtain r st1 where 1: "with_inner (computeTruth S q) (cache_miss st) = (r, st1)" by fastforce
  note w = with_inner_sel[OF 1]
  have lk: "cacheLookup hv q st1 = cacheLookup hv q st" and ok: "cache_ok (cache st1)"
    using cacheLookup_cong[of st1 st] w(2) assms(1) by simp_all
  let ?pv = "if b then MustBeTrue else if cacheLookup hv q st \<noteq> None then TrueOrFalse else MayBeFalse"
  have st': "st' = cacheInsert hv q ?pv st1"
    using assms(2) False 1 by (auto simp: caching_computeTruth_def split: option.splits)
  show ?thesis
  proof (cases "cacheLookup hv q st")
    case None
    then have "cacheLookup hv q st' = Some (if b then MustBeTrue else MayBeFalse)"
      using cacheLookup_insert[OF ok, of hv q ?pv] lk st' by (simp split: if_splits)
    then show ?thesis
      using None by (simp add: caching_computeTruth_def)
  next
    case (Some pv)
    then have "st' = st1"
      using cacheInsert_present[OF ok] lk st' by simp
    then show ?thesis
      using w False Some by (simp add: cache_miss_def)
  qed
qed

theorem caching_reuse_witness:
  "caching_computeTruth (\<lambda>_. 0) perfect_solver (sample_query Ugt 10)
     (snd (caching_computeTruth (\<lambda>_. 0) perfect_solver (sample_query Ugt 10) (empty_cache ()))) =
   (Some True, cache_hit (snd (caching_computeTruth (\<lambda>_. 0) perfect_solver (sample_query Ugt 10) (empty_cache ()))))"
proof -
  let ?st = "empty_cache () :: unit caching_state" and ?q = "sample_query Ugt 10"
  have ok: "cache_ok (cache ?st)" and lk: "cacheLookup (\<lambda>_. 0) ?q ?st = None"
    by (simp_all add: empty_cache_def cache_ok_def cacheLookup_def split: prod.splits)
  have "caching_computeTruth (\<lambda>_. 0) perfect_solver ?q ?st =
      (Some True, snd (caching_computeTruth (\<lambda>_. 0) perfect_solver ?q ?st))"
    using lk sample_query_valid(1)
    by (simp add: caching_computeTruth_def with_inner_def perfect_solver_def)
  from caching_reuse[OF ok this] lk show ?thesis by simp
qed

section \<open>Staging a partial solver\<close>

text \<open>A primary solver that decides truth and leaves validity to the default.\<close>

definition perfect_primary :: incomplete_impl where
  "perfect_primary =
     \<lparr>ic_computeTruth = \<lambda>q. if valid q then MustBeTrue else MayBeFalse,
      ic_computeValidity = default_ic_computeValidity (\<lambda>q. if valid q then MustBeTrue else MayBeFalse),
      ic_computeValue = \<lambda>q. Some (perfect_value q),
      ic_computeInitialValues = \<lambda>q objs. Some (perfect_values q objs)\<rparr>"

interpretation perfect_primary: incomplete_contract perfect_primary
proof
  show "pv_ok q (ic_computeValidity perfect_primary q)" if "bool_query q" for q
    unfolding perfect_primary_def incomplete_impl.simps
    by (rule default_ic_computeValidity_ok[OF _ that]) simp
qed (auto simp: perfect_primary_def perfect_value_ok perfect_values_ok)

interpretation staged_dummy: staged_contract perfect_primary DummySolver "\<lambda>_. True"
  by unfold_locales

text \<open>C20: Staging a partial solver before a sound solver is sound for each of the four operations, and the
  secondary solver is left untouched by every operation the primary one decides. The answers of the
  partial solver are right, and its \<open>computeTruth\<close> gives any of the values but \<open>MayBeTrue\<close>, which the
  staged solver reads as a refusal.\<close>

theorem StagedSolver_sound:
  assumes "incomplete_contract P" "solver_contract S good"
  shows "solver_contract (StagedSolver P S) good \<and>
    (ic_computeTruth P q \<noteq> PVNone \<longrightarrow> snd (computeTruth (StagedSolver P S) q s) = s) \<and>
    (ic_computeValidity P q \<in> {MustBeTrue, MustBeFalse, TrueOrFalse} \<longrightarrow>
       snd (computeValidity (StagedSolver P S) q s) = s) \<and>
    (ic_computeValue P q \<noteq> None \<longrightarrow> snd (computeValue (StagedSolver P S) q s) = s) \<and>
    (ic_computeInitialValues P q objs \<noteq> None \<longrightarrow>
       snd (computeInitialValues (StagedSolver P S) q objs s) = s)"
proof -
  have "staged_contract P S good"
    using assms by (simp add: staged_contract_def)
  then have "solver_contract (StagedSolver P S) good"
    by (rule staged_contract.staged_sound)
  then show ?thesis
    by (auto simp: staged_computeTruth_def staged_computeValidity_def staged_computeValue_def
        staged_computeInitialValues_def)
qed

theorem StagedSolver_sound_witness:
  "computeValidity (StagedSolver perfect_primary DummySolver) (sample_query Eq 5) (0, 0) = (Some Unknown, (0, 0))"
proof -
  have "ic_computeValidity perfect_primary (sample_query Eq 5) = TrueOrFalse"
    using sample_query_valid sample_query_ok[of 5 Eq]
    by (simp add: perfect_primary_def default_ic_computeValidity_def fits_def)
  moreover from this
  have "snd (computeValidity (StagedSolver perfect_primary DummySolver) (sample_query Eq 5) (0, 0)) = (0, 0)"
    using StagedSolver_sound[OF perfect_primary.incomplete_contract_axioms dummy.solver_contract_axioms,
        of "sample_query Eq 5" "(0, 0)"] by simp
  ultimately show ?thesis
    by (simp add: staged_computeValidity_def)
qed

end
