(* ===== verification/SolverRange.thy ===== *)
theory SolverRange
  imports Solver ExprProps "HOL-Library.Monad_Syntax"
begin

text \<open>
  The range of values an expression can take under the constraints of a query: \<open>Solver::getRange\<close>
  (\<^verbatim>\<open>lib/klee/Solver/Solver.cpp\<close>) with the bit operations of \<^verbatim>\<open>include/klee/util/Bits.h\<close> and the
  checked \<open>ConstantExpr::create\<close> it uses. Assertion failures, of which a failing solver is one here,
  are \<open>None\<close>.
\<close>

section \<open>Bits\<close>

definition maxValueOfNBits :: "nat \<Rightarrow> 64 word option" where
  "maxValueOfNBits N = (if 64 < N then None else if N = 0 then Some 0 else Some (drop_bit (64 - N) (- 1)))"

definition truncateToNBits :: "64 word \<Rightarrow> nat \<Rightarrow> 64 word" where
  "truncateToNBits x N = x AND drop_bit (64 - N) (- 1)"

definition ConstantExpr_create :: "64 word \<Rightarrow> nat \<Rightarrow> expr option" where
  "ConstantExpr_create v w =
     (if w \<le> 64 \<and> v \<noteq> truncateToNBits v w then None else Some (alloc_Const w (uint v)))"

lemma drop_bit_minus_1: "N \<le> 64 \<Longrightarrow> drop_bit (64 - N) (- 1 :: 64 word) = mask N"
  by (rule bit_word_eqI) (auto simp: bit_simps)

lemma maxValueOfNBits_eq: "N \<le> 64 \<Longrightarrow> maxValueOfNBits N = Some (mask N)"
  by (auto simp: maxValueOfNBits_def drop_bit_minus_1)

lemma truncateToNBits_eq: "N \<le> 64 \<Longrightarrow> truncateToNBits x N = take_bit N x"
  by (simp add: truncateToNBits_def drop_bit_minus_1 take_bit_eq_mask)

lemma take_bit_64_self: "unat v < 2 ^ w \<Longrightarrow> take_bit w v = (v :: 64 word)"
  by (rule unsigned_word_eqI[where 'a = nat]) (simp add: unsigned_take_bit_eq take_bit_nat_eq_self)

lemma uint_less_exp: "unat v < 2 ^ w \<Longrightarrow> uint v < 2 ^ w"
  by (metis of_nat_less_iff of_nat_numeral of_nat_power uint_nat)

lemma unat_less_exp: "uint v < 2 ^ w \<Longrightarrow> unat v < 2 ^ w"
  by (metis of_nat_less_iff of_nat_numeral of_nat_power uint_nat)

lemma ConstantExpr_create_ok:
  assumes "w \<le> 64" "unat v < 2 ^ w"
  shows "ConstantExpr_create v w = Some (ConstantExpr (APInt w (uint v)))"
proof -
  have "take_bit w (uint v) = uint (take_bit w v)"
    by (simp add: unsigned_take_bit_eq)
  also have "\<dots> = uint v"
    using take_bit_64_self[OF assms(2)] by simp
  finally show ?thesis
    using assms take_bit_64_self[OF assms(2)]
    by (simp add: ConstantExpr_create_def truncateToNBits_eq alloc_Const_def apint_of_def)
qed

lemma unat_mask_64: "N \<le> 64 \<Longrightarrow> unat (mask N :: 64 word) = 2 ^ N - 1"
proof -
  assume N: "N \<le> 64"
  have "unat (take_bit N (- 1 :: 64 word)) = take_bit N (mask LENGTH(64))"
    by (simp only: unsigned_take_bit_eq unsigned_minus_1_eq_mask)
  also have "\<dots> = mask N"
    using N by (simp only: take_bit_of_mask) (simp add: min_def)
  finally show ?thesis
    by (simp only: mask_eq_take_bit_minus_one[symmetric] mask_eq_exp_minus_1)
qed

section \<open>Binary search\<close>

text \<open>
  The loop all three searches share: the answer of \<open>test mid\<close> moves \<open>hi\<close> down to \<open>mid\<close> or \<open>lo\<close> up
  to \<open>mid + 1\<close>, in 64-bit arithmetic.
\<close>

definition midpoint :: "64 word \<Rightarrow> 64 word \<Rightarrow> 64 word" where
  "midpoint lo hi = lo + (hi - lo) div 2"

lemma midpoint:
  assumes "lo < hi"
  shows "unat (midpoint lo hi) = unat lo + (unat hi - unat lo) div 2"
    "lo \<le> midpoint lo hi" "midpoint lo hi < hi" "unat (midpoint lo hi + 1) = unat (midpoint lo hi) + 1"
proof -
  have less: "unat lo < unat hi" using assms by (simp add: word_less_nat_alt)
  have d: "unat ((hi - lo) div 2) = (unat hi - unat lo) div 2"
    using less by (simp add: unat_div unat_sub word_le_nat_alt)
  let ?m = "unat lo + (unat hi - unat lo) div 2"
  have m: "?m < unat hi" "unat hi < 2 ^ LENGTH(64)"
    using less unsigned_less[of hi, where ?'a = nat] by linarith+
  show eq: "unat (midpoint lo hi) = ?m"
    using m d by (simp add: midpoint_def unat_plus_if')
  show "lo \<le> midpoint lo hi" using eq by (simp add: word_le_nat_alt)
  show "midpoint lo hi < hi" using eq m by (simp add: word_less_nat_alt)
  show "unat (midpoint lo hi + 1) = unat (midpoint lo hi) + 1"
    using eq m by (simp add: unat_plus_if')
qed

function bsearch :: "(64 word \<Rightarrow> 's \<Rightarrow> bool option \<times> 's) \<Rightarrow> 64 word \<Rightarrow> 64 word \<Rightarrow> 's \<Rightarrow> (64 word \<times> 's) option" where
  "bsearch test lo hi s =
     (if lo < hi then
        (let mid = midpoint lo hi in
         case test mid s of
           (None, s') \<Rightarrow> None
         | (Some True, s') \<Rightarrow> bsearch test lo mid s'
         | (Some False, s') \<Rightarrow> bsearch test (mid + 1) hi s')
      else Some (lo, s))"
  by pat_completeness auto
termination
proof (relation "measure (\<lambda>(test, lo, hi, s). unat hi - unat lo)", goal_cases)
  case (2 test lo hi s mid)
  then show ?case
    using midpoint[OF 2(1)] by (auto simp: word_less_nat_alt word_le_nat_alt)
next
  case (3 test lo hi s mid)
  then show ?case
    using midpoint(1,4)[OF 3(1)] by (simp add: word_less_nat_alt word_le_nat_alt)
qed simp

declare bsearch.simps [simp del]

text \<open>The search returns the least value at which a monotone test answers true, or \<open>hi\<close>.\<close>

lemma bsearch_correct:
  assumes "lo \<le> hi" "good s"
    and "\<And>m s r s'. \<lbrakk>lo \<le> m; m < hi; good s; test m s = (r, s')\<rbrakk> \<Longrightarrow> good s' \<and> r = Some (P (unat m))"
    and "\<And>m n. m \<le> n \<Longrightarrow> P m \<Longrightarrow> P n"
  shows "\<exists>r s'. bsearch test lo hi s = Some (r, s') \<and> good s' \<and> lo \<le> r \<and> r \<le> hi \<and>
           (\<forall>m. unat lo \<le> m \<and> m < unat r \<longrightarrow> \<not> P m) \<and> (r < hi \<longrightarrow> P (unat r))"
  using assms(1-3)
proof (induction test lo hi s rule: bsearch.induct)
  case (1 test lo hi s)
  show ?case
  proof (cases "lo < hi")
    case False
    then show ?thesis using 1 by (subst bsearch.simps) auto
  next
    case True
    note m = midpoint[OF True]
    let ?mid = "midpoint lo hi"
    obtain r s1 where t: "test ?mid s = (r, s1)" by fastforce
    have s1: "good s1" "r = Some (P (unat ?mid))"
      using "1.prems"(3)[OF m(2,3) "1.prems"(2) t] by auto
    show ?thesis
    proof (cases "P (unat ?mid)")
      case P: True
      have IH: "\<exists>r s'. bsearch test lo ?mid s1 = Some (r, s') \<and> good s' \<and> lo \<le> r \<and> r \<le> ?mid \<and>
           (\<forall>m. unat lo \<le> m \<and> m < unat r \<longrightarrow> \<not> P m) \<and> (r < ?mid \<longrightarrow> P (unat r))"
      proof (rule "1.IH"(1)[OF True refl t[symmetric] _ _ m(2) s1(1)])
        show "r = Some True" using s1(2) P by simp
        show "good s' \<and> r = Some (P (unat k))"
          if "lo \<le> k" "k < ?mid" "good s" "test k s = (r, s')" for k s r s'
          using "1.prems"(3)[OF that(1) _ that(3,4)] that(2) m(3) by simp
      qed simp
      then obtain r' s' where r: "bsearch test lo ?mid s1 = Some (r', s')" "good s'" "lo \<le> r'" "r' \<le> ?mid"
        "\<forall>m. unat lo \<le> m \<and> m < unat r' \<longrightarrow> \<not> P m" "r' < ?mid \<longrightarrow> P (unat r')" by blast
      have "bsearch test lo hi s = bsearch test lo ?mid s1"
        using True t s1(2) P by (subst bsearch.simps) (simp add: Let_def)
      moreover have "P (unat r')"
        using r(4,6) P by (cases "r' < ?mid") auto
      ultimately show ?thesis
        using r m(3) by (intro exI[of _ r'] exI[of _ s']) simp
    next
      case P: False
      have le: "?mid + 1 \<le> hi" and lo: "lo \<le> ?mid + 1"
        using m by (simp_all add: word_le_nat_alt word_less_nat_alt)
      have IH: "\<exists>r s'. bsearch test (?mid + 1) hi s1 = Some (r, s') \<and> good s' \<and> ?mid + 1 \<le> r \<and> r \<le> hi \<and>
           (\<forall>m. unat (?mid + 1) \<le> m \<and> m < unat r \<longrightarrow> \<not> P m) \<and> (r < hi \<longrightarrow> P (unat r))"
      proof (rule "1.IH"(2)[OF True refl t[symmetric] _ _ le s1(1)])
        show "r = Some False" using s1(2) P by simp
        show "good s' \<and> r = Some (P (unat k))"
          if "?mid + 1 \<le> k" "k < hi" "good s" "test k s = (r, s')" for k s r s'
          using "1.prems"(3)[OF _ that(2-4)] that(1) lo by simp
      qed simp
      then obtain r' s' where r: "bsearch test (?mid + 1) hi s1 = Some (r', s')" "good s'" "?mid + 1 \<le> r'"
        "r' \<le> hi" "\<forall>m. unat (?mid + 1) \<le> m \<and> m < unat r' \<longrightarrow> \<not> P m" "r' < hi \<longrightarrow> P (unat r')"
        by blast
      have "\<not> P k" if "k < unat r'" for k
        using r(5) P assms(4)[of k "unat ?mid"] that m(4) by (cases "k \<le> unat ?mid") auto
      moreover have "bsearch test lo hi s = bsearch test (?mid + 1) hi s1"
        using True t s1(2) P by (subst bsearch.simps) (simp add: Let_def)
      ultimately show ?thesis
        using r lo by (intro exI[of _ r'] exI[of _ s']) simp
    qed
  qed
qed

section \<open>The range\<close>

definition useful_bits_query :: "query \<Rightarrow> 64 word \<Rightarrow> query option" where
  "useful_bits_query q mid = do {
     c \<leftarrow> ConstantExpr_create mid (getWidth (qexpr q));
     z \<leftarrow> ConstantExpr_create 0 (getWidth (qexpr q));
     Some (withExpr q (create_Eq (create_LShr (qexpr q) c) z))
   }"

definition zero_query :: "query \<Rightarrow> query option" where
  "zero_query q = do {
     z \<leftarrow> ConstantExpr_create 0 (getWidth (qexpr q));
     Some (withExpr q (create_Eq (qexpr q) z))
   }"

definition ule_query :: "query \<Rightarrow> 64 word \<Rightarrow> query option" where
  "ule_query q mid = do {
     c \<leftarrow> ConstantExpr_create mid (getWidth (qexpr q));
     Some (withExpr q (create_Ule (qexpr q) c))
   }"

text \<open>A question whose query is built with assertions.\<close>

definition ask :: "(query \<Rightarrow> 's \<Rightarrow> bool option \<times> 's) \<Rightarrow> query option \<Rightarrow> 's \<Rightarrow> bool option \<times> 's" where
  "ask f q s = (case q of None \<Rightarrow> (None, s) | Some q' \<Rightarrow> f q' s)"

definition range_result :: "nat \<Rightarrow> 64 word \<Rightarrow> 64 word \<Rightarrow> 's \<Rightarrow> ((expr \<times> expr) \<times> 's) option" where
  "range_result w lo hi s = do {
     a \<leftarrow> ConstantExpr_create lo w;
     b \<leftarrow> ConstantExpr_create hi w;
     Some ((a, b), s)
   }"

definition getRange_min :: "'s solver_impl \<Rightarrow> query \<Rightarrow> 64 word \<Rightarrow> 's \<Rightarrow> (64 word \<times> 's) option" where
  "getRange_min impl q hi s =
     (case ask (mayBeTrue impl) (zero_query q) s of
        (None, s') \<Rightarrow> None
      | (Some True, s') \<Rightarrow> Some (0, s')
      | (Some False, s') \<Rightarrow> bsearch (\<lambda>mid. ask (mayBeTrue impl) (ule_query q mid)) 0 hi s')"

definition getRange_search :: "'s solver_impl \<Rightarrow> query \<Rightarrow> 's \<Rightarrow> ((expr \<times> expr) \<times> 's) option" where
  "getRange_search impl q s = do {
     (bits, s1) \<leftarrow> bsearch (\<lambda>mid. ask (mustBeTrue impl) (useful_bits_query q mid)) 0
                      (of_nat (getWidth (qexpr q))) s;
     hi \<leftarrow> maxValueOfNBits (unat bits);
     (lo, s2) \<leftarrow> getRange_min impl q hi s1;
     (m, s3) \<leftarrow> bsearch (\<lambda>mid. ask (mustBeTrue impl) (ule_query q mid)) lo hi s2;
     range_result (getWidth (qexpr q)) lo m s3
   }"

definition getRange :: "'s solver_impl \<Rightarrow> query \<Rightarrow> 's \<Rightarrow> ((expr \<times> expr) \<times> 's) option" where
  "getRange impl q s =
     (if getWidth (qexpr q) = 1 then
        (case evaluate_q impl q s of
           (None, s') \<Rightarrow> None
         | (Some VTrue, s') \<Rightarrow> range_result 1 1 1 s'
         | (Some VFalse, s') \<Rightarrow> range_result 1 0 0 s'
         | (Some Unknown, s') \<Rightarrow> range_result 1 0 1 s')
      else case dyn_Constant (qexpr q) of
          Some c \<Rightarrow> (if getBitWidth c \<le> 64
                     then range_result (getBitWidth c) (word_of_int (rawval c)) (word_of_int (rawval c)) s
                     else None)
        | None \<Rightarrow> getRange_search impl q s)"

section \<open>Exactness\<close>

text \<open>The values the expression of a query takes.\<close>

definition values_of :: "query \<Rightarrow> int set" where
  "values_of q = {eval \<rho> (qexpr q) | \<rho>. models \<rho> (constraints q)}"

text \<open>An implementation that always decides truth and validity.\<close>

definition never_fails :: "'s solver_impl \<Rightarrow> ('s \<Rightarrow> bool) \<Rightarrow> bool" where
  "never_fails impl good \<longleftrightarrow>
     (\<forall>q s. bool_query q \<longrightarrow> good s \<longrightarrow>
        fst (computeTruth impl q s) \<noteq> None \<and> fst (computeValidity impl q s) \<noteq> None)"

lemma values_of_fits: "query_ok q \<Longrightarrow> v \<in> values_of q \<Longrightarrow> 0 \<le> v \<and> v < 2 ^ getWidth (qexpr q)"
  using fits_eval fits_def unfolding values_of_def query_ok_def by blast

lemma values_of_nonempty: "query_ok q \<Longrightarrow> values_of q \<noteq> {}"
  by (auto simp: values_of_def query_ok_def constraints_ok_def)

lemma valid_withExpr_iff: "valid (withExpr q e) \<longleftrightarrow> (\<forall>\<rho>. models \<rho> (constraints q) \<longrightarrow> holds \<rho> e)"
  by (simp add: valid_def)

lemma refuted_withExpr_iff: "refuted (withExpr q e) \<longleftrightarrow> (\<forall>\<rho>. models \<rho> (constraints q) \<longrightarrow> \<not> holds \<rho> e)"
  by (simp add: refuted_def)

lemma drop_bit_eq_0_iff: "0 \<le> (v :: int) \<Longrightarrow> drop_bit n v = 0 \<longleftrightarrow> v < 2 ^ n"
  by (auto simp: drop_bit_eq_div zdiv_eq_0_iff)

lemma useful_bits_query:
  assumes q: "query_ok q" and w: "getWidth (qexpr q) \<le> 64" "unat mid < getWidth (qexpr q)"
  obtains q' where "useful_bits_query q mid = Some q'" "bool_query q'"
    "valid q' \<longleftrightarrow> (\<forall>v \<in> values_of q. v < 2 ^ unat mid)"
proof -
  let ?e = "qexpr q" let ?w = "getWidth ?e"
  let ?c = "ConstantExpr (APInt ?w (uint mid))" and ?z = "ConstantExpr (APInt ?w 0)"
  have wt: "wt ?e" "0 < ?w" using q wt_width_pos by (auto simp: query_ok_def)
  have mid: "unat mid < 2 ^ ?w"
    using w(2) less_exp[of ?w] by linarith
  have c: "ConstantExpr_create mid ?w = Some ?c" "ConstantExpr_create 0 ?w = Some ?z"
    using ConstantExpr_create_ok[OF w(1) mid] ConstantExpr_create_ok[OF w(1), of 0] by simp_all
  have wtc: "wt ?c" "wt ?z" using wt(2) uint_less_exp[OF mid] by (simp_all add: fits_def)
  have s1: "simplifies (create_LShr ?e ?c) (BinaryExpr LShr ?e ?c)"
    using simplifies_create_Binary[of LShr ?e ?c] by (simp add: isDivKind_def)
  have wt1: "wt (BinaryExpr LShr ?e ?c)" using wt wtc by simp
  note d1 = simplifiesD[OF s1 wt1]
  have wt2: "wt (BinaryExpr Eq (create_LShr ?e ?c) ?z)" using d1 wtc by simp
  note d2 = simplifiesD[OF simplifies_create_Eq wt2]
  let ?q = "withExpr q (create_Eq (create_LShr ?e ?c) ?z)"
  have lt: "uint mid < int ?w"
    using w(2) by (metis of_nat_less_iff uint_nat)
  have "holds \<rho> (create_Eq (create_LShr ?e ?c) ?z) \<longleftrightarrow> eval \<rho> ?e < 2 ^ unat mid" for \<rho>
    using d1(3) d2(3) lt fits_nonneg[OF fits_eval[OF wt(1) refl]]
    by (simp add: holds_def bv_lshr_def shift_amount_def min_def drop_bit_eq_0_iff)
  then have "valid ?q \<longleftrightarrow> (\<forall>v \<in> values_of q. v < 2 ^ unat mid)"
    by (auto simp: valid_withExpr_iff values_of_def)
  moreover have "bool_query ?q"
    using bool_query_withExpr[OF q] d2(1,2) by simp
  moreover have "useful_bits_query q mid = Some ?q"
    using c by (simp add: useful_bits_query_def)
  ultimately show ?thesis using that by blast
qed

lemma zero_query:
  assumes q: "query_ok q" and w: "getWidth (qexpr q) \<le> 64"
  obtains q' where "zero_query q = Some q'" "bool_query q'"
    "\<not> refuted q' \<longleftrightarrow> 0 \<in> values_of q"
proof -
  let ?e = "qexpr q" let ?w = "getWidth ?e"
  let ?z = "ConstantExpr (APInt ?w 0)"
  have wt: "wt ?e" "0 < ?w" using q wt_width_pos by (auto simp: query_ok_def)
  have wt2: "wt (BinaryExpr Eq ?e ?z)" using wt by simp
  note d2 = simplifiesD[OF simplifies_create_Eq wt2]
  let ?q = "withExpr q (create_Eq ?e ?z)"
  have "\<not> refuted ?q \<longleftrightarrow> 0 \<in> values_of q"
    using d2(3) by (auto simp: refuted_withExpr_iff values_of_def holds_def)
  moreover have "bool_query ?q"
    using bool_query_withExpr[OF q] d2(1,2) by simp
  moreover have "zero_query q = Some ?q"
    using ConstantExpr_create_ok[OF w, of 0] by (simp add: zero_query_def)
  ultimately show ?thesis using that by blast
qed

lemma ule_query:
  assumes q: "query_ok q" and w: "getWidth (qexpr q) \<le> 64" and mid: "unat mid < 2 ^ getWidth (qexpr q)"
  obtains q' where "ule_query q mid = Some q'" "bool_query q'"
    "valid q' \<longleftrightarrow> (\<forall>v \<in> values_of q. v \<le> uint mid)"
    "\<not> refuted q' \<longleftrightarrow> (\<exists>v \<in> values_of q. v \<le> uint mid)"
proof -
  let ?e = "qexpr q" let ?w = "getWidth ?e"
  let ?c = "ConstantExpr (APInt ?w (uint mid))"
  have wt: "wt ?e" "0 < ?w" using q wt_width_pos by (auto simp: query_ok_def)
  have wt2: "wt (BinaryExpr Ule ?e ?c)" using wt uint_less_exp[OF mid] by (simp add: fits_def)
  have "simplifies (create_Ule ?e ?c) (BinaryExpr Ule ?e ?c)"
    using simplifies_create_Binary[of Ule ?e ?c] by (simp add: isDivKind_def)
  note d2 = simplifiesD[OF this wt2]
  let ?q = "withExpr q (create_Ule ?e ?c)"
  have "valid ?q \<longleftrightarrow> (\<forall>v \<in> values_of q. v \<le> uint mid)"
    "\<not> refuted ?q \<longleftrightarrow> (\<exists>v \<in> values_of q. v \<le> uint mid)"
    using d2(3) by (auto simp: refuted_withExpr_iff valid_withExpr_iff values_of_def holds_def)
  moreover have "bool_query ?q"
    using bool_query_withExpr[OF q] d2(1,2) by simp
  moreover have "ule_query q mid = Some ?q"
    using ConstantExpr_create_ok[OF w mid] by (simp add: ule_query_def)
  ultimately show ?thesis using that by blast
qed

context solver_contract
begin

lemma ask_ok:
  assumes "never_fails impl good" "good s" "bool_query q"
  shows "ask (mustBeTrue impl) (Some q) s = (r, s') \<Longrightarrow> good s' \<and> r = Some (valid q)"
    and "ask (mayBeTrue impl) (Some q) s = (r, s') \<Longrightarrow> good s' \<and> r = Some (\<not> refuted q)"
proof -
  have nf: "fst (mustBeTrue impl q s) \<noteq> None" if "bool_query q" for q
    using assms(1,2) that by (auto simp: mustBeTrue_def never_fails_def split: option.splits)
  show "good s' \<and> r = Some (valid q)" if "ask (mustBeTrue impl) (Some q) s = (r, s')"
  proof -
    have a: "mustBeTrue impl q s = (r, s')" using that by (simp add: ask_def)
    then obtain b where "r = Some b" using nf[OF assms(3)] by auto
    then show ?thesis using mustBeTrue_ok[OF assms(2,3) a] by simp
  qed
  show "good s' \<and> r = Some (\<not> refuted q)" if "ask (mayBeTrue impl) (Some q) s = (r, s')"
  proof -
    have a: "mayBeTrue impl q s = (r, s')" using that by (simp add: ask_def)
    then obtain b where "r = Some b"
      using nf[OF bool_query_negate[OF assms(3)]]
      by (auto simp: mayBeTrue_def mustBeFalse_def split: prod.splits)
    then show ?thesis using mayBeTrue_ok[OF assms(2,3) a] by simp
  qed
qed

lemma bits_ok:
  assumes nf: "never_fails impl good" and good: "good s" and q: "query_ok q" and w: "getWidth (qexpr q) \<le> 64"
  shows "\<exists>bits s'. bsearch (\<lambda>mid. ask (mustBeTrue impl) (useful_bits_query q mid)) 0
             (of_nat (getWidth (qexpr q))) s = Some (bits, s') \<and> good s' \<and>
           unat bits \<le> getWidth (qexpr q) \<and> (\<forall>v \<in> values_of q. v < 2 ^ unat bits)"
proof -
  let ?w = "getWidth (qexpr q)" let ?hi = "of_nat ?w :: 64 word"
  let ?t = "\<lambda>mid. ask (mustBeTrue impl) (useful_bits_query q mid)"
  let ?P = "\<lambda>m. \<forall>v \<in> values_of q. v < 2 ^ m"
  have hi: "unat ?hi = ?w"
    using w by (simp add: unat_of_nat take_bit_nat_eq_self)
  have "\<exists>r s'. bsearch ?t 0 ?hi s = Some (r, s') \<and> good s' \<and> 0 \<le> r \<and> r \<le> ?hi \<and>
      (\<forall>m. unat (0 :: 64 word) \<le> m \<and> m < unat r \<longrightarrow> \<not> ?P m) \<and> (r < ?hi \<longrightarrow> ?P (unat r))"
  proof (rule bsearch_correct[where good = good])
    fix m s r s' assume "m < ?hi" "good s" and a: "?t m s = (r, s')"
    then have "unat m < ?w" using hi by (simp add: word_less_nat_alt)
    then obtain q' where "useful_bits_query q m = Some q'" "bool_query q'" "valid q' \<longleftrightarrow> ?P (unat m)"
      using useful_bits_query[OF q w] by blast
    then show "good s' \<and> r = Some (?P (unat m))"
      using ask_ok(1)[OF nf \<open>good s\<close>, of q' r s'] a by simp
  next
    fix m n :: nat assume "m \<le> n" "?P m"
    then show "?P n"
      using power_increasing[of m n "2 :: int"] by (metis one_le_numeral order_less_le_trans)
  qed (simp_all add: good)
  then obtain r s' where r: "bsearch ?t 0 ?hi s = Some (r, s')" "good s'" "r \<le> ?hi" "r < ?hi \<longrightarrow> ?P (unat r)"
    by blast
  have "?P (unat r)"
  proof (cases "r < ?hi")
    case False
    then have "r = ?hi" using r(3) by simp
    then show ?thesis using hi values_of_fits[OF q] by simp
  qed (use r in simp)
  then show ?thesis
    using r hi by (auto simp: word_le_nat_alt)
qed

lemma min_ok:
  assumes nf: "never_fails impl good" and good: "good s" and q: "query_ok q" and w: "getWidth (qexpr q) \<le> 64"
    and hi: "unat hi < 2 ^ getWidth (qexpr q)" "\<forall>v \<in> values_of q. v \<le> uint hi"
  shows "\<exists>lo s'. getRange_min impl q hi s = Some (lo, s') \<and> good s' \<and> lo \<le> hi \<and>
           uint lo \<in> values_of q \<and> (\<forall>v \<in> values_of q. uint lo \<le> v)"
proof -
  let ?t = "\<lambda>mid. ask (mayBeTrue impl) (ule_query q mid)"
  let ?P = "\<lambda>m. \<exists>v \<in> values_of q. v \<le> int m"
  obtain z where z: "zero_query q = Some z" "bool_query z" "\<not> refuted z \<longleftrightarrow> 0 \<in> values_of q"
    using zero_query[OF q w] by blast
  obtain r s1 where a: "ask (mayBeTrue impl) (zero_query q) s = (r, s1)" by fastforce
  have s1: "good s1" "r = Some (0 \<in> values_of q)"
    using ask_ok(2)[OF nf good z(2)] a z by simp_all
  show ?thesis
  proof (cases "0 \<in> values_of q")
    case True
    then show ?thesis
      using a s1 values_of_fits[OF q] by (auto simp: getRange_min_def)
  next
    case False
    have "\<exists>r s'. bsearch ?t 0 hi s1 = Some (r, s') \<and> good s' \<and> 0 \<le> r \<and> r \<le> hi \<and>
        (\<forall>m. unat (0 :: 64 word) \<le> m \<and> m < unat r \<longrightarrow> \<not> ?P m) \<and> (r < hi \<longrightarrow> ?P (unat r))"
    proof (rule bsearch_correct[where good = good])
      fix m s r s' assume "m < hi" "good s" and a: "?t m s = (r, s')"
      have m: "unat m < 2 ^ getWidth (qexpr q)"
        using hi(1) \<open>m < hi\<close> by (simp add: word_less_nat_alt)
      obtain q' where "ule_query q m = Some q'" "bool_query q'"
        "\<not> refuted q' \<longleftrightarrow> (\<exists>v \<in> values_of q. v \<le> uint m)"
        by (rule ule_query[OF q w m])
      then show "good s' \<and> r = Some (?P (unat m))"
        using ask_ok(2)[OF nf \<open>good s\<close>, of q' r s'] a by simp
    next
      fix m n :: nat assume "m \<le> n" "?P m"
      then show "?P n" by (meson of_nat_mono order.trans)
    qed (simp_all add: s1)
    then obtain lo s' where r: "bsearch ?t 0 hi s1 = Some (lo, s')" "good s'" "lo \<le> hi"
      "\<And>m. m < unat lo \<Longrightarrow> \<not> ?P m" "lo < hi \<longrightarrow> ?P (unat lo)"
      by auto
    have "?P (unat lo)"
      using r(3,5) hi(2) values_of_nonempty[OF q] by (cases "lo < hi") auto
    then obtain v where v: "v \<in> values_of q" "v \<le> uint lo" by auto
    have low: "uint lo \<le> x" if "x \<in> values_of q" for x
    proof (rule ccontr)
      assume "\<not> uint lo \<le> x"
      then have "int (nat x) < int (unat lo)" "x \<le> int (nat x)"
        using values_of_fits[OF q that] by simp_all
      then have "nat x < unat lo" "x \<le> int (nat x)"
        by (simp_all only: of_nat_less_iff)
      then show False using r(4)[of "nat x"] that by blast
    qed
    have "v = uint lo" using low[OF v(1)] v(2) by simp
    then show ?thesis
      using a s1 False r(1-3) v(1) low by (simp add: getRange_min_def)
  qed
qed

lemma max_ok:
  assumes nf: "never_fails impl good" and good: "good s" and q: "query_ok q" and w: "getWidth (qexpr q) \<le> 64"
    and hi: "unat hi < 2 ^ getWidth (qexpr q)" "\<forall>v \<in> values_of q. v \<le> uint hi"
    and lo: "lo \<le> hi" "uint lo \<in> values_of q"
  shows "\<exists>m s'. bsearch (\<lambda>mid. ask (mustBeTrue impl) (ule_query q mid)) lo hi s = Some (m, s') \<and> good s' \<and>
           m \<le> hi \<and> uint m \<in> values_of q \<and> (\<forall>v \<in> values_of q. v \<le> uint m)"
proof -
  let ?t = "\<lambda>mid. ask (mustBeTrue impl) (ule_query q mid)"
  let ?P = "\<lambda>m. \<forall>v \<in> values_of q. v \<le> int m"
  have "\<exists>r s'. bsearch ?t lo hi s = Some (r, s') \<and> good s' \<and> lo \<le> r \<and> r \<le> hi \<and>
      (\<forall>m. unat lo \<le> m \<and> m < unat r \<longrightarrow> \<not> ?P m) \<and> (r < hi \<longrightarrow> ?P (unat r))"
  proof (rule bsearch_correct[where good = good])
    fix m s r s' assume "m < hi" "good s" and a: "?t m s = (r, s')"
    have m: "unat m < 2 ^ getWidth (qexpr q)"
      using hi(1) \<open>m < hi\<close> by (simp add: word_less_nat_alt)
    obtain q' where "ule_query q m = Some q'" "bool_query q'"
      "valid q' \<longleftrightarrow> (\<forall>v \<in> values_of q. v \<le> uint m)"
      by (rule ule_query[OF q w m])
    then show "good s' \<and> r = Some (?P (unat m))"
      using ask_ok(1)[OF nf \<open>good s\<close>, of q' r s'] a by simp
  next
    fix m n :: nat assume "m \<le> n" "?P m"
    then show "?P n" by (meson of_nat_mono order.trans)
  qed (simp_all add: good lo)
  then obtain m s' where r: "bsearch ?t lo hi s = Some (m, s')" "good s'" "lo \<le> m" "m \<le> hi"
    "\<And>k. unat lo \<le> k \<Longrightarrow> k < unat m \<Longrightarrow> \<not> ?P k" "m < hi \<longrightarrow> ?P (unat m)"
    by blast
  have P: "v \<le> uint m" if "v \<in> values_of q" for v
    using r(4,6) hi(2) that by (cases "m < hi") auto
  have "uint m \<in> values_of q"
  proof (cases "lo = m")
    case False
    then have "unat lo < unat m" using r(3) order_less_le[of lo m] by (simp flip: word_less_nat_alt)
    then have "\<not> ?P (unat m - 1)" by (intro r(5)) linarith+
    then obtain v where v: "v \<in> values_of q" "\<not> v < uint m"
      using \<open>unat lo < unat m\<close> by (auto simp: of_nat_diff)
    then have "v = uint m"
      using P[OF v(1)] by simp
    then show ?thesis using v(1) by simp
  qed (use lo in simp)
  then show ?thesis using r P by blast
qed

lemma getRange_search_ok:
  assumes nf: "never_fails impl good" and good: "good s" and q: "query_ok q" and w: "getWidth (qexpr q) \<le> 64"
  shows "\<exists>lo hi s'. getRange_search impl q s =
       Some ((ConstantExpr (APInt (getWidth (qexpr q)) lo), ConstantExpr (APInt (getWidth (qexpr q)) hi)), s') \<and>
     good s' \<and> lo \<in> values_of q \<and> hi \<in> values_of q \<and> (\<forall>v \<in> values_of q. lo \<le> v \<and> v \<le> hi)"
proof -
  let ?w = "getWidth (qexpr q)"
  obtain bits s1 where 1: "bsearch (\<lambda>mid. ask (mustBeTrue impl) (useful_bits_query q mid)) 0 (of_nat ?w) s
      = Some (bits, s1)" "good s1" "unat bits \<le> ?w" "\<forall>v \<in> values_of q. v < 2 ^ unat bits"
    using bits_ok[OF assms] by blast
  let ?hi = "mask (unat bits) :: 64 word"
  have b: "unat bits \<le> 64" using 1(3) w by linarith
  have uh: "unat ?hi = 2 ^ unat bits - 1" by (rule unat_mask_64[OF b])
  then have uhi: "uint ?hi = 2 ^ unat bits - 1"
    by (simp add: uint_nat[of ?hi] of_nat_diff)
  have "(2::nat) ^ unat bits \<le> 2 ^ ?w" using 1(3) by simp
  then have hi: "unat ?hi < 2 ^ ?w"
    unfolding uh by (metis diff_less less_le_trans zero_less_numeral zero_less_one zero_less_power)
  have hiV: "\<forall>v \<in> values_of q. v \<le> uint ?hi" using 1(4) uhi by simp
  obtain lo s2 where 2: "getRange_min impl q ?hi s1 = Some (lo, s2)" "good s2" "lo \<le> ?hi"
      "uint lo \<in> values_of q" "\<forall>v \<in> values_of q. uint lo \<le> v"
    using min_ok[OF nf 1(2) q w hi hiV] by blast
  obtain m s3 where 3: "bsearch (\<lambda>mid. ask (mustBeTrue impl) (ule_query q mid)) lo ?hi s2 = Some (m, s3)"
      "good s3" "m \<le> ?hi" "uint m \<in> values_of q" "\<forall>v \<in> values_of q. v \<le> uint m"
    using max_ok[OF nf 2(2) q w hi hiV 2(3,4)] by blast
  have "unat lo < 2 ^ ?w" "unat m < 2 ^ ?w"
    using 2(3) 3(3) hi by (simp_all add: word_le_nat_alt)
  then have "range_result ?w lo m s3 =
      Some ((ConstantExpr (APInt ?w (uint lo)), ConstantExpr (APInt ?w (uint m))), s3)"
    using w by (simp add: range_result_def ConstantExpr_create_ok)
  then show ?thesis
    using 1(1) 2 3 maxValueOfNBits_eq[OF b] by (auto simp: getRange_search_def)
qed

lemma bool_values: "bool_query q \<Longrightarrow> values_of q \<subseteq> {0, 1}"
  using eval_Bool unfolding values_of_def bool_query_def query_ok_def by blast

lemma bool_values_mem:
  assumes "bool_query q"
  shows "valid q \<longleftrightarrow> 0 \<notin> values_of q" "refuted q \<longleftrightarrow> 1 \<notin> values_of q"
  using eval_Bool[of "qexpr q"] assms
  by (fastforce simp: valid_def refuted_def values_of_def holds_def bool_query_def query_ok_def)+

lemma bool_values_cases:
  assumes "bool_query q"
  shows "validity_of q = VTrue \<and> values_of q = {1} \<or> validity_of q = VFalse \<and> values_of q = {0} \<or>
    validity_of q = Unknown \<and> values_of q = {0, 1}"
proof -
  obtain v where "v \<in> values_of q"
    using values_of_nonempty[OF bool_queryD(1)[OF assms]] by blast
  then show ?thesis
    using bool_values[OF assms] bool_values_mem[OF assms]
    by (cases "0 \<in> values_of q"; cases "1 \<in> values_of q") (auto simp: validity_of_def)
qed

lemma getRange_ok:
  assumes nf: "never_fails impl good" and good: "good s" and q: "query_ok q" and w: "getWidth (qexpr q) \<le> 64"
  shows "\<exists>lo hi s'. getRange impl q s =
       Some ((ConstantExpr (APInt (getWidth (qexpr q)) lo), ConstantExpr (APInt (getWidth (qexpr q)) hi)), s') \<and>
     good s' \<and> lo \<in> values_of q \<and> hi \<in> values_of q \<and> (\<forall>v \<in> values_of q. lo \<le> v \<and> v \<le> hi)"
proof (cases "getWidth (qexpr q) = 1")
  case True
  then have b: "bool_query q" using q by (simp add: bool_query_def)
  obtain r s' where e: "evaluate_q impl q s = (r, s')" by fastforce
  have validity_answers: "fst (computeValidity impl q s) \<noteq> None"
    using nf b good by (simp add: never_fails_def)
  have "r \<noteq> None"
    using e validity_answers by (auto simp: evaluate_q_def split: option.splits)
  then have r: "r = Some (validity_of q)" "good s'"
    using evaluate_ok[OF good b e] by auto
  have c: "ConstantExpr_create 0 1 = Some (ConstantExpr (APInt 1 0))"
    "ConstantExpr_create 1 1 = Some (ConstantExpr (APInt 1 1))"
    by (simp_all add: ConstantExpr_create_ok)
  have g: "getRange impl q s = (case validity_of q of VTrue \<Rightarrow> range_result 1 1 1 s'
      | VFalse \<Rightarrow> range_result 1 0 0 s' | Unknown \<Rightarrow> range_result 1 0 1 s')"
    using True e r by (simp add: getRange_def split: Validity.split)
  show ?thesis
    using bool_values_cases[OF b]
    by (elim disjE conjE) (use True r(2) in \<open>simp_all add: g range_result_def c del: One_nat_def\<close>)
next
  case w1: False
  show ?thesis
  proof (cases "dyn_Constant (qexpr q)")
    case None
    then show ?thesis using w1 getRange_search_ok[OF assms] by (simp add: getRange_def)
  next
    case (Some c)
    then have e: "qexpr q = ConstantExpr c" by (cases "qexpr q") simp_all
    then have V: "values_of q = {rawval c}"
      using q by (auto simp: values_of_def query_ok_def constraints_ok_def)
    have f: "0 \<le> rawval c" "rawval c < 2 ^ getBitWidth c"
      using q e by (simp_all add: query_ok_def fits_def)
    have "(2::int) ^ getBitWidth c \<le> 2 ^ 64" using w e by (intro power_increasing) simp_all
    then have lt: "rawval c < 2 ^ LENGTH(64)" using f(2) by simp
    define v where "v = (word_of_int (rawval c) :: 64 word)"
    have u: "uint v = rawval c"
      unfolding v_def uint_word_of_int_eq using f(1) lt by (rule take_bit_int_eq_self)
    then have "uint v < 2 ^ getBitWidth c" using f by simp
    then have "ConstantExpr_create v (getBitWidth c) = Some (ConstantExpr (APInt (getBitWidth c) (rawval c)))"
      using ConstantExpr_create_ok[OF _ unat_less_exp] w e u by simp
    then show ?thesis
      using w1 w e V good by (simp add: getRange_def range_result_def v_def[symmetric])
  qed
qed

end

section \<open>The property\<close>

text \<open>C21: On a solver that keeps the contract and answers every query, \<open>Solver::getRange\<close> terminates
  without an assertion failure for every expression of at most 64 bits, and returns the least and
  the greatest value the expression takes in the environments that satisfy the constraints; both
  ends are attained.\<close>

theorem getRange_exact:
  assumes "solver_contract impl good" "never_fails impl good" "good s" "query_ok q"
    "getWidth (qexpr q) \<le> 64"
  shows "\<exists>lo hi s'. getRange impl q s =
       Some ((ConstantExpr (APInt (getWidth (qexpr q)) lo), ConstantExpr (APInt (getWidth (qexpr q)) hi)), s') \<and>
     good s' \<and> lo \<in> values_of q \<and> hi \<in> values_of q \<and> (\<forall>v \<in> values_of q. lo \<le> v \<and> v \<le> hi)"
  by (rule solver_contract.getRange_ok[OF assms])

definition range_query :: query where
  "range_query = \<lparr>constraints = [BinaryExpr Ult (sample_byte 0) (ConstantExpr (APInt 8 10))],
     qexpr = BinaryExpr Add (sample_byte 0) (ConstantExpr (APInt 8 250))\<rparr>"

lemma values_of_range_query: "values_of range_query = {take_bit 8 (x + 250) | x. 0 \<le> x \<and> x < 10}"
proof -
  have e: "eval \<rho> (qexpr range_query) = take_bit 8 (take_bit 8 (\<rho> sample_array 0) + 250)"
    and m: "models \<rho> (constraints range_query) \<longleftrightarrow> take_bit 8 (\<rho> sample_array 0) < 10" for \<rho>
    by (simp_all add: range_query_def models_def holds_def sample_byte_def initial_value_def
        isConstantArray_def isSymbolicArray_def sample_array_def bv_add_def)
  show ?thesis
  proof (intro set_eqI iffI)
    fix v assume "v \<in> values_of range_query"
    then obtain \<rho> where "v = take_bit 8 (take_bit 8 (\<rho> sample_array 0) + 250)" "take_bit 8 (\<rho> sample_array 0) < 10"
      by (auto simp: values_of_def e m simp del: take_bit_arith)
    then show "v \<in> {take_bit 8 (x + 250) | x. 0 \<le> x \<and> x < 10}"
      by (intro CollectI exI[of _ "take_bit 8 (\<rho> sample_array 0)"]) simp
  next
    fix v assume "v \<in> {take_bit 8 (x + 250) | x. 0 \<le> x \<and> x < (10 :: int)}"
    then obtain x :: int where x: "v = take_bit 8 (x + 250)" "0 \<le> x" "x < 10" by blast
    then have "take_bit 8 x = x" by (simp add: take_bit_int_eq_self)
    then show "v \<in> values_of range_query"
      using x by (auto simp: values_of_def e m intro!: exI[of _ "\<lambda>_ _. x"])
  qed
qed

theorem getRange_exact_witness:
  "\<exists>s'. getRange perfect_solver range_query () =
     Some ((ConstantExpr (APInt 8 0), ConstantExpr (APInt 8 255)), s')"
proof -
  have "models (\<lambda>_ _. 0) (constraints range_query)" and wt: "wt (sample_byte 0)"
    by (simp_all add: range_query_def models_def holds_def sample_byte_def initial_value_def wf_array_def
        isConstantArray_def isSymbolicArray_def sample_array_def fits_def)
  then have "constraints_ok (constraints range_query)"
    unfolding constraints_ok_def by (intro conjI exI) (simp_all add: range_query_def sample_byte_def
        sample_array_def fits_def)
  then have ok: "query_ok range_query"
    using wt by (simp add: query_ok_def range_query_def sample_byte_def sample_array_def fits_def)
  have nf: "never_fails perfect_solver (\<lambda>_. True)"
    by (simp add: never_fails_def perfect_solver_def)
  have w: "getWidth (qexpr range_query) = 8"
    by (simp add: range_query_def sample_byte_def sample_array_def)
  have V: "0 \<in> values_of range_query" "255 \<in> values_of range_query"
    unfolding values_of_range_query mem_Collect_eq
    by (rule exI[of _ 6], simp, rule exI[of _ 5], simp)
  have V': "0 \<le> v \<and> v \<le> 255" if "v \<in> values_of range_query" for v
    using values_of_fits[OF ok that] w by simp
  show ?thesis
    using getRange_exact[OF perfect.solver_contract_axioms nf TrueI ok] w V V' by force
qed

end
