(* ===== verification/AddressSpace.thy ===== *)
theory AddressSpace
  imports ObjectState ImmutableTree OrderedMap
begin

text \<open>
  Address spaces (\<^verbatim>\<open>lib/klee/Core/AddressSpace.cpp\<close>, \<^verbatim>\<open>AddressSpace.h\<close>): an ordered tree from memory
  objects to object states, which states of the execution share and copy when they are written.
  Object states are reached through references into an explicit heap, so that sharing between the
  spaces of forked states is part of the model.
\<close>

section \<open>Bindings and spaces\<close>

type_synonym binding = "memory_object \<times> nat"

text \<open>\<open>MemoryObjectLT\<close> orders objects by address.\<close>

definition mo_key :: "binding \<Rightarrow> nat" where
  "mo_key b = unat (address (fst b))"

definition mo_extent :: "binding \<Rightarrow> nat" where
  "mo_extent b = (if mo_size (fst b) = 0 then 1 else mo_size (fst b))"

record address_space =
  cowKey :: nat
  objects :: "binding node"

record obj_heap =
  obj_at :: "nat \<Rightarrow> object_state option"
  next_obj :: nat

interpretation intervals: interval_map mo_key "tree_ok mo_key" "tree_map mo_key" Terminator
    "tree_insert mo_key" "tree_replace mo_key" "tree_remove mo_key" "tree_lookup mo_key"
    "lookup_previous mo_key" mo_extent
  by unfold_locales

definition new_address_space :: address_space where
  "new_address_space = \<lparr>cowKey = 1, objects = Terminator\<rparr>"

text \<open>The copy constructor: the key of the original is incremented, in 32 bits, and shared.\<close>

definition copy_address_space :: "address_space \<Rightarrow> address_space \<times> address_space" where
  "copy_address_space b =
     (let b' = b\<lparr>cowKey := (cowKey b + 1) mod 2 ^ 32\<rparr>
      in (b', \<lparr>cowKey = cowKey b', objects = objects b\<rparr>))"

definition bindObject ::
    "memory_object \<Rightarrow> nat \<Rightarrow> obj_heap \<Rightarrow> address_space \<Rightarrow> (obj_heap \<times> address_space) option" where
  "bindObject mo r h a =
     (case obj_at h r of
        None \<Rightarrow> None
      | Some os \<Rightarrow>
          if copyOnWriteOwner os \<noteq> 0 then None
          else Some (h\<lparr>obj_at := (obj_at h)(r \<mapsto> os\<lparr>copyOnWriteOwner := cowKey a\<rparr>)\<rparr>,
                     a\<lparr>objects := tree_replace mo_key (mo, r) (objects a)\<rparr>))"

definition unbindObject :: "memory_object \<Rightarrow> address_space \<Rightarrow> address_space" where
  "unbindObject mo a = a\<lparr>objects := tree_remove mo_key (unat (address mo)) (objects a)\<rparr>"

definition findObject :: "memory_object \<Rightarrow> address_space \<Rightarrow> nat option" where
  "findObject mo a = map_option snd (tree_lookup mo_key (unat (address mo)) (objects a))"

definition getWriteable ::
    "memory_object \<Rightarrow> nat \<Rightarrow> obj_heap \<Rightarrow> address_space \<Rightarrow> (nat \<times> obj_heap \<times> address_space) option" where
  "getWriteable mo r h a =
     (case obj_at h r of
        None \<Rightarrow> None
      | Some os \<Rightarrow>
          if readOnly os then None
          else if cowKey a = copyOnWriteOwner os then Some (r, h, a)
          else (case copy_object_state os of
              None \<Rightarrow> None
            | Some n \<Rightarrow>
                let r' = next_obj h
                in Some (r', h\<lparr>obj_at := (obj_at h)(r' \<mapsto> n\<lparr>copyOnWriteOwner := cowKey a\<rparr>),
                              next_obj := r' + 1\<rparr>,
                         a\<lparr>objects := tree_replace mo_key (mo, r') (objects a)\<rparr>)))"

section \<open>Resolution of concrete addresses\<close>

definition resolve_address :: "64 word \<Rightarrow> address_space \<Rightarrow> binding option" where
  "resolve_address a sp =
     (case lookup_previous mo_key (unat a) (objects sp) of
        Some b \<Rightarrow>
          (let mo = fst b
           in if mo_size mo = 0 \<and> a = address mo \<or> unat (a - address mo) < mo_size mo then Some b else None)
      | None \<Rightarrow> None)"

text \<open>\<open>resolveOne\<close> on a constant, which has at most 64 bits.\<close>

definition resolveOne_const :: "apint \<Rightarrow> address_space \<Rightarrow> binding option option" where
  "resolveOne_const c sp =
     (if getBitWidth c \<le> 64 then Some (resolve_address (word_of_int (rawval c)) sp) else None)"

section \<open>Copies to and from the memory of the process\<close>

text \<open>
  The memory of the process is a map from addresses to bytes; the objects that the user did not
  place are copied to their address, and back where they differ.
\<close>

definition copy_out :: "object_state \<Rightarrow> memory_object \<Rightarrow> (64 word \<Rightarrow> 8 word) \<Rightarrow> 64 word \<Rightarrow> 8 word" where
  "copy_out os mo mem =
     (\<lambda>a. if unat (a - address mo) < mo_size mo then concreteStore os ! unat (a - address mo) else mem a)"

fun copyOutConcretes_loop ::
    "binding list \<Rightarrow> obj_heap \<Rightarrow> (64 word \<Rightarrow> 8 word) \<Rightarrow> (64 word \<Rightarrow> 8 word) option" where
  "copyOutConcretes_loop [] h mem = Some mem"
| "copyOutConcretes_loop ((mo, r) # bs) h mem =
     (if isUserSpecified mo then copyOutConcretes_loop bs h mem
      else case obj_at h r of
          None \<Rightarrow> None
        | Some os \<Rightarrow> copyOutConcretes_loop bs h (if readOnly os then mem else copy_out os mo mem))"

definition copyOutConcretes :: "address_space \<Rightarrow> obj_heap \<Rightarrow> (64 word \<Rightarrow> 8 word) \<Rightarrow> (64 word \<Rightarrow> 8 word) option" where
  "copyOutConcretes a = copyOutConcretes_loop (inorder (objects a))"

definition memory_bytes :: "memory_object \<Rightarrow> (64 word \<Rightarrow> 8 word) \<Rightarrow> 8 word list" where
  "memory_bytes mo mem = map (\<lambda>i. mem (address mo + of_nat i)) [0..<mo_size mo]"

text \<open>
  The iterator holds on to the tree it started on, so the replacements by \<open>getWriteable\<close> do not
  disturb it. The flag is the result.
\<close>

fun copyInConcretes_loop ::
    "binding list \<Rightarrow> (64 word \<Rightarrow> 8 word) \<Rightarrow> obj_heap \<Rightarrow> address_space \<Rightarrow> (bool \<times> obj_heap \<times> address_space) option" where
  "copyInConcretes_loop [] mem h a = Some (True, h, a)"
| "copyInConcretes_loop ((mo, r) # bs) mem h a =
     (if isUserSpecified mo then copyInConcretes_loop bs mem h a
      else case obj_at h r of
          None \<Rightarrow> None
        | Some os \<Rightarrow>
            if memory_bytes mo mem = take (mo_size mo) (concreteStore os) then copyInConcretes_loop bs mem h a
            else if readOnly os then Some (False, h, a)
            else (case getWriteable mo r h a of
                None \<Rightarrow> None
              | Some (r', h', a') \<Rightarrow>
                  (case obj_at h' r' of
                     None \<Rightarrow> None
                   | Some wos \<Rightarrow>
                       copyInConcretes_loop bs mem
                         (h'\<lparr>obj_at := (obj_at h')(r' \<mapsto>
                            wos\<lparr>concreteStore := memory_bytes mo mem @ drop (mo_size mo) (concreteStore wos)\<rparr>)\<rparr>) a')))"

definition copyInConcretes ::
    "address_space \<Rightarrow> (64 word \<Rightarrow> 8 word) \<Rightarrow> obj_heap \<Rightarrow> (bool \<times> obj_heap \<times> address_space) option" where
  "copyInConcretes a mem h = copyInConcretes_loop (inorder (objects a)) mem h a"

section \<open>Concrete addresses are resolved exactly\<close>

lemma contains_word:
  assumes "address (fst b) \<le> a"
  shows "intervals.contains b (unat a) \<longleftrightarrow>
    mo_size (fst b) = 0 \<and> a = address (fst b) \<or> unat (a - address (fst b)) < mo_size (fst b)"
proof -
  have "unat (a - address (fst b)) = unat a - unat (address (fst b))" "unat (address (fst b)) \<le> unat a"
    using assms by (simp_all add: unat_sub word_le_nat_alt)
  moreover have "a = address (fst b) \<longleftrightarrow> unat a = unat (address (fst b))"
    by (simp add: word_unat_eq_iff)
  ultimately show ?thesis
    by (auto simp: intervals.contains_def mo_key_def mo_extent_def)
qed

lemma resolve_address_Some:
  assumes "tree_ok mo_key (objects sp)" "resolve_address a sp = Some b"
  shows "tree_map mo_key (objects sp) (mo_key b) = Some b" "intervals.contains b (unat a)"
proof -
  have p: "lookup_previous mo_key (unat a) (objects sp) = Some b"
    and c: "mo_size (fst b) = 0 \<and> a = address (fst b) \<or> unat (a - address (fst b)) < mo_size (fst b)"
    using assms(2) by (auto simp: resolve_address_def Let_def split: option.splits if_splits)
  note q = tree.previous_Some[OF assms(1) p]
  then have "address (fst b) \<le> a" by (simp add: mo_key_def word_le_nat_alt)
  then show "intervals.contains b (unat a)" using c contains_word by blast
  show "tree_map mo_key (objects sp) (mo_key b) = Some b" using q by blast
qed

lemma resolve_address_hit:
  assumes "tree_ok mo_key (objects sp)" "intervals.disjoint (objects sp)"
    "tree_map mo_key (objects sp) (mo_key b) = Some b" "intervals.contains b (unat a)"
  shows "resolve_address a sp = Some b"
proof -
  have "address (fst b) \<le> a"
    using assms(4) by (simp add: intervals.contains_def mo_key_def word_le_nat_alt)
  then show ?thesis
    using intervals.previous_contains[OF assms] contains_word[of b a] assms(4)
    by (simp add: resolve_address_def Let_def)
qed

section \<open>Spaces that share object states\<close>

record system =
  sys_heap :: obj_heap
  spaces :: "address_space list"

text \<open>What a space binds at a key, with the contents of the object state.\<close>

definition binds :: "address_space \<Rightarrow> nat \<Rightarrow> binding option" where
  "binds a = tree_map mo_key (objects a)"

definition view :: "obj_heap \<Rightarrow> address_space \<Rightarrow> nat \<Rightarrow> (memory_object \<times> object_state option) option" where
  "view h a k = map_option (\<lambda>(mo, r). (mo, obj_at h r)) (binds a k)"

text \<open>
  The steps of a system: space \<open>i\<close> binds a new object state, unbinds an object, writes through
  \<open>getWriteable\<close> (any change that keeps the owner), or is forked. The flag counts forks.
\<close>

inductive as_step :: "nat \<Rightarrow> bool \<Rightarrow> system \<Rightarrow> system \<Rightarrow> bool" where
  st_bind: "\<lbrakk>i < length (spaces st); copyOnWriteOwner os = 0; h = sys_heap st;
      bindObject mo (next_obj h) (h\<lparr>obj_at := (obj_at h)(next_obj h \<mapsto> os), next_obj := next_obj h + 1\<rparr>)
        (spaces st ! i) = Some (h', a')\<rbrakk>
    \<Longrightarrow> as_step i False st \<lparr>sys_heap = h', spaces = (spaces st)[i := a']\<rparr>"
| st_unbind: "i < length (spaces st)
    \<Longrightarrow> as_step i False st (st\<lparr>spaces := (spaces st)[i := unbindObject mo (spaces st ! i)]\<rparr>)"
| st_write: "\<lbrakk>i < length (spaces st); findObject mo (spaces st ! i) = Some r;
      getWriteable mo r (sys_heap st) (spaces st ! i) = Some (r', h', a'); obj_at h' r' = Some os;
      copyOnWriteOwner os' = copyOnWriteOwner os\<rbrakk>
    \<Longrightarrow> as_step i False st \<lparr>sys_heap = h'\<lparr>obj_at := (obj_at h')(r' \<mapsto> os')\<rparr>, spaces = (spaces st)[i := a']\<rparr>"
| st_fork: "\<lbrakk>i < length (spaces st); copy_address_space (spaces st ! i) = (a, b)\<rbrakk>
    \<Longrightarrow> as_step i True st (st\<lparr>spaces := (spaces st)[i := a] @ [b]\<rparr>)"

inductive_cases as_stepE: "as_step i f st st'"

definition new_system :: system where
  "new_system = \<lparr>sys_heap = \<lparr>obj_at = Map.empty, next_obj = 0\<rparr>, spaces = [new_address_space]\<rparr>"

inductive as_reach :: "nat \<Rightarrow> system \<Rightarrow> bool" where
  reach_init: "as_reach 0 new_system"
| reach_step: "as_reach n st \<Longrightarrow> as_step i f st st' \<Longrightarrow> as_reach (if f then n + 1 else n) st'"

text \<open>
  The invariant: trees are well-formed, keys count forks, a bound object state exists and its owner
  is at most the key of the space (the invariant the header states), a space binds it once, and two
  spaces share it only below both their keys.
\<close>

definition space_ok :: "nat \<Rightarrow> obj_heap \<Rightarrow> address_space \<Rightarrow> bool" where
  "space_ok n h a \<longleftrightarrow> tree_ok mo_key (objects a) \<and> 1 \<le> cowKey a \<and> cowKey a \<le> n + 1 \<and>
     (\<forall>k b. binds a k = Some b \<longrightarrow> (\<exists>os. obj_at h (snd b) = Some os \<and>
        1 \<le> copyOnWriteOwner os \<and> copyOnWriteOwner os \<le> cowKey a)) \<and>
     (\<forall>k b k' b'. binds a k = Some b \<longrightarrow> binds a k' = Some b' \<longrightarrow> snd b = snd b' \<longrightarrow> k = k')"

definition shared_ok :: "obj_heap \<Rightarrow> address_space \<Rightarrow> address_space \<Rightarrow> bool" where
  "shared_ok h a c \<longleftrightarrow>
     (\<forall>k b k' b' os. binds a k = Some b \<longrightarrow> binds c k' = Some b' \<longrightarrow> snd b = snd b' \<longrightarrow>
        obj_at h (snd b) = Some os \<longrightarrow> copyOnWriteOwner os < cowKey a \<and> copyOnWriteOwner os < cowKey c)"

definition system_ok :: "nat \<Rightarrow> system \<Rightarrow> bool" where
  "system_ok n st \<longleftrightarrow>
     (\<forall>r \<ge> next_obj (sys_heap st). obj_at (sys_heap st) r = None) \<and>
     (\<forall>i < length (spaces st). space_ok n (sys_heap st) (spaces st ! i)) \<and>
     (\<forall>i < length (spaces st). \<forall>j < length (spaces st). i \<noteq> j \<longrightarrow>
        shared_ok (sys_heap st) (spaces st ! i) (spaces st ! j))"

lemma shared_okD:
  assumes "shared_ok h a c" "binds a k = Some b" "binds c k' = Some b'" "snd b = snd b'"
    "obj_at h (snd b) = Some os"
  shows "copyOnWriteOwner os < cowKey a" "copyOnWriteOwner os < cowKey c"
  using assms unfolding shared_ok_def by blast+

lemma shared_mono:
  assumes "shared_ok h a c" "binds a' = binds a" "cowKey a \<le> cowKey a'"
  shows "shared_ok h a' c"
  unfolding shared_ok_def assms(2)
proof (intro allI impI)
  fix k b k' b' os
  assume "binds a k = Some b" "binds c k' = Some b'" "snd b = snd b'" "obj_at h (snd b) = Some os"
  from shared_okD[OF assms(1) this] assms(3)
  show "copyOnWriteOwner os < cowKey a' \<and> copyOnWriteOwner os < cowKey c" by simp
qed

lemma shared_sym: "shared_ok h a c \<Longrightarrow> shared_ok h c a"
proof -
  assume s: "shared_ok h a c"
  show ?thesis
    unfolding shared_ok_def
    by (intro allI impI conjI) (metis shared_okD(2)[OF s], metis shared_okD(1)[OF s])
qed

text \<open>
  A space that is replaced by one that binds less or new references, with at least its key, over a
  heap that is unchanged at the references the others bind.
\<close>

lemma system_ok_update:
  assumes ok: "system_ok n st" and i: "i < length (spaces st)"
    and fresh: "\<forall>r \<ge> next_obj h'. obj_at h' r = None"
    and sp: "space_ok n h' a'"
    and frame: "\<And>j k b. j < length (spaces st) \<Longrightarrow> j \<noteq> i \<Longrightarrow> binds (spaces st ! j) k = Some b \<Longrightarrow>
        obj_at h' (snd b) = obj_at (sys_heap st) (snd b)"
    and refs: "\<And>k b. binds a' k = Some b \<Longrightarrow> binds (spaces st ! i) k = Some b \<or>
        (\<forall>j k' b'. j < length (spaces st) \<longrightarrow> j \<noteq> i \<longrightarrow> binds (spaces st ! j) k' = Some b' \<longrightarrow> snd b' \<noteq> snd b)"
    and key: "cowKey (spaces st ! i) \<le> cowKey a'"
  shows "system_ok n \<lparr>sys_heap = h', spaces = (spaces st)[i := a']\<rparr>"
proof -
  have s: "space_ok n (sys_heap st) (spaces st ! j)" if "j < length (spaces st)" for j
    using ok that by (simp add: system_ok_def)
  have sh: "shared_ok (sys_heap st) (spaces st ! i') (spaces st ! j)"
    if "i' < length (spaces st)" "j < length (spaces st)" "i' \<noteq> j" for i' j
    using ok that by (simp add: system_ok_def)
  have sp': "space_ok n h' (spaces st ! j)" if "j < length (spaces st)" "j \<noteq> i" for j
    using s[OF that(1)] by (simp add: space_ok_def frame[OF that])
  have shi: "shared_ok h' a' (spaces st ! j)" if j: "j < length (spaces st)" "j \<noteq> i" for j
    unfolding shared_ok_def
  proof (intro allI impI)
    fix k b k' b' os
    assume b: "binds a' k = Some b" "binds (spaces st ! j) k' = Some b'" "snd b = snd b'"
      "obj_at h' (snd b) = Some os"
    then have old: "binds (spaces st ! i) k = Some b" using refs[OF b(1)] j b(2,3) by metis
    have "obj_at (sys_heap st) (snd b) = Some os" using frame[OF j b(2)] b(3,4) by simp
    then show "copyOnWriteOwner os < cowKey a' \<and> copyOnWriteOwner os < cowKey (spaces st ! j)"
      using shared_okD[OF sh[OF i j(1) j(2)[symmetric]] old b(2,3)] key by simp
  qed
  have shj: "shared_ok h' (spaces st ! j) (spaces st ! l)"
    if "j < length (spaces st)" "l < length (spaces st)" "j \<noteq> l" "j \<noteq> i" "l \<noteq> i" for j l
    using sh[OF that(1-3)] by (simp add: shared_ok_def frame[OF that(1,4)])
  show ?thesis
    using fresh sp sp' shi shj shared_sym i by (auto simp: system_ok_def nth_list_update)
qed

subsection \<open>One step\<close>

lemma binds_replace:
  assumes "tree_ok mo_key (objects a)"
  shows "tree_ok mo_key (tree_replace mo_key (mo, r) (objects a))"
    "binds (a\<lparr>objects := tree_replace mo_key (mo, r) (objects a)\<rparr>) = (binds a)(unat (address mo) \<mapsto> (mo, r))"
  using tree.replace[OF assms, of "(mo, r)"] by (simp_all add: binds_def mo_key_def)

lemma binds_unbind:
  assumes "tree_ok mo_key (objects a)"
  shows "tree_ok mo_key (objects (unbindObject mo a))"
    "binds (unbindObject mo a) = (binds a)(unat (address mo) := None)"
    "cowKey (unbindObject mo a) = cowKey a"
  using tree.remove[OF assms, of "unat (address mo)"] by (simp_all add: binds_def unbindObject_def)

lemma findObject_binds:
  "tree_ok mo_key (objects a) \<Longrightarrow> findObject mo a = map_option snd (binds a (unat (address mo)))"
  by (simp add: findObject_def binds_def tree.lookup)

lemma view_frame:
  "(\<And>k b. binds a k = Some b \<Longrightarrow> obj_at h' (snd b) = obj_at h (snd b)) \<Longrightarrow> view h' a = view h a"
  by (rule ext) (auto simp: view_def map_option_case split: option.splits)

lemma system_okD:
  assumes "system_ok n st" "i < length (spaces st)"
  shows "space_ok n (sys_heap st) (spaces st ! i)" "tree_ok mo_key (objects (spaces st ! i))"
    "1 \<le> cowKey (spaces st ! i)" "cowKey (spaces st ! i) \<le> n + 1"
  using assms by (simp_all add: system_ok_def space_ok_def)

lemma space_okD:
  assumes "space_ok n h a" "binds a k = Some b"
  shows "\<exists>os. obj_at h (snd b) = Some os \<and> 1 \<le> copyOnWriteOwner os \<and> copyOnWriteOwner os \<le> cowKey a"
    "binds a k' = Some b' \<Longrightarrow> snd b = snd b' \<Longrightarrow> k = k'"
  using assms unfolding space_ok_def by blast+

lemma fresh_ref:
  assumes "system_ok n st" "i < length (spaces st)" "binds (spaces st ! i) k = Some b"
  shows "snd b < next_obj (sys_heap st)" "\<exists>os. obj_at (sys_heap st) (snd b) = Some os"
proof -
  show e: "\<exists>os. obj_at (sys_heap st) (snd b) = Some os"
    using system_okD(1)[OF assms(1,2)] assms(3) unfolding space_ok_def by blast
  show "snd b < next_obj (sys_heap st)"
    using e assms(1) unfolding system_ok_def by (metis leI option.distinct(1))
qed

text \<open>A space that binds a new object state which it owns.\<close>

lemma space_ok_fresh:
  assumes ok: "system_ok n st" and i: "i < length (spaces st)"
    and os: "copyOnWriteOwner os = cowKey (spaces st ! i)"
    and h': "obj_at h' = (obj_at (sys_heap st))(next_obj (sys_heap st) \<mapsto> os)"
      "next_obj h' = next_obj (sys_heap st) + 1"
    and a': "a' = (spaces st ! i)\<lparr>objects := tree_replace mo_key (mo, next_obj (sys_heap st)) (objects (spaces st ! i))\<rparr>"
  shows "system_ok n \<lparr>sys_heap = h', spaces = (spaces st)[i := a']\<rparr>"
    "\<And>j. j < length (spaces st) \<Longrightarrow> j \<noteq> i \<Longrightarrow> view h' (spaces st ! j) = view (sys_heap st) (spaces st ! j)"
proof -
  let ?r = "next_obj (sys_heap st)" and ?a = "spaces st ! i"
  note s = system_okD[OF ok i]
  have frame: "obj_at h' (snd b) = obj_at (sys_heap st) (snd b)" "snd b \<noteq> ?r"
    if "j < length (spaces st)" "binds (spaces st ! j) k = Some b" for j k b
    using fresh_ref[OF ok that] h' by auto
  have b: "binds a' = (binds ?a)(unat (address mo) \<mapsto> (mo, ?r))" "tree_ok mo_key (objects a')" "cowKey a' = cowKey ?a"
    using binds_replace[OF s(2)] a' by simp_all
  have "space_ok n h' a'"
    unfolding space_ok_def
  proof (intro conjI allI impI)
    show "tree_ok mo_key (objects a')" "1 \<le> cowKey a'" "cowKey a' \<le> n + 1" using b s by simp_all
  next
    fix k c assume c: "binds a' k = Some c"
    show "\<exists>os. obj_at h' (snd c) = Some os \<and> 1 \<le> copyOnWriteOwner os \<and> copyOnWriteOwner os \<le> cowKey a'"
    proof (cases "k = unat (address mo)")
      case True
      then show ?thesis using c b os s(3) h' by auto
    next
      case False
      then have o: "binds ?a k = Some c" using c b by simp
      then show ?thesis using frame(1)[OF i o] space_okD(1)[OF s(1) o] b(3) by simp
    qed
  next
    fix k c k' c' assume c: "binds a' k = Some c" "binds a' k' = Some c'" "snd c = snd c'"
    show "k = k'"
    proof (cases "k = unat (address mo) \<or> k' = unat (address mo)")
      case True
      then show ?thesis using c b frame(2)[OF i, of k c] frame(2)[OF i, of k' c'] by (auto split: if_splits)
    next
      case False
      then show ?thesis using c b space_okD(2)[OF s(1), of k c k' c'] by simp
    qed
  qed
  moreover have "\<forall>r \<ge> next_obj h'. obj_at h' r = None"
    using ok h' by (simp add: system_ok_def)
  ultimately show "system_ok n \<lparr>sys_heap = h', spaces = (spaces st)[i := a']\<rparr>"
  proof (intro system_ok_update[OF ok i])
    fix k c assume c: "binds a' k = Some c"
    show "binds ?a k = Some c \<or> (\<forall>j k' b'. j < length (spaces st) \<longrightarrow> j \<noteq> i \<longrightarrow> binds (spaces st ! j) k' = Some b' \<longrightarrow> snd b' \<noteq> snd c)"
      using c b frame(2) by (cases "k = unat (address mo)") (simp_all add: split_paired_all[symmetric] del: split_paired_All, metis snd_conv option.sel)
  qed (use frame b in simp_all)
  show "view h' (spaces st ! j) = view (sys_heap st) (spaces st ! j)" if "j < length (spaces st)" "j \<noteq> i" for j
    using frame(1)[OF that(1)] by (rule view_frame)
qed

lemma step_bind:
  assumes ok: "system_ok n st" and i: "i < length (spaces st)" and os: "copyOnWriteOwner os = 0"
    and b: "bindObject mo (next_obj (sys_heap st)) ((sys_heap st)\<lparr>obj_at := (obj_at (sys_heap st))(next_obj (sys_heap st) \<mapsto> os),
        next_obj := next_obj (sys_heap st) + 1\<rparr>) (spaces st ! i) = Some (h', a')"
  shows "system_ok n \<lparr>sys_heap = h', spaces = (spaces st)[i := a']\<rparr>"
    "j < length (spaces st) \<Longrightarrow> j \<noteq> i \<Longrightarrow> view h' (spaces st ! j) = view (sys_heap st) (spaces st ! j)"
proof -
  let ?os = "os\<lparr>copyOnWriteOwner := cowKey (spaces st ! i)\<rparr>"
  have h': "obj_at h' = (obj_at (sys_heap st))(next_obj (sys_heap st) \<mapsto> ?os)"
      "next_obj h' = next_obj (sys_heap st) + 1"
    and a': "a' = (spaces st ! i)\<lparr>objects := tree_replace mo_key (mo, next_obj (sys_heap st)) (objects (spaces st ! i))\<rparr>"
    using b os by (auto simp: bindObject_def)
  note f = space_ok_fresh[OF ok i _ h' a']
  show "system_ok n \<lparr>sys_heap = h', spaces = (spaces st)[i := a']\<rparr>" by (rule f(1)) simp
  show "j < length (spaces st) \<Longrightarrow> j \<noteq> i \<Longrightarrow> view h' (spaces st ! j) = view (sys_heap st) (spaces st ! j)"
    by (rule f(2)) simp_all
qed

lemma step_unbind:
  assumes ok: "system_ok n st" and i: "i < length (spaces st)"
  shows "system_ok n (st\<lparr>spaces := (spaces st)[i := unbindObject mo (spaces st ! i)]\<rparr>)"
proof -
  let ?a = "spaces st ! i"
  note s = system_okD[OF ok i]
  note b = binds_unbind[OF s(2), of mo]
  have sub: "binds ?a k = Some c" if "binds (unbindObject mo ?a) k = Some c" for k c
    using that b(2) by (auto split: if_splits)
  have "space_ok n (sys_heap st) (unbindObject mo ?a)"
    using s b sub unfolding space_ok_def by (metis (no_types, lifting))
  then have "system_ok n \<lparr>sys_heap = sys_heap st, spaces = (spaces st)[i := unbindObject mo ?a]\<rparr>"
    by (intro system_ok_update[OF ok i]) (use ok sub b in \<open>auto simp: system_ok_def\<close>)
  then show ?thesis by (cases st) simp
qed

text \<open>A write in place: the space owns the object state, so no other one binds it.\<close>

lemma owner_update_ok:
  assumes ok: "system_ok n st" and i: "i < length (spaces st)" and r: "binds (spaces st ! i) k = Some b"
    and os: "obj_at (sys_heap st) (snd b) = Some os" "copyOnWriteOwner os = cowKey (spaces st ! i)"
      "copyOnWriteOwner os' = copyOnWriteOwner os"
  defines "h' \<equiv> (sys_heap st)\<lparr>obj_at := (obj_at (sys_heap st))(snd b \<mapsto> os')\<rparr>"
  shows "system_ok n \<lparr>sys_heap = h', spaces = spaces st\<rparr>"
    "\<And>j. j < length (spaces st) \<Longrightarrow> j \<noteq> i \<Longrightarrow> view h' (spaces st ! j) = view (sys_heap st) (spaces st ! j)"
proof -
  let ?a = "spaces st ! i"
  have sh: "shared_ok (sys_heap st) ?a (spaces st ! j)" if "j < length (spaces st)" "j \<noteq> i" for j
    using ok i that by (simp add: system_ok_def)
  have other: "snd c \<noteq> snd b" if "j < length (spaces st)" "j \<noteq> i" "binds (spaces st ! j) k' = Some c" for j k' c
    using shared_okD(1)[OF sh[OF that(1,2)] r that(3) _ os(1)] os(2) by auto
  have frame: "obj_at h' (snd c) = obj_at (sys_heap st) (snd c)"
    if "j < length (spaces st)" "j \<noteq> i" "binds (spaces st ! j) k' = Some c" for j k' c
    using other[OF that] by (simp add: h'_def)
  have "space_ok n h' ?a"
    unfolding space_ok_def
  proof (intro conjI allI impI)
    show "tree_ok mo_key (objects ?a)" "1 \<le> cowKey ?a" "cowKey ?a \<le> n + 1"
      using system_okD[OF ok i] by simp_all
    fix k c assume c: "binds ?a k = Some c"
    show "\<exists>os. obj_at h' (snd c) = Some os \<and> 1 \<le> copyOnWriteOwner os \<and> copyOnWriteOwner os \<le> cowKey ?a"
      using space_okD(1)[OF system_okD(1)[OF ok i] c] os system_okD(3)[OF ok i] by (simp add: h'_def)
    fix k' c' assume "binds ?a k' = Some c'" "snd c = snd c'"
    then show "k = k'" using space_okD(2)[OF system_okD(1)[OF ok i] c] by blast
  qed
  moreover have "\<forall>r \<ge> next_obj h'. obj_at h' r = None"
    using ok fresh_ref(1)[OF ok i r] by (simp add: system_ok_def h'_def)
  ultimately have "system_ok n \<lparr>sys_heap = h', spaces = (spaces st)[i := ?a]\<rparr>"
    by (intro system_ok_update[OF ok i]) (use frame in simp_all)
  then show "system_ok n \<lparr>sys_heap = h', spaces = spaces st\<rparr>" by simp
  show "view h' (spaces st ! j) = view (sys_heap st) (spaces st ! j)" if "j < length (spaces st)" "j \<noteq> i" for j
    using frame[OF that] by (rule view_frame)
qed

lemma step_write:
  assumes ok: "system_ok n st" and i: "i < length (spaces st)"
    and f: "findObject mo (spaces st ! i) = Some r"
    and w: "getWriteable mo r (sys_heap st) (spaces st ! i) = Some (r', h', a')"
    and os: "obj_at h' r' = Some os" "copyOnWriteOwner os' = copyOnWriteOwner os"
  defines "h'' \<equiv> h'\<lparr>obj_at := (obj_at h')(r' \<mapsto> os')\<rparr>"
  shows "system_ok n \<lparr>sys_heap = h'', spaces = (spaces st)[i := a']\<rparr>"
    "\<And>j. j < length (spaces st) \<Longrightarrow> j \<noteq> i \<Longrightarrow> view h'' (spaces st ! j) = view (sys_heap st) (spaces st ! j)"
proof -
  let ?a = "spaces st ! i"
  note s = system_okD[OF ok i]
  obtain b where b: "binds ?a (unat (address mo)) = Some b" "snd b = r"
    using f findObject_binds[OF s(2), of mo] by auto
  obtain o0 where o0: "obj_at (sys_heap st) r = Some o0" "\<not> readOnly o0"
    using w by (auto simp: getWriteable_def split: option.splits if_splits)
  have "system_ok n \<lparr>sys_heap = h'', spaces = (spaces st)[i := a']\<rparr> \<and>
    (\<forall>j < length (spaces st). j \<noteq> i \<longrightarrow> view h'' (spaces st ! j) = view (sys_heap st) (spaces st ! j))"
  proof (cases "cowKey ?a = copyOnWriteOwner o0")
    case True
    then have e: "r' = r" "h' = sys_heap st" "a' = ?a"
      using w o0 by (simp_all add: getWriteable_def)
    note u = owner_update_ok[OF ok i b(1), of o0 os']
    show ?thesis
      using u True o0 b(2) os e unfolding h''_def by simp
  next
    case False
    let ?n = "next_obj (sys_heap st)"
    have e: "r' = ?n" "a' = ?a\<lparr>objects := tree_replace mo_key (mo, ?n) (objects ?a)\<rparr>"
        "next_obj h' = ?n + 1"
      and c: "\<exists>c. obj_at h' = (obj_at (sys_heap st))(?n \<mapsto> c) \<and> copyOnWriteOwner c = cowKey ?a"
      using w o0 False by (auto simp: getWriteable_def Let_def split: option.splits)
    then have "copyOnWriteOwner os' = cowKey ?a" "obj_at h'' = (obj_at (sys_heap st))(?n \<mapsto> os')"
      using os by (auto simp: h''_def)
    then show ?thesis
      using space_ok_fresh[OF ok i _ _ _ e(2), of os' h''] e(3) by (simp add: h''_def)
  qed
  then show "system_ok n \<lparr>sys_heap = h'', spaces = (spaces st)[i := a']\<rparr>"
    "\<And>j. j < length (spaces st) \<Longrightarrow> j \<noteq> i \<Longrightarrow> view h'' (spaces st ! j) = view (sys_heap st) (spaces st ! j)"
    by blast+
qed

lemma step_fork:
  assumes ok: "system_ok n st" and i: "i < length (spaces st)" and n: "n + 2 < 2 ^ 32"
    and f: "copy_address_space (spaces st ! i) = (a, b)"
  shows "system_ok (n + 1) (st\<lparr>spaces := (spaces st)[i := a] @ [b]\<rparr>)"
    "view (sys_heap st) a = view (sys_heap st) (spaces st ! i)" "view (sys_heap st) b = view (sys_heap st) (spaces st ! i)"
proof -
  let ?a = "spaces st ! i" and ?h = "sys_heap st"
  note s = system_okD[OF ok i]
  have k: "(cowKey ?a + 1) mod 2 ^ 32 = cowKey ?a + 1" using s(4) n by simp
  then have a: "a = ?a\<lparr>cowKey := cowKey ?a + 1\<rparr>" and b: "b = \<lparr>cowKey = cowKey ?a + 1, objects = objects ?a\<rparr>"
    using f by (auto simp: copy_address_space_def Let_def)
  have bi: "binds a = binds ?a" "binds b = binds ?a" by (simp_all add: a b binds_def)
  show "view ?h a = view ?h ?a" "view ?h b = view ?h ?a" by (simp_all add: view_def[abs_def] bi)
  have mono: "space_ok (n + 1) ?h (spaces st ! j)" if "j < length (spaces st)" for j
    using system_okD(1)[OF ok that] by (auto simp: space_ok_def)
  have own: "copyOnWriteOwner os \<le> cowKey ?a" if "binds ?a k = Some c" "obj_at ?h (snd c) = Some os" for k c os
    using space_okD(1)[OF s(1) that(1)] that(2) by auto
  have x: "space_ok (n + 1) ?h x" if "binds x = binds ?a" "objects x = objects ?a" "cowKey x = cowKey ?a + 1" for x
    unfolding space_ok_def that
  proof (intro conjI allI impI)
    fix k c assume c: "binds ?a k = Some c"
    show "\<exists>os. obj_at ?h (snd c) = Some os \<and> 1 \<le> copyOnWriteOwner os \<and> copyOnWriteOwner os \<le> cowKey ?a + 1"
      using space_okD(1)[OF s(1) c] by (metis le_SucI Suc_eq_plus1)
    fix k' c' assume "binds ?a k' = Some c'" "snd c = snd c'"
    then show "k = k'" using space_okD(2)[OF s(1) c] by blast
  qed (use s in simp_all)
  have sel: "objects a = objects ?a" "cowKey a = cowKey ?a + 1" "objects b = objects ?a" "cowKey b = cowKey ?a + 1"
    by (simp_all add: a b)
  have ab: "space_ok (n + 1) ?h a" "space_ok (n + 1) ?h b"
    by (rule x[OF bi(1) sel(1,2)], rule x[OF bi(2) sel(3,4)])
  have sh: "shared_ok ?h ?a (spaces st ! j)" if "j < length (spaces st)" "j \<noteq> i" for j
    using ok i that by (simp add: system_ok_def)
  have sh': "shared_ok ?h a (spaces st ! j)" "shared_ok ?h b (spaces st ! j)"
    if "j < length (spaces st)" "j \<noteq> i" for j
    using shared_mono[OF sh[OF that] bi(1)] shared_mono[OF sh[OF that] bi(2)] sel by simp_all
  have shab: "shared_ok ?h a b"
    unfolding shared_ok_def bi sel using own by (simp add: le_imp_less_Suc)
  have old: "shared_ok ?h (spaces st ! j) (spaces st ! l)"
    if "j < length (spaces st)" "l < length (spaces st)" "j \<noteq> l" for j l
    using ok that by (simp add: system_ok_def)
  let ?N = "length (spaces st)"
  define X where "X j = (if j = ?N then b else if j = i then a else spaces st ! j)" for j
  have nth: "((spaces st)[i := a] @ [b]) ! j = X j" if "j < ?N + 1" for j
    using that i by (auto simp: X_def nth_append)
  have Xj: "X j = spaces st ! j" if "j < ?N" "j \<noteq> i" for j
    using that by (simp add: X_def)
  have Xi: "X i = a" "X ?N = b" using i by (simp_all add: X_def)
  have Xok: "space_ok (n + 1) ?h (X j)" if "j < ?N + 1" for j
    using that ab mono by (cases "j = ?N"; cases "j = i") (simp_all add: X_def)
  have le: "shared_ok ?h (X j) (X l)" if "j < l" "l < ?N + 1" for j l
  proof (cases "l = ?N")
    case True
    then show ?thesis
      using that Xi shab shared_sym[OF sh'(2), of j] Xj[of j] by (cases "j = i") simp_all
  next
    case False
    then have l: "l < ?N" "j < ?N" "j \<noteq> l" using that by simp_all
    show ?thesis
      using l Xi Xj[of j] Xj[of l] old[OF l(2,1,3)] sh'(1)[of l] shared_sym[OF sh'(1), of j]
      by (cases "j = i"; cases "l = i") simp_all
  qed
  have "shared_ok ?h (X j) (X l)" if "j \<noteq> l" "j < ?N + 1" "l < ?N + 1" for j l
    using le[of j l] shared_sym[OF le, of l j] that by (cases "j < l") simp_all
  then show "system_ok (n + 1) (st\<lparr>spaces := (spaces st)[i := a] @ [b]\<rparr>)"
    using ok Xok by (simp add: system_ok_def nth)
qed

subsection \<open>All steps\<close>

lemma step_ok:
  assumes "as_step i f st st'" "system_ok n st" "f \<Longrightarrow> n + 2 < 2 ^ 32"
  shows "system_ok (if f then n + 1 else n) st' \<and> length (spaces st) \<le> length (spaces st') \<and>
    (\<forall>j < length (spaces st). j \<noteq> i \<or> f \<longrightarrow>
       view (sys_heap st') (spaces st' ! j) = view (sys_heap st) (spaces st ! j)) \<and>
    (f \<longrightarrow> length (spaces st') = length (spaces st) + 1 \<and>
       view (sys_heap st') (spaces st' ! length (spaces st)) = view (sys_heap st) (spaces st ! i))"
  using assms
proof (induction rule: as_step.induct)
  case (st_bind i st os h mo h' a')
  then have i: "i < length (spaces st)" and os: "copyOnWriteOwner os = 0" and ok: "system_ok n st" by simp_all
  have b: "bindObject mo (next_obj (sys_heap st)) ((sys_heap st)\<lparr>obj_at := (obj_at (sys_heap st))(next_obj (sys_heap st) \<mapsto> os),
        next_obj := next_obj (sys_heap st) + 1\<rparr>) (spaces st ! i) = Some (h', a')"
    using st_bind(3,4) by simp
  show ?case using step_bind[OF ok i os b] by simp
next
  case (st_unbind i st mo)
  then show ?case using step_unbind[OF st_unbind(2,1)] by simp
next
  case (st_write i st mo r r' h' a' os os')
  show ?case using step_write[OF st_write(6,1,2,3,4,5)] by simp
next
  case (st_fork i st a b)
  note f = step_fork[OF st_fork(3,1,4,2)]
  show ?case
  proof (intro conjI allI impI)
    fix j assume "j < length (spaces st)" "j \<noteq> i \<or> True"
    then show "view (sys_heap (st\<lparr>spaces := (spaces st)[i := a] @ [b]\<rparr>))
        (spaces (st\<lparr>spaces := (spaces st)[i := a] @ [b]\<rparr>) ! j) = view (sys_heap st) (spaces st ! j)"
      using f(2) by (cases "j = i") (simp_all add: nth_append)
  qed (use f in \<open>simp_all add: nth_append\<close>)
qed

lemma reach_ok: "as_reach n st \<Longrightarrow> n + 1 < 2 ^ 32 \<Longrightarrow> system_ok n st"
proof (induction rule: as_reach.induct)
  case reach_init
  have "tree_ok mo_key Terminator" by (rule tree.empty)
  then show ?case
    by (simp add: system_ok_def new_system_def new_address_space_def space_ok_def binds_def tree.empty)
next
  case (reach_step n st i f st')
  then have "system_ok n st" by (cases f) auto
  then show ?case
    using step_ok[OF reach_step(2)] reach_step(4) by (cases f) auto
qed

section \<open>Properties\<close>

text \<open>C22: \<open>resolveOne\<close> on a constant address finds the object that contains it, if there is one: in
  an address space whose objects are disjoint it returns a binding exactly when that binding is in
  the map and the address is inside the object, or is the address of an object of size zero.\<close>

theorem resolveOne_exact:
  assumes "tree_ok mo_key (objects sp)" "intervals.disjoint (objects sp)" "getBitWidth c \<le> 64"
  shows "\<exists>res. resolveOne_const c sp = Some res \<and>
    (\<forall>b. res = Some b \<longleftrightarrow> tree_lookup mo_key (mo_key b) (objects sp) = Some b \<and>
       intervals.contains b (unat (word_of_int (rawval c) :: 64 word)))"
proof -
  let ?a = "word_of_int (rawval c) :: 64 word"
  have "resolve_address ?a sp = Some b \<longleftrightarrow> tree_lookup mo_key (mo_key b) (objects sp) = Some b \<and>
      intervals.contains b (unat ?a)" for b
    unfolding tree.lookup[OF assms(1)]
    using resolve_address_Some[OF assms(1)] resolve_address_hit[OF assms(1,2)] by blast
  then show ?thesis
    using assms(3) by (simp add: resolveOne_const_def)
qed

text \<open>C23: The address spaces of forked states are isolated. In every system reached with fewer than
  \<open>2 ^ 32 - 2\<close> forks, a step of one space - binding, unbinding, a write through \<open>getWriteable\<close> or a
  fork - leaves what every other space binds, and the contents of the object states it binds,
  unchanged; a fork also leaves its own view unchanged and gives the copy the same view.\<close>

theorem spaces_isolated:
  assumes "as_reach n st" "n + 2 < 2 ^ 32" "as_step i f st st'"
  shows "(\<forall>j < length (spaces st). j \<noteq> i \<or> f \<longrightarrow>
       view (sys_heap st') (spaces st' ! j) = view (sys_heap st) (spaces st ! j)) \<and>
    (f \<longrightarrow> view (sys_heap st') (spaces st' ! length (spaces st)) = view (sys_heap st) (spaces st ! i)) \<and>
    (\<forall>j < length (spaces st'). \<forall>k b. tree_lookup mo_key k (objects (spaces st' ! j)) = Some b \<longrightarrow>
       (\<exists>os. obj_at (sys_heap st') (snd b) = Some os \<and> copyOnWriteOwner os \<le> cowKey (spaces st' ! j)))"
proof -
  have ok: "system_ok n st" using reach_ok[OF assms(1)] assms(2) by simp
  note s = step_ok[OF assms(3) ok assms(2)]
  then have ok': "system_ok (if f then n + 1 else n) st'" by blast
  have "\<exists>os. obj_at (sys_heap st') (snd b) = Some os \<and> copyOnWriteOwner os \<le> cowKey (spaces st' ! j)"
    if j: "j < length (spaces st')" and b: "tree_lookup mo_key k (objects (spaces st' ! j)) = Some b" for j k b
  proof -
    have "binds (spaces st' ! j) k = Some b"
      using b tree.lookup[OF system_okD(2)[OF ok' j]] by (simp add: binds_def)
    then show ?thesis using space_okD(1)[OF system_okD(1)[OF ok' j]] by blast
  qed
  with s show ?thesis by simp
qed

definition small_mo :: "64 word \<Rightarrow> nat \<Rightarrow> memory_object" where
  "small_mo a n = \<lparr>mo_id = 1, address = a, mo_size = n, mo_name = ''m'', isLocal = False, isGlobal = False,
     isFixed = False, isUserSpecified = False\<rparr>"

definition small_space :: address_space where
  "small_space = \<lparr>cowKey = 1, objects = tree_insert mo_key (small_mo 4096 0, 0)
     (tree_insert mo_key (small_mo 4100 8, 1) Terminator)\<rparr>"

lemma small_space_objects:
  "objects small_space = Node (Node Terminator Terminator (small_mo 4096 0, 0) 1) Terminator (small_mo 4100 8, 1) 2"
  by (simp add: small_space_def small_mo_def mo_key_def balance_def newNode_def)

theorem resolveOne_exact_witness:
  "resolveOne_const (APInt 64 4096) small_space = Some (Some (small_mo 4096 0, 0)) \<and>
   resolveOne_const (APInt 64 4107) small_space = Some (Some (small_mo 4100 8, 1)) \<and>
   resolveOne_const (APInt 64 4097) small_space \<noteq> Some (Some (small_mo 4096 0, 0))"
proof -
  have ok: "tree_ok mo_key (objects small_space)"
    by (simp add: small_space_def del: tree_insert.simps) (intro tree.insert(1) tree.empty(1))
  have "intervals.disjoint (objects small_space)"
    unfolding small_space_objects intervals.disjoint_def
    by (auto simp: tree_map_def mo_extent_def small_mo_def mo_key_def split: if_splits)
  note r = resolveOne_exact[OF ok this]
  let ?b = "(small_mo 4096 0, 0)" and ?c = "(small_mo 4100 8, 1)"
  have lk: "tree_lookup mo_key (mo_key ?b) (objects small_space) = Some ?b"
    "tree_lookup mo_key (mo_key ?c) (objects small_space) = Some ?c"
    by (simp_all add: small_space_objects small_mo_def mo_key_def)
  have cb: "intervals.contains ?b n \<longleftrightarrow> n = 4096" for n
    by (auto simp: intervals.contains_def small_mo_def mo_key_def mo_extent_def)
  have cc: "intervals.contains ?c n \<longleftrightarrow> 4100 \<le> n \<and> n < 4108" for n
    by (auto simp: intervals.contains_def small_mo_def mo_key_def mo_extent_def)
  have u: "unat (word_of_int 4096 :: 64 word) = 4096" "unat (word_of_int 4107 :: 64 word) = 4107"
    "unat (word_of_int 4097 :: 64 word) = 4097"
    by simp_all
  obtain r1 where r1: "resolveOne_const (APInt 64 4096) small_space = Some r1" "r1 = Some ?b"
    using r[of "APInt 64 4096"] lk(1) cb u(1) by (metis apint.sel order_refl)
  obtain r2 where r2: "resolveOne_const (APInt 64 4107) small_space = Some r2" "r2 = Some ?c"
    using r[of "APInt 64 4107"] lk(2) cc u(2) by fastforce
  obtain r3 where r3: "resolveOne_const (APInt 64 4097) small_space = Some r3" "r3 \<noteq> Some ?b"
    using r[of "APInt 64 4097"] cb u(3) by fastforce
  show ?thesis using r1 r2 r3 by simp
qed

definition bound_system :: system where
  "bound_system =
     \<lparr>sys_heap = \<lparr>obj_at = [0 \<mapsto> (new_object_state (small_mo 4100 1))\<lparr>copyOnWriteOwner := 1\<rparr>], next_obj = 1\<rparr>,
      spaces = [\<lparr>cowKey = 1, objects = tree_replace mo_key (small_mo 4100 1, 0) Terminator\<rparr>]\<rparr>"

definition forked_system :: system where
  "forked_system = bound_system\<lparr>spaces :=
     [\<lparr>cowKey = 2, objects = objects (spaces bound_system ! 0)\<rparr>,
      \<lparr>cowKey = 2, objects = objects (spaces bound_system ! 0)\<rparr>]\<rparr>"

definition written_object :: object_state where
  "written_object = (new_object_state (small_mo 4100 1))\<lparr>copyOnWriteOwner := 2, concreteStore := [7]\<rparr>"

definition written_system :: system where
  "written_system =
     \<lparr>sys_heap = \<lparr>obj_at = (obj_at (sys_heap forked_system))(1 \<mapsto> written_object), next_obj = 2\<rparr>,
      spaces = [\<lparr>cowKey = 2, objects = tree_replace mo_key (small_mo 4100 1, 1) (objects (spaces bound_system ! 0))\<rparr>,
                \<lparr>cowKey = 2, objects = objects (spaces bound_system ! 0)\<rparr>]\<rparr>"

lemma reach_forked: "as_reach 1 forked_system"
proof -
  have "as_step 0 False new_system bound_system"
    using st_bind[of 0 new_system "new_object_state (small_mo 4100 1)" "sys_heap new_system" "small_mo 4100 1"]
    by (simp add: new_system_def bound_system_def bindObject_def new_object_state_def new_address_space_def)
  then have 1: "as_reach 0 bound_system"
    using reach_step[OF reach_init] by fastforce
  have c: "copy_address_space (spaces bound_system ! 0) =
      (\<lparr>cowKey = 2, objects = objects (spaces bound_system ! 0)\<rparr>,
       \<lparr>cowKey = 2, objects = objects (spaces bound_system ! 0)\<rparr>)"
    by (simp add: bound_system_def copy_address_space_def Let_def)
  have "as_step 0 True bound_system forked_system"
    using st_fork[OF _ c] by (simp add: forked_system_def bound_system_def)
  then show ?thesis
    using reach_step[OF 1] by fastforce
qed

lemma step_written: "as_step 0 False forked_system written_system"
proof -
  let ?a = "spaces forked_system ! 0"
  have f: "findObject (small_mo 4100 1) ?a = Some 0"
    by (simp add: findObject_def forked_system_def bound_system_def mo_key_def small_mo_def newNode_def)
  define os where "os = (new_object_state (small_mo 4100 1))\<lparr>copyOnWriteOwner := 2\<rparr>"
  define h where "h = \<lparr>obj_at = (obj_at (sys_heap forked_system))(1 \<mapsto> os), next_obj = 2\<rparr>"
  have w: "getWriteable (small_mo 4100 1) 0 (sys_heap forked_system) ?a =
      Some (1, h, \<lparr>cowKey = 2, objects = tree_replace mo_key (small_mo 4100 1, 1) (objects (spaces bound_system ! 0))\<rparr>)"
    by (simp add: getWriteable_def h_def os_def forked_system_def bound_system_def new_object_state_def copy_object_state_def
        small_mo_def)
  have "as_step 0 False forked_system
      \<lparr>sys_heap = h\<lparr>obj_at := (obj_at h)(1 \<mapsto> written_object)\<rparr>,
       spaces = (spaces forked_system)[0 := \<lparr>cowKey = 2, objects = tree_replace mo_key (small_mo 4100 1, 1) (objects (spaces bound_system ! 0))\<rparr>]\<rparr>"
    by (rule st_write[OF _ f w, of os]) (simp_all add: h_def os_def written_object_def forked_system_def)
  then show ?thesis
    by (simp add: h_def written_system_def forked_system_def)
qed

theorem spaces_isolated_witness:
  "view (sys_heap written_system) (spaces written_system ! 1) = view (sys_heap forked_system) (spaces forked_system ! 1) \<and>
   view (sys_heap written_system) (spaces written_system ! 0) 4100 = Some (small_mo 4100 1, Some written_object)"
proof -
  have "view (sys_heap written_system) (spaces written_system ! 1) = view (sys_heap forked_system) (spaces forked_system ! 1)"
    using spaces_isolated[OF reach_forked _ step_written] by (simp add: forked_system_def)
  moreover have "view (sys_heap written_system) (spaces written_system ! 0) 4100 = Some (small_mo 4100 1, Some written_object)"
    by (simp add: view_def binds_def written_system_def bound_system_def tree_map_def mo_key_def small_mo_def
        newNode_def)
  ultimately show ?thesis by blast
qed

end
