(* ===== verification/AddressResolve.thy ===== *)
theory AddressResolve
  imports SolverCache SolverRange AddressSpace TreeIterator ObjectBytes
begin

text \<open>
  The solver as the interpreter calls it (\<^verbatim>\<open>lib/klee/Core/TimingSolver.cpp\<close>), and the resolution of
  symbolic pointers with it (\<open>AddressSpace::resolveOne\<close> and \<open>resolve\<close>, \<^verbatim>\<open>AddressSpace.cpp\<close>). The
  simplification of expressions by the constraints is a parameter with the contract it has to keep;
  with \<open>simplifyExprs\<close> off it is the identity. An iterator position is given by the elements on
  either side of it (\<open>it_passed\<close>, \<open>it_pending\<close>), which the loops walk.
\<close>

section \<open>The timing solver\<close>

type_synonym simplifier = "expr list \<Rightarrow> expr \<Rightarrow> expr"

definition timing_query :: "simplifier \<Rightarrow> expr list \<Rightarrow> expr \<Rightarrow> query" where
  "timing_query simplify cs e = \<lparr>constraints = cs, qexpr = simplify cs e\<rparr>"

definition timing_evaluate ::
    "simplifier \<Rightarrow> 's solver_impl \<Rightarrow> expr list \<Rightarrow> expr \<Rightarrow> 's \<Rightarrow> Validity option \<times> 's" where
  "timing_evaluate simplify impl cs e s =
     (case dyn_Constant e of
        Some c \<Rightarrow> (Some (if CE_isTrue c then VTrue else VFalse), s)
      | None \<Rightarrow> evaluate_q impl (timing_query simplify cs e) s)"

definition timing_mustBeTrue ::
    "simplifier \<Rightarrow> 's solver_impl \<Rightarrow> expr list \<Rightarrow> expr \<Rightarrow> 's \<Rightarrow> bool option \<times> 's" where
  "timing_mustBeTrue simplify impl cs e s =
     (case dyn_Constant e of
        Some c \<Rightarrow> (Some (CE_isTrue c), s)
      | None \<Rightarrow> mustBeTrue impl (timing_query simplify cs e) s)"

definition timing_mustBeFalse ::
    "simplifier \<Rightarrow> 's solver_impl \<Rightarrow> expr list \<Rightarrow> expr \<Rightarrow> 's \<Rightarrow> bool option \<times> 's" where
  "timing_mustBeFalse simplify impl cs e = timing_mustBeTrue simplify impl cs (createIsZero e)"

definition timing_mayBeTrue ::
    "simplifier \<Rightarrow> 's solver_impl \<Rightarrow> expr list \<Rightarrow> expr \<Rightarrow> 's \<Rightarrow> bool option \<times> 's" where
  "timing_mayBeTrue simplify impl cs e s =
     (case timing_mustBeFalse simplify impl cs e s of (r, s') \<Rightarrow> (map_option Not r, s'))"

definition timing_mayBeFalse ::
    "simplifier \<Rightarrow> 's solver_impl \<Rightarrow> expr list \<Rightarrow> expr \<Rightarrow> 's \<Rightarrow> bool option \<times> 's" where
  "timing_mayBeFalse simplify impl cs e s =
     (case timing_mustBeTrue simplify impl cs e s of (r, s') \<Rightarrow> (map_option Not r, s'))"

definition timing_getValue ::
    "simplifier \<Rightarrow> 's solver_impl \<Rightarrow> expr list \<Rightarrow> expr \<Rightarrow> 's \<Rightarrow> apint option \<times> 's" where
  "timing_getValue simplify impl cs e s =
     (case dyn_Constant e of
        Some c \<Rightarrow> (Some c, s)
      | None \<Rightarrow> getValue impl (timing_query simplify cs e) s)"

definition timing_getInitialValues ::
    "'s solver_impl \<Rightarrow> expr list \<Rightarrow> array list \<Rightarrow> 's \<Rightarrow> int list list option \<times> 's" where
  "timing_getInitialValues impl cs objs s =
     (if objs = [] then (Some [], s)
      else getInitialValues impl \<lparr>constraints = cs, qexpr = alloc_Const 1 0\<rparr> objs s)"

definition timing_getRange ::
    "'s solver_impl \<Rightarrow> expr list \<Rightarrow> expr \<Rightarrow> 's \<Rightarrow> ((expr \<times> expr) \<times> 's) option" where
  "timing_getRange impl cs e = getRange impl \<lparr>constraints = cs, qexpr = e\<rparr>"

text \<open>Truth in all, and in some, environments that satisfy the constraints.\<close>

definition must :: "expr list \<Rightarrow> expr \<Rightarrow> bool" where
  "must cs e \<longleftrightarrow> (\<forall>\<rho>. models \<rho> cs \<longrightarrow> holds \<rho> e)"

definition may :: "expr list \<Rightarrow> expr \<Rightarrow> bool" where
  "may cs e \<longleftrightarrow> (\<exists>\<rho>. models \<rho> cs \<and> holds \<rho> e)"

locale timing_solver = solver_contract impl good
  for impl :: "'s solver_impl" and good :: "'s \<Rightarrow> bool" +
  fixes simplify :: simplifier
  assumes simplify_ok: "constraints_ok cs \<Longrightarrow> wt e \<Longrightarrow>
    wt (simplify cs e) \<and> getWidth (simplify cs e) = getWidth e \<and>
    (\<forall>\<rho>. models \<rho> cs \<longrightarrow> eval \<rho> (simplify cs e) = eval \<rho> e)"
begin

lemma timing_query_ok:
  assumes "constraints_ok cs" "wt e"
  shows "query_ok (timing_query simplify cs e)" "constraints (timing_query simplify cs e) = cs"
    "getWidth (qexpr (timing_query simplify cs e)) = getWidth e"
    "getWidth e = 1 \<Longrightarrow> bool_query (timing_query simplify cs e)"
    "valid (timing_query simplify cs e) \<longleftrightarrow> must cs e"
    "models \<rho> cs \<Longrightarrow> eval \<rho> (qexpr (timing_query simplify cs e)) = eval \<rho> e"
  using simplify_ok[OF assms] assms
  by (auto simp: timing_query_def query_ok_def bool_query_def valid_def must_def holds_def)

lemma constant_must:
  assumes "constraints_ok cs" "wt e" "getWidth e = 1" "dyn_Constant e = Some c"
  shows "must cs e \<longleftrightarrow> CE_isTrue c"
  using constant_query(1)[of "\<lparr>constraints = cs, qexpr = e\<rparr>" c] assms
  by (simp add: bool_query_def query_ok_def valid_def must_def)

lemma timing_mustBeTrue_ok:
  assumes "constraints_ok cs" "wt e" "getWidth e = 1" "good s"
    "timing_mustBeTrue simplify impl cs e s = (r, s')"
  shows "good s' \<and> (\<forall>b. r = Some b \<longrightarrow> b = must cs e)"
proof (cases "dyn_Constant e")
  case None
  then have "mustBeTrue impl (timing_query simplify cs e) s = (r, s')"
    using assms(5) by (simp add: timing_mustBeTrue_def)
  from mustBeTrue_ok[OF assms(4) timing_query_ok(4)[OF assms(1-3)] this] show ?thesis
    using timing_query_ok(5)[OF assms(1,2)] by simp
qed (use assms constant_must[OF assms(1-3)] in \<open>auto simp: timing_mustBeTrue_def\<close>)

lemma must_createIsZero:
  assumes "wt e" "getWidth e = 1"
  shows "must cs (createIsZero e) \<longleftrightarrow> \<not> may cs e"
  using createIsZero_bool(3)[OF assms] by (auto simp: must_def may_def)

lemma timing_mayBeTrue_ok:
  assumes "constraints_ok cs" "wt e" "getWidth e = 1" "good s"
    "timing_mayBeTrue simplify impl cs e s = (r, s')"
  shows "good s' \<and> (\<forall>b. r = Some b \<longrightarrow> b = may cs e)"
proof -
  obtain r1 where 1: "timing_mustBeTrue simplify impl cs (createIsZero e) s = (r1, s')" "r = map_option Not r1"
    using assms(5) by (auto simp: timing_mayBeTrue_def timing_mustBeFalse_def split: prod.splits)
  have "good s' \<and> (\<forall>b. r1 = Some b \<longrightarrow> b = must cs (createIsZero e))"
    using timing_mustBeTrue_ok[OF assms(1) createIsZero_bool(1,2)[OF assms(2,3)] assms(4) 1(1)] .
  then show ?thesis
    using 1(2) must_createIsZero[OF assms(2,3)] by (cases r1) auto
qed

lemma timing_getValue_ok:
  assumes "constraints_ok cs" "wt e" "good s" "timing_getValue simplify impl cs e s = (r, s')"
  shows "good s' \<and> (\<forall>c. r = Some c \<longrightarrow> (\<exists>\<rho>. models \<rho> cs \<and> rawval c = eval \<rho> e))"
proof (cases "dyn_Constant e")
  case None
  then have "getValue impl (timing_query simplify cs e) s = (r, s')"
    using assms(4) by (simp add: timing_getValue_def)
  from getValue_ok[OF assms(3) timing_query_ok(1)[OF assms(1,2)] this] show ?thesis
    using timing_query_ok(2,6)[OF assms(1,2)] by (simp add: value_ok_def) metis
next
  case (Some c)
  then have "e = ConstantExpr c" by (cases e) simp_all
  then show ?thesis
    using assms by (auto simp: timing_getValue_def constraints_ok_def)
qed

end

interpretation timing_dummy: timing_solver DummySolver "\<lambda>_. True" "\<lambda>cs e. e"
  by unfold_locales simp

section \<open>Resolution\<close>

type_synonym 's question = "expr \<Rightarrow> 's \<Rightarrow> bool option \<times> 's"

text \<open>The two searches of \<open>resolveOne\<close>: \<open>None\<close> is a failure of the solver.\<close>

fun find_backward ::
    "nat \<Rightarrow> 's question \<Rightarrow> 's question \<Rightarrow> expr \<Rightarrow> binding list \<Rightarrow> 's \<Rightarrow> binding option option \<times> 's" where
  "find_backward pw mayBe mustBe p [] s = (Some None, s)"
| "find_backward pw mayBe mustBe p (b # bs) s =
     (case mayBe (getBoundsCheckPointer pw (fst b) p) s of
        (None, s1) \<Rightarrow> (None, s1)
      | (Some True, s1) \<Rightarrow> (Some (Some b), s1)
      | (Some False, s1) \<Rightarrow>
          (case mustBe (create_Uge p (getBaseExpr pw (fst b))) s1 of
             (None, s2) \<Rightarrow> (None, s2)
           | (Some True, s2) \<Rightarrow> (Some None, s2)
           | (Some False, s2) \<Rightarrow> find_backward pw mayBe mustBe p bs s2))"

fun find_forward ::
    "nat \<Rightarrow> 's question \<Rightarrow> 's question \<Rightarrow> expr \<Rightarrow> binding list \<Rightarrow> 's \<Rightarrow> binding option option \<times> 's" where
  "find_forward pw mayBe mustBe p [] s = (Some None, s)"
| "find_forward pw mayBe mustBe p (b # bs) s =
     (case mustBe (create_Ult p (getBaseExpr pw (fst b))) s of
        (None, s1) \<Rightarrow> (None, s1)
      | (Some True, s1) \<Rightarrow> (Some None, s1)
      | (Some False, s1) \<Rightarrow>
          (case mayBe (getBoundsCheckPointer pw (fst b) p) s1 of
             (None, s2) \<Rightarrow> (None, s2)
           | (Some True, s2) \<Rightarrow> (Some (Some b), s2)
           | (Some False, s2) \<Rightarrow> find_forward pw mayBe mustBe p bs s2))"

definition cheap_search :: "64 word \<Rightarrow> address_space \<Rightarrow> binding option" where
  "cheap_search example sp =
     (case lookup_previous mo_key (unat example) (objects sp) of
        Some b \<Rightarrow> (if unat (example - address (fst b)) < mo_size (fst b) then Some b else None)
      | None \<Rightarrow> None)"

text \<open>Solver functions for constraints \<open>cs\<close> and a pointer of at most 64 bits; \<open>None\<close>: returned false.\<close>

definition resolveOne ::
    "nat \<Rightarrow> simplifier \<Rightarrow> 's solver_impl \<Rightarrow> expr list \<Rightarrow> expr \<Rightarrow> address_space \<Rightarrow> 's \<Rightarrow> binding option option \<times> 's" where
  "resolveOne pw simplify impl cs p sp s =
     (case dyn_Constant p of
        Some c \<Rightarrow> (resolveOne_const c sp, s)
      | None \<Rightarrow>
          (case timing_getValue simplify impl cs p s of
             (None, s1) \<Rightarrow> (None, s1)
           | (Some cex, s1) \<Rightarrow>
               let example = word_of_int (rawval cex)
               in case cheap_search example sp of
                    Some b \<Rightarrow> (Some (Some b), s1)
                  | None \<Rightarrow>
                      let start = upper_bound mo_key (unat example) (objects sp);
                          mayBe = timing_mayBeTrue simplify impl cs;
                          mustBe = timing_mustBeTrue simplify impl cs
                      in case find_backward pw mayBe mustBe p (rev (it_passed start)) s1 of
                           (Some None, s2) \<Rightarrow> find_forward pw mayBe mustBe p (it_pending start) s2
                         | (r, s2) \<Rightarrow> (r, s2)))"

text \<open>
  The part the two loops of \<open>resolve\<close> share: a result of \<open>Some r\<close> returns \<open>r\<close>, \<open>None\<close> goes on.
  \<open>maxR\<close> is \<open>maxResolutions\<close>.
\<close>

definition resolve_hit ::
    "'s question \<Rightarrow> 's question \<Rightarrow> nat \<Rightarrow> expr \<Rightarrow> binding \<Rightarrow> binding list \<Rightarrow> 's \<Rightarrow> bool option \<times> binding list \<times> 's" where
  "resolve_hit mayBe mustBe maxR inBounds b rl s =
     (case mayBe inBounds s of
        (None, s1) \<Rightarrow> (Some True, rl, s1)
      | (Some False, s1) \<Rightarrow> (None, rl, s1)
      | (Some True, s1) \<Rightarrow>
          let rl' = rl @ [b]
          in if length rl' = 1 then
               (case mustBe inBounds s1 of
                  (None, s2) \<Rightarrow> (Some True, rl', s2)
                | (Some True, s2) \<Rightarrow> (Some False, rl', s2)
                | (Some False, s2) \<Rightarrow> (None, rl', s2))
             else if length rl' = maxR then (Some True, rl', s1)
             else (None, rl', s1))"

text \<open>\<open>expired\<close> reads the timer against a timeout, if one is set.\<close>

fun resolve_backward ::
    "nat \<Rightarrow> 's question \<Rightarrow> 's question \<Rightarrow> ('s \<Rightarrow> bool) \<Rightarrow> nat \<Rightarrow> expr \<Rightarrow> binding list \<Rightarrow> binding list \<Rightarrow> 's
      \<Rightarrow> bool option \<times> binding list \<times> 's" where
  "resolve_backward pw mayBe mustBe expired maxR p [] rl s = (None, rl, s)"
| "resolve_backward pw mayBe mustBe expired maxR p (b # bs) rl s =
     (if expired s then (Some True, rl, s)
      else case resolve_hit mayBe mustBe maxR (getBoundsCheckPointer pw (fst b) p) b rl s of
          (Some r, rl1, s1) \<Rightarrow> (Some r, rl1, s1)
        | (None, rl1, s1) \<Rightarrow>
            (case mustBe (create_Uge p (getBaseExpr pw (fst b))) s1 of
               (None, s2) \<Rightarrow> (Some True, rl1, s2)
             | (Some True, s2) \<Rightarrow> (None, rl1, s2)
             | (Some False, s2) \<Rightarrow> resolve_backward pw mayBe mustBe expired maxR p bs rl1 s2))"

fun resolve_forward ::
    "nat \<Rightarrow> 's question \<Rightarrow> 's question \<Rightarrow> ('s \<Rightarrow> bool) \<Rightarrow> nat \<Rightarrow> expr \<Rightarrow> binding list \<Rightarrow> binding list \<Rightarrow> 's
      \<Rightarrow> bool option \<times> binding list \<times> 's" where
  "resolve_forward pw mayBe mustBe expired maxR p [] rl s = (None, rl, s)"
| "resolve_forward pw mayBe mustBe expired maxR p (b # bs) rl s =
     (if expired s then (Some True, rl, s)
      else case mustBe (create_Ult p (getBaseExpr pw (fst b))) s of
          (None, s1) \<Rightarrow> (Some True, rl, s1)
        | (Some True, s1) \<Rightarrow> (None, rl, s1)
        | (Some False, s1) \<Rightarrow>
            (case resolve_hit mayBe mustBe maxR (getBoundsCheckPointer pw (fst b) p) b rl s1 of
               (Some r, rl1, s2) \<Rightarrow> (Some r, rl1, s2)
             | (None, rl1, s2) \<Rightarrow> resolve_forward pw mayBe mustBe expired maxR p bs rl1 s2))"

text \<open>The result says whether the resolution is incomplete; the list is the one passed in, extended.\<close>

definition resolve ::
    "nat \<Rightarrow> simplifier \<Rightarrow> 's solver_impl \<Rightarrow> ('s \<Rightarrow> bool) \<Rightarrow> expr list \<Rightarrow> expr \<Rightarrow> address_space \<Rightarrow> nat
      \<Rightarrow> binding list \<Rightarrow> 's \<Rightarrow> (bool \<times> binding list \<times> 's) option" where
  "resolve pw simplify impl expired cs p sp maxR rl s =
     (case dyn_Constant p of
        Some c \<Rightarrow>
          (case resolveOne_const c sp of
             None \<Rightarrow> None
           | Some None \<Rightarrow> Some (False, rl, s)
           | Some (Some b) \<Rightarrow> Some (False, rl @ [b], s))
      | None \<Rightarrow>
          (case timing_getValue simplify impl cs p s of
             (None, s1) \<Rightarrow> Some (True, rl, s1)
           | (Some cex, s1) \<Rightarrow>
               let start = upper_bound mo_key (unat (word_of_int (rawval cex) :: 64 word)) (objects sp);
                   mayBe = timing_mayBeTrue simplify impl cs;
                   mustBe = timing_mustBeTrue simplify impl cs
               in case resolve_backward pw mayBe mustBe expired maxR p (rev (it_passed start)) rl s1 of
                    (Some r, rl', s2) \<Rightarrow> Some (r, rl', s2)
                  | (None, rl', s2) \<Rightarrow>
                      (case resolve_forward pw mayBe mustBe expired maxR p (it_pending start) rl' s2 of
                         (r, rl'', s3) \<Rightarrow> Some (r = Some True, rl'', s3))))"


section \<open>What the questions say\<close>

definition placed :: "nat \<Rightarrow> binding \<Rightarrow> bool" where
  "placed pw b \<longleftrightarrow> mo_key b + mo_extent b \<le> 2 ^ pw \<and> mo_size (fst b) < 2 ^ pw"

text \<open>Some solution of the constraints points \<open>p\<close> into an object, and every one does.\<close>

definition may_point :: "expr list \<Rightarrow> expr \<Rightarrow> binding \<Rightarrow> bool" where
  "may_point cs p b \<longleftrightarrow> (\<exists>\<rho>. models \<rho> cs \<and> intervals.contains b (nat (eval \<rho> p)))"

definition must_point :: "expr list \<Rightarrow> expr \<Rightarrow> binding \<Rightarrow> bool" where
  "must_point cs p b \<longleftrightarrow> (\<forall>\<rho>. models \<rho> cs \<longrightarrow> intervals.contains b (nat (eval \<rho> p)))"

lemma base_ok:
  assumes "placed pw b" "0 < pw"
  shows "wt (getBaseExpr pw (fst b))" "getWidth (getBaseExpr pw (fst b)) = pw"
    "eval \<rho> (getBaseExpr pw (fst b)) = int (mo_key b)"
proof -
  have "mo_key b < 2 ^ pw"
    using assms(1) by (simp add: placed_def mo_extent_def split: if_splits)
  then have "int (mo_key b) < 2 ^ pw" by simp
  moreover have "int (mo_key b) = uint (address (fst b))" by (simp add: mo_key_def)
  ultimately show "eval \<rho> (getBaseExpr pw (fst b)) = int (mo_key b)"
    unfolding getBaseExpr_def by (subst eval_alloc_Const) (simp_all add: fits_def)
qed (use assms in \<open>simp_all add: getBaseExpr_def\<close>)

lemma compare_base:
  assumes p: "wt p" "getWidth p = pw" and b: "placed pw b"
  shows "wt (create_Uge p (getBaseExpr pw (fst b)))" "getWidth (create_Uge p (getBaseExpr pw (fst b))) = 1"
    "holds \<rho> (create_Uge p (getBaseExpr pw (fst b))) \<longleftrightarrow> mo_key b \<le> nat (eval \<rho> p)"
    "wt (create_Ult p (getBaseExpr pw (fst b)))" "getWidth (create_Ult p (getBaseExpr pw (fst b))) = 1"
    "holds \<rho> (create_Ult p (getBaseExpr pw (fst b))) \<longleftrightarrow> nat (eval \<rho> p) < mo_key b"
proof -
  have pw: "0 < pw" using wt_width_pos p by auto
  note base = base_ok[OF b pw]
  note ule = simplifiesD[OF simplifies_create_Binary[of Ule "getBaseExpr pw (fst b)" p]]
  note ult = simplifiesD[OF simplifies_create_Binary[of Ult p "getBaseExpr pw (fst b)"]]
  have "0 \<le> eval \<rho> p" using fits_eval[OF p(1) refl, of \<rho>] by (simp add: fits_def)
  then have "int (mo_key b) \<le> eval \<rho> p \<longleftrightarrow> mo_key b \<le> nat (eval \<rho> p)"
    "eval \<rho> p < int (mo_key b) \<longleftrightarrow> nat (eval \<rho> p) < mo_key b" by linarith+
  then show "wt (create_Uge p (getBaseExpr pw (fst b)))" "getWidth (create_Uge p (getBaseExpr pw (fst b))) = 1"
    "holds \<rho> (create_Uge p (getBaseExpr pw (fst b))) \<longleftrightarrow> mo_key b \<le> nat (eval \<rho> p)"
    "wt (create_Ult p (getBaseExpr pw (fst b)))" "getWidth (create_Ult p (getBaseExpr pw (fst b))) = 1"
    "holds \<rho> (create_Ult p (getBaseExpr pw (fst b))) \<longleftrightarrow> nat (eval \<rho> p) < mo_key b"
    using ule ult base p by (auto simp: create_Uge_def isDivKind_def holds_def)
qed

lemma offset_contains:
  assumes "0 \<le> v" "v < 2 ^ pw" "int (mo_key b) + int (mo_extent b) \<le> 2 ^ pw"
    and "t = (if int (mo_key b) \<le> v then v - int (mo_key b) else v - int (mo_key b) + 2 ^ pw)"
  shows "(if mo_size (fst b) = 0 then t = 0 else t < int (mo_size (fst b))) \<longleftrightarrow> intervals.contains b (nat v)"
proof (cases "int (mo_key b) \<le> v")
  case True
  then have "t = v - int (mo_key b)" using assms(4) by simp
  then show ?thesis
    using True assms(1) unfolding intervals.contains_def mo_extent_def by (cases "mo_size (fst b) = 0") (simp, linarith)+
next
  case False
  then have "t = v - int (mo_key b) + 2 ^ pw" "\<not> intervals.contains b (nat v)"
    using assms(1,4) by (auto simp: intervals.contains_def)
  moreover have "int (mo_extent b) \<le> v - int (mo_key b) + 2 ^ pw"
    using assms(1,3) by linarith
  moreover have "int (mo_size (fst b)) \<le> int (mo_extent b)" "0 < int (mo_extent b)"
    by (simp_all add: mo_extent_def)
  ultimately have "t \<noteq> 0" "\<not> t < int (mo_size (fst b))" "\<not> intervals.contains b (nat v)"
    by linarith+
  then show ?thesis by simp
qed

lemma in_bounds_ok:
  assumes p: "wt p" "getWidth p = pw" and b: "placed pw b"
  shows "wt (getBoundsCheckPointer pw (fst b) p)" "getWidth (getBoundsCheckPointer pw (fst b) p) = 1"
    "holds \<rho> (getBoundsCheckPointer pw (fst b) p) \<longleftrightarrow> intervals.contains b (nat (eval \<rho> p))"
proof -
  have pw: "0 < pw" using wt_width_pos p by auto
  note base = base_ok[OF b pw]
  let ?off = "getOffsetExpr pw (fst b) p"
  let ?size = "alloc_Const pw (int (mo_size (fst b)))"
  have off: "wt ?off" "getWidth ?off = pw" "eval \<rho> ?off = take_bit pw (eval \<rho> p - int (mo_key b))"
    using simplifiesD[OF simplifies_create_Sub[of p "getBaseExpr pw (fst b)"]] base p
    by (simp_all add: getOffsetExpr_def bv_sub_def)
  have v: "0 \<le> eval \<rho> p" "eval \<rho> p < 2 ^ pw"
    using fits_eval[OF p(1) refl, of \<rho>] p(2) by (simp_all add: fits_def)
  have "mo_key b + mo_extent b \<le> 2 ^ pw" "0 < mo_extent b"
    using b by (simp_all add: placed_def mo_extent_def)
  then have "int (mo_key b + mo_extent b) \<le> int (2 ^ pw)" "0 < int (mo_extent b)"
    by (simp_all only: of_nat_le_iff of_nat_0_less_iff)
  then have k: "int (mo_key b) + int (mo_extent b) \<le> 2 ^ pw" "0 < int (mo_extent b)"
    by simp_all
  have t: "take_bit pw (eval \<rho> p - int (mo_key b)) =
     (if int (mo_key b) \<le> eval \<rho> p then eval \<rho> p - int (mo_key b) else eval \<rho> p - int (mo_key b) + 2 ^ pw)"
  proof (cases "int (mo_key b) \<le> eval \<rho> p")
    case True
    then show ?thesis using v by (simp add: take_bit_int_eq_self)
  next
    case False
    have "take_bit pw (eval \<rho> p - int (mo_key b)) = take_bit pw (eval \<rho> p - int (mo_key b) + 2 ^ pw)"
      by (simp add: take_bit_eq_mod)
    also have "\<dots> = eval \<rho> p - int (mo_key b) + 2 ^ pw"
      using False v k by (intro take_bit_int_eq_self) linarith+
    finally show ?thesis using False by simp
  qed
  have size: "eval \<rho> ?size = int (mo_size (fst b))" "eval \<rho> (alloc_Const pw 0) = 0"
  proof (rule eval_alloc_Const)
    have "mo_size (fst b) < 2 ^ pw"
      using b by (simp add: placed_def)
    then have "int (mo_size (fst b)) < 2 ^ pw" by simp
    then show "fits pw (int (mo_size (fst b)))" by (simp add: fits_def)
  qed (simp add: eval_alloc_Const)
  note ult = simplifiesD[OF simplifies_create_Binary[of Ult ?off ?size]]
  note eq = simplifiesD[OF simplifies_create_Eq[of ?off "alloc_Const pw 0"]]
  show "wt (getBoundsCheckPointer pw (fst b) p)" "getWidth (getBoundsCheckPointer pw (fst b) p) = 1"
    using ult(1,2) eq(1,2) off(1,2) pw
    by (simp_all add: getBoundsCheckPointer_def getBoundsCheckOffset_def getSizeExpr_def isDivKind_def)
  have "holds \<rho> (getBoundsCheckPointer pw (fst b) p) \<longleftrightarrow>
      (if mo_size (fst b) = 0 then eval \<rho> ?off = 0 else eval \<rho> ?off < int (mo_size (fst b)))"
    using ult eq off(1,2) pw size
    by (simp add: getBoundsCheckPointer_def getBoundsCheckOffset_def getSizeExpr_def isDivKind_def holds_def)
  also have "\<dots> \<longleftrightarrow> intervals.contains b (nat (eval \<rho> p))"
    unfolding off(3) by (rule offset_contains[OF v k(1) t])
  finally show "holds \<rho> (getBoundsCheckPointer pw (fst b) p) \<longleftrightarrow> intervals.contains b (nat (eval \<rho> p))" .
qed

definition answers :: "(expr \<Rightarrow> bool) \<Rightarrow> ('s \<Rightarrow> bool) \<Rightarrow> 's question \<Rightarrow> bool" where
  "answers P good q \<longleftrightarrow> (\<forall>e s r s'. wt e \<longrightarrow> getWidth e = 1 \<longrightarrow> good s \<longrightarrow> q e s = (r, s') \<longrightarrow>
     good s' \<and> (r = None \<or> r = Some (P e)))"

lemma answersD:
  "answers P good q \<Longrightarrow> q e s = (r, s') \<Longrightarrow> wt e \<Longrightarrow> getWidth e = 1 \<Longrightarrow> good s \<Longrightarrow>
   good s' \<and> (r = None \<or> r = Some (P e))"
  by (simp add: answers_def)

lemma answersI:
  assumes "\<And>e s r s'. wt e \<Longrightarrow> getWidth e = 1 \<Longrightarrow> good s \<Longrightarrow> q e s = (r, s') \<Longrightarrow>
    good s' \<and> (\<forall>b. r = Some b \<longrightarrow> b = P e)"
  shows "answers P good q"
  unfolding answers_def
proof (intro allI impI)
  fix e s r s' assume "wt e" "getWidth e = 1" "good s" "q e s = (r, s')"
  from assms[OF this] show "good s' \<and> (r = None \<or> r = Some (P e))" by (cases r) simp_all
qed

lemma must_may_questions:
  assumes "wt p" "getWidth p = pw" "placed pw b"
  shows "may cs (getBoundsCheckPointer pw (fst b) p) \<longleftrightarrow> may_point cs p b"
    "must cs (getBoundsCheckPointer pw (fst b) p) \<longleftrightarrow> must_point cs p b"
    "must cs (create_Uge p (getBaseExpr pw (fst b))) \<longleftrightarrow> (\<forall>\<rho>. models \<rho> cs \<longrightarrow> mo_key b \<le> nat (eval \<rho> p))"
    "must cs (create_Ult p (getBaseExpr pw (fst b))) \<longleftrightarrow> (\<forall>\<rho>. models \<rho> cs \<longrightarrow> nat (eval \<rho> p) < mo_key b)"
  using in_bounds_ok(3)[OF assms] compare_base(3,6)[OF assms]
  by (simp_all add: may_def must_def may_point_def must_point_def)

text \<open>Neighbours in a space: each ends before the next one starts.\<close>

definition apart :: "binding list \<Rightarrow> bool" where
  "apart bs \<longleftrightarrow> sorted_wrt (\<lambda>c b. mo_key c + mo_extent c \<le> mo_key b) bs"

lemma not_below:
  assumes "\<forall>\<rho>. models \<rho> cs \<longrightarrow> mo_key b \<le> nat (eval \<rho> p)" "mo_key c + mo_extent c \<le> mo_key b"
  shows "\<not> may_point cs p c"
  using assms by (fastforce simp: may_point_def intervals.contains_def)

lemma not_above:
  assumes "\<forall>\<rho>. models \<rho> cs \<longrightarrow> nat (eval \<rho> p) < mo_key b" "mo_key b \<le> mo_key c"
  shows "\<not> may_point cs p c"
  using assms by (fastforce simp: may_point_def intervals.contains_def)

lemma must_may_point: "constraints_ok cs \<Longrightarrow> must_point cs p b \<Longrightarrow> may_point cs p b"
  by (auto simp: must_point_def may_point_def constraints_ok_def)

section \<open>The searches\<close>

lemma find_backward_ok:
  assumes p: "wt p" "getWidth p = pw" and may: "answers (may cs) good mayBe" and must: "answers (must cs) good mustBe"
  shows "\<lbrakk>good s; list_all (placed pw) bs; apart (rev bs); find_backward pw mayBe mustBe p bs s = (r, s')\<rbrakk> \<Longrightarrow>
    good s' \<and> (\<forall>x. r = Some x \<longrightarrow> (case x of
        None \<Rightarrow> \<forall>b \<in> set bs. \<not> may_point cs p b
      | Some b \<Rightarrow> b \<in> set bs \<and> may_point cs p b))"
proof (induction bs arbitrary: s)
  case (Cons b bs)
  have pb: "placed pw b" "list_all (placed pw) bs" using Cons.prems(2) by simp_all
  have ap: "apart (rev bs)" "\<And>c. c \<in> set bs \<Longrightarrow> mo_key c + mo_extent c \<le> mo_key b"
    using Cons.prems(3) by (auto simp: apart_def sorted_wrt_append)
  note q = must_may_questions[OF p pb(1), of cs]
  note wts = in_bounds_ok(1,2)[OF p pb(1)] compare_base(1,2)[OF p pb(1)]
  obtain r1 s1 where 1: "mayBe (getBoundsCheckPointer pw (fst b) p) s = (r1, s1)" by fastforce
  note a1 = answersD[OF may 1 wts(1,2) Cons.prems(1)]
  obtain r2 s2 where 2: "mustBe (create_Uge p (getBaseExpr pw (fst b))) s1 = (r2, s2)" by fastforce
  note a2 = answersD[OF must 2 wts(3,4) a1[THEN conjunct1]]
  consider "r1 = None" | "r1 = Some True" | "r1 = Some False" "r2 = None" | "r1 = Some False" "r2 = Some True"
    | "r1 = Some False" "r2 = Some False" by (metis (full_types) option.exhaust)
  then show ?case
  proof cases
    case 4
    then have "\<not> may_point cs p c" if "c \<in> set bs" for c
      using not_below[OF _ ap(2)[OF that]] a2 q(3) by blast
    then show ?thesis using 4 1 2 a1 a2 q(1) Cons.prems(4) by auto
  next
    case 5
    then have "find_backward pw mayBe mustBe p bs s2 = (r, s')"
      using 1 2 Cons.prems(4) by simp
    from Cons.IH[OF _ pb(2) ap(1) this] show ?thesis
      using 5 a1 a2 q(1) by (auto split: option.splits)
  qed (use 1 2 a1 a2 q(1) Cons.prems(4) in auto)
qed auto

lemma find_forward_ok:
  assumes p: "wt p" "getWidth p = pw" and may: "answers (may cs) good mayBe" and must: "answers (must cs) good mustBe"
  shows "\<lbrakk>good s; list_all (placed pw) bs; apart bs; find_forward pw mayBe mustBe p bs s = (r, s')\<rbrakk> \<Longrightarrow>
    good s' \<and> (\<forall>x. r = Some x \<longrightarrow> (case x of
        None \<Rightarrow> \<forall>b \<in> set bs. \<not> may_point cs p b
      | Some b \<Rightarrow> b \<in> set bs \<and> may_point cs p b))"
proof (induction bs arbitrary: s)
  case (Cons b bs)
  have pb: "placed pw b" "list_all (placed pw) bs" using Cons.prems(2) by simp_all
  have ap: "apart bs" "\<And>c. c \<in> set (b # bs) \<Longrightarrow> mo_key b \<le> mo_key c"
    using Cons.prems(3) by (auto simp: apart_def)
  note q = must_may_questions[OF p pb(1), of cs]
  note wts = in_bounds_ok(1,2)[OF p pb(1)] compare_base(4,5)[OF p pb(1)]
  obtain r1 s1 where 1: "mustBe (create_Ult p (getBaseExpr pw (fst b))) s = (r1, s1)" by fastforce
  note a1 = answersD[OF must 1 wts(3,4) Cons.prems(1)]
  obtain r2 s2 where 2: "mayBe (getBoundsCheckPointer pw (fst b) p) s1 = (r2, s2)" by fastforce
  note a2 = answersD[OF may 2 wts(1,2) a1[THEN conjunct1]]
  consider "r1 = None" | "r1 = Some True" | "r1 = Some False" "r2 = None" | "r1 = Some False" "r2 = Some True"
    | "r1 = Some False" "r2 = Some False" by (metis (full_types) option.exhaust)
  then show ?case
  proof cases
    case 2
    then have "\<not> may_point cs p c" if "c \<in> set (b # bs)" for c
      using not_above[OF _ ap(2)[OF that]] a1 q(4) by blast
    then have "\<forall>c \<in> set (b # bs). \<not> may_point cs p c" by blast
    then show ?thesis using 2 1 a1 Cons.prems(4) by (auto simp del: list.set)
  next
    case 5
    then have "find_forward pw mayBe mustBe p bs s2 = (r, s')"
      using 1 2 Cons.prems(4) by simp
    from Cons.IH[OF _ pb(2) ap(1) this] show ?thesis
      using 5 a1 a2 q(1) by (auto split: option.splits)
  qed (use 1 2 a1 a2 q(1) Cons.prems(4) in auto)
qed auto

text \<open>
  What a pass over the objects \<open>bs\<close> does to the list: it adds objects the pointer may be in, all of
  them when it goes on, and when it stops with a complete answer the one object is the only one.
\<close>

definition pass_ok ::
    "expr list \<Rightarrow> expr \<Rightarrow> nat \<Rightarrow> binding list \<Rightarrow> binding list \<Rightarrow> bool option \<Rightarrow> binding list \<Rightarrow> bool" where
  "pass_ok cs p maxR bs rl r rl' \<longleftrightarrow>
     set rl' \<subseteq> set rl \<union> {b \<in> set bs. may_point cs p b} \<and>
     (r = None \<longrightarrow> set rl' = set rl \<union> {b \<in> set bs. may_point cs p b}) \<and>
     (r = Some False \<longrightarrow> (\<exists>b \<in> set bs. rl' = [b] \<and> must_point cs p b)) \<and>
     (2 \<le> maxR \<longrightarrow> length rl < maxR \<longrightarrow> length rl' \<le> maxR \<and> (r = None \<longrightarrow> length rl' < maxR))"

lemma pass_ok_trans:
  assumes "pass_ok cs p maxR as rl None rl1" "pass_ok cs p maxR bs rl1 r rl'"
  shows "pass_ok cs p maxR (as @ bs) rl r rl'"
proof -
  have 1: "set rl1 = set rl \<union> {b \<in> set as. may_point cs p b}"
    "2 \<le> maxR \<longrightarrow> length rl < maxR \<longrightarrow> length rl1 < maxR"
    using assms(1) by (simp_all add: pass_ok_def)
  have u: "{b \<in> set (as @ bs). may_point cs p b} = {b \<in> set as. may_point cs p b} \<union> {b \<in> set bs. may_point cs p b}"
    by auto
  show ?thesis
    using assms(2) unfolding pass_ok_def 1(1) u Un_assoc using 1(2) by (simp only: set_append bex_Un) blast
qed

lemma pass_ok_none: "\<forall>b \<in> set bs. \<not> may_point cs p b \<Longrightarrow> pass_ok cs p maxR bs rl None rl"
  by (auto simp: pass_ok_def)

lemma pass_ok_stop: "pass_ok cs p maxR bs rl (Some True) rl"
  by (auto simp: pass_ok_def)

lemma pass_ok_weaken:
  "pass_ok cs p maxR as rl r rl1 \<Longrightarrow> r \<noteq> None \<Longrightarrow> pass_ok cs p maxR (as @ bs) rl r rl1"
  unfolding pass_ok_def by auto

lemma resolve_hit_ok:
  assumes p: "wt p" "getWidth p = pw" and may: "answers (may cs) good mayBe" and must: "answers (must cs) good mustBe"
    and b: "placed pw b" and s: "good s"
    and hit: "resolve_hit mayBe mustBe maxR (getBoundsCheckPointer pw (fst b) p) b rl s = (r, rl', s')"
  shows "good s' \<and> pass_ok cs p maxR [b] rl r rl'"
proof -
  note q = must_may_questions[OF p b, of cs]
  note wts = in_bounds_ok(1,2)[OF p b]
  obtain r1 s1 where 1: "mayBe (getBoundsCheckPointer pw (fst b) p) s = (r1, s1)" by fastforce
  note a1 = answersD[OF may 1 wts s]
  obtain r2 s2 where 2: "mustBe (getBoundsCheckPointer pw (fst b) p) s1 = (r2, s2)" by fastforce
  note a2 = answersD[OF must 2 wts a1[THEN conjunct1]]
  consider "r1 = None" | "r1 = Some False" | "r1 = Some True" "rl = []" "r2 = None"
    | "r1 = Some True" "rl = []" "r2 = Some False" | "r1 = Some True" "rl = []" "r2 = Some True"
    | "r1 = Some True" "rl \<noteq> []" by (metis (full_types) option.exhaust)
  then show ?thesis
    by cases (use hit 1 2 a1 a2 q(1,2) in \<open>auto simp: resolve_hit_def Let_def pass_ok_def split: if_splits\<close>)
qed

lemma resolve_backward_ok:
  assumes p: "wt p" "getWidth p = pw" and may: "answers (may cs) good mayBe" and must: "answers (must cs) good mustBe"
  shows "\<lbrakk>good s; list_all (placed pw) bs; apart (rev bs);
      resolve_backward pw mayBe mustBe expired maxR p bs rl s = (r, rl', s')\<rbrakk> \<Longrightarrow>
    good s' \<and> pass_ok cs p maxR bs rl r rl'"
proof (induction bs arbitrary: s rl)
  case (Cons b bs)
  have pb: "placed pw b" "list_all (placed pw) bs" using Cons.prems(2) by simp_all
  have ap: "apart (rev bs)" "\<And>c. c \<in> set bs \<Longrightarrow> mo_key c + mo_extent c \<le> mo_key b"
    using Cons.prems(3) by (auto simp: apart_def sorted_wrt_append)
  note q = must_may_questions[OF p pb(1), of cs]
  note wts = compare_base(1,2)[OF p pb(1)]
  obtain r1 rl1 s1 where 1:
    "resolve_hit mayBe mustBe maxR (getBoundsCheckPointer pw (fst b) p) b rl s = (r1, rl1, s1)"
    by (metis prod_cases3)
  note a1 = resolve_hit_ok[OF p may must pb(1) Cons.prems(1) 1]
  obtain r2 s2 where 2: "mustBe (create_Uge p (getBaseExpr pw (fst b))) s1 = (r2, s2)" by fastforce
  note a2 = answersD[OF must 2 wts a1[THEN conjunct1]]
  note w = pass_ok_weaken[of cs p maxR "[b]" rl _ _ bs] pass_ok_trans[of cs p maxR "[b]" rl rl1 bs]
  consider "expired s" | x where "\<not> expired s" "r1 = Some x" | "\<not> expired s" "r1 = None" "r2 = None"
    | "\<not> expired s" "r1 = None" "r2 = Some True" | "\<not> expired s" "r1 = None" "r2 = Some False"
    by (metis (full_types) option.exhaust)
  then show ?case
  proof cases
    case 1
    then show ?thesis using Cons.prems(1,4) pass_ok_stop by simp
  next
    case 2
    then show ?thesis using 1 a1 Cons.prems(4) w(1)[of r1 rl1] by auto
  next
    case 3
    then show ?thesis using 1 2 a1 a2 Cons.prems(4) w(2)[OF _ pass_ok_stop] by simp
  next
    case 4
    then have "\<not> may_point cs p c" if "c \<in> set bs" for c
      using not_below[OF _ ap(2)[OF that]] a2 q(3) by blast
    then show ?thesis using 4 1 2 a1 a2 Cons.prems(4) w(2)[OF _ pass_ok_none] by simp
  next
    case 5
    then have "resolve_backward pw mayBe mustBe expired maxR p bs rl1 s2 = (r, rl', s')"
      using 1 2 Cons.prems(4) by simp
    from Cons.IH[OF _ pb(2) ap(1) this] show ?thesis
      using 5 a1 a2 w(2)[of r rl'] by simp
  qed
qed (auto simp: pass_ok_def)

lemma resolve_forward_ok:
  assumes p: "wt p" "getWidth p = pw" and may: "answers (may cs) good mayBe" and must: "answers (must cs) good mustBe"
  shows "\<lbrakk>good s; list_all (placed pw) bs; apart bs;
      resolve_forward pw mayBe mustBe expired maxR p bs rl s = (r, rl', s')\<rbrakk> \<Longrightarrow>
    good s' \<and> pass_ok cs p maxR bs rl r rl'"
proof (induction bs arbitrary: s rl)
  case (Cons b bs)
  have pb: "placed pw b" "list_all (placed pw) bs" using Cons.prems(2) by simp_all
  have ap: "apart bs" "\<And>c. c \<in> set (b # bs) \<Longrightarrow> mo_key b \<le> mo_key c"
    using Cons.prems(3) by (auto simp: apart_def)
  note q = must_may_questions[OF p pb(1), of cs]
  note wts = compare_base(4,5)[OF p pb(1)]
  obtain r1 s1 where 1: "mustBe (create_Ult p (getBaseExpr pw (fst b))) s = (r1, s1)" by fastforce
  note a1 = answersD[OF must 1 wts Cons.prems(1)]
  obtain r2 rl2 s2 where 2:
    "resolve_hit mayBe mustBe maxR (getBoundsCheckPointer pw (fst b) p) b rl s1 = (r2, rl2, s2)"
    by (metis prod_cases3)
  note a2 = resolve_hit_ok[OF p may must pb(1) a1[THEN conjunct1] 2]
  note w = pass_ok_weaken[of cs p maxR "[b]" rl _ _ bs] pass_ok_trans[of cs p maxR "[b]" rl rl2 bs]
  consider "expired s" | "\<not> expired s" "r1 = None" | "\<not> expired s" "r1 = Some True"
    | x where "\<not> expired s" "r1 = Some False" "r2 = Some x" | "\<not> expired s" "r1 = Some False" "r2 = None"
    by (metis (full_types) option.exhaust)
  then show ?case
  proof cases
    case 1
    then show ?thesis using Cons.prems(1,4) pass_ok_stop by simp
  next
    case 2
    then show ?thesis using 1 a1 Cons.prems(4) pass_ok_stop by simp
  next
    case 3
    then have "\<not> may_point cs p c" if "c \<in> set (b # bs)" for c
      using not_above[OF _ ap(2)[OF that]] a1 q(4) by blast
    then show ?thesis using 3 1 a1 Cons.prems(4) pass_ok_none by simp
  next
    case 4
    then show ?thesis using 1 2 a2 Cons.prems(4) w(1)[of r2 rl2] by auto
  next
    case 5
    then have "resolve_forward pw mayBe mustBe expired maxR p bs rl2 s2 = (r, rl', s')"
      using 1 2 Cons.prems(4) by simp
    from Cons.IH[OF _ pb(2) ap(1) this] show ?thesis
      using 5 a2 w(2)[of r rl'] by simp
  qed
qed (auto simp: pass_ok_def)

section \<open>Positions in a space\<close>

lemma upper_bound_split:
  assumes "ordered kov t"
  shows "it_passed (upper_bound kov k t) @ it_pending (upper_bound kov k t) = inorder t"
proof -
  let ?it = "lower_bound kov k t"
  note l = lower_bound_ok[OF assms, of k]
  have "iter_ok kov (upper_bound kov k t) \<and> it_root (upper_bound kov k t) = t"
  proof (cases "it_pending ?it")
    case Nil
    then have "it_deref ?it = None"
      using it_deref_pending[OF l(1)] by simp
    then show ?thesis
      using l(1,3) by (simp add: upper_bound_def)
  next
    case (Cons v vs)
    obtain it' where it': "it_next ?it = Some it'" "it_deref ?it = Some v"
      using it_next_pending[OF l(1) Cons] by blast
    then show ?thesis
      using l(1,3) it_next_ok[OF l(1) it'(1)] by (simp add: upper_bound_def Let_def)
  qed
  then show ?thesis using passed_pending by metis
qed

lemma apart_inorder:
  assumes "ordered mo_key t" "intervals.disjoint t"
  shows "apart (inorder t)"
proof -
  have "sorted_wrt (\<lambda>c b. mo_key c < mo_key b) (inorder t)"
    using assms(1) by (simp add: ordered_def sorted_wrt_map)
  then show ?thesis
    unfolding apart_def
  proof (rule sorted_wrt_mono_rel[rotated])
    fix c b assume cb: "c \<in> set (inorder t)" "b \<in> set (inorder t)" "mo_key c < mo_key b"
    then have "tree_map mo_key t (mo_key c) = Some c" "tree_map mo_key t (mo_key b) = Some b"
      using tree_map_Some[OF assms(1)] by simp_all
    then show "mo_key c + mo_extent c \<le> mo_key b"
      using assms(2) cb(3) unfolding intervals.disjoint_def by blast
  qed
qed

text \<open>What the interpreter guarantees of a state, a pointer and its address space.\<close>

definition resolvable :: "nat \<Rightarrow> expr list \<Rightarrow> expr \<Rightarrow> address_space \<Rightarrow> bool" where
  "resolvable pw cs p sp \<longleftrightarrow> constraints_ok cs \<and> wt p \<and> getWidth p = pw \<and> pw \<le> 64 \<and>
     tree_ok mo_key (objects sp) \<and> intervals.disjoint (objects sp) \<and> list_all (placed pw) (inorder (objects sp))"

definition pointed :: "expr list \<Rightarrow> expr \<Rightarrow> address_space \<Rightarrow> binding set" where
  "pointed cs p sp = {b \<in> set (inorder (objects sp)). may_point cs p b}"

lemma resolvable_split:
  assumes "resolvable pw cs p sp" and it_def: "it = upper_bound mo_key k (objects sp)"
  shows "inorder (objects sp) = it_passed it @ it_pending it" "list_all (placed pw) (rev (it_passed it))"
    "list_all (placed pw) (it_pending it)" "apart (rev (rev (it_passed it)))" "apart (it_pending it)"
proof -
  have o: "ordered mo_key (objects sp)" "intervals.disjoint (objects sp)"
    using assms(1) by (simp_all add: resolvable_def tree_ok_def)
  show s: "inorder (objects sp) = it_passed it @ it_pending it"
    unfolding it_def by (rule upper_bound_split[OF o(1), symmetric])
  have "list_all (placed pw) (it_passed it @ it_pending it)" "apart (it_passed it @ it_pending it)"
    using assms(1) apart_inorder[OF o] unfolding s[symmetric] by (simp_all add: resolvable_def)
  then show "list_all (placed pw) (rev (it_passed it))" "list_all (placed pw) (it_pending it)"
    "apart (rev (rev (it_passed it)))" "apart (it_pending it)"
    by (simp_all add: list.pred_set apart_def sorted_wrt_append)
qed

lemma word_of_pointer:
  assumes "fits pw v" "pw \<le> 64"
  shows "unat (word_of_int v :: 64 word) = nat v"
proof -
  have "v < 2 ^ 64"
    using assms power_increasing[of pw 64 "2 :: int"] by (simp add: fits_def)
  then show ?thesis
    using assms(1) by (simp add: fits_def unsigned_of_int take_bit_int_eq_self)
qed

lemma constant_pointed:
  assumes "resolvable pw cs p sp" "dyn_Constant p = Some c"
  shows "resolveOne_const c sp = Some None \<and> pointed cs p sp = {} \<or>
    (\<exists>b. resolveOne_const c sp = Some (Some b) \<and> pointed cs p sp = {b})"
proof -
  have p: "p = ConstantExpr c" using assms(2) by (cases p) simp_all
  let ?a = "word_of_int (rawval c) :: 64 word"
  have ok: "tree_ok mo_key (objects sp)" "ordered mo_key (objects sp)" "intervals.disjoint (objects sp)"
    and c: "fits (getBitWidth c) (rawval c)" "getBitWidth c \<le> 64" and m: "\<exists>\<rho>. models \<rho> cs"
    using assms(1) p by (auto simp: resolvable_def tree_ok_def constraints_ok_def)
  have "may_point cs p b \<longleftrightarrow> intervals.contains b (unat ?a)" for b
    using m by (simp add: may_point_def p word_of_pointer[OF c])
  then have "b \<in> pointed cs p sp \<longleftrightarrow> resolve_address ?a sp = Some b" for b
    using resolve_address_Some[OF ok(1), of ?a b] resolve_address_hit[OF ok(1,3), of b ?a]
    by (auto simp: pointed_def tree_map_Some[OF ok(2)])
  then have "pointed cs p sp = set_option (resolve_address ?a sp)"
    by auto
  then show ?thesis
    using c(2) by (cases "resolve_address ?a sp") (simp_all add: resolveOne_const_def)
qed

context timing_solver
begin

lemma questions:
  assumes "constraints_ok cs"
  shows "answers (may cs) good (timing_mayBeTrue simplify impl cs)"
    "answers (must cs) good (timing_mustBeTrue simplify impl cs)"
  by (rule answersI, rule timing_mayBeTrue_ok[OF assms], assumption+,
      rule answersI, rule timing_mustBeTrue_ok[OF assms], assumption+)

lemma example_ok:
  assumes "resolvable pw cs p sp" "good s" "timing_getValue simplify impl cs p s = (Some c, s')"
  shows "good s'" "\<exists>\<rho>. models \<rho> cs \<and> unat (word_of_int (rawval c) :: 64 word) = nat (eval \<rho> p)"
proof -
  have p: "constraints_ok cs" "wt p" "getWidth p \<le> 64"
    using assms(1) by (auto simp: resolvable_def)
  note v = timing_getValue_ok[OF p(1,2) assms(2,3)]
  show "good s'" using v by simp
  obtain \<rho> where "models \<rho> cs" "rawval c = eval \<rho> p" using v by auto
  then show "\<exists>\<rho>. models \<rho> cs \<and> unat (word_of_int (rawval c) :: 64 word) = nat (eval \<rho> p)"
    using word_of_pointer[OF fits_eval[OF p(2) refl] p(3)] by auto
qed

lemma resolveOne_ok:
  assumes r: "resolvable pw cs p sp" and s: "good s"
    and res: "resolveOne pw simplify impl cs p sp s = (r, s')"
  shows "good s' \<and> (\<forall>x. r = Some x \<longrightarrow> (case x of None \<Rightarrow> pointed cs p sp = {} | Some b \<Rightarrow> b \<in> pointed cs p sp))"
proof (cases "dyn_Constant p")
  case (Some c)
  then show ?thesis
    using constant_pointed[OF r Some] s res by (auto simp: resolveOne_def)
next
  case None
  have p: "constraints_ok cs" "wt p" "getWidth p = pw" using r by (simp_all add: resolvable_def)
  note q = questions[OF p(1)]
  obtain v s1 where v: "timing_getValue simplify impl cs p s = (v, s1)" by fastforce
  have s1: "good s1" using timing_getValue_ok[OF p(1,2) s v] by simp
  show ?thesis
  proof (cases v)
    case None
    then show ?thesis using \<open>dyn_Constant p = None\<close> v res s1 by (simp add: resolveOne_def)
  next
    case (Some cex)
    let ?e = "word_of_int (rawval cex) :: 64 word"
    show ?thesis
    proof (cases "cheap_search ?e sp")
      case (Some b)
      have o: "tree_ok mo_key (objects sp)" "ordered mo_key (objects sp)"
        using r by (simp_all add: resolvable_def tree_ok_def)
      have "resolve_address ?e sp = Some b"
        using Some by (auto simp: cheap_search_def resolve_address_def Let_def split: option.splits if_splits)
      note b = resolve_address_Some[OF o(1) this]
      obtain \<rho> where "models \<rho> cs" "unat ?e = nat (eval \<rho> p)"
        using example_ok(2)[OF r s] v \<open>v = Some cex\<close> by blast
      with b have "b \<in> pointed cs p sp"
        by (auto simp: pointed_def may_point_def tree_map_Some[OF o(2)])
      then show ?thesis
        using Some \<open>v = Some cex\<close> \<open>dyn_Constant p = None\<close> v res s1 by (auto simp: resolveOne_def)
    next
      case None
      let ?it = "upper_bound mo_key (unat ?e) (objects sp)"
      let ?may = "timing_mayBeTrue simplify impl cs" and ?must = "timing_mustBeTrue simplify impl cs"
      note sp = resolvable_split[OF r refl, of "unat ?e"]
      obtain r2 s2 where b: "find_backward pw ?may ?must p (rev (it_passed ?it)) s1 = (r2, s2)" by fastforce
      note bk = find_backward_ok[OF p(2,3) q s1 sp(2,4) b]
      obtain r3 s3 where f: "find_forward pw ?may ?must p (it_pending ?it) s2 = (r3, s3)" by fastforce
      note fw = find_forward_ok[OF p(2,3) q bk[THEN conjunct1] sp(3,5) f]
      have "(r, s') = (if r2 = Some None then (r3, s3) else (r2, s2))"
        using None \<open>v = Some cex\<close> \<open>dyn_Constant p = None\<close> v res b f
        by (auto simp: resolveOne_def Let_def split: option.splits)
      then show ?thesis
        using bk fw unfolding pointed_def sp(1) by (auto split: if_splits option.splits)
    qed
  qed
qed

lemma must_pointed:
  assumes r: "resolvable pw cs p sp" and b: "b \<in> set (inorder (objects sp))" "must_point cs p b"
  shows "pointed cs p sp = {b}"
proof -
  have o: "tree_ok mo_key (objects sp)" "ordered mo_key (objects sp)" "intervals.disjoint (objects sp)" "constraints_ok cs"
    using r by (simp_all add: resolvable_def tree_ok_def)
  have "c = b" if c: "c \<in> pointed cs p sp" for c
  proof -
    obtain \<rho> where "c \<in> set (inorder (objects sp))" "models \<rho> cs" "intervals.contains c (nat (eval \<rho> p))"
      using c unfolding pointed_def may_point_def by blast
    then show ?thesis
      using b intervals.contains_unique[OF o(1,3), of c b "nat (eval \<rho> p)"]
      by (simp add: tree_map_Some[OF o(2)] must_point_def)
  qed
  moreover have "b \<in> pointed cs p sp"
    using must_may_point[OF o(4) b(2)] b(1) by (simp add: pointed_def)
  ultimately show ?thesis by blast
qed

lemma resolve_ok:
  assumes r: "resolvable pw cs p sp" and s: "good s"
  shows "\<exists>inc rl s'. resolve pw simplify impl expired cs p sp maxR [] s = Some (inc, rl, s') \<and> good s' \<and>
    set rl \<subseteq> pointed cs p sp \<and> (\<not> inc \<longrightarrow> set rl = pointed cs p sp) \<and> (2 \<le> maxR \<longrightarrow> length rl \<le> maxR)"
proof (cases "dyn_Constant p")
  case (Some c)
  then show ?thesis
    using constant_pointed[OF r Some] s by (auto simp: resolve_def)
next
  case None
  have p: "constraints_ok cs" "wt p" "getWidth p = pw" using r by (simp_all add: resolvable_def)
  note q = questions[OF p(1)]
  obtain v s1 where v: "timing_getValue simplify impl cs p s = (v, s1)" by fastforce
  have s1: "good s1" using timing_getValue_ok[OF p(1,2) s v] by simp
  show ?thesis
  proof (cases v)
    case None
    then show ?thesis
      using \<open>dyn_Constant p = None\<close> v s1
      by (intro exI[of _ True] exI[of _ "[]"] exI[of _ s1]) (simp add: resolve_def)
  next
    case (Some cex)
    let ?it = "upper_bound mo_key (unat (word_of_int (rawval cex) :: 64 word)) (objects sp)"
    let ?may = "timing_mayBeTrue simplify impl cs" and ?must = "timing_mustBeTrue simplify impl cs"
    let ?bw = "rev (it_passed ?it)"
    note sp = resolvable_split[OF r refl, of "unat (word_of_int (rawval cex) :: 64 word)"]
    have all: "set (?bw @ it_pending ?it) = set (inorder (objects sp))" unfolding sp(1) by simp
    obtain r2 rl2 s2 where b: "resolve_backward pw ?may ?must expired maxR p ?bw [] s1 = (r2, rl2, s2)"
      by (metis prod_cases3)
    note bk = resolve_backward_ok[OF p(2,3) q s1 sp(2,4) b]
    obtain r3 rl3 s3 where f: "resolve_forward pw ?may ?must expired maxR p (it_pending ?it) rl2 s2 = (r3, rl3, s3)"
      by (metis prod_cases3)
    note fw = resolve_forward_ok[OF p(2,3) q bk[THEN conjunct1] sp(3,5) f]
    obtain r' rl' s' where res: "resolve pw simplify impl expired cs p sp maxR [] s = Some (r' = Some True, rl', s')"
        "good s'" "pass_ok cs p maxR (?bw @ it_pending ?it) [] r' rl'"
    proof (cases r2)
      case None
      then have "resolve pw simplify impl expired cs p sp maxR [] s = Some (r3 = Some True, rl3, s3)"
        using \<open>v = Some cex\<close> \<open>dyn_Constant p = None\<close> v b f by (simp add: resolve_def Let_def)
      then show ?thesis using that pass_ok_trans None bk fw by blast
    next
      case (Some x)
      then have "resolve pw simplify impl expired cs p sp maxR [] s = Some (r2 = Some True, rl2, s2)"
        using \<open>v = Some cex\<close> \<open>dyn_Constant p = None\<close> v b by (simp add: resolve_def Let_def)
      then show ?thesis using that pass_ok_weaken Some bk by blast
    qed
    have "set rl' \<subseteq> pointed cs p sp" "2 \<le> maxR \<longrightarrow> length rl' \<le> maxR"
      using res(3) unfolding pass_ok_def all pointed_def[symmetric] by auto
    moreover have "set rl' = pointed cs p sp" if "r' \<noteq> Some True"
    proof (cases r')
      case None
      then show ?thesis
        using res(3) unfolding pass_ok_def all pointed_def[symmetric] by simp
    next
      case (Some x)
      then show ?thesis
        using that res(3) must_pointed[OF r] unfolding pass_ok_def all by (cases x) auto
    qed
    ultimately show ?thesis using res(1,2) by blast
  qed
qed

end

interpretation timing_perfect: timing_solver perfect_solver "\<lambda>_. True" "\<lambda>cs e. e"
  by unfold_locales simp

section \<open>Properties\<close>

text \<open>C24: \<open>resolveOne\<close> on any pointer is correct: for disjoint objects, satisfiable constraints and a
  solver that keeps its contract, it returns an object some solution of the constraints points into,
  or reports that no object of the space can be pointed into, unless the solver fails.\<close>

theorem resolveOne_symbolic:
  assumes "timing_solver impl good simplify" "good s" "resolvable pw cs p sp"
    and "resolveOne pw simplify impl cs p sp s = (r, s')"
  shows "good s' \<and> (\<forall>x. r = Some x \<longrightarrow> (case x of None \<Rightarrow> pointed cs p sp = {} | Some b \<Rightarrow> b \<in> pointed cs p sp))"
  by (rule timing_solver.resolveOne_ok[OF assms(1,3,2,4)])

text \<open>A pointer to one of the ten bytes from 4100 on.\<close>

definition sample_pointer :: expr where
  "sample_pointer = BinaryExpr Add (ConstantExpr (APInt 64 4100)) (ZExtExpr (sample_byte 0) 64)"

definition sample_constraints :: "expr list" where
  "sample_constraints = [BinaryExpr Ult (sample_byte 0) (ConstantExpr (APInt 8 10))]"

lemma sample_resolvable: "resolvable 64 sample_constraints sample_pointer small_space"
proof -
  have "tree_ok mo_key (objects small_space)"
    by (simp add: small_space_def del: tree_insert.simps) (intro tree.insert(1) tree.empty(1))
  moreover have "intervals.disjoint (objects small_space)"
    unfolding small_space_objects intervals.disjoint_def
    by (auto simp: tree_map_def mo_extent_def small_mo_def mo_key_def split: if_splits)
  moreover have "models (\<lambda>_ _. 0) sample_constraints"
    by (simp add: sample_constraints_def models_def holds_def)
  then have "constraints_ok sample_constraints"
    unfolding constraints_ok_def by (intro conjI exI) (simp_all add: sample_constraints_def)
  ultimately show ?thesis
    by (simp add: resolvable_def sample_pointer_def small_space_objects placed_def mo_extent_def mo_key_def small_mo_def
        fits_def)
qed

lemma sample_pointed: "pointed sample_constraints sample_pointer small_space = {(small_mo 4100 8, 1)}"
proof -
  have e: "eval \<rho> sample_pointer = 4100 + eval \<rho> (sample_byte 0)" for \<rho>
  proof -
    have "0 \<le> eval \<rho> (sample_byte 0)" "eval \<rho> (sample_byte 0) < 256"
      using fits_eval[of "sample_byte 0" 8 \<rho>] by (simp_all add: fits_def)
    then show ?thesis by (simp add: sample_pointer_def bv_add_def take_bit_int_eq_self)
  qed
  have "\<not> may_point sample_constraints sample_pointer (small_mo 4096 0, 0)"
    by (simp add: may_point_def intervals.contains_def e nat_add_distrib mo_key_def mo_extent_def small_mo_def)
  moreover have "models (\<lambda>_ _. 0) sample_constraints"
    by (simp add: sample_constraints_def models_def holds_def)
  then have "may_point sample_constraints sample_pointer (small_mo 4100 8, 1)"
    unfolding may_point_def by (intro exI conjI) (auto simp: intervals.contains_def e mo_key_def mo_extent_def small_mo_def)
  ultimately show ?thesis
    by (auto simp: pointed_def small_space_objects)
qed

lemma perfect_answers:
  "fst (timing_mustBeTrue (\<lambda>cs e. e) perfect_solver cs e s) \<noteq> None"
  "fst (timing_mayBeTrue (\<lambda>cs e. e) perfect_solver cs e s) \<noteq> None"
  "fst (timing_getValue (\<lambda>cs e. e) perfect_solver cs e s) \<noteq> None"
  by (auto simp: timing_mustBeTrue_def timing_mayBeTrue_def timing_mustBeFalse_def mustBeTrue_def timing_getValue_def
      getValue_def perfect_solver_def perfect_value_def split: option.splits prod.splits)

lemma find_answers:
  assumes "\<And>e s. fst (mayBe e s) \<noteq> None" "\<And>e s. fst (mustBe e s) \<noteq> None"
  shows "fst (find_backward pw mayBe mustBe p bs s) \<noteq> None" "fst (find_forward pw mayBe mustBe p bs s) \<noteq> None"
proof -
  have "mayBe e s \<noteq> (None, s')" "mustBe e s \<noteq> (None, s')" for e s s'
    using assms(1)[of e s] assms(2)[of e s] by auto
  then show "fst (find_backward pw mayBe mustBe p bs s) \<noteq> None" "fst (find_forward pw mayBe mustBe p bs s) \<noteq> None"
    by (induction bs arbitrary: s) (auto split: option.splits prod.splits bool.splits)
qed

lemma perfect_resolveOne:
  assumes "dyn_Constant p = None"
  shows "fst (resolveOne pw (\<lambda>cs e. e) perfect_solver cs p sp s) \<noteq> None"
proof -
  let ?may = "timing_mayBeTrue (\<lambda>cs e. e) perfect_solver cs" and ?must = "timing_mustBeTrue (\<lambda>cs e. e) perfect_solver cs"
  obtain c s1 where v: "timing_getValue (\<lambda>cs e. e) perfect_solver cs p s = (Some c, s1)"
    using perfect_answers(3)[of cs p s] by (cases "timing_getValue (\<lambda>cs e. e) perfect_solver cs p s") auto
  let ?it = "upper_bound mo_key (unat (word_of_int (rawval c) :: 64 word)) (objects sp)"
  obtain x s2 where b: "find_backward pw ?may ?must p (rev (it_passed ?it)) s1 = (Some x, s2)"
    using find_answers(1)[of ?may ?must, OF perfect_answers(2,1)]
    by (metis fst_conv not_Some_eq surj_pair)
  show ?thesis
    using assms v b find_answers(2)[of ?may ?must, OF perfect_answers(2,1)]
    by (simp add: resolveOne_def Let_def split: option.split)
qed

theorem resolveOne_symbolic_witness:
  "fst (resolveOne 64 (\<lambda>cs e. e) perfect_solver sample_constraints sample_pointer small_space ()) =
     Some (Some (small_mo 4100 8, 1))"
proof -
  obtain r s' where r: "resolveOne 64 (\<lambda>cs e. e) perfect_solver sample_constraints sample_pointer small_space () = (r, s')"
    by (meson surj_pair)
  have "r \<noteq> None"
    using perfect_resolveOne[where p = sample_pointer and pw = 64 and cs = sample_constraints and sp = small_space] r
    by (cases r) (simp_all add: sample_pointer_def)
  then show ?thesis
    using resolveOne_symbolic[OF timing_perfect.timing_solver_axioms TrueI sample_resolvable r] r
    by (auto simp: sample_pointed split: option.splits)
qed

text \<open>C25: \<open>resolve\<close> always returns, and its list is sound: every object of the
  list can be pointed into; when the result does not say that it is incomplete, the list holds all
  such objects; and it never exceeds a limit of two or more.\<close>

theorem resolve_complete:
  assumes "timing_solver impl good simplify" "good s" "resolvable pw cs p sp"
  shows "\<exists>incomplete rl s'. resolve pw simplify impl expired cs p sp maxR [] s = Some (incomplete, rl, s') \<and> good s' \<and>
    set rl \<subseteq> pointed cs p sp \<and> (\<not> incomplete \<longrightarrow> set rl = pointed cs p sp) \<and>
    (2 \<le> maxR \<longrightarrow> length rl \<le> maxR)"
  by (rule timing_solver.resolve_ok[OF assms(1,3,2)])

theorem resolve_complete_witness:
  "\<exists>incomplete rl. resolve 64 (\<lambda>cs e. e) perfect_solver (\<lambda>_. False) sample_constraints sample_pointer small_space 2 [] () =
       Some (incomplete, rl, ()) \<and> set rl \<subseteq> {(small_mo 4100 8, 1)} \<and> length rl \<le> 2"
  using resolve_complete[OF timing_perfect.timing_solver_axioms TrueI sample_resolvable, of "\<lambda>_. False" 2]
  by (auto simp: sample_pointed)

end
