(* ===== verification/IndependentSets.thy ===== *)
theory IndependentSets
  imports ExprEval Solver
begin

text \<open>
  The reads of an expression (\<open>findReads\<close>, \<^verbatim>\<open>lib/klee/Expr/ExprUtil.cpp\<close>) and the array elements a
  constraint depends on (\<open>IndependentElementSet\<close>, \<^verbatim>\<open>lib/klee/Solver/IndependentSolver.cpp\<close>), with the
  closure of a query under shared elements and the split of a query into independent factors.
  Maps and sets keyed by pointers to arrays are association lists and lists of arrays: no result
  depends on the order in which they are traversed, except the list of the arrays of a factor, which
  is sorted by address.
\<close>

section \<open>The reads of an expression\<close>

type_synonym read_expr = "array \<times> updates \<times> expr"

fun update_exprs :: "updates \<Rightarrow> expr list" where
  "update_exprs NoUpdate = []"
| "update_exprs (UpdateNode x v nx) = x # v # update_exprs nx"

text \<open>Constants and visited expressions are not pushed; the top of the stack is the head.\<close>

fun push_new :: "expr list \<Rightarrow> expr list \<times> expr list \<Rightarrow> expr list \<times> expr list" where
  "push_new [] (visited, stack) = (visited, stack)"
| "push_new (e # es) (visited, stack) =
     (if isConstantExpr e \<or> e \<in> set visited then push_new es (visited, stack)
      else push_new es (e # visited, e # stack))"

lemma push_new_size:
  "sum_list (map size (snd (push_new es vs))) \<le> sum_list (map size es) + sum_list (map size (snd vs))"
  by (induction es vs rule: push_new.induct) auto

lemma size_update_exprs: "sum_list (map size (update_exprs us)) \<le> size us"
  by (induction us) auto

lemma size_all_kids: "isConstantExpr e \<or> sum_list (map size (kids e)) < size e"
  by (cases e) auto

function find_reads_loop ::
    "bool \<Rightarrow> expr list \<Rightarrow> expr list \<Rightarrow> updates list \<Rightarrow> read_expr list \<Rightarrow> read_expr list" where
  "find_reads_loop visitUpdates [] visited heads results = results"
| "find_reads_loop visitUpdates (e # stack) visited heads results =
     (case dyn_Read e of
        Some (a, us, i) \<Rightarrow>
          (let vs = push_new [i] (visited, stack)
           in if visitUpdates \<and> us \<notin> set heads then
                (let vs' = push_new (update_exprs us) vs
                 in find_reads_loop visitUpdates (snd vs') (fst vs') (us # heads) (results @ [(a, us, i)]))
              else find_reads_loop visitUpdates (snd vs) (fst vs) heads (results @ [(a, us, i)]))
      | None \<Rightarrow>
          (let vs = push_new (kids e) (visited, stack)
           in find_reads_loop visitUpdates (snd vs) (fst vs) heads results))"
  by pat_completeness auto
termination
proof (relation "measures [\<lambda>(_, stack, _). sum_list (map size stack), \<lambda>(_, stack, _). length stack]", goal_cases)
  case (2 visitUpdates e stack visited heads results vs)
  then show ?case
    using push_new_size[of "kids e" "(visited, stack)"] size_all_kids[of e] by (cases e) auto
next
  case (3 visitUpdates e stack visited heads results p a y us i vs vs')
  then have "size e = size us + size i + 1" by auto
  then show ?case
    using 3 push_new_size[of "[i]" "(visited, stack)"] push_new_size[of "update_exprs us" vs] size_update_exprs[of us]
    by simp
next
  case (4 visitUpdates e stack visited heads results p a y us i vs)
  then have "size e = size us + size i + 1" by auto
  then show ?case
    using 4 push_new_size[of "[i]" "(visited, stack)"] by simp
qed simp

declare find_reads_loop.simps(2) [simp del]

definition findReads :: "expr \<Rightarrow> bool \<Rightarrow> read_expr list" where
  "findReads e visitUpdates =
     (if isConstantExpr e then [] else find_reads_loop visitUpdates [e] [e] [] [])"

text \<open>
  \<open>SymbolicObjectFinder\<close>: the symbolic arrays in the order of the visits. The set of results is
  the list itself; the hash of visited expressions only saves visits that add nothing.
\<close>

fun sym_visit :: "expr \<Rightarrow> array list \<Rightarrow> array list"
  and sym_updates :: "updates \<Rightarrow> array list \<Rightarrow> array list" where
  "sym_visit (ConstantExpr c) objs = objs"
| "sym_visit (NotOptimizedExpr e) objs = sym_visit e objs"
| "sym_visit (ReadExpr a us i) objs =
     (let objs' = sym_updates us objs
      in sym_visit i (if isSymbolicArray a \<and> a \<notin> set objs' then objs' @ [a] else objs'))"
| "sym_visit (SelectExpr c t f) objs = sym_visit f (sym_visit t (sym_visit c objs))"
| "sym_visit (ConcatExpr l r) objs = sym_visit r (sym_visit l objs)"
| "sym_visit (ExtractExpr e off w) objs = sym_visit e objs"
| "sym_visit (ZExtExpr e w) objs = sym_visit e objs"
| "sym_visit (SExtExpr e w) objs = sym_visit e objs"
| "sym_visit (NotExpr e) objs = sym_visit e objs"
| "sym_visit (BinaryExpr k l r) objs = sym_visit r (sym_visit l objs)"
| "sym_updates NoUpdate objs = objs"
| "sym_updates (UpdateNode x v nx) objs = sym_updates nx (sym_visit v (sym_visit x objs))"

definition findSymbolicObjects :: "expr list \<Rightarrow> array list" where
  "findSymbolicObjects es = fold sym_visit es []"

section \<open>Sets of array elements\<close>

text \<open>\<open>DenseSet\<close>.\<close>

definition dense_add :: "nat \<Rightarrow> nat list \<Rightarrow> nat list" where
  "dense_add x s = (if x \<in> set s then s else s @ [x])"

definition dense_union :: "nat list \<Rightarrow> nat list \<Rightarrow> bool \<times> nat list" where
  "dense_union s b = (\<not> set b \<subseteq> set s, s @ filter (\<lambda>x. x \<notin> set s) b)"

definition dense_intersects :: "nat list \<Rightarrow> nat list \<Rightarrow> bool" where
  "dense_intersects s b = list_ex (\<lambda>x. x \<in> set b) s"

record element_set =
  elements :: "(array \<times> nat list) list"
  wholeObjects :: "array list"
  exprs :: "expr list"

definition erase :: "array \<Rightarrow> (array \<times> nat list) list \<Rightarrow> (array \<times> nat list) list" where
  "erase a m = filter (\<lambda>p. fst p \<noteq> a) m"

definition assign :: "array \<Rightarrow> nat list \<Rightarrow> (array \<times> nat list) list \<Rightarrow> (array \<times> nat list) list" where
  "assign a s m = (a, s) # erase a m"

text \<open>One read of the constructor; \<open>getZExtValue(32)\<close> asserts that the index has at most 32 bits.\<close>

definition add_read :: "read_expr \<Rightarrow> element_set \<Rightarrow> element_set option" where
  "add_read rd s =
     (case rd of (a, us, i) \<Rightarrow>
        if isConstantArray a \<and> us = NoUpdate then Some s
        else if a \<in> set (wholeObjects s) then Some s
        else case dyn_Constant i of
            Some c \<Rightarrow>
              (if getBitWidth c \<le> 32 then
                 (let dis = (case map_of (elements s) a of Some d \<Rightarrow> d | None \<Rightarrow> [])
                  in Some (s\<lparr>elements := assign a (dense_add (nat (rawval c)) dis) (elements s)\<rparr>))
               else None)
          | None \<Rightarrow> Some (s\<lparr>elements := erase a (elements s), wholeObjects := a # wholeObjects s\<rparr>))"

fun add_reads :: "read_expr list \<Rightarrow> element_set \<Rightarrow> element_set option" where
  "add_reads [] s = Some s"
| "add_reads (r # rs) s = (case add_read r s of None \<Rightarrow> None | Some s' \<Rightarrow> add_reads rs s')"

definition element_set_of :: "expr \<Rightarrow> element_set option" where
  "element_set_of e = add_reads (findReads e True) \<lparr>elements = [], wholeObjects = [], exprs = [e]\<rparr>"

definition has_key :: "array \<Rightarrow> (array \<times> nat list) list \<Rightarrow> bool" where
  "has_key a m \<longleftrightarrow> map_of m a \<noteq> None"

definition ies_intersects :: "element_set \<Rightarrow> element_set \<Rightarrow> bool" where
  "ies_intersects s b \<longleftrightarrow>
     list_ex (\<lambda>a. a \<in> set (wholeObjects b) \<or> has_key a (elements b)) (wholeObjects s) \<or>
     list_ex (\<lambda>(a, d). a \<in> set (wholeObjects b) \<or>
        (case map_of (elements b) a of None \<Rightarrow> False | Some d' \<Rightarrow> dense_intersects d d')) (elements s)"

text \<open>The two loops of \<open>add\<close>; the flag says that the set has changed.\<close>

fun add_whole :: "array list \<Rightarrow> element_set \<Rightarrow> bool \<times> element_set" where
  "add_whole [] s = (False, s)"
| "add_whole (a # as) s =
     (if has_key a (elements s) then
        (True, snd (add_whole as (s\<lparr>elements := erase a (elements s), wholeObjects := a # wholeObjects s\<rparr>)))
      else if a \<notin> set (wholeObjects s) then
        (True, snd (add_whole as (s\<lparr>wholeObjects := a # wholeObjects s\<rparr>)))
      else add_whole as s)"

fun add_elements :: "(array \<times> nat list) list \<Rightarrow> element_set \<Rightarrow> bool \<times> element_set" where
  "add_elements [] s = (False, s)"
| "add_elements ((a, d) # m) s =
     (if a \<in> set (wholeObjects s) then add_elements m s
      else case map_of (elements s) a of
          None \<Rightarrow> (True, snd (add_elements m (s\<lparr>elements := (a, d) # elements s\<rparr>)))
        | Some d0 \<Rightarrow>
            (case dense_union d0 d of
               (True, d') \<Rightarrow> (True, snd (add_elements m (s\<lparr>elements := assign a d' (elements s)\<rparr>)))
             | (False, _) \<Rightarrow> add_elements m s))"

definition ies_add :: "element_set \<Rightarrow> element_set \<Rightarrow> bool \<times> element_set" where
  "ies_add s b =
     (let (m1, s1) = add_whole (wholeObjects b) (s\<lparr>exprs := exprs s @ exprs b\<rparr>);
          (m2, s2) = add_elements (elements b) s1
      in (m1 \<or> m2, s2))"

text \<open>\<open>calculateArrayReferences\<close>: a \<open>std::set\<close> of pointers is traversed in the order of addresses.\<close>

definition calculateArrayReferences :: "element_set \<Rightarrow> array list" where
  "calculateArrayReferences s = sort_key addr (remdups (map fst (elements s) @ wholeObjects s))"

section \<open>The closure of a query\<close>

type_synonym worklist = "(expr \<times> element_set) list"

fun make_worklist :: "expr list \<Rightarrow> worklist option" where
  "make_worklist [] = Some []"
| "make_worklist (e # es) =
     (case element_set_of e of
        None \<Rightarrow> None
      | Some s \<Rightarrow> map_option (\<lambda>w. (e, s) # w) (make_worklist es))"

text \<open>One pass: the closure, the constraints taken in order, what remains, and whether nothing changed.\<close>

fun closure_pass :: "worklist \<Rightarrow> element_set \<Rightarrow> element_set \<times> expr list \<times> worklist \<times> bool" where
  "closure_pass [] cl = (cl, [], [], True)"
| "closure_pass ((e, s) # w) cl =
     (if ies_intersects s cl then
        (case ies_add cl s of (m, cl1) \<Rightarrow>
          (case closure_pass w cl1 of (cl', taken, rest, done') \<Rightarrow> (cl', e # taken, rest, \<not> m \<and> done')))
      else (case closure_pass w cl of (cl', taken, rest, done') \<Rightarrow> (cl', taken, (e, s) # rest, done')))"

lemma closure_pass_length:
  "closure_pass w cl = (cl', taken, rest, done') \<Longrightarrow>
   length rest \<le> length w \<and> (\<not> done' \<longrightarrow> length rest < length w)"
  by (induction w cl arbitrary: cl' taken rest done' rule: closure_pass.induct)
    (fastforce split: if_splits prod.splits)+

function closure_loop :: "worklist \<Rightarrow> element_set \<Rightarrow> expr list \<Rightarrow> element_set \<times> expr list" where
  "closure_loop w cl result =
     (case closure_pass w cl of (cl', taken, rest, done') \<Rightarrow>
        if done' then (cl', result @ taken) else closure_loop rest cl' (result @ taken))"
  by pat_completeness auto
termination
  by (relation "measure (\<lambda>(w, _). length w)") (auto dest: closure_pass_length[OF sym])

declare closure_loop.simps [simp del]

definition getIndependentConstraints :: "query \<Rightarrow> (element_set \<times> expr list) option" where
  "getIndependentConstraints q =
     (case element_set_of (qexpr q) of
        None \<Rightarrow> None
      | Some cl \<Rightarrow> map_option (\<lambda>w. closure_loop w cl []) (make_worklist (constraints q)))"

section \<open>Independent factors\<close>

text \<open>The inner loop: what \<open>current\<close> absorbs and the factors it leaves; the flag is \<open>doneLoop\<close>.\<close>

fun absorb :: "element_set \<Rightarrow> element_set list \<Rightarrow> element_set \<times> element_set list \<times> bool" where
  "absorb current [] = (current, [], True)"
| "absorb current (c # cs) =
     (if ies_intersects current c then
        (case ies_add current c of (m, current1) \<Rightarrow>
          (case absorb current1 cs of (current', keep, done') \<Rightarrow> (current', keep, \<not> m \<and> done')))
      else (case absorb current cs of (current', keep, done') \<Rightarrow> (current', c # keep, done')))"

lemma absorb_length:
  "absorb cur cs = (cur', keep, done') \<Longrightarrow> length keep \<le> length cs \<and> (\<not> done' \<longrightarrow> length keep < length cs)"
  by (induction cur cs arbitrary: cur' keep done' rule: absorb.induct)
    (fastforce split: if_splits prod.splits)+

function factor_pass :: "element_set list \<Rightarrow> element_set list \<times> bool" where
  "factor_pass [] = ([], True)"
| "factor_pass (f # fs) =
     (case absorb f fs of (f', keep, d) \<Rightarrow> (case factor_pass keep of (fs', d') \<Rightarrow> (f' # fs', d \<and> d')))"
  by pat_completeness auto
termination
  by (relation "measure length") (auto dest: absorb_length[OF sym])

lemma factor_pass_length:
  "factor_pass fs = (fs', d) \<Longrightarrow> length fs' \<le> length fs \<and> (\<not> d \<longrightarrow> length fs' < length fs)"
proof (induction fs arbitrary: fs' d rule: factor_pass.induct)
  case (2 f fs)
  obtain f' keep d1 where 1: "absorb f fs = (f', keep, d1)" by (metis prod_cases3)
  obtain fs1 d2 where 2: "factor_pass keep = (fs1, d2)" by fastforce
  show ?case
    using "2.IH"[OF 1[symmetric] refl 2] absorb_length[OF 1] 1 2 "2.prems" by auto
qed simp

function factor_loop :: "element_set list \<Rightarrow> element_set list" where
  "factor_loop fs = (case factor_pass fs of (fs', d) \<Rightarrow> if d then fs' else factor_loop fs')"
  by pat_completeness auto
termination
  by (relation "measure length") (auto dest: factor_pass_length[OF sym])

declare factor_loop.simps [simp del]

fun make_sets :: "expr list \<Rightarrow> element_set list option" where
  "make_sets [] = Some []"
| "make_sets (e # es) =
     (case element_set_of e of None \<Rightarrow> None | Some s \<Rightarrow> map_option ((#) s) (make_sets es))"

text \<open>A constant query expression has to be false.\<close>

definition getAllIndependentConstraintsSets :: "query \<Rightarrow> element_set list option" where
  "getAllIndependentConstraintsSets q =
     (case dyn_Constant (qexpr q) of
        Some c \<Rightarrow> (if CE_isFalse c then map_option factor_loop (make_sets (constraints q)) else None)
      | None \<Rightarrow> map_option factor_loop (make_sets (createIsZero (qexpr q) # constraints q)))"

section \<open>The search for reads is complete\<close>

text \<open>The reads of an expression by structural recursion, with or without those of the updates.\<close>

fun reads_in :: "bool \<Rightarrow> expr \<Rightarrow> read_expr set" and reads_in_updates :: "bool \<Rightarrow> updates \<Rightarrow> read_expr set" where
  "reads_in v (ConstantExpr c) = {}"
| "reads_in v (NotOptimizedExpr e) = reads_in v e"
| "reads_in v (ReadExpr a us i) =
     insert (a, us, i) (reads_in v i \<union> (if v then reads_in_updates v us else {}))"
| "reads_in v (SelectExpr c t f) = reads_in v c \<union> reads_in v t \<union> reads_in v f"
| "reads_in v (ConcatExpr l r) = reads_in v l \<union> reads_in v r"
| "reads_in v (ExtractExpr e off w) = reads_in v e"
| "reads_in v (ZExtExpr e w) = reads_in v e"
| "reads_in v (SExtExpr e w) = reads_in v e"
| "reads_in v (NotExpr e) = reads_in v e"
| "reads_in v (BinaryExpr k l r) = reads_in v l \<union> reads_in v r"
| "reads_in_updates v NoUpdate = {}"
| "reads_in_updates v (UpdateNode x y nx) = reads_in v x \<union> reads_in v y \<union> reads_in_updates v nx"

definition own_reads :: "expr \<Rightarrow> read_expr set" where
  "own_reads e = set_option (dyn_Read e)"

definition children :: "bool \<Rightarrow> expr \<Rightarrow> expr list" where
  "children v e = (case dyn_Read e of Some (a, us, i) \<Rightarrow> i # (if v then update_exprs us else []) | None \<Rightarrow> kids e)"

lemma reads_in_update_exprs: "reads_in_updates v us = \<Union> (reads_in v ` set (update_exprs us))"
  by (induction us rule: updates.induct[where ?P1.0 = "\<lambda>_. True"]) auto

lemma reads_in_children: "reads_in v e = own_reads e \<union> \<Union> (reads_in v ` set (children v e))"
  by (cases e) (auto simp: own_reads_def children_def dyn_Read_def reads_in_update_exprs)

lemma size_children: "c \<in> set (children v e) \<Longrightarrow> size c < size e"
proof -
  assume c: "c \<in> set (children v e)"
  have "x \<in> set (update_exprs us) \<Longrightarrow> size x < size us" for x us
    by (induction us rule: updates.induct[where ?P1.0 = "\<lambda>_. True"]) auto
  with c show ?thesis
    by (cases e) (fastforce simp: children_def dyn_Read_def split: if_splits)+
qed

lemma push_new_sets:
  "set (snd (push_new es vs)) \<subseteq> set (snd vs) \<union> set es"
  "set (snd vs) \<subseteq> set (snd (push_new es vs))"
  "set (fst vs) \<subseteq> set (fst (push_new es vs))"
  "set (fst (push_new es vs)) = set (fst vs) \<union> {e \<in> set es. \<not> isConstantExpr e}"
  "set (fst (push_new es vs)) - set (snd (push_new es vs)) \<subseteq> set (fst vs) - set (snd vs)"
  by (induction es vs rule: push_new.induct) auto

definition explored :: "bool \<Rightarrow> expr set \<Rightarrow> expr \<Rightarrow> bool" where
  "explored v V e \<longleftrightarrow> (\<forall>c \<in> set (children v e). isConstantExpr c \<or> c \<in> V)"

lemma explored_mono: "explored v V e \<Longrightarrow> V \<subseteq> W \<Longrightarrow> explored v W e"
  by (auto simp: explored_def)

definition search_ok :: "bool \<Rightarrow> expr list \<Rightarrow> expr list \<Rightarrow> updates list \<Rightarrow> read_expr list \<Rightarrow> bool" where
  "search_ok v stack visited heads results \<longleftrightarrow>
     (\<forall>e \<in> set visited - set stack. explored v (set visited) e \<and> own_reads e \<subseteq> set results) \<and>
     (\<forall>us \<in> set heads. \<forall>x \<in> set (update_exprs us). isConstantExpr x \<or> x \<in> set visited)"

lemma search_ok_step:
  assumes "search_ok v (e # stack) visited heads results"
    and vs: "set visited \<subseteq> set visited'" "set visited' - set stack' \<subseteq> set visited - set stack"
    and e: "explored v (set visited') e" "own_reads e \<subseteq> set results'" "set results \<subseteq> set results'"
    and heads: "\<And>us x. us \<in> set heads' \<Longrightarrow> us \<notin> set heads \<Longrightarrow> x \<in> set (update_exprs us) \<Longrightarrow>
      isConstantExpr x \<or> x \<in> set visited'"
  shows "search_ok v stack' visited' heads' results'"
  unfolding search_ok_def
proof (intro conjI ballI)
  fix x assume "x \<in> set visited' - set stack'"
  then have x: "x \<in> set visited - set stack" using vs(2) by blast
  have "explored v (set visited') x \<and> own_reads x \<subseteq> set results'"
  proof (cases "x = e")
    case False
    then have "explored v (set visited) x \<and> own_reads x \<subseteq> set results"
      using x assms(1) unfolding search_ok_def by simp
    then show ?thesis using explored_mono[OF _ vs(1)] e(3) by blast
  qed (use e in simp)
  then show "explored v (set visited') x" "own_reads x \<subseteq> set results'" by blast+
next
  fix us x assume "us \<in> set heads'" "x \<in> set (update_exprs us)"
  then show "isConstantExpr x \<or> x \<in> set visited'"
    using heads assms(1) vs(1) unfolding search_ok_def by blast
qed

lemma find_reads_loop_complete:
  "search_ok v stack visited heads results \<Longrightarrow>
   \<exists>V. set visited \<subseteq> V \<and> (\<forall>e \<in> V. explored v V e \<and> own_reads e \<subseteq> set (find_reads_loop v stack visited heads results))"
proof (induction v stack visited heads results rule: find_reads_loop.induct)
  case (1 v visited heads results)
  then show ?case by (auto simp: search_ok_def)
next
  case (2 v e stack visited heads results)
  show ?case
  proof (cases "dyn_Read e")
    case None
    let ?vs = "push_new (kids e) (visited, stack)"
    have "search_ok v (snd ?vs) (fst ?vs) heads results"
      by (rule search_ok_step[OF 2(4)])
        (use push_new_sets[where es = "kids e" and vs = "(visited, stack)"] None in
          \<open>auto simp: explored_def children_def own_reads_def\<close>)
    from 2(1)[OF None refl this] show ?thesis
      using None push_new_sets(3)[where es = "kids e" and vs = "(visited, stack)"]
      by (auto simp: find_reads_loop.simps(2) Let_def)
  next
    case (Some p)
    obtain a us i where p: "p = (a, us, i)" by (cases p) auto
    let ?vs = "push_new [i] (visited, stack)"
    note s1 = push_new_sets[where es = "[i]" and vs = "(visited, stack)"]
    show ?thesis
    proof (cases "v \<and> us \<notin> set heads")
      case True
      let ?vs' = "push_new (update_exprs us) ?vs"
      note s2 = push_new_sets[where es = "update_exprs us" and vs = ?vs]
      have "search_ok v (snd ?vs') (fst ?vs') (us # heads) (results @ [(a, us, i)])"
        by (rule search_ok_step[OF 2(4)])
          (use s1 s2 Some p True in \<open>auto simp: explored_def children_def own_reads_def simp del: push_new.simps\<close>)
      from 2(2)[OF Some p[symmetric] refl refl True refl this] show ?thesis
        using Some p True s1(3) s2(3) by (auto simp: find_reads_loop.simps(2) Let_def simp del: push_new.simps)
    next
      case False
      have "search_ok v (snd ?vs) (fst ?vs) heads (results @ [(a, us, i)])"
        by (rule search_ok_step[OF 2(4)])
          (use s1 Some p False 2(4) in \<open>auto simp: explored_def children_def own_reads_def search_ok_def simp del: push_new.simps\<close>)
      from 2(3)[OF Some p[symmetric] refl refl False this] show ?thesis
        using Some p False s1(3) by (auto simp: find_reads_loop.simps(2) Let_def simp del: push_new.simps)
    qed
  qed
qed

lemma reads_in_closed:
  assumes "\<And>e. e \<in> V \<Longrightarrow> explored v V e \<and> own_reads e \<subseteq> R"
  shows "e \<in> V \<Longrightarrow> reads_in v e \<subseteq> R"
proof (induction "size e" arbitrary: e rule: less_induct)
  case less
  have "reads_in v c \<subseteq> R" if "c \<in> set (children v e)" for c
  proof (cases "isConstantExpr c")
    case False
    then have "c \<in> V" using assms[OF less(2)] that by (auto simp: explored_def)
    then show ?thesis using less(1) size_children[OF that] by blast
  qed (auto elim: isConstantExprE)
  then show ?case
    unfolding reads_in_children[of v e] using assms[OF less(2)] by blast
qed

lemma reads_in_pushed:
  assumes "set st' \<subseteq> set st \<union> C" "\<And>c. c \<in> C \<Longrightarrow> reads_in v c \<subseteq> reads_in v e"
  shows "\<Union> (reads_in v ` set st') \<subseteq> reads_in v e \<union> \<Union> (reads_in v ` set st)"
  using assms by blast

lemma found_subset:
  assumes "A \<subseteq> set (rs @ [r]) \<union> B" "B \<subseteq> reads_in v e \<union> C" "r \<in> reads_in v e" "C = \<Union> (reads_in v ` set st)"
  shows "A \<subseteq> set rs \<union> \<Union> (reads_in v ` set (e # st))"
  using assms by auto

lemma find_reads_loop_sound:
  "set (find_reads_loop v stack visited heads results) \<subseteq> set results \<union> \<Union> (reads_in v ` set stack)"
proof (induction v stack visited heads results rule: find_reads_loop.induct)
  case (2 v e stack visited heads results)
  have kids: "reads_in v c \<subseteq> reads_in v e" if "c \<in> set (children v e)" for c
    using that reads_in_children[of v e] by blast
  show ?case
  proof (cases "dyn_Read e")
    case None
    let ?vs = "push_new (kids e) (visited, stack)"
    have u: "\<Union> (reads_in v ` set (snd ?vs)) \<subseteq> reads_in v e \<union> \<Union> (reads_in v ` set stack)"
      by (rule reads_in_pushed[where C = "set (kids e)"])
        (use push_new_sets(1)[where es = "kids e" and vs = "(visited, stack)"] kids None in \<open>auto simp: children_def\<close>)
    have "find_reads_loop v (e # stack) visited heads results = find_reads_loop v (snd ?vs) (fst ?vs) heads results"
      using None by (simp add: find_reads_loop.simps(2) Let_def)
    from subset_trans[OF eq_refl[OF arg_cong[where f = set, OF this]] 2(1)[OF None refl]] show ?thesis
      using u unfolding list.set(2) UN_insert by (rule subset_trans[OF _ Un_mono[OF order_refl]])
  next
    case (Some p)
    obtain a us i where p: "p = (a, us, i)" by (cases p) auto
    have own: "(a, us, i) \<in> reads_in v e"
      using Some p reads_in_children[of v e] by (auto simp: own_reads_def)
    let ?vs = "push_new [i] (visited, stack)"
    note s1 = push_new_sets(1)[where es = "[i]" and vs = "(visited, stack)"]
    show ?thesis
    proof (cases "v \<and> us \<notin> set heads")
      case True
      let ?vs' = "push_new (update_exprs us) ?vs"
      have u: "\<Union> (reads_in v ` set (snd ?vs')) \<subseteq> reads_in v e \<union> \<Union> (reads_in v ` set stack)"
        by (rule reads_in_pushed[where C = "insert i (set (update_exprs us))"])
          (use s1 push_new_sets(1)[where es = "update_exprs us" and vs = ?vs] kids Some p True in
            \<open>auto simp: children_def simp del: push_new.simps\<close>)
      have "find_reads_loop v (e # stack) visited heads results =
          find_reads_loop v (snd ?vs') (fst ?vs') (us # heads) (results @ [(a, us, i)])"
        using Some p True by (simp add: find_reads_loop.simps(2) Let_def del: push_new.simps)
      from subset_trans[OF eq_refl[OF arg_cong[where f = set, OF this]] 2(2)[OF Some p[symmetric] refl refl True refl]] show ?thesis
        using u own refl by (rule found_subset)
    next
      case False
      have u: "\<Union> (reads_in v ` set (snd ?vs)) \<subseteq> reads_in v e \<union> \<Union> (reads_in v ` set stack)"
        by (rule reads_in_pushed[where C = "{i}"])
          (use s1 kids[of i] Some p in \<open>auto simp: children_def simp del: push_new.simps\<close>)
      have "find_reads_loop v (e # stack) visited heads results =
          find_reads_loop v (snd ?vs) (fst ?vs) heads (results @ [(a, us, i)])"
        using Some p False by (auto simp: find_reads_loop.simps(2) Let_def simp del: push_new.simps)
      from subset_trans[OF eq_refl[OF arg_cong[where f = set, OF this]] 2(3)[OF Some p[symmetric] refl refl False]] show ?thesis
        using u own refl by (rule found_subset)
    qed
  qed
qed simp

lemma set_findReads: "set (findReads e v) = reads_in v e"
proof (cases "isConstantExpr e")
  case False
  have "search_ok v [e] [e] [] []" by (simp add: search_ok_def)
  from find_reads_loop_complete[OF this] obtain V where
    "set [e] \<subseteq> V" "\<And>x. x \<in> V \<Longrightarrow> explored v V x \<and> own_reads x \<subseteq> set (find_reads_loop v [e] [e] [] [])"
    by blast
  then have "reads_in v e \<subseteq> set (find_reads_loop v [e] [e] [] [])"
    using reads_in_closed[of V v "set (find_reads_loop v [e] [e] [] [])" e] by simp
  then show ?thesis
    using False find_reads_loop_sound[of v "[e]" "[e]" "[]" "[]"] by (auto simp: findReads_def)
qed (auto simp: findReads_def elim: isConstantExprE)

section \<open>Dependence\<close>

text \<open>The array elements a set stands for, and those one read depends on.\<close>

definition support :: "element_set \<Rightarrow> (array \<times> int) set" where
  "support s = {(a, i). a \<in> set (wholeObjects s) \<or> (\<exists>d. map_of (elements s) a = Some d \<and> i \<in> int ` set d)}"

definition read_support :: "read_expr \<Rightarrow> (array \<times> int) set" where
  "read_support rd = (case rd of (a, us, i) \<Rightarrow>
     if isConstantArray a \<and> us = NoUpdate then {}
     else case dyn_Constant i of Some c \<Rightarrow> {(a, int (nat (rawval c)))} | None \<Rightarrow> {a} \<times> UNIV)"

definition agree_on :: "(array \<times> int) set \<Rightarrow> env \<Rightarrow> env \<Rightarrow> bool" where
  "agree_on S \<rho> \<rho>' \<longleftrightarrow> (\<forall>(a, i) \<in> S. \<rho> a i = \<rho>' a i)"

text \<open>Tables are read within their bounds.\<close>

definition tables_ok :: "expr \<Rightarrow> bool" where
  "tables_ok e \<longleftrightarrow> (\<forall>(a, us, i) \<in> reads_in True e. isConstantArray a \<and> us = NoUpdate \<longrightarrow>
     (\<forall>\<rho>. eval \<rho> i < int (arr_size a)))"

definition reads_agree :: "env \<Rightarrow> env \<Rightarrow> read_expr set \<Rightarrow> bool" where
  "reads_agree \<rho> \<rho>' R \<longleftrightarrow> (\<forall>(a, us, i) \<in> R.
     (if isConstantArray a \<and> us = NoUpdate then \<forall>\<rho>. eval \<rho> i < int (arr_size a)
      else case dyn_Constant i of Some c \<Rightarrow> \<rho> a (rawval c) = \<rho>' a (rawval c) | None \<Rightarrow> \<rho> a = \<rho>' a))"

lemma reads_agree_Un: "reads_agree \<rho> \<rho>' (A \<union> B) \<longleftrightarrow> reads_agree \<rho> \<rho>' A \<and> reads_agree \<rho> \<rho>' B"
  unfolding reads_agree_def by blast

lemma reads_agree_insert: "reads_agree \<rho> \<rho>' (insert r B) \<longleftrightarrow> reads_agree \<rho> \<rho>' {r} \<and> reads_agree \<rho> \<rho>' B"
  unfolding reads_agree_def by blast

lemma read_updates_cong:
  assumes "us = NoUpdate \<and> isConstantArray a \<and> 0 \<le> i \<and> i < int (arr_size a) \<or> \<rho> a i = \<rho>' a i"
    and "\<And>x. x \<in> set (update_exprs us) \<Longrightarrow> eval \<rho> x = eval \<rho>' x"
  shows "read_updates \<rho> a us i = read_updates \<rho>' a us i"
proof -
  have i: "initial_value \<rho> a i = initial_value \<rho>' a i"
    using assms(1) by (elim disjE) (simp_all add: initial_value_def)
  show ?thesis
    using assms(2) by (induction us rule: updates.induct[where ?P1.0 = "\<lambda>_. True"]) (simp_all add: i)
qed

lemma eval_agree:
  "wt e \<longrightarrow> reads_agree \<rho> \<rho>' (reads_in True e) \<longrightarrow> eval \<rho> e = eval \<rho>' e"
  "(\<forall>a. wt_updates a us \<longrightarrow> reads_agree \<rho> \<rho>' (reads_in_updates True us) \<longrightarrow>
      (\<forall>x \<in> set (update_exprs us). eval \<rho> x = eval \<rho>' x))"
proof (induction e and us)
  case (ReadExpr a us i)
  show ?case
  proof (intro impI)
    assume w: "wt (ReadExpr a us i)" and "reads_agree \<rho> \<rho>' (reads_in True (ReadExpr a us i))"
    then have r: "reads_agree \<rho> \<rho>' {(a, us, i)}" "reads_agree \<rho> \<rho>' (reads_in True i)"
      "reads_agree \<rho> \<rho>' (reads_in_updates True us)"
      by (simp_all add: reads_agree_insert[of _ _ "(a, us, i)" "reads_in True i \<union> reads_in_updates True us"]
          reads_agree_Un)
    have i: "eval \<rho> i = eval \<rho>' i" and x: "\<And>x. x \<in> set (update_exprs us) \<Longrightarrow> eval \<rho> x = eval \<rho>' x"
      using ReadExpr w r(2,3) by auto
    have "us = NoUpdate \<and> isConstantArray a \<and> 0 \<le> eval \<rho> i \<and> eval \<rho> i < int (arr_size a) \<or>
        \<rho> a (eval \<rho> i) = \<rho>' a (eval \<rho> i)"
      using r(1) w by (auto simp: reads_agree_def split: if_splits option.splits)
    from read_updates_cong[OF this x] show "eval \<rho> (ReadExpr a us i) = eval \<rho>' (ReadExpr a us i)"
      using i by simp
  qed
qed (auto simp: reads_agree_Un)

lemma wt_reads_in:
  "wt e \<longrightarrow> (\<forall>(a, us, i) \<in> reads_in v e. wf_array a \<and> wt i \<and> getWidth i = domain_w a)"
  "\<forall>b. wt_updates b vs \<longrightarrow> (\<forall>(a, us, i) \<in> reads_in_updates v vs. wf_array a \<and> wt i \<and> getWidth i = domain_w a)"
  by (induction e and vs) (auto 0 3)

text \<open>The value of an expression depends on the elements its reads stand for only.\<close>

lemma eval_support:
  assumes "wt e" "tables_ok e" "\<Union> (read_support ` reads_in True e) \<subseteq> S" "agree_on S \<rho> \<rho>'"
  shows "eval \<rho> e = eval \<rho>' e"
proof -
  have "reads_agree \<rho> \<rho>' (reads_in True e)"
    unfolding reads_agree_def
  proof (intro ballI, clarify)
    fix a us i assume r: "(a, us, i) \<in> reads_in True e"
    have sub: "read_support (a, us, i) \<subseteq> S" using assms(3) r by blast
    show "if isConstantArray a \<and> us = NoUpdate then \<forall>\<rho>. eval \<rho> i < int (arr_size a)
      else case dyn_Constant i of Some c \<Rightarrow> \<rho> a (rawval c) = \<rho>' a (rawval c) | None \<Rightarrow> \<rho> a = \<rho>' a"
    proof (cases "isConstantArray a \<and> us = NoUpdate")
      case True
      then show ?thesis using assms(2) r by (auto simp: tables_ok_def)
    next
      case False
      show ?thesis
      proof (cases "dyn_Constant i")
        case None
        then have "{a} \<times> UNIV \<subseteq> S" using sub False by (simp add: read_support_def)
        then have "\<rho> a j = \<rho>' a j" for j using assms(4) by (auto simp: agree_on_def)
        then show ?thesis using False None by auto
      next
        case (Some c)
        then have "0 \<le> rawval c" using bspec[OF wt_reads_in(1)[THEN mp, OF assms(1)] r] Some by (simp add: fits_def)
        then have "(a, rawval c) \<in> S" using sub False Some by (simp add: read_support_def)
        then show ?thesis using False Some assms(4) by (auto simp: agree_on_def)
      qed
    qed
  qed
  then show ?thesis using eval_agree(1)[of e \<rho> \<rho>'] assms(1) by simp
qed

section \<open>Sets, unions and intersections\<close>

lemma map_of_erase: "map_of (erase a m) b = (if b = a then None else map_of m b)"
  by (induction m) (auto simp: erase_def)

lemma map_of_assign: "map_of (assign a d m) b = (if b = a then Some d else map_of m b)"
  by (simp add: assign_def map_of_erase)

lemma int_of_nat_mem: "nat z \<in> A \<Longrightarrow> 0 \<le> z \<Longrightarrow> z \<in> int ` A"
  by (metis image_eqI int_nat_eq)

lemma add_read_support:
  "add_read r s = Some s' \<Longrightarrow> support s \<union> read_support r \<subseteq> support s' \<and> exprs s' = exprs s"
  by (cases r)
    (auto simp: add_read_def support_def read_support_def map_of_assign map_of_erase dense_add_def Let_def
      split: if_splits option.splits intro: int_of_nat_mem)

lemma add_reads_support:
  "add_reads rs s = Some s' \<Longrightarrow> support s \<union> \<Union> (read_support ` set rs) \<subseteq> support s' \<and> exprs s' = exprs s"
proof (induction rs s rule: add_reads.induct)
  case (2 r rs s)
  then obtain s1 where 1: "add_read r s = Some s1" "add_reads rs s1 = Some s'"
    by (auto split: option.splits)
  note a = add_read_support[OF 1(1)]
  note b = "2.IH"[OF 1]
  show ?case
  proof (intro conjI)
    show "support s \<union> \<Union> (read_support ` set (r # rs)) \<subseteq> support s'"
      using a b unfolding list.set UN_insert by blast
    show "exprs s' = exprs s" using a b by simp
  qed
qed simp

lemma element_set_of_support:
  assumes "element_set_of e = Some s"
  shows "\<Union> (read_support ` reads_in True e) \<subseteq> support s" "exprs s = [e]"
  using add_reads_support[OF assms[unfolded element_set_of_def]] by (simp_all add: set_findReads)

text \<open>Sets that do not intersect have disjoint supports.\<close>

lemma not_intersects:
  assumes "\<not> ies_intersects s b"
  shows "support s \<inter> support b = {}"
proof -
  have False if s: "(a, i) \<in> support s" and b: "(a, i) \<in> support b" for a i
  proof (cases "a \<in> set (wholeObjects s)")
    case True
    then show ?thesis
      using b assms by (auto simp: support_def ies_intersects_def list_ex_iff has_key_def)
  next
    case False
    then obtain d where d: "map_of (elements s) a = Some d" "i \<in> int ` set d"
      using s by (auto simp: support_def)
    note n = assms[unfolded ies_intersects_def list_ex_iff, simplified, THEN conjunct2, rule_format, OF map_of_SomeD[OF d(1)]]
    show ?thesis
      using n b d(2) by (auto simp: support_def dense_intersects_def list_ex_iff split: option.splits)
  qed
  then show ?thesis by auto
qed

lemma add_whole_support:
  "support s \<union> set as \<times> UNIV \<subseteq> support (snd (add_whole as s)) \<and> exprs (snd (add_whole as s)) = exprs s \<and>
   (\<not> fst (add_whole as s) \<longrightarrow> snd (add_whole as s) = s)"
proof (induction as s rule: add_whole.induct)
  case (2 a as s)
  have k: "support s \<union> {a} \<times> UNIV \<subseteq> support (s\<lparr>elements := erase a (elements s), wholeObjects := a # wholeObjects s\<rparr>)"
    "support s \<union> {a} \<times> UNIV \<subseteq> support (s\<lparr>wholeObjects := a # wholeObjects s\<rparr>)"
    by (auto simp: support_def map_of_erase)
  show ?case
  proof (cases "has_key a (elements s)")
    case True
    then show ?thesis using 2(1)[OF True] k(1) by auto
  next
    case False
    show ?thesis
    proof (cases "a \<in> set (wholeObjects s)")
      case True
      then have "{a} \<times> UNIV \<subseteq> support s" by (auto simp: support_def)
      then show ?thesis using 2(3)[OF False] True False by auto
    next
      case new: False
      then show ?thesis using 2(2)[OF False new] False k(2) by auto
    qed
  qed
qed simp

lemma union_chain: "A \<union> X \<subseteq> B \<Longrightarrow> B \<union> M \<subseteq> C \<Longrightarrow> A \<union> (X \<union> M) \<subseteq> C"
  by blast

lemma add_elements_support:
  "support s \<union> {(a, i). \<exists>d. (a, d) \<in> set m \<and> i \<in> int ` set d} \<subseteq> support (snd (add_elements m s)) \<and>
   exprs (snd (add_elements m s)) = exprs s \<and> (\<not> fst (add_elements m s) \<longrightarrow> snd (add_elements m s) = s)"
proof (induction m s rule: add_elements.induct)
  case (2 a d m s)
  have new: "support s \<union> {a} \<times> int ` set d \<subseteq> support (s\<lparr>elements := (a, d) # elements s\<rparr>)"
    if "map_of (elements s) a = None"
    using that by (fastforce simp: support_def)
  have more: "support s \<union> {a} \<times> int ` set d \<subseteq> support (s\<lparr>elements := assign a (snd (dense_union d0 d)) (elements s)\<rparr>)"
    if "map_of (elements s) a = Some d0" for d0
    using that by (fastforce simp: support_def map_of_assign dense_union_def)
  have e: "{(b, i). \<exists>x. (b, x) \<in> set ((a, d) # m) \<and> i \<in> int ` set x} =
      {a} \<times> int ` set d \<union> {(b, i). \<exists>x. (b, x) \<in> set m \<and> i \<in> int ` set x}"
    by auto
  show ?case
  proof (cases "a \<in> set (wholeObjects s)")
    case True
    then have "{a} \<times> int ` set d \<subseteq> support s" by (auto simp: support_def)
    then show ?thesis unfolding e using 2(1)[OF True] True by auto
  next
    case False
    show ?thesis
    proof (cases "map_of (elements s) a")
      case None
      note i = 2(2)[OF False None]
      show ?thesis
        unfolding e using union_chain[OF new[OF None] i[THEN conjunct1]] i False None by simp
    next
      case (Some d0)
      obtain m1 d1 where u: "dense_union d0 d = (m1, d1)" by fastforce
      show ?thesis
      proof (cases m1)
        case True
        then show ?thesis
          unfolding e using union_chain[OF more[OF Some] 2(3)[OF False Some, THEN conjunct1]] 2(3)[OF False Some]
            False Some u by simp
      next
        case unch: False
        then have "{a} \<times> int ` set d \<subseteq> support s"
          using u Some by (auto simp: dense_union_def support_def)
        then have sub: "support s \<union> {a} \<times> int ` set d \<subseteq> support s" by blast
        have i: "support s \<union> {(b, i). \<exists>x. (b, x) \<in> set m \<and> i \<in> int ` set x} \<subseteq> support (snd (add_elements m s)) \<and>
            exprs (snd (add_elements m s)) = exprs s \<and> (\<not> fst (add_elements m s) \<longrightarrow> snd (add_elements m s) = s)"
          by (rule 2(4)[OF False Some]) (use u unch in auto)
        show ?thesis
          unfolding e using union_chain[OF sub i[THEN conjunct1]] i unch False Some u by simp
      qed
    qed
  qed
qed simp

lemma ies_add_ok:
  assumes "ies_add s b = (m, s')"
  shows "support s \<union> support b \<subseteq> support s'" "exprs s' = exprs s @ exprs b"
    "\<not> m \<Longrightarrow> elements s' = elements s \<and> wholeObjects s' = wholeObjects s"
proof -
  let ?s = "s\<lparr>exprs := exprs s @ exprs b\<rparr>"
  let ?w = "add_whole (wholeObjects b) ?s"
  let ?e = "add_elements (elements b) (snd ?w)"
  have r: "m = (fst ?w \<or> fst ?e)" "s' = snd ?e"
    using assms by (auto simp: ies_add_def Let_def split: prod.splits)
  note w = add_whole_support[of ?s "wholeObjects b"]
  note e = add_elements_support[of "snd ?w" "elements b"]
  have "support ?s = support s" by (simp add: support_def)
  moreover have "support b \<subseteq> set (wholeObjects b) \<times> UNIV \<union> {(a, i). \<exists>d. (a, d) \<in> set (elements b) \<and> i \<in> int ` set d}"
    by (auto simp: support_def dest: map_of_SomeD)
  ultimately show "support s \<union> support b \<subseteq> support s'"
    using w e r(2) by blast
  show "exprs s' = exprs s @ exprs b" using w e r by simp
  show "elements s' = elements s \<and> wholeObjects s' = wholeObjects s" if "\<not> m"
    using w e r that by simp
qed

lemma intersects_cong:
  "elements b = elements b' \<Longrightarrow> wholeObjects b = wholeObjects b' \<Longrightarrow> ies_intersects s b = ies_intersects s b'"
  "elements b = elements b' \<Longrightarrow> wholeObjects b = wholeObjects b' \<Longrightarrow> ies_intersects b s = ies_intersects b' s"
  by (simp_all add: ies_intersects_def)

section \<open>The closure is closed\<close>

definition deps :: "expr \<Rightarrow> (array \<times> int) set" where
  "deps e = \<Union> (read_support ` reads_in True e)"

lemma closure_pass_ok:
  "closure_pass w cl = (cl', taken, rest, done') \<Longrightarrow>
   support cl \<subseteq> support cl' \<and> set taken \<subseteq> fst ` set w \<and> set rest \<subseteq> set w \<and>
   (\<forall>p \<in> set w. (fst p \<in> set taken \<and> support (snd p) \<subseteq> support cl') \<or> p \<in> set rest) \<and>
   (done' \<longrightarrow> elements cl' = elements cl \<and> wholeObjects cl' = wholeObjects cl \<and>
      (\<forall>p \<in> set rest. \<not> ies_intersects (snd p) cl))"
proof (induction w cl arbitrary: cl' taken rest done' rule: closure_pass.induct)
  case (2 e s w cl)
  show ?case
  proof (cases "ies_intersects s cl")
    case True
    obtain m cl1 where 1: "ies_add cl s = (m, cl1)" by fastforce
    obtain t r d where 2: "closure_pass w cl1 = (cl', t, r, d)" "taken = e # t" "rest = r" "done' = (\<not> m \<and> d)"
      using "2.prems" True 1 by (auto split: prod.splits)
    note ih = "2.IH"(1)[OF True 1[symmetric] 2(1)]
    note a = ies_add_ok[OF 1]
    have sub: "support cl \<subseteq> support cl'" "support s \<subseteq> support cl'" using ih a(1) by blast+
    show ?thesis
    proof (intro conjI impI)
      show "support cl \<subseteq> support cl'" by (rule sub)
      show "set taken \<subseteq> fst ` set ((e, s) # w)" "set rest \<subseteq> set ((e, s) # w)" using ih 2 by auto
      show "\<forall>p \<in> set ((e, s) # w). fst p \<in> set taken \<and> support (snd p) \<subseteq> support cl' \<or> p \<in> set rest"
        using ih 2 sub(2) by auto
      show "elements cl' = elements cl" "wholeObjects cl' = wholeObjects cl" if done'
        using ih a(3) 2 that by simp_all
      show "\<forall>p \<in> set rest. \<not> ies_intersects (snd p) cl" if done'
        using ih a(3) 2 that intersects_cong(1)[of cl1 cl] by simp
    qed
  next
    case False
    obtain r where 2: "closure_pass w cl = (cl', taken, r, done')" "rest = (e, s) # r"
      using "2.prems" False by (auto split: prod.splits)
    show ?thesis using "2.IH"(2)[OF False 2(1)] 2 False by auto
  qed
qed simp

lemma closure_loop_ok:
  "closure_loop w cl result = (cl', out) \<Longrightarrow>
   support cl \<subseteq> support cl' \<and> set result \<subseteq> set out \<and> set out \<subseteq> set result \<union> fst ` set w \<and>
   (\<forall>p \<in> set w. fst p \<in> set out \<and> support (snd p) \<subseteq> support cl' \<or> support (snd p) \<inter> support cl' = {})"
proof (induction w cl result rule: closure_loop.induct)
  case (1 w cl result)
  obtain cl1 t r d where p: "closure_pass w cl = (cl1, t, r, d)" by (metis prod_cases4)
  note c = closure_pass_ok[OF p]
  show ?case
  proof (cases d)
    case True
    then have o: "cl' = cl1" "out = result @ t"
      using "1.prems" p by (simp_all add: closure_loop.simps[of w])
    have "support (snd p) \<inter> support cl' = {}" if "p \<in> set r" for p
    proof (rule not_intersects)
      have "elements cl1 = elements cl" "wholeObjects cl1 = wholeObjects cl" using c True by simp_all
      then show "\<not> ies_intersects (snd p) cl'"
        using c True that o intersects_cong(1)[of cl1 cl "snd p"] by simp
    qed
    note rest = this
    show ?thesis
    proof (intro conjI ballI)
      show "support cl \<subseteq> support cl'" "set result \<subseteq> set out" using c o by simp_all
      show "set out \<subseteq> set result \<union> fst ` set w" using c o by auto
      fix x assume "x \<in> set w"
      then consider "fst x \<in> set t" "support (snd x) \<subseteq> support cl1" | "x \<in> set r" using c by blast
      then show "fst x \<in> set out \<and> support (snd x) \<subseteq> support cl' \<or> support (snd x) \<inter> support cl' = {}"
        by cases (use o rest in simp_all)
    qed
  next
    case False
    then have l: "closure_loop r cl1 (result @ t) = (cl', out)"
      using "1.prems" p by (simp add: closure_loop.simps[of w])
    note ih = "1.IH"[OF p[symmetric] refl refl False l]
    show ?thesis
    proof (intro conjI ballI)
      show "support cl \<subseteq> support cl'" "set result \<subseteq> set out" using ih c by auto
      have "set out \<subseteq> set (result @ t) \<union> fst ` set r" "set t \<subseteq> fst ` set w" "fst ` set r \<subseteq> fst ` set w"
        using ih c by (simp_all add: image_mono)
      then show "set out \<subseteq> set result \<union> fst ` set w" unfolding set_append by blast
      fix x assume "x \<in> set w"
      then consider "fst x \<in> set t" "support (snd x) \<subseteq> support cl1" | "x \<in> set r" using c by blast
      then show "fst x \<in> set out \<and> support (snd x) \<subseteq> support cl' \<or> support (snd x) \<inter> support cl' = {}"
        by cases (use ih in auto)
    qed
  qed
qed

lemma element_set_of_deps: "element_set_of e = Some s \<Longrightarrow> deps e \<subseteq> support s"
  unfolding deps_def by (rule element_set_of_support(1))

lemma make_worklist_ok:
  "make_worklist es = Some w \<Longrightarrow> map fst w = es \<and> list_all (\<lambda>p. deps (fst p) \<subseteq> support (snd p)) w"
proof (induction es arbitrary: w)
  case (Cons e es)
  then obtain s v where 1: "element_set_of e = Some s" "make_worklist es = Some v" "w = (e, s) # v"
    by (auto split: option.splits)
  show ?case using Cons.IH[OF 1(2)] element_set_of_deps[OF 1(1)] 1(3) by simp
qed simp

text \<open>
  Every constraint is either required, and depends on elements of the closure only, or it depends on
  no element of the closure.
\<close>

lemma getIndependentConstraints_ok:
  assumes "getIndependentConstraints q = Some (cl, required)"
  shows "set required \<subseteq> set (constraints q)" "deps (qexpr q) \<subseteq> support cl"
    "c \<in> set (constraints q) \<Longrightarrow> c \<in> set required \<and> deps c \<subseteq> support cl \<or> deps c \<inter> support cl = {}"
proof -
  obtain s w where s: "element_set_of (qexpr q) = Some s" and w: "make_worklist (constraints q) = Some w"
    and l: "closure_loop w s [] = (cl, required)"
    using assms by (auto simp: getIndependentConstraints_def split: option.splits)
  note c = closure_loop_ok[OF l] and m = make_worklist_ok[OF w]
  have f: "set (constraints q) = fst ` set w"
    unfolding m[THEN conjunct1, symmetric] by simp
  then show "set required \<subseteq> set (constraints q)" using c by simp
  show "deps (qexpr q) \<subseteq> support cl" using c element_set_of_deps[OF s] by blast
  assume "c \<in> set (constraints q)"
  then obtain p where p: "p \<in> set w" "fst p = c" unfolding f by blast
  then have "deps c \<subseteq> support (snd p)" using m by (auto simp: list_all_iff)
  then show "c \<in> set required \<and> deps c \<subseteq> support cl \<or> deps c \<inter> support cl = {}"
    using closure_loop_ok[OF l, THEN conjunct2, THEN conjunct2, THEN conjunct2, rule_format, OF p(1)] p(2) by blast
qed

section \<open>The factors are independent\<close>

text \<open>
  The elements of the expressions of a factor are in the factor; no set of indices is empty, and
  the arrays are well formed.
\<close>

definition entries_ok :: "element_set \<Rightarrow> bool" where
  "entries_ok f \<longleftrightarrow> list_all (\<lambda>p. snd p \<noteq> [] \<and> wf_array (fst p)) (elements f) \<and> list_all wf_array (wholeObjects f)"

definition factor_ok :: "element_set \<Rightarrow> bool" where
  "factor_ok f \<longleftrightarrow> list_all (\<lambda>e. deps e \<subseteq> support f) (exprs f) \<and> entries_ok f"

definition same_elements :: "element_set \<Rightarrow> element_set \<Rightarrow> bool" where
  "same_elements f g \<longleftrightarrow> elements f = elements g \<and> wholeObjects f = wholeObjects g"

lemma same_elements_support: "same_elements f g \<Longrightarrow> support f = support g"
  by (simp add: same_elements_def support_def)

lemma entries_ok_update [simp]:
  "entries_ok s \<Longrightarrow> entries_ok (s\<lparr>elements := assign a d (elements s)\<rparr>) \<longleftrightarrow> d \<noteq> [] \<and> wf_array a"
  "entries_ok s \<Longrightarrow> entries_ok (s\<lparr>elements := (a, d) # elements s\<rparr>) \<longleftrightarrow> d \<noteq> [] \<and> wf_array a"
  "entries_ok s \<Longrightarrow> entries_ok (s\<lparr>elements := erase a (elements s), wholeObjects := a # wholeObjects s\<rparr>) \<longleftrightarrow> wf_array a"
  "entries_ok s \<Longrightarrow> entries_ok (s\<lparr>wholeObjects := a # wholeObjects s\<rparr>) \<longleftrightarrow> wf_array a"
  "entries_ok (s\<lparr>exprs := es\<rparr>) \<longleftrightarrow> entries_ok s"
  by (auto simp: entries_ok_def assign_def erase_def list_all_iff)

lemma add_reads_entries:
  "add_reads rs s = Some s' \<Longrightarrow> entries_ok s \<Longrightarrow> list_all (\<lambda>r. wf_array (fst r)) rs \<Longrightarrow> entries_ok s'"
proof (induction rs s rule: add_reads.induct)
  case (2 r rs s)
  then obtain s1 where 1: "add_read r s = Some s1" "add_reads rs s1 = Some s'"
    by (auto split: option.splits)
  have "entries_ok s1"
    using 1(1) "2.prems"(2,3)
    by (auto simp: add_read_def Let_def dense_add_def split: prod.splits if_splits option.splits)
  with "2.IH"[OF 1] "2.prems"(3) show ?case by simp
qed simp

lemma add_whole_entries:
  "entries_ok s \<Longrightarrow> list_all wf_array as \<Longrightarrow> entries_ok (snd (add_whole as s))"
  by (induction as s rule: add_whole.induct) auto

lemma add_elements_entries:
  "list_all (\<lambda>p. snd p \<noteq> [] \<and> wf_array (fst p)) m \<Longrightarrow> entries_ok s \<Longrightarrow> entries_ok (snd (add_elements m s))"
proof (induction m s rule: add_elements.induct)
  case (2 a d m s)
  have "d0 @ filter (\<lambda>x. x \<notin> set d0) d \<noteq> []" for d0
    using 2(5) by (cases d0) (auto simp: filter_empty_conv)
  then show ?case
    using 2 by (auto simp: dense_union_def split: option.splits prod.splits bool.splits)
qed simp

lemma ies_add_factor:
  assumes "ies_add s b = (m, s')" "factor_ok s" "factor_ok b"
  shows "factor_ok s'"
proof -
  note a = ies_add_ok[OF assms(1)]
  have "entries_ok s'"
    using assms add_whole_entries[of "s\<lparr>exprs := exprs s @ exprs b\<rparr>" "wholeObjects b"]
      add_elements_entries[of "elements b" "snd (add_whole (wholeObjects b) (s\<lparr>exprs := exprs s @ exprs b\<rparr>))"]
    by (auto simp: ies_add_def factor_ok_def entries_ok_def[of b] Let_def split: prod.splits)
  then show ?thesis
    using a(1,2) assms(2,3) unfolding factor_ok_def list_all_iff by (simp add: ball_Un) blast
qed

lemma element_set_of_factor: "element_set_of e = Some s \<Longrightarrow> wt e \<Longrightarrow> factor_ok s"
proof -
  assume s: "element_set_of e = Some s" and "wt e"
  then have "list_all (\<lambda>r. wf_array (fst r)) (findReads e True)"
    using wt_reads_in(1)[THEN mp, of e True] by (auto simp: list_all_iff set_findReads)
  then have "entries_ok s"
    using add_reads_entries[OF s[unfolded element_set_of_def]] by (simp add: entries_ok_def)
  then show ?thesis
    using element_set_of_support(2)[OF s] element_set_of_deps[OF s] by (simp add: factor_ok_def)
qed

text \<open>Where the expressions of a list of factors go.\<close>

definition all_exprs :: "element_set list \<Rightarrow> expr set" where
  "all_exprs fs = (\<Union>f \<in> set fs. set (exprs f))"

lemma all_exprs_simps [simp]: "all_exprs [] = {}" "all_exprs (f # fs) = set (exprs f) \<union> all_exprs fs"
  by (simp_all add: all_exprs_def)

lemma absorb_ok:
  "absorb cur cs = (cur', keep, d) \<Longrightarrow> factor_ok cur \<Longrightarrow> list_all factor_ok cs \<Longrightarrow>
   factor_ok cur' \<and> list_all factor_ok keep \<and> set (exprs cur') \<union> all_exprs keep = set (exprs cur) \<union> all_exprs cs \<and>
   set (exprs cur) \<subseteq> set (exprs cur') \<and> set keep \<subseteq> set cs \<and>
   (d \<longrightarrow> same_elements cur' cur \<and> (\<forall>c \<in> set keep. support cur \<inter> support c = {}))"
proof (induction cur cs arbitrary: cur' keep d rule: absorb.induct)
  case (2 cur c cs)
  show ?case
  proof (cases "ies_intersects cur c")
    case True
    obtain m cur1 where 1: "ies_add cur c = (m, cur1)" by fastforce
    obtain d1 where 2: "absorb cur1 cs = (cur', keep, d1)" "d = (\<not> m \<and> d1)"
      using "2.prems" True 1 by (auto split: prod.splits)
    have ok: "factor_ok cur1" using ies_add_factor[OF 1] "2.prems" by simp
    note ih = "2.IH"(1)[OF True 1[symmetric] 2(1) ok]
    note a = ies_add_ok[OF 1]
    note ih = ih[OF "2.prems"(3)[THEN list.pred_inject(2)[THEN iffD1], THEN conjunct2]]
    have x: "same_elements cur' cur \<and> (\<forall>c \<in> set keep. support cur \<inter> support c = {})" if d
    proof -
      have "same_elements cur1 cur" using a(3) 2(2) that by (simp add: same_elements_def)
      moreover have "same_elements cur' cur1" "\<forall>c \<in> set keep. support cur1 \<inter> support c = {}"
        using ih 2(2) that by simp_all
      ultimately show ?thesis using same_elements_support[of cur1 cur] by (simp add: same_elements_def)
    qed
    show ?thesis
      by (intro conjI impI, simp_all add: ih x) (use ih a(2) in auto)
  next
    case False
    obtain k where 2: "absorb cur cs = (cur', k, d)" "keep = c # k"
      using "2.prems" False by (auto split: prod.splits)
    note ih = "2.IH"(2)[OF False 2(1)]
    show ?thesis using ih "2.prems" 2(2) not_intersects[OF False] by auto
  qed
qed (simp add: same_elements_def)

lemma factor_pass_ok:
  "factor_pass fs = (fs', d) \<Longrightarrow> list_all factor_ok fs \<Longrightarrow>
   list_all factor_ok fs' \<and> all_exprs fs' = all_exprs fs \<and>
   (d \<longrightarrow> sorted_wrt (\<lambda>f g. support f \<inter> support g = {}) fs' \<and>
      (\<forall>f' \<in> set fs'. \<exists>f \<in> set fs. same_elements f' f))"
proof (induction fs arbitrary: fs' d rule: factor_pass.induct)
  case (2 f fs)
  obtain f1 keep d1 where 1: "absorb f fs = (f1, keep, d1)" by (metis prod_cases3)
  obtain gs d2 where 2: "factor_pass keep = (gs, d2)" by fastforce
  have r: "fs' = f1 # gs" "d = (d1 \<and> d2)" using "2.prems" 1 2 by simp_all
  have f: "factor_ok f" "list_all factor_ok fs" using "2.prems" by simp_all
  note a = absorb_ok[OF 1 f]
  note ih = "2.IH"[OF 1[symmetric] refl 2] 
  have k: "list_all factor_ok keep" using a by simp
  note ih = ih[OF k]
  show ?case
  proof (intro conjI impI)
    show "list_all factor_ok fs'" "all_exprs fs' = all_exprs (f # fs)" using a ih r by auto
    assume d
    then have d: "same_elements f1 f" "\<And>c. c \<in> set keep \<Longrightarrow> support f \<inter> support c = {}"
      "sorted_wrt (\<lambda>f g. support f \<inter> support g = {}) gs" "\<And>g. g \<in> set gs \<Longrightarrow> \<exists>c \<in> set keep. same_elements g c"
      using a ih r by auto
    have "support f1 \<inter> support g = {}" if "g \<in> set gs" for g
      using d(2) d(4)[OF that] same_elements_support d(1) by metis
    then show "sorted_wrt (\<lambda>f g. support f \<inter> support g = {}) fs'" using d(3) r by simp
    show "\<forall>f' \<in> set fs'. \<exists>g \<in> set (f # fs). same_elements f' g"
    proof
      fix x assume "x \<in> set fs'"
      then consider "x = f1" | "x \<in> set gs" using r by auto
      then show "\<exists>g \<in> set (f # fs). same_elements x g"
      proof cases
        case 2
        then obtain c where "c \<in> set keep" "same_elements x c" using d(4) by blast
        then show ?thesis using a by auto
      qed (use d(1) in simp)
    qed
  qed
qed simp

lemma factor_loop_ok:
  "list_all factor_ok fs \<Longrightarrow>
   list_all factor_ok (factor_loop fs) \<and> all_exprs (factor_loop fs) = all_exprs fs \<and>
   sorted_wrt (\<lambda>f g. support f \<inter> support g = {}) (factor_loop fs)"
proof (induction fs rule: factor_loop.induct)
  case (1 fs)
  obtain gs d where p: "factor_pass fs = (gs, d)" by fastforce
  note f = factor_pass_ok[OF p "1.prems"]
  show ?case
  proof (cases d)
    case True
    then show ?thesis using f p by (simp add: factor_loop.simps[of fs])
  next
    case False
    then show ?thesis using f "1.IH"[OF p[symmetric] False] p by (simp add: factor_loop.simps[of fs])
  qed
qed

lemma make_sets_ok:
  "make_sets es = Some fs \<Longrightarrow> list_all wt es \<Longrightarrow> list_all factor_ok fs \<and> all_exprs fs = set es"
proof (induction es arbitrary: fs)
  case (Cons e es)
  then obtain s gs where 1: "element_set_of e = Some s" "make_sets es = Some gs" "fs = s # gs"
    by (auto split: option.splits)
  show ?case
    using Cons.IH[OF 1(2)] Cons.prems(2) element_set_of_factor[OF 1(1)] element_set_of_support(2)[OF 1(1)] 1(3) by simp
qed simp

text \<open>The constraints that a counterexample of a query has to satisfy.\<close>

definition goals :: "query \<Rightarrow> expr list" where
  "goals q = (if isConstantExpr (qexpr q) then constraints q else createIsZero (qexpr q) # constraints q)"

lemma getAllIndependentConstraintsSets_ok:
  assumes "getAllIndependentConstraintsSets q = Some fs" "list_all wt (goals q)"
  shows "list_all factor_ok fs" "all_exprs fs = set (goals q)"
    "sorted_wrt (\<lambda>f g. support f \<inter> support g = {}) fs"
proof -
  obtain gs where g: "make_sets (goals q) = Some gs" "fs = factor_loop gs"
    using assms(1)
    by (cases "dyn_Constant (qexpr q)")
      (auto simp: getAllIndependentConstraintsSets_def goals_def isConstantExpr_def simp del: make_sets.simps dyn_Constant_Some
        split: if_splits)
  note m = make_sets_ok[OF g(1) assms(2)]
  show "list_all factor_ok fs" "all_exprs fs = set (goals q)"
    "sorted_wrt (\<lambda>f g. support f \<inter> support g = {}) fs"
    using factor_loop_ok[of gs] m g(2) by simp_all
qed

section \<open>Values at the elements that are read\<close>

definition reads_same :: "env \<Rightarrow> env \<Rightarrow> read_expr set \<Rightarrow> bool" where
  "reads_same \<rho> \<rho>' R \<longleftrightarrow> (\<forall>(a, us, i) \<in> R. initial_value \<rho> a (eval \<rho> i) = initial_value \<rho>' a (eval \<rho> i))"

lemma reads_same_simps [simp]:
  "reads_same \<rho> \<rho>' (A \<union> B) \<longleftrightarrow> reads_same \<rho> \<rho>' A \<and> reads_same \<rho> \<rho>' B"
  "reads_same \<rho> \<rho>' (insert (a, us, i) B) \<longleftrightarrow>
     initial_value \<rho> a (eval \<rho> i) = initial_value \<rho>' a (eval \<rho> i) \<and> reads_same \<rho> \<rho>' B"
  unfolding reads_same_def by blast+

lemma read_updates_same:
  assumes "initial_value \<rho> a i = initial_value \<rho>' a i" "\<forall>x \<in> set (update_exprs us). eval \<rho> x = eval \<rho>' x"
  shows "read_updates \<rho> a us i = read_updates \<rho>' a us i"
  using assms by (induction us rule: updates.induct[where ?P1.0 = "\<lambda>_. True"]) simp_all

lemma eval_same:
  "reads_same \<rho> \<rho>' (reads_in True e) \<longrightarrow> eval \<rho> e = eval \<rho>' e"
  "reads_same \<rho> \<rho>' (reads_in_updates True us) \<longrightarrow> (\<forall>x \<in> set (update_exprs us). eval \<rho> x = eval \<rho>' x)"
proof (induction e and us)
  case (ReadExpr a us i)
  show ?case
  proof
    assume r: "reads_same \<rho> \<rho>' (reads_in True (ReadExpr a us i))"
    then have "eval \<rho> i = eval \<rho>' i" using ReadExpr by simp
    moreover have "read_updates \<rho> a us (eval \<rho> i) = read_updates \<rho>' a us (eval \<rho> i)"
      using r ReadExpr by (intro read_updates_same) simp_all
    ultimately show "eval \<rho> (ReadExpr a us i) = eval \<rho>' (ReadExpr a us i)" by simp
  qed
qed auto

text \<open>What queries are asked of expressions: no zero divisor in any environment, and reads within the arrays.\<close>

definition defined_everywhere :: "expr \<Rightarrow> bool" where
  "defined_everywhere e \<longleftrightarrow> (\<forall>\<rho>. evaluable \<rho> e)"

definition reads_inside :: "env \<Rightarrow> expr \<Rightarrow> bool" where
  "reads_inside \<rho> e \<longleftrightarrow> (\<forall>(a, us, i) \<in> reads_in True e. eval \<rho> i < int (arr_size a))"

end
