(* ===== verification/IndependentSolver.thy ===== *)
theory IndependentSolver
  imports IndependentSets SolverCache
begin

text \<open>
  The independent solver (\<^verbatim>\<open>lib/klee/Solver/IndependentSolver.cpp\<close>): a query is answered with the
  constraints that share array elements with its expression only, and a counterexample is put
  together from solutions of the independent factors. It keeps the contract of the solver it wraps.
\<close>

section \<open>The solver\<close>

definition required_query :: "query \<Rightarrow> query option" where
  "required_query q = map_option (\<lambda>(cl, required). \<lparr>constraints = required, qexpr = qexpr q\<rparr>) (getIndependentConstraints q)"

definition independent_computeTruth :: "'s solver_impl \<Rightarrow> query \<Rightarrow> 's \<Rightarrow> bool option \<times> 's" where
  "independent_computeTruth impl q s =
     (case required_query q of None \<Rightarrow> (None, s) | Some q' \<Rightarrow> computeTruth impl q' s)"

definition independent_computeValidity :: "'s solver_impl \<Rightarrow> query \<Rightarrow> 's \<Rightarrow> Validity option \<times> 's" where
  "independent_computeValidity impl q s =
     (case required_query q of None \<Rightarrow> (None, s) | Some q' \<Rightarrow> computeValidity impl q' s)"

definition independent_computeValue :: "'s solver_impl \<Rightarrow> query \<Rightarrow> 's \<Rightarrow> expr option \<times> 's" where
  "independent_computeValue impl q s =
     (case required_query q of None \<Rightarrow> (None, s) | Some q' \<Rightarrow> computeValue impl q' s)"

text \<open>
  The values of the arrays found so far. A new array takes all its values; one that is present
  takes the values of the elements of the factor. A write past the end of the array is undefined.
\<close>

type_synonym value_map = "(array \<times> int list) list"

definition put_values :: "nat list \<Rightarrow> int list \<Rightarrow> int list \<Rightarrow> int list" where
  "put_values idx vs old = fold (\<lambda>i v. v[i := vs ! i]) idx old"

fun merge_values :: "(array \<times> nat list) list \<Rightarrow> value_map \<Rightarrow> value_map \<Rightarrow> value_map option" where
  "merge_values els [] m = Some m"
| "merge_values els ((a, vs) # r) m =
     (case map_of m a of
        None \<Rightarrow> merge_values els r ((a, vs) # m)
      | Some old \<Rightarrow>
          let idx = (case map_of els a of Some d \<Rightarrow> d | None \<Rightarrow> [])
          in if length old = length vs \<and> list_all (\<lambda>i. i < length old) idx
             then merge_values els r ((a, put_values idx vs old) # filter (\<lambda>p. fst p \<noteq> a) m)
             else None)"

text \<open>
  How \<open>computeInitialValues\<close> ends: with an answer, with the failure of the wrapped solver, or in an
  assertion (or an undefined write) of its own.
\<close>

datatype 'a outcome = Returned 'a | Failed | Aborted

fun solve_factors ::
    "'s solver_impl \<Rightarrow> element_set list \<Rightarrow> value_map \<Rightarrow> 's \<Rightarrow> value_map option outcome \<times> 's" where
  "solve_factors impl [] m s = (Returned (Some m), s)"
| "solve_factors impl (f # fs) m s =
     (if exprs f = [] then (Aborted, s)
      else let arrays = calculateArrayReferences f
      in if arrays = [] then solve_factors impl fs m s
      else case computeInitialValues impl \<lparr>constraints = exprs f, qexpr = alloc_Const 1 0\<rparr> arrays s of
          (None, s1) \<Rightarrow> (Failed, s1)
        | (Some None, s1) \<Rightarrow> (Returned None, s1)
        | (Some (Some vals), s1) \<Rightarrow>
            (if length vals \<noteq> length arrays then (Aborted, s1)
             else case merge_values (elements f) (zip arrays vals) m of
                 None \<Rightarrow> (Aborted, s1)
               | Some m' \<Rightarrow> solve_factors impl fs m' s1))"

text \<open>The check of the point; \<open>None\<close> is a failed assertion inside it.\<close>

fun check_constraints :: "assignment \<Rightarrow> expr list \<Rightarrow> bool option" where
  "check_constraints asg [] = Some True"
| "check_constraints asg (c # cs) =
     (case dyn_Constant (evaluate asg c) of
        None \<Rightarrow> None
      | Some v \<Rightarrow> if CE_isFalse v then Some False else check_constraints asg cs)"

definition assertCreatedPointEvaluatesToTrue :: "query \<Rightarrow> array list \<Rightarrow> int list list \<Rightarrow> value_map \<Rightarrow> bool option" where
  "assertCreatedPointEvaluatesToTrue q objs vals m =
     (let asg = \<lparr>allowFreeValues = True, bindings = zip objs vals @ m\<rparr>
      in case check_constraints asg (constraints q) of
           None \<Rightarrow> None
         | Some False \<Rightarrow> Some False
         | Some True \<Rightarrow> map_option CE_isTrue (dyn_Constant (evaluate asg (createIsZero (qexpr q)))))"

definition object_values :: "value_map \<Rightarrow> array \<Rightarrow> int list" where
  "object_values m a = (case map_of m a of Some v \<Rightarrow> v | None \<Rightarrow> replicate (arr_size a) 0)"

definition independent_computeInitialValues ::
    "'s solver_impl \<Rightarrow> query \<Rightarrow> array list \<Rightarrow> 's \<Rightarrow> int list list option outcome \<times> 's" where
  "independent_computeInitialValues impl q objs s =
     (case getAllIndependentConstraintsSets q of
        None \<Rightarrow> (Aborted, s)
      | Some factors \<Rightarrow>
          (case solve_factors impl factors [] s of
             (Failed, s') \<Rightarrow> (Failed, s')
           | (Aborted, s') \<Rightarrow> (Aborted, s')
           | (Returned None, s') \<Rightarrow> (Returned None, s')
           | (Returned (Some m), s') \<Rightarrow>
               (let vals = map (object_values m) objs
                in if assertCreatedPointEvaluatesToTrue q objs vals m = Some True
                   then (Returned (Some vals), s')
                   else (Aborted, s'))))"

text \<open>As an operation of a solver, where a run that aborts has no answer either.\<close>

fun answer :: "'a outcome \<Rightarrow> 'a option" where
  "answer (Returned x) = Some x"
| "answer Failed = None"
| "answer Aborted = None"

definition independent_values :: "'s solver_impl \<Rightarrow> query \<Rightarrow> array list \<Rightarrow> 's \<Rightarrow> int list list option option \<times> 's" where
  "independent_values impl q objs s = apfst answer (independent_computeInitialValues impl q objs s)"

definition IndependentSolver :: "'s solver_impl \<Rightarrow> 's solver_impl" where
  "IndependentSolver impl =
     \<lparr>computeTruth = independent_computeTruth impl, computeValidity = independent_computeValidity impl,
      computeValue = independent_computeValue impl, computeInitialValues = independent_values impl\<rparr>"

section \<open>The required constraints decide the query\<close>

text \<open>What the theorems ask of a query: tables are read within their bounds.\<close>

definition in_tables :: "query \<Rightarrow> bool" where
  "in_tables q \<longleftrightarrow> list_all tables_ok (qexpr q # constraints q) \<and> list_all tables_ok (goals q)"

definition combine :: "(array \<times> int) set \<Rightarrow> env \<Rightarrow> env \<Rightarrow> env" where
  "combine S \<rho>1 \<rho>0 = (\<lambda>a i. if (a, i) \<in> S then \<rho>1 a i else \<rho>0 a i)"

lemma eval_combine:
  assumes "wt e" "tables_ok e"
  shows "deps e \<subseteq> S \<Longrightarrow> eval (combine S \<rho>1 \<rho>0) e = eval \<rho>1 e"
    "deps e \<inter> S = {} \<Longrightarrow> eval (combine S \<rho>1 \<rho>0) e = eval \<rho>0 e"
proof -
  have e: "agree_on (deps e) \<rho> \<rho>' \<Longrightarrow> eval \<rho> e = eval \<rho>' e" for \<rho> \<rho>'
    by (rule eval_support[OF assms]) (simp_all add: deps_def)
  show "deps e \<subseteq> S \<Longrightarrow> eval (combine S \<rho>1 \<rho>0) e = eval \<rho>1 e"
    "deps e \<inter> S = {} \<Longrightarrow> eval (combine S \<rho>1 \<rho>0) e = eval \<rho>0 e"
    by (rule e, auto simp: agree_on_def combine_def)+
qed

lemma modelsD: "models \<rho> cs \<Longrightarrow> c \<in> set cs \<Longrightarrow> holds \<rho> c"
  by (simp add: models_def list_all_iff)

lemma models_mono: "models \<rho> cs \<Longrightarrow> set ds \<subseteq> set cs \<Longrightarrow> models \<rho> ds"
  by (auto simp: models_def list_all_iff)

lemma required_query_ok:
  assumes q: "query_ok q" "in_tables q" and r: "required_query q = Some q'"
  shows "query_ok q'" "qexpr q' = qexpr q" "models \<rho> (constraints q) \<Longrightarrow> models \<rho> (constraints q')"
    "models \<rho> (constraints q') \<Longrightarrow>
       \<exists>\<rho>'. models \<rho>' (constraints q) \<and> eval \<rho>' (qexpr q) = eval \<rho> (qexpr q)"
proof -
  obtain cl where g: "getIndependentConstraints q = Some (cl, constraints q')" and e: "qexpr q' = qexpr q"
    using r by (auto simp: required_query_def)
  note c = getIndependentConstraints_ok[OF g]
  have w: "wt (qexpr q)" "tables_ok (qexpr q)" "\<And>x. x \<in> set (constraints q) \<Longrightarrow> wt x \<and> getWidth x = 1 \<and> tables_ok x"
    and sat: "\<exists>\<rho>. models \<rho> (constraints q)"
    using q by (auto simp: query_ok_def constraints_ok_def in_tables_def list_all_iff)
  show "qexpr q' = qexpr q" by (rule e)
  show m: "models \<rho> (constraints q) \<Longrightarrow> models \<rho> (constraints q')" for \<rho>
    using models_mono[OF _ c(1)] .
  show "query_ok q'"
    using w c(1) sat m e by (auto simp: query_ok_def constraints_ok_def list_all_iff)
  assume \<rho>: "models \<rho> (constraints q')"
  obtain \<rho>0 where \<rho>0: "models \<rho>0 (constraints q)" using sat by blast
  let ?\<rho> = "combine (support cl) \<rho> \<rho>0"
  have "holds ?\<rho> x" if x: "x \<in> set (constraints q)" for x
    using c(3)[OF x]
  proof
    assume "x \<in> set (constraints q') \<and> deps x \<subseteq> support cl"
    then show ?thesis
      using eval_combine(1)[of x "support cl" \<rho> \<rho>0] w(3)[OF x] modelsD[OF \<rho>] by (simp add: holds_def)
  next
    assume "deps x \<inter> support cl = {}"
    then show ?thesis
      using eval_combine(2)[of x "support cl" \<rho> \<rho>0] w(3)[OF x] modelsD[OF \<rho>0 x] by (simp add: holds_def)
  qed
  then have "models ?\<rho> (constraints q)" by (simp add: models_def list_all_iff)
  then show "\<exists>\<rho>'. models \<rho>' (constraints q) \<and> eval \<rho>' (qexpr q) = eval \<rho> (qexpr q)"
    using eval_combine(1)[OF w(1,2) c(2)] by blast
qed

lemma required_same:
  assumes "query_ok q" "in_tables q" "required_query q = Some q'"
  shows "valid q' \<longleftrightarrow> valid q" "refuted q' \<longleftrightarrow> refuted q" "validity_of q' = validity_of q"
    "value_ok q' v \<Longrightarrow> value_ok q v"
proof -
  note r = required_query_ok[OF assms]
  show v: "valid q' \<longleftrightarrow> valid q" and f: "refuted q' \<longleftrightarrow> refuted q"
    unfolding valid_def refuted_def holds_def r(2) using r(3,4) by metis+
  show "validity_of q' = validity_of q" by (simp add: validity_of_def v f)
  show "value_ok q' v \<Longrightarrow> value_ok q v"
    unfolding value_ok_def r(2) using r(4) by metis
qed

section \<open>The factors put together\<close>

text \<open>Queries whose constraints need not have a solution, as those of the factors.\<close>

definition typed_query :: "query \<Rightarrow> bool" where
  "typed_query q \<longleftrightarrow> list_all (\<lambda>c. wt c \<and> getWidth c = 1) (constraints q) \<and> wt (qexpr q) \<and> getWidth (qexpr q) = 1"

locale complete_solver = solver_contract +
  assumes any_values: "\<lbrakk>good s; typed_query q; list_all wf_array objs;
      computeInitialValues impl q objs s = (vs, s')\<rbrakk>
    \<Longrightarrow> good s' \<and> (\<forall>w. vs = Some w \<longrightarrow> counterexample_ok q objs w)"

interpretation dummy_complete: complete_solver DummySolver "\<lambda>_. True"
  by unfold_locales (auto simp: DummySolver_def split: prod.splits)

interpretation perfect_complete: complete_solver perfect_solver "\<lambda>_. True"
  by unfold_locales (auto simp: perfect_solver_def perfect_values_ok)

lemma put_values_length [simp]: "length (put_values idx vs old) = length old"
  by (induction idx arbitrary: old) (simp_all add: put_values_def)

lemma put_values_nth:
  "j < length old \<Longrightarrow> put_values idx vs old ! j = (if j \<in> set idx then vs ! j else old ! j)"
  by (induction idx arbitrary: old) (auto simp: put_values_def nth_list_update)

definition values_ok :: "value_map \<Rightarrow> bool" where
  "values_ok m \<longleftrightarrow> (\<forall>a v. map_of m a = Some v \<longrightarrow> length v = arr_size a \<and> list_all (fits (range_w a)) v)"

text \<open>What a merge keeps and what it stores; \<open>idx\<close> are the indices of the factor.\<close>

lemma merge_values_ok:
  assumes "merge_values els prs m = Some m'" "distinct (map fst prs)"
  shows "map_of m' a =
    (case map_of prs a of
       None \<Rightarrow> map_of m a
     | Some vs \<Rightarrow> Some (case map_of m a of None \<Rightarrow> vs
         | Some old \<Rightarrow> put_values (case map_of els a of Some d \<Rightarrow> d | None \<Rightarrow> []) vs old))"
    (is "_ = ?R prs m")
  using assms
proof (induction els prs m rule: merge_values.induct)
  case (2 els b vs r m)
  have nb: "map_of r b = None"
    using 2(4) by (simp add: map_of_eq_None_iff)
  have erase: "map_of (filter (\<lambda>p. fst p \<noteq> b) m) a = (if a = b then None else map_of m a)"
    by (induction m) auto
  show ?case
  proof (cases "map_of m b")
    case None
    then have "map_of m' a = (case map_of r a of
       None \<Rightarrow> map_of ((b, vs) # m) a
     | Some vs' \<Rightarrow> Some (case map_of ((b, vs) # m) a of None \<Rightarrow> vs'
         | Some old \<Rightarrow> put_values (case map_of els a of Some d \<Rightarrow> d | None \<Rightarrow> []) vs' old))"
      using 2(1)[OF None] 2(3,4) None by simp
    moreover have "map_of ((b, vs) # m) a = (if a = b then Some vs else map_of m a)"
      "map_of ((b, vs) # r) a = (if a = b then Some vs else map_of r a)" by simp_all
    ultimately show ?thesis using nb None by (simp split: option.split)
  next
    case (Some old)
    let ?m = "(b, put_values (case map_of els b of Some d \<Rightarrow> d | None \<Rightarrow> []) vs old) # filter (\<lambda>p. fst p \<noteq> b) m"
    have m: "merge_values els r ?m = Some m'" and g: "length old = length vs \<and>
        list_all (\<lambda>i. i < length old) (case map_of els b of None \<Rightarrow> [] | Some d \<Rightarrow> d)"
      using 2(3) Some by (auto simp: Let_def split: if_splits)
    have "distinct (map fst r)" using 2(4) by simp
    note ih = 2(2)[OF Some refl g m this]
    show ?thesis
    proof (cases "a = b")
      case True
      then show ?thesis unfolding ih using nb Some by simp
    next
      case False
      then have "map_of ?m a = map_of m a" "map_of ((b, vs) # r) a = map_of r a" using erase by simp_all
      then show ?thesis unfolding ih by (simp only:)
    qed
  qed
qed simp

lemma merge_values_lengths:
  "merge_values els prs m = Some m' \<Longrightarrow> distinct (map fst prs) \<Longrightarrow> map_of prs a = Some vs \<Longrightarrow> map_of m a = Some old \<Longrightarrow>
   length old = length vs"
proof (induction els prs m rule: merge_values.induct)
  case (2 els b ws r m)
  show ?case
  proof (cases "map_of m b")
    case None
    then show ?thesis using 2 by (cases "a = b") auto
  next
    case (Some old')
    have erase: "map_of (filter (\<lambda>p. fst p \<noteq> b) m) a = map_of m a" if "a \<noteq> b"
      using that by (induction m) auto
    have "length old' = length ws"
      "merge_values els r ((b, put_values (case map_of els b of Some d \<Rightarrow> d | None \<Rightarrow> []) ws old') # filter (\<lambda>p. fst p \<noteq> b) m) = Some m'"
      and g: "length old' = length ws \<and>
        list_all (\<lambda>i. i < length old') (case map_of els b of None \<Rightarrow> [] | Some d \<Rightarrow> d)"
      using 2(3) Some by (auto simp: Let_def split: if_splits)
    then show ?thesis
      using 2(2)[OF Some refl g] 2(4-6) erase Some by (cases "a = b") auto
  qed
qed simp

text \<open>The arrays of a factor and its elements.\<close>

lemma set_references: "set (calculateArrayReferences f) = fst ` set (elements f) \<union> set (wholeObjects f)"
  by (simp add: calculateArrayReferences_def)

lemma references_support:
  assumes "factor_ok f"
  shows "a \<in> set (calculateArrayReferences f) \<longleftrightarrow> (\<exists>i. (a, i) \<in> support f)"
    "distinct (calculateArrayReferences f)" "list_all wf_array (calculateArrayReferences f)"
proof -
  have e: "list_all (\<lambda>p. snd p \<noteq> [] \<and> wf_array (fst p)) (elements f)" "list_all wf_array (wholeObjects f)"
    using assms by (simp_all add: factor_ok_def entries_ok_def)
  show "a \<in> set (calculateArrayReferences f) \<longleftrightarrow> (\<exists>i. (a, i) \<in> support f)"
  proof
    assume "a \<in> set (calculateArrayReferences f)"
    then consider "a \<in> set (wholeObjects f)" | "a \<in> fst ` set (elements f)" by (auto simp: set_references)
    then show "\<exists>i. (a, i) \<in> support f"
    proof cases
      case 2
      then obtain d where d: "map_of (elements f) a = Some d"
        by (metis map_of_eq_None_iff not_Some_eq)
      then have "d \<noteq> []" using e(1) map_of_SomeD[OF d] by (auto simp: list_all_iff)
      then have "(a, int (hd d)) \<in> support f" using d by (simp add: support_def)
      then show ?thesis by blast
    qed (auto simp: support_def)
  next
    assume "\<exists>i. (a, i) \<in> support f"
    then show "a \<in> set (calculateArrayReferences f)"
      by (auto simp: support_def set_references dest!: map_of_SomeD intro: rev_image_eqI)
  qed
  show "distinct (calculateArrayReferences f)" by (simp add: calculateArrayReferences_def)
  show "list_all wf_array (calculateArrayReferences f)"
    using e by (auto simp: list_all_iff set_references)
qed

abbreviation refs :: "element_set \<Rightarrow> array set" where
  "refs f \<equiv> set (calculateArrayReferences f)"

text \<open>The values of an environment \<open>\<rho>\<close> at the elements of a factor are in the map.\<close>

definition holds_values :: "value_map \<Rightarrow> env \<Rightarrow> element_set \<Rightarrow> bool" where
  "holds_values m \<rho> f \<longleftrightarrow> (\<forall>a \<in> refs f. \<exists>v. map_of m a = Some v \<and>
     (\<forall>i < arr_size a. (a, int i) \<in> support f \<longrightarrow> v ! i = initial_value \<rho> a (int i)))"

definition solved :: "value_map \<Rightarrow> element_set \<Rightarrow> bool" where
  "solved m f \<longleftrightarrow> refs f = {} \<or> (\<exists>\<rho>. models \<rho> (exprs f) \<and> holds_values m \<rho> f)"

lemma values_okD: "values_ok m \<Longrightarrow> map_of m a = Some v \<Longrightarrow> length v = arr_size a \<and> list_all (fits (range_w a)) v"
  unfolding values_ok_def by blast

lemma array_values_ok:
  "length (array_values \<rho> a) = arr_size a" "i < arr_size a \<Longrightarrow> array_values \<rho> a ! i = initial_value \<rho> a (int i)"
  "wf_array a \<Longrightarrow> list_all (fits (range_w a)) (array_values \<rho> a)"
  by (simp_all add: array_values_def list_all_length fits_initial_value)

lemma map_of_zip_array_values:
  "map_of (zip as (map (array_values \<rho>) as)) a = (if a \<in> set as then Some (array_values \<rho> a) else None)"
  by (induction as) auto

lemma merge_factor:
  assumes f: "factor_ok f" and m: "values_ok m" "\<forall>a \<in> set (wholeObjects f). map_of m a = None"
    and g: "merge_values (elements f) (zip (calculateArrayReferences f) (map (array_values \<rho>) (calculateArrayReferences f))) m = Some m'"
  shows "values_ok m'" "holds_values m' \<rho> f" "map_of m' a = None \<longleftrightarrow> map_of m a = None \<and> a \<notin> refs f"
    "map_of m a = Some v \<Longrightarrow> i < arr_size a \<Longrightarrow> (a, int i) \<notin> support f \<Longrightarrow> the (map_of m' a) ! i = v ! i"
    "a \<notin> refs f \<Longrightarrow> map_of m' a = map_of m a"
proof -
  let ?as = "calculateArrayReferences f"
  define idx where "idx a = (case map_of (elements f) a of Some d \<Rightarrow> d | None \<Rightarrow> [])" for a
  note r = references_support[OF f]
  have d: "distinct (map fst (zip ?as (map (array_values \<rho>) ?as)))" using r(2) by simp
  have m': "map_of m' a = (if a \<in> refs f then Some (case map_of m a of None \<Rightarrow> array_values \<rho> a
      | Some old \<Rightarrow> put_values (idx a) (array_values \<rho> a) old) else map_of m a)" for a
    using merge_values_ok[OF g d, of a, folded idx_def] by (simp add: map_of_zip_array_values)
  have idx_in: "j \<in> set (idx a) \<longleftrightarrow> (a, int j) \<in> support f" if "map_of m a \<noteq> None" for a j
    using m(2) that by (cases "map_of (elements f) a") (auto simp: support_def idx_def)
  show "map_of m' a = None \<longleftrightarrow> map_of m a = None \<and> a \<notin> refs f" "a \<notin> refs f \<Longrightarrow> map_of m' a = map_of m a" for a
    by (simp_all add: m')
  show "the (map_of m' a) ! i = v ! i" if v: "map_of m a = Some v" and i: "i < arr_size a" "(a, int i) \<notin> support f" for a v i
  proof -
    have "i < length v" using values_okD[OF m(1) v] i(1) by simp
    moreover have "i \<notin> set (idx a)" using idx_in[of a i] v i(2) by simp
    ultimately show ?thesis using v by (simp add: m' put_values_nth)
  qed
  show "holds_values m' \<rho> f"
    unfolding holds_values_def
  proof
    fix a assume a: "a \<in> refs f"
    show "\<exists>v. map_of m' a = Some v \<and> (\<forall>i < arr_size a. (a, int i) \<in> support f \<longrightarrow> v ! i = initial_value \<rho> a (int i))"
    proof (cases "map_of m a")
      case None
      then show ?thesis using a by (simp add: m' array_values_ok)
    next
      case (Some old)
      then have "length old = arr_size a" using values_okD[OF m(1)] by blast
      then show ?thesis
        using a Some idx_in[of a] by (simp add: m' put_values_nth array_values_ok)
    qed
  qed
  show "values_ok m'"
    unfolding values_ok_def
  proof (intro allI impI)
    fix a v assume v: "map_of m' a = Some v"
    show "length v = arr_size a \<and> list_all (fits (range_w a)) v"
    proof (cases "a \<in> refs f")
      case True
      then have vs: "length (array_values \<rho> a) = arr_size a" "list_all (fits (range_w a)) (array_values \<rho> a)"
        using r(3) array_values_ok(3)[of a \<rho>] by (simp_all add: array_values_ok(1) list_all_iff)
      show ?thesis
      proof (cases "map_of m a")
        case (Some old)
        note o = values_okD[OF m(1) Some]
        have "v = put_values (idx a) (array_values \<rho> a) old" using v True Some by (simp add: m')
        then show ?thesis using o vs by (simp add: list_all_length put_values_nth)
      qed (use v True vs in \<open>simp add: m'\<close>)
    qed (use v values_okD[OF m(1)] in \<open>simp add: m'\<close>)
  qed
qed

lemma holds_values_preserved:
  assumes h: "holds_values m \<rho> f"
    and d: "\<And>a. map_of m a \<noteq> None \<Longrightarrow> map_of m' a \<noteq> None"
    and p: "\<And>a v i. map_of m a = Some v \<Longrightarrow> i < arr_size a \<Longrightarrow> (a, int i) \<in> support f \<Longrightarrow> the (map_of m' a) ! i = v ! i"
  shows "holds_values m' \<rho> f"
  unfolding holds_values_def
proof
  fix a assume "a \<in> refs f"
  then obtain v where v: "map_of m a = Some v" "\<And>i. i < arr_size a \<Longrightarrow> (a, int i) \<in> support f \<Longrightarrow> v ! i = initial_value \<rho> a (int i)"
    using h unfolding holds_values_def by blast
  obtain w where w: "map_of m' a = Some w" using d[of a] v(1) by blast
  have "w ! i = initial_value \<rho> a (int i)" if "i < arr_size a" "(a, int i) \<in> support f" for i
    using p[OF v(1) that] v(2)[OF that] w by simp
  then show "\<exists>v. map_of m' a = Some v \<and> (\<forall>i < arr_size a. (a, int i) \<in> support f \<longrightarrow> v ! i = initial_value \<rho> a (int i))"
    using w by blast
qed

text \<open>What the loop over the factors establishes.\<close>

definition merged :: "element_set list \<Rightarrow> value_map \<Rightarrow> value_map \<Rightarrow> bool" where
  "merged fs m0 m \<longleftrightarrow> values_ok m \<and> (\<forall>f \<in> set fs. solved m f) \<and>
     (\<forall>a. map_of m a = None \<longleftrightarrow> map_of m0 a = None \<and> (\<forall>f \<in> set fs. a \<notin> refs f)) \<and>
     (\<forall>a v i. map_of m0 a = Some v \<longrightarrow> i < arr_size a \<longrightarrow> (\<forall>f \<in> set fs. (a, int i) \<notin> support f) \<longrightarrow>
        the (map_of m a) ! i = v ! i)"

lemma mergedD:
  assumes "merged fs m0 m"
  shows "values_ok m" "f \<in> set fs \<Longrightarrow> solved m f"
    "map_of m a = None \<longleftrightarrow> map_of m0 a = None \<and> (\<forall>f \<in> set fs. a \<notin> refs f)"
    "map_of m0 a = Some v \<Longrightarrow> i < arr_size a \<Longrightarrow> (\<And>f. f \<in> set fs \<Longrightarrow> (a, int i) \<notin> support f) \<Longrightarrow>
       the (map_of m a) ! i = v ! i"
  using assms unfolding merged_def by blast+

lemma merged_skip:
  assumes "merged fs m0 m" "refs f = {}" "support f = {}"
  shows "merged (f # fs) m0 m"
  using assms by (simp add: merged_def solved_def)

lemma merged_step:
  assumes f: "factor_ok f" and m0: "values_ok m0" "\<forall>a \<in> set (wholeObjects f). map_of m0 a = None"
    and g: "merge_values (elements f) (zip (calculateArrayReferences f) (map (array_values \<rho>) (calculateArrayReferences f))) m0 = Some m1"
    and \<rho>: "models \<rho> (exprs f)" and disj: "\<And>h. h \<in> set fs \<Longrightarrow> support f \<inter> support h = {}"
    and m: "merged fs m1 m"
  shows "merged (f # fs) m0 m"
proof -
  note k = merge_factor[OF f m0 g] and r = mergedD[OF m]
  have "holds_values m \<rho> f"
  proof (rule holds_values_preserved[OF k(2)])
    show "map_of m a \<noteq> None" if "map_of m1 a \<noteq> None" for a using that r(3)[of a] by simp
    show "the (map_of m a) ! i = v ! i" if "map_of m1 a = Some v" "i < arr_size a" "(a, int i) \<in> support f" for a v i
      using r(4)[OF that(1,2)] disj that(3) by blast
  qed
  then have "solved m f" using \<rho> unfolding solved_def by blast
  moreover have "the (map_of m a) ! i = v ! i"
    if a: "map_of m0 a = Some v" "i < arr_size a" "\<forall>h \<in> set (f # fs). (a, int i) \<notin> support h" for a v i
  proof -
    obtain w where w: "map_of m1 a = Some w" using k(3)[of a] a(1) by (cases "map_of m1 a") auto
    have "the (map_of m a) ! i = w ! i" using r(4)[OF w a(2)] a(3) by simp
    then show ?thesis using k(4)[OF a(1,2)] a(3) w by simp
  qed
  moreover have "map_of m a = None \<longleftrightarrow> map_of m0 a = None \<and> (\<forall>h \<in> set (f # fs). a \<notin> refs h)" for a
    using r(3)[of a] k(3)[of a] by auto
  ultimately show ?thesis
    using r(1,2) unfolding merged_def by simp
qed

context complete_solver
begin

lemma solve_factors_ok:
  "\<lbrakk>list_all factor_ok fs; sorted_wrt (\<lambda>f g. support f \<inter> support g = {}) fs;
    \<forall>f \<in> set fs. \<forall>e \<in> set (exprs f). wt e \<and> getWidth e = 1; values_ok m0;
    \<forall>f \<in> set fs. \<forall>a \<in> set (wholeObjects f). map_of m0 a = None; good s;
    solve_factors impl fs m0 s = (r, s')\<rbrakk> \<Longrightarrow>
   good s' \<and> (\<forall>x. r = Returned x \<longrightarrow> (case x of
       None \<Rightarrow> \<exists>f \<in> set fs. \<forall>\<rho>. \<not> models \<rho> (exprs f)
     | Some m \<Rightarrow> merged fs m0 m))"
proof (induction fs arbitrary: m0 s)
  case Nil
  then show ?case by (auto simp: merged_def)
next
  case (Cons f fs)
  let ?as = "calculateArrayReferences f"
  let ?q = "\<lparr>constraints = exprs f, qexpr = alloc_Const 1 0\<rparr>"
  have f: "factor_ok f" "list_all factor_ok fs" "sorted_wrt (\<lambda>f g. support f \<inter> support g = {}) fs"
    "\<And>h. h \<in> set fs \<Longrightarrow> support f \<inter> support h = {}"
    "\<forall>f \<in> set fs. \<forall>e \<in> set (exprs f). wt e \<and> getWidth e = 1"
    using Cons.prems(1-3) by simp_all
  note rs = references_support[OF f(1)]
  consider "exprs f = []" | "exprs f \<noteq> []" "?as = []" | "exprs f \<noteq> []" "?as \<noteq> []" by blast
  then show ?case
  proof cases
    case 1
    then show ?thesis using Cons.prems(6,7) by simp
  next
    case 2
    then have "support f = {}" using rs(1) by auto
    then show ?thesis
      using Cons.IH[OF f(2,3,5) Cons.prems(4) _ Cons.prems(6)] Cons.prems(5,7) 2 merged_skip[of fs m0 _ f]
      by (auto split: option.splits)
  next
    case 3
    obtain v s1 where v: "computeInitialValues impl ?q ?as s = (v, s1)" by fastforce
    have "typed_query ?q"
      using Cons.prems(3) by (auto simp: typed_query_def list_all_iff alloc_Const_def apint_of_def)
    from any_values[OF Cons.prems(6) this rs(3) v]
    have s1: "good s1" and ce: "\<And>w. v = Some w \<Longrightarrow> counterexample_ok ?q ?as w" by simp_all
    have h0: "\<not> holds \<rho> (alloc_Const 1 0)" for \<rho> by (simp add: holds_def alloc_Const_def apint_of_def)
    consider "v = None" | "v = Some None" | vals where "v = Some (Some vals)" by (metis not_Some_eq)
    then show ?thesis
    proof cases
      case 1
      then show ?thesis using 3 v s1 Cons.prems(7) by simp
    next
      case 2
      then have "\<not> models \<rho> (exprs f)" for \<rho>
        using ce[OF 2] h0 by (auto simp: counterexample_ok_def valid_def)
      then show ?thesis using 2 3 v s1 Cons.prems(7) by auto
    next
      case (3 vals)
      obtain \<rho> where \<rho>: "models \<rho> (exprs f)" "vals = map (array_values \<rho>) ?as"
        using ce[OF 3] by (auto simp: counterexample_ok_def)
      show ?thesis
      proof (cases "merge_values (elements f) (zip ?as vals) m0")
        case None
        then show ?thesis
          using 3 \<open>exprs f \<noteq> []\<close> \<open>?as \<noteq> []\<close> \<rho>(2) v s1 Cons.prems(7) by simp
      next
        case (Some m1)
        have m0: "\<forall>a \<in> set (wholeObjects f). map_of m0 a = None" using Cons.prems(5) by simp
        note k = merge_factor[OF f(1) Cons.prems(4) m0 Some[unfolded \<rho>(2)]]
        have m1: "\<forall>h \<in> set fs. \<forall>a \<in> set (wholeObjects h). map_of m1 a = None"
        proof (intro ballI)
          fix h a assume h: "h \<in> set fs" "a \<in> set (wholeObjects h)"
          then have "(a, i) \<in> support h" for i by (simp add: support_def)
          then have "a \<notin> refs f" using f(4)[OF h(1)] rs(1) by blast
          then show "map_of m1 a = None" using k(5) Cons.prems(5) h by simp
        qed
        have l: "solve_factors impl fs m1 s1 = (r, s')"
          using 3 \<open>exprs f \<noteq> []\<close> \<open>?as \<noteq> []\<close> \<rho>(2) v Some Cons.prems(7) by simp
        note ih = Cons.IH[OF f(2,3,5) k(1) m1 s1 l]
        show ?thesis
        proof (intro conjI allI impI)
          show "good s'" using ih by blast
          fix x assume x: "r = Returned x"
          show "case x of None \<Rightarrow> \<exists>f \<in> set (f # fs). \<forall>\<rho>. \<not> models \<rho> (exprs f) | Some m \<Rightarrow> merged (f # fs) m0 m"
          proof (cases x)
            case None
            then show ?thesis using ih x by auto
          next
            case (Some m)
            then have "merged fs m1 m" using ih x by simp
            then show ?thesis
              using merged_step[OF f(1) Cons.prems(4) m0 \<open>merge_values _ _ m0 = Some m1\<close>[unfolded \<rho>(2)] \<rho>(1) f(4)] Some
              by simp
          qed
        qed
      qed
    qed
  qed
qed

end

text \<open>
  The environment that follows the solution of the factor an element belongs to, and the merged
  values everywhere else.
\<close>

definition merged_env :: "element_set list \<Rightarrow> (element_set \<Rightarrow> env) \<Rightarrow> value_map \<Rightarrow> env" where
  "merged_env fs sol m a i =
     (case find (\<lambda>f. (a, i) \<in> support f) fs of
        Some f \<Rightarrow> sol f a i
      | None \<Rightarrow> (case map_of m a of
          Some v \<Rightarrow> if 0 \<le> i \<and> i < int (length v) then v ! nat i else 0
        | None \<Rightarrow> 0))"

lemma find_factor:
  assumes "sorted_wrt (\<lambda>f g. support f \<inter> support g = {}) fs" "f \<in> set fs" "x \<in> support f"
  shows "find (\<lambda>f. x \<in> support f) fs = Some f"
  using assms by (induction fs) auto

lemma models_merged:
  assumes d: "sorted_wrt (\<lambda>f g. support f \<inter> support g = {}) fs" and f: "f \<in> set fs" "factor_ok f"
    and e: "e \<in> set (exprs f)" "wt e" "tables_ok e"
  shows "eval (merged_env fs sol m) e = eval (sol f) e"
proof (rule eval_support[OF e(2,3) order_refl])
  have "deps e \<subseteq> support f" using f(2) e(1) by (simp add: factor_ok_def list_all_iff)
  then show "agree_on (\<Union> (read_support ` reads_in True e)) (merged_env fs sol m) (sol f)"
    using find_factor[OF d f(1)] by (auto simp: agree_on_def merged_env_def deps_def)
qed

lemma object_values_merged:
  assumes d: "sorted_wrt (\<lambda>f g. support f \<inter> support g = {}) fs" and fs: "list_all factor_ok fs"
    and m: "merged fs [] m" and sol: "\<And>f. f \<in> set fs \<Longrightarrow> refs f \<noteq> {} \<Longrightarrow> holds_values m (sol f) f"
    and a: "wf_array a" "isSymbolicArray a"
  shows "object_values m a = array_values (merged_env fs sol m) a"
proof (rule nth_equalityI)
  note r = mergedD[OF m]
  show len: "length (object_values m a) = length (array_values (merged_env fs sol m) a)"
    using values_okD[OF r(1)] by (auto simp: object_values_def array_values_ok split: option.split)
  fix i assume "i < length (object_values m a)"
  then have i: "i < arr_size a" using len by (simp add: array_values_ok)
  let ?\<rho> = "merged_env fs sol m"
  have iv: "initial_value \<rho> a (int i) = take_bit (range_w a) (\<rho> a (int i))" for \<rho>
    using a(2) by (simp add: initial_value_def isConstantArray_def)
  show "object_values m a ! i = array_values ?\<rho> a ! i"
  proof (cases "find (\<lambda>f. (a, int i) \<in> support f) fs")
    case (Some f)
    then have f: "f \<in> set fs" "(a, int i) \<in> support f" by (auto simp: find_Some_iff)
    then have "a \<in> refs f" using references_support(1)[of f a] fs by (auto simp: list_all_iff)
    moreover from this have "refs f \<noteq> {}" by auto
    ultimately obtain v where "map_of m a = Some v" "v ! i = initial_value (sol f) a (int i)"
      using sol[OF f(1)] i f(2) unfolding holds_values_def by blast
    then show ?thesis
      using Some i by (simp add: object_values_def array_values_ok iv merged_env_def)
  next
    case None
    show ?thesis
    proof (cases "map_of m a")
      case (Some v)
      note v = values_okD[OF r(1) Some]
      then have "fits (range_w a) (v ! i)" using i by (simp add: list_all_length)
      then show ?thesis
        using None Some i v by (simp add: object_values_def array_values_ok iv merged_env_def take_bit_fits)
    qed (use None i in \<open>simp add: object_values_def array_values_ok iv merged_env_def\<close>)
  qed
qed

text \<open>Every array of a goal has a solution in its factor, or the goal has no element at all.\<close>

lemma goals_hold:
  assumes g: "getAllIndependentConstraintsSets q = Some fs" and q: "bool_query q" "in_tables q"
    and dep: "isConstantExpr (qexpr q) \<or> deps (createIsZero (qexpr q)) \<noteq> {}"
    and sol: "\<And>f. f \<in> set fs \<Longrightarrow> refs f \<noteq> {} \<Longrightarrow> models (sol f) (exprs f)"
    and e: "e \<in> set (goals q)"
  shows "holds (merged_env fs sol m) e"
proof -
  note bq = bool_queryD[OF q(1)]
  have w: "\<And>x. x \<in> set (goals q) \<Longrightarrow> wt x \<and> tables_ok x"
    using bq q(2) createIsZero_bool(1)[OF bq(3,2)]
    by (auto simp: goals_def query_ok_def constraints_ok_def in_tables_def list_all_iff split: if_splits)
  then have "list_all wt (goals q)" by (simp add: list_all_iff)
  note fs = getAllIndependentConstraintsSets_ok[OF g this]
  obtain f where f: "f \<in> set fs" "e \<in> set (exprs f)" "factor_ok f"
    using e fs(1,2) by (auto simp: all_exprs_def list_all_iff)
  have same: "eval (merged_env fs sol' m) e = eval (sol' f) e" for sol'
    using models_merged[OF fs(3) f(1,3,2)] w[OF e] by simp
  show ?thesis
  proof (cases "refs f = {}")
    case False
    then show ?thesis
      using same[of sol] modelsD[OF sol[OF f(1) False] f(2)] by (simp add: holds_def)
  next
    case True
    then have "support f = {}" using references_support(1)[OF f(3)] by auto
    then have d: "deps e = {}" using f(2,3) by (auto simp: factor_ok_def list_all_iff)
    obtain \<rho> where \<rho>: "models \<rho> (constraints q)" using bq(1) by (auto simp: query_ok_def constraints_ok_def)
    have "e \<in> set (constraints q)" using e d dep by (auto simp: goals_def split: if_splits)
    then have "holds \<rho> e" using modelsD[OF \<rho>] by simp
    moreover have "eval (merged_env fs sol m) e = eval \<rho> e"
      by (rule eval_support[of e "{}"]) (use w[OF e] d in \<open>simp_all add: deps_def agree_on_def\<close>)
    ultimately show ?thesis by (simp add: holds_def)
  qed
qed

lemma goals_query:
  assumes q: "bool_query q" and g: "getAllIndependentConstraintsSets q = Some fs"
  shows "models \<rho> (goals q) \<longleftrightarrow> models \<rho> (constraints q) \<and> \<not> holds \<rho> (qexpr q)"
proof (cases "dyn_Constant (qexpr q)")
  case None
  then show ?thesis
    using createIsZero_bool(3)[OF bool_queryD(3,2)[OF q]] by (auto simp: goals_def models_def isConstantExpr_def)
next
  case (Some c)
  then have "CE_isFalse c" using g by (simp add: getAllIndependentConstraintsSets_def split: if_splits)
  then have "\<not> holds \<rho> (qexpr q)" using Some q by (auto simp: holds_def CE_isFalse_def bool_query_def)
  then show ?thesis using Some by (simp add: goals_def isConstantExpr_def)
qed

context complete_solver
begin

lemma independent_values_ok:
  assumes s: "good s" and q: "bool_query q" "in_tables q"
    and dep: "isConstantExpr (qexpr q) \<or> deps (createIsZero (qexpr q)) \<noteq> {}"
    and objs: "list_all (\<lambda>a. wf_array a \<and> isSymbolicArray a) objs"
    and res: "independent_computeInitialValues impl q objs s = (vs, s')"
  shows "good s' \<and> (\<forall>w. vs = Returned w \<longrightarrow> counterexample_ok q objs w)"
proof (cases "getAllIndependentConstraintsSets q")
  case None
  then show ?thesis using res s by (simp add: independent_computeInitialValues_def)
next
  case (Some fs)
  note bq = bool_queryD[OF q(1)]
  have w: "\<forall>x \<in> set (goals q). wt x \<and> getWidth x = 1"
    using bq createIsZero_bool(1,2)[OF bq(3,2)] by (auto simp: goals_def query_ok_def constraints_ok_def list_all_iff)
  then have "list_all wt (goals q)" by (simp add: list_all_iff)
  note fs = getAllIndependentConstraintsSets_ok[OF Some this]
  obtain r s1 where r: "solve_factors impl fs [] s = (r, s1)" by fastforce
  have sf: "good s1 \<and> (\<forall>x. r = Returned x \<longrightarrow> (case x of
       None \<Rightarrow> \<exists>f \<in> set fs. \<forall>\<rho>. \<not> models \<rho> (exprs f) | Some m \<Rightarrow> merged fs [] m))"
    by (rule solve_factors_ok[OF fs(1,3) _ _ _ s r])
      (use w fs(2) in \<open>auto simp: all_exprs_def values_ok_def\<close>)
  have s': "s' = s1" using res Some r
    by (auto simp: independent_computeInitialValues_def Let_def split: option.splits outcome.splits if_splits)
  consider "vs = Failed \<or> vs = Aborted" | "r = Returned None" "vs = Returned None"
    | m where "r = Returned (Some m)" "vs = Returned (Some (map (object_values m) objs))"
    using res Some r
    by (auto simp: independent_computeInitialValues_def Let_def split: option.splits outcome.splits if_splits)
  then show ?thesis
  proof cases
    case 2
    then obtain f where f: "f \<in> set fs" "\<And>\<rho>. \<not> models \<rho> (exprs f)" using sf by auto
    have "set (exprs f) \<subseteq> set (goals q)" using f(1) fs(2) by (auto simp: all_exprs_def)
    then have "\<not> models \<rho> (goals q)" for \<rho> using models_mono f(2) by blast
    then have "valid q" using goals_query[OF q(1) Some] unfolding valid_def by blast
    then show ?thesis using 2 sf s' by (simp add: counterexample_ok_def)
  next
    case (3 m)
    have m: "merged fs [] m" using sf 3(1) by simp
    have "\<forall>f \<in> set fs. \<exists>\<rho>. refs f \<noteq> {} \<longrightarrow> models \<rho> (exprs f) \<and> holds_values m \<rho> f"
      using mergedD(2)[OF m] unfolding solved_def by blast
    then obtain sol where sol: "\<And>f. f \<in> set fs \<Longrightarrow> refs f \<noteq> {} \<Longrightarrow> models (sol f) (exprs f) \<and> holds_values m (sol f) f"
      by metis
    let ?\<rho> = "merged_env fs sol m"
    have "models ?\<rho> (goals q)"
      using goals_hold[OF Some q dep] sol by (simp add: models_def list_all_iff)
    then have "models ?\<rho> (constraints q)" "\<not> holds ?\<rho> (qexpr q)"
      using goals_query[OF q(1) Some] by simp_all
    moreover have "map (object_values m) objs = map (array_values ?\<rho>) objs"
      using object_values_merged[OF fs(3,1) m] sol objs by (simp add: list_all_iff)
    ultimately show ?thesis
      using 3 sf s' by (auto simp: counterexample_ok_def)
  qed (use sf s' in auto)
qed

end

section \<open>Properties\<close>

text \<open>Indices of at most 32 bits, as all arrays of the system have.\<close>

definition small_indices :: "expr \<Rightarrow> bool" where
  "small_indices e \<longleftrightarrow> (\<forall>(a, us, i) \<in> reads_in True e. getWidth i \<le> 32)"

lemma add_reads_Some: "\<forall>(a, us, i) \<in> set rs. getWidth i \<le> 32 \<Longrightarrow> add_reads rs s \<noteq> None"
proof (induction rs s rule: add_reads.induct)
  case (2 r rs s)
  have "add_read r s \<noteq> None"
    using 2(2) by (cases r) (auto simp: add_read_def Let_def split: option.splits)
  then show ?case using 2 by (auto split: option.splits)
qed simp

lemma element_set_of_Some: "small_indices e \<Longrightarrow> element_set_of e \<noteq> None"
  unfolding element_set_of_def by (rule add_reads_Some) (simp add: small_indices_def set_findReads)

lemma make_worklist_Some: "list_all small_indices es \<Longrightarrow> make_worklist es \<noteq> None"
  using element_set_of_Some by (induction es) (auto split: option.splits)

lemma required_query_Some:
  assumes "list_all small_indices (qexpr q # constraints q)"
  obtains q' where "required_query q = Some q'" "set (constraints q') \<subseteq> set (constraints q)"
proof -
  obtain cl w where 1: "element_set_of (qexpr q) = Some cl" "make_worklist (constraints q) = Some w"
    using assms element_set_of_Some make_worklist_Some by fastforce
  then obtain cl' req where g: "getIndependentConstraints q = Some (cl', req)"
    by (cases "closure_loop w cl []") (simp add: getIndependentConstraints_def)
  show ?thesis
    by (rule that[of "\<lparr>constraints = req, qexpr = qexpr q\<rparr>"])
      (use g getIndependentConstraints_ok(1)[OF g] in \<open>simp_all add: required_query_def\<close>)
qed

text \<open>\<open>findReads\<close> terminates and returns exactly the reads that occur in an expression, with or
  without those inside update lists, although it visits every expression and update list once.\<close>

theorem findReads_exact: "set (findReads e visitUpdates) = reads_in visitUpdates e"
  by (rule set_findReads)

text \<open>C26: The independent solver drops constraints without changing an answer: over any solver that
  keeps the contract, truth, validity and value of a query are right for the whole set of
  constraints, and an operation fails only where the wrapped solver fails on a subset of them. Every
  read of a table without updates is within its bounds in every environment, also in one that
  violates the constraints (such a read is not counted as a dependency, so a lookup that only
  another constraint guards is not covered), and indices have at most 32 bits, as the code asserts.\<close>

theorem IndependentSolver_sound:
  assumes "solver_contract impl good" "good s" "query_ok q" "in_tables q"
    and "list_all small_indices (qexpr q # constraints q)"
  shows "\<exists>q'. set (constraints q') \<subseteq> set (constraints q) \<and> qexpr q' = qexpr q \<and>
    (getWidth (qexpr q) = 1 \<longrightarrow>
       (case computeTruth (IndependentSolver impl) q s of
          (r, s') \<Rightarrow> good s' \<and> r = (if fst (computeTruth impl q' s) = None then None else Some (valid q))) \<and>
       (case computeValidity (IndependentSolver impl) q s of
          (r, s') \<Rightarrow> good s' \<and> r = (if fst (computeValidity impl q' s) = None then None else Some (validity_of q)))) \<and>
    (case computeValue (IndependentSolver impl) q s of
       (r, s') \<Rightarrow> good s' \<and> r = fst (computeValue impl q' s) \<and> (\<forall>v. r = Some v \<longrightarrow> value_ok q v))"
proof -
  note t = solver_contract.truth[OF assms(1,2)] solver_contract.validity[OF assms(1,2)]
    solver_contract.some_value[OF assms(1,2)]
  obtain q' where q': "required_query q = Some q'" "set (constraints q') \<subseteq> set (constraints q)"
    using required_query_Some[OF assms(5)] .
  note r = required_query_ok[OF assms(3,4) q'(1)] and same = required_same[OF assms(3,4) q'(1)]
  have bq: "bool_query q'" if "getWidth (qexpr q) = 1" using that r(1,2) by (simp add: bool_query_def)
  obtain a s1 where 1: "computeTruth impl q' s = (a, s1)" by fastforce
  obtain v s2 where 2: "computeValidity impl q' s = (v, s2)" by fastforce
  obtain e s3 where 3: "computeValue impl q' s = (e, s3)" by fastforce
  have T: "(case computeTruth (IndependentSolver impl) q s of
          (r, s') \<Rightarrow> good s' \<and> r = (if fst (computeTruth impl q' s) = None then None else Some (valid q)))"
    if "getWidth (qexpr q) = 1"
    using t(1)[OF bq[OF that] 1] 1 q'(1) same(1)
    by (cases a) (auto simp: IndependentSolver_def independent_computeTruth_def)
  have V: "(case computeValidity (IndependentSolver impl) q s of
          (r, s') \<Rightarrow> good s' \<and> r = (if fst (computeValidity impl q' s) = None then None else Some (validity_of q)))"
    if "getWidth (qexpr q) = 1"
    using t(2)[OF bq[OF that] 2] 2 q'(1) same(3)
    by (cases v) (auto simp: IndependentSolver_def independent_computeValidity_def)
  have W: "(case computeValue (IndependentSolver impl) q s of
       (r, s') \<Rightarrow> good s' \<and> r = fst (computeValue impl q' s) \<and> (\<forall>v. r = Some v \<longrightarrow> value_ok q v))"
    using t(3)[OF r(1) 3] 3 q'(1) same(4) by (auto simp: IndependentSolver_def independent_computeValue_def)
  show ?thesis
    by (intro exI[of _ q'] conjI impI, rule q'(2), rule r(2), erule T, erule V, rule W)
qed

text \<open>Two bytes below bounds of their own, and a question about the first.\<close>

definition two_bytes :: "int \<Rightarrow> query" where
  "two_bytes n = \<lparr>constraints = [BinaryExpr Ult (sample_byte 0) (ConstantExpr (APInt 8 10)),
       BinaryExpr Ult (sample_byte 1) (ConstantExpr (APInt 8 5))],
     qexpr = BinaryExpr Ugt (ConstantExpr (APInt 8 n)) (sample_byte 0)\<rparr>"

lemma two_bytes_ok:
  "bool_query (two_bytes 10)" "in_tables (two_bytes 10)" "valid (two_bytes 10)"
  "list_all small_indices (qexpr (two_bytes 10) # constraints (two_bytes 10))"
proof -
  have "models (\<lambda>_ _. 0) (constraints (two_bytes 10))"
    by (simp add: two_bytes_def models_def holds_def)
  then have "constraints_ok (constraints (two_bytes 10))"
    unfolding constraints_ok_def by (intro conjI exI) (simp_all add: two_bytes_def fits_def)
  then show "bool_query (two_bytes 10)"
    by (simp add: bool_query_def query_ok_def two_bytes_def)
  show "valid (two_bytes 10)"
    by (simp add: two_bytes_def valid_def models_def holds_def)
  show "list_all small_indices (qexpr (two_bytes 10) # constraints (two_bytes 10))"
    by (simp add: two_bytes_def small_indices_def sample_byte_def)
  have "createIsZero (qexpr (two_bytes 10)) = BinaryExpr Eq (ConstantExpr (APInt 1 0)) (qexpr (two_bytes 10))"
    unfolding two_bytes_def sample_byte_def by code_simp
  then show "in_tables (two_bytes 10)"
    by (simp add: in_tables_def goals_def tables_ok_def two_bytes_def sample_byte_def sample_array_def
        isConstantArray_def isSymbolicArray_def)
qed

theorem IndependentSolver_sound_witness:
  "fst (computeTruth (IndependentSolver perfect_solver) (two_bytes 10) ()) = Some True \<and>
   required_query (two_bytes 10) = Some (sample_query Ugt 10)"
proof -
  have "query_ok (two_bytes 10)" "getWidth (qexpr (two_bytes 10)) = 1"
    using bool_queryD(1,2)[OF two_bytes_ok(1)] .
  note q = this
  have p: "fst (computeTruth perfect_solver q' s) = Some (valid q')" for q' s
    by (simp add: perfect_solver_def)
  have "fst (computeTruth (IndependentSolver perfect_solver) (two_bytes 10) ()) = Some True"
    using IndependentSolver_sound[OF perfect.solver_contract_axioms TrueI q(1) two_bytes_ok(2,4), of "()"] q(2) two_bytes_ok(3)
    by (elim exE) (simp add: p split: prod.splits)
  moreover have "required_query (two_bytes 10) = Some (sample_query Ugt 10)"
    unfolding two_bytes_def sample_query_def sample_byte_def sample_array_def by code_simp
  ultimately show ?thesis by blast
qed

end
