(* ===== verification/CdgGraph.thy ===== *)
theory CdgGraph
  imports Prelude
begin

text \<open>
  The control dependence graph (\<^verbatim>\<open>src/include/CFG/CFG.h\<close>, \<^verbatim>\<open>src/lib/CFG/CFG.cpp\<close>): nodes with their
  parents and three sets of children, the iterator over all outgoing edges, the operations that add and
  remove edges, and the construction of the graph of a function from its post-dominator tree. The main
  result is that the construction computes exactly control dependence.

  Basic blocks are numbers. A node is a position of the heap of the graph, and a set of node pointers a
  list in ascending order without repetitions. LLVM's post-dominator tree is a parameter: a record of
  the operations the code calls, with the laws in \<open>pdt_ok\<close>. A \<^verbatim>\<open>DomTreeNode\<close> is represented by its
  block, which is null (\<open>None\<close>) for the virtual root of a function with several exits.
\<close>

section \<open>Functions and post-dominator trees\<close>

type_synonym bb = nat

datatype terminator = CondBr bb bb | UncondBr bb | OtherTerm "bb list"

fun term_successors :: "terminator \<Rightarrow> bb list" where
  "term_successors (CondBr t f) = [t, f]"
| "term_successors (UncondBr b) = [b]"
| "term_successors (OtherTerm bs) = bs"

record func =
  f_blocks :: "bb list"
  f_terminator :: "bb \<Rightarrow> terminator"

definition succs :: "func \<Rightarrow> bb \<Rightarrow> bb list" where
  "succs F A = term_successors (f_terminator F A)"

definition entry_block :: "func \<Rightarrow> bb" where
  "entry_block F = hd (f_blocks F)"

definition func_ok :: "func \<Rightarrow> bool" where
  "func_ok F \<longleftrightarrow> f_blocks F \<noteq> [] \<and> distinct (f_blocks F) \<and>
     (\<forall>A\<in>set (f_blocks F). set (succs F A) \<subseteq> set (f_blocks F))"

record post_dom_tree =
  dt_member :: "bb option \<Rightarrow> bool"
  dt_getIDom :: "bb option \<Rightarrow> bb option option"
  dt_dominates :: "bb \<Rightarrow> bb \<Rightarrow> bool"
  dt_findNCD :: "bb \<Rightarrow> bb \<Rightarrow> bb option"

text \<open>\<open>pdt[b]\<close>, null for a block without a node.\<close>

definition dt_node :: "post_dom_tree \<Rightarrow> bb option \<Rightarrow> bb option option" where
  "dt_node t b = (if dt_member t b then Some b else None)"

text \<open>The edges of the tree towards its root, and the relations the laws are stated with.\<close>

definition up_edges :: "post_dom_tree \<Rightarrow> (bb option \<times> bb option) set" where
  "up_edges t = {(x, y). dt_getIDom t x = Some y}"

definition pdom :: "post_dom_tree \<Rightarrow> bb option \<Rightarrow> bb option \<Rightarrow> bool" where
  "pdom t y x \<longleftrightarrow> (x, y) \<in> (up_edges t)\<^sup>*"

definition spdom :: "post_dom_tree \<Rightarrow> bb option \<Rightarrow> bb option \<Rightarrow> bool" where
  "spdom t y x \<longleftrightarrow> (x, y) \<in> (up_edges t)\<^sup>+"

definition ncd_ok :: "post_dom_tree \<Rightarrow> bb \<Rightarrow> bb \<Rightarrow> bool" where
  "ncd_ok t a b \<longleftrightarrow>
     dt_member t (dt_findNCD t a b) \<and> pdom t (dt_findNCD t a b) (Some a) \<and>
     pdom t (dt_findNCD t a b) (Some b) \<and>
     (\<forall>m. pdom t m (Some a) \<and> pdom t m (Some b) \<longrightarrow> pdom t m (dt_findNCD t a b))"

definition pdt_ok :: "func \<Rightarrow> post_dom_tree \<Rightarrow> bool" where
  "pdt_ok F t \<longleftrightarrow>
     (\<forall>b\<in>set (f_blocks F). dt_member t (Some b)) \<and>
     (\<exists>level :: bb option \<Rightarrow> nat. \<forall>x y. dt_getIDom t x = Some y \<longrightarrow> level y < level x) \<and>
     dt_getIDom t None = None \<and>
     (\<forall>x y. dt_getIDom t x = Some y \<longrightarrow> dt_member t y) \<and>
     (\<forall>b. dt_member t (Some b) \<longrightarrow> b \<in> set (f_blocks F)) \<and>
     (\<forall>a\<in>set (f_blocks F). \<forall>b\<in>set (f_blocks F).
        (dt_dominates t b a \<longleftrightarrow> pdom t (Some b) (Some a)) \<and> ncd_ok t a b)"

section \<open>Nodes\<close>

datatype edge_type = TRUE | FALSE | OTHER

record cdnode =
  TheBB :: "bb option"
  Parents :: "nat list"
  TrueChildren :: "nat list"
  FalseChildren :: "nat list"
  OtherChildren :: "nat list"

definition new_node :: "bb option \<Rightarrow> cdnode" where
  "new_node b = \<lparr>TheBB = b, Parents = [], TrueChildren = [], FalseChildren = [], OtherChildren = []\<rparr>"

definition isRegion :: "cdnode \<Rightarrow> bool" where
  "isRegion n \<longleftrightarrow> TheBB n = None"

definition getNumParents :: "cdnode \<Rightarrow> nat" where
  "getNumParents n = length (Parents n)"

definition getNumChildren :: "cdnode \<Rightarrow> nat" where
  "getNumChildren n = length (TrueChildren n) + length (FalseChildren n) + length (OtherChildren n)"

definition clearAllChildren :: "cdnode \<Rightarrow> cdnode" where
  "clearAllChildren n = n\<lparr>TrueChildren := [], FalseChildren := [], OtherChildren := []\<rparr>"

definition clearAllParents :: "cdnode \<Rightarrow> cdnode" where
  "clearAllParents n = n\<lparr>Parents := []\<rparr>"

definition addTrue :: "nat \<Rightarrow> cdnode \<Rightarrow> cdnode" where
  "addTrue c n = n\<lparr>TrueChildren := insort_insert c (TrueChildren n)\<rparr>"

definition addFalse :: "nat \<Rightarrow> cdnode \<Rightarrow> cdnode" where
  "addFalse c n = n\<lparr>FalseChildren := insort_insert c (FalseChildren n)\<rparr>"

definition addOther :: "nat \<Rightarrow> cdnode \<Rightarrow> cdnode" where
  "addOther c n = n\<lparr>OtherChildren := insort_insert c (OtherChildren n)\<rparr>"

definition removeTrue :: "nat \<Rightarrow> cdnode \<Rightarrow> cdnode" where
  "removeTrue c n =
     (if c \<in> set (TrueChildren n) then n\<lparr>TrueChildren := remove1 c (TrueChildren n)\<rparr> else n)"

definition removeFalse :: "nat \<Rightarrow> cdnode \<Rightarrow> cdnode" where
  "removeFalse c n =
     (if c \<in> set (FalseChildren n) then n\<lparr>FalseChildren := remove1 c (FalseChildren n)\<rparr> else n)"

definition removeOther :: "nat \<Rightarrow> cdnode \<Rightarrow> cdnode" where
  "removeOther c n =
     (if c \<in> set (OtherChildren n) then n\<lparr>OtherChildren := remove1 c (OtherChildren n)\<rparr> else n)"

definition removeParent :: "nat \<Rightarrow> cdnode \<Rightarrow> cdnode" where
  "removeParent p n = (if p \<in> set (Parents n) then n\<lparr>Parents := remove1 p (Parents n)\<rparr> else n)"

section \<open>The iterator over the outgoing edges\<close>

text \<open>
  An iterator is the stage it is in and the part of that stage's set between its position and the end.
\<close>

type_synonym edge_iter = "edge_type \<times> nat list"

fun edge_skip :: "cdnode \<Rightarrow> edge_iter \<Rightarrow> edge_iter" where
  "edge_skip n (TRUE, []) =
     (if FalseChildren n = [] then (OTHER, OtherChildren n) else (FALSE, FalseChildren n))"
| "edge_skip n (FALSE, []) = (OTHER, OtherChildren n)"
| "edge_skip n it = it"

definition edge_begin :: "cdnode \<Rightarrow> edge_iter" where
  "edge_begin n = edge_skip n (TRUE, TrueChildren n)"

definition edge_end :: "edge_iter" where
  "edge_end = (OTHER, [])"

fun edge_next :: "cdnode \<Rightarrow> edge_iter \<Rightarrow> edge_iter" where
  "edge_next n (s, xs) = edge_skip n (s, tl xs)"

definition edge_deref :: "edge_iter \<Rightarrow> nat" where
  "edge_deref it = hd (snd it)"

text \<open>The edges an iterator has yet to visit, which \<open>std::find\<close> runs through.\<close>

fun edge_rest :: "cdnode \<Rightarrow> edge_iter \<Rightarrow> nat list" where
  "edge_rest n (TRUE, xs) = xs @ FalseChildren n @ OtherChildren n"
| "edge_rest n (FALSE, xs) = xs @ OtherChildren n"
| "edge_rest n (OTHER, xs) = xs"

fun edge_valid :: "edge_iter \<Rightarrow> bool" where
  "edge_valid (s, xs) \<longleftrightarrow> s = OTHER \<or> xs \<noteq> []"

lemma edge_skip_valid: "edge_valid (edge_skip n it)"
  by (induction n it rule: edge_skip.induct) auto

lemma edge_skip_rest [simp]: "edge_rest n (edge_skip n it) = edge_rest n it"
  by (induction n it rule: edge_skip.induct) auto

lemma edge_rest_next:
  assumes "edge_valid it" "it \<noteq> edge_end"
  shows "edge_rest n it = edge_deref it # edge_rest n (edge_next n it)"
  using assms
  by (cases it; cases "fst it"; cases "snd it") (auto simp: edge_end_def edge_deref_def)

lemma edge_rest_end: "edge_valid it \<Longrightarrow> edge_rest n it = [] \<Longrightarrow> it = edge_end"
  by (cases it; cases "fst it") (auto simp: edge_end_def)

function edge_find :: "cdnode \<Rightarrow> nat \<Rightarrow> edge_iter \<Rightarrow> bool" where
  "edge_find n v it =
     (if it = edge_end \<or> \<not> edge_valid it then False
      else if edge_deref it = v then True
      else edge_find n v (edge_next n it))"
  by auto
termination
  by (relation "measure (\<lambda>(n, v, it). length (edge_rest n it))")
     (auto simp: edge_rest_next)

declare edge_find.simps [simp del]

definition all_children :: "cdnode \<Rightarrow> nat list" where
  "all_children n = TrueChildren n @ FalseChildren n @ OtherChildren n"

lemma edge_find_rest: "edge_valid it \<Longrightarrow> edge_find n v it \<longleftrightarrow> v \<in> set (edge_rest n it)"
proof (induction n v it rule: edge_find.induct)
  case (1 n v it)
  show ?case
  proof (cases "it = edge_end")
    case True
    then show ?thesis by (subst edge_find.simps) (simp add: edge_end_def)
  next
    case False
    have "edge_valid (edge_next n it)"
      by (cases it) (simp add: edge_skip_valid)
    with 1 False show ?thesis
      by (subst edge_find.simps) (auto simp: edge_rest_next[of it n])
  qed
qed

lemma edge_find_children: "edge_find n v (edge_begin n) \<longleftrightarrow> v \<in> set (all_children n)"
  by (simp add: edge_find_rest edge_begin_def edge_skip_valid all_children_def)


section \<open>The graph\<close>

text \<open>
  The nodes live in \<open>heap\<close>; \<open>root\<close> is null before a graph is built, and \<open>bbMap\<close> gives the node of a
  block, null for a block it does not hold.
\<close>

record cdg =
  root :: "nat option"
  nodes :: "nat list"
  heap :: "cdnode list"
  bbMap :: "bb \<Rightarrow> nat option"

definition empty_cdg :: cdg where
  "empty_cdg = \<lparr>root = None, nodes = [], heap = [], bbMap = (\<lambda>_. None)\<rparr>"

definition releaseMemory :: "cdg \<Rightarrow> cdg" where
  "releaseMemory g = g\<lparr>root := None, nodes := [], heap := [], bbMap := (\<lambda>_. None)\<rparr>"

definition getNode :: "cdg \<Rightarrow> bb option \<Rightarrow> nat option" where
  "getNode g b = (case b of None \<Rightarrow> None | Some b \<Rightarrow> bbMap g b)"

definition upd_node :: "nat \<Rightarrow> (cdnode \<Rightarrow> cdnode) \<Rightarrow> cdg \<Rightarrow> cdg" where
  "upd_node i f g = g\<lparr>heap := (heap g)[i := f (heap g ! i)]\<rparr>"

fun add_child :: "edge_type \<Rightarrow> nat \<Rightarrow> cdnode \<Rightarrow> cdnode" where
  "add_child TRUE c n = addTrue c n"
| "add_child FALSE c n = addFalse c n"
| "add_child OTHER c n = addOther c n"

fun remove_child :: "edge_type \<Rightarrow> nat \<Rightarrow> cdnode \<Rightarrow> cdnode" where
  "remove_child TRUE c n = removeTrue c n"
| "remove_child FALSE c n = removeFalse c n"
| "remove_child OTHER c n = removeOther c n"

text \<open>\<open>addParent c p\<close> is \<^verbatim>\<open>c->addParent(p)\<close>, which asserts that \<open>c\<close> is already a child of \<open>p\<close>.\<close>

definition addParent :: "nat \<Rightarrow> nat \<Rightarrow> cdg \<Rightarrow> cdg option" where
  "addParent c p g =
     (if edge_find (heap g ! p) c (edge_begin (heap g ! p))
      then Some (upd_node c (\<lambda>n. n\<lparr>Parents := insort_insert p (Parents n)\<rparr>) g) else None)"

definition link_child :: "edge_type \<Rightarrow> nat \<Rightarrow> nat \<Rightarrow> cdg \<Rightarrow> cdg option" where
  "link_child ty p c g = addParent c p (upd_node p (add_child ty c) g)"

definition enclosingRegion_node :: "cdg \<Rightarrow> nat \<Rightarrow> nat option" where
  "enclosingRegion_node g i =
     (if isRegion (heap g ! i) then Some i
      else if getNumParents (heap g ! i) = 1 \<and> isRegion (heap g ! hd (Parents (heap g ! i)))
      then Some (hd (Parents (heap g ! i))) else None)"

text \<open>The null pointer of a block without a node is \<open>Some None\<close>, a failed assertion \<open>None\<close>.\<close>

definition enclosingRegion :: "cdg \<Rightarrow> bb \<Rightarrow> nat option option" where
  "enclosingRegion g b =
     (case getNode g (Some b) of None \<Rightarrow> Some None
      | Some i \<Rightarrow> map_option Some (enclosingRegion_node g i))"

section \<open>Construction\<close>

definition getEdgeType :: "func \<Rightarrow> bb \<Rightarrow> bb \<Rightarrow> edge_type option" where
  "getEdgeType F A B =
     (case f_terminator F A of
        CondBr s0 s1 \<Rightarrow> (if s0 = B then Some TRUE else if s1 = B then Some FALSE else None)
      | _ \<Rightarrow> Some OTHER)"

definition alloc_node :: "bb option \<Rightarrow> cdg \<Rightarrow> cdg" where
  "alloc_node b g =
     g\<lparr>nodes := insort_insert (length (heap g)) (nodes g), heap := heap g @ [new_node b]\<rparr>"

definition add_root :: "cdg \<Rightarrow> cdg" where
  "add_root g = (alloc_node None g)\<lparr>root := Some (length (heap g))\<rparr>"

definition add_block :: "bb \<Rightarrow> cdg \<Rightarrow> cdg" where
  "add_block b g = (alloc_node (Some b) g)\<lparr>bbMap := (bbMap g)(b \<mapsto> length (heap g))\<rparr>"

partial_function (option) link_path ::
  "post_dom_tree \<Rightarrow> edge_type \<Rightarrow> nat \<Rightarrow> bb option \<Rightarrow> bb option option \<Rightarrow> cdg \<Rightarrow> cdg option" where
  "link_path t ty an L cur g =
     (case cur of
        None \<Rightarrow> Some g
      | Some x \<Rightarrow>
          (if cur = dt_node t L then Some g
           else (case getNode g x of
                   None \<Rightarrow> None
                 | Some cn \<Rightarrow>
                     Option.bind (link_child ty an cn g)
                       (\<lambda>g'. link_path t ty an L (dt_getIDom t x) g'))))"

definition dep_edge :: "func \<Rightarrow> post_dom_tree \<Rightarrow> bb \<Rightarrow> bb \<Rightarrow> cdg \<Rightarrow> cdg option" where
  "dep_edge F t A B g =
     (if A = B \<or> \<not> dt_dominates t B A then
        Option.bind (getNode g (Some A)) (\<lambda>an.
        Option.bind (getEdgeType F A B) (\<lambda>ty.
        Option.bind
          (if dt_findNCD t A B = Some A then link_child ty an an g else Some g) (\<lambda>g'.
        link_path t ty an (dt_findNCD t A B) (dt_node t (Some B)) g')))
      else Some g)"

primrec dep_successors :: "func \<Rightarrow> post_dom_tree \<Rightarrow> bb \<Rightarrow> bb list \<Rightarrow> cdg \<Rightarrow> cdg option" where
  "dep_successors F t A [] g = Some g"
| "dep_successors F t A (B # Bs) g = Option.bind (dep_edge F t A B g) (dep_successors F t A Bs)"

primrec dep_blocks :: "func \<Rightarrow> post_dom_tree \<Rightarrow> bb list \<Rightarrow> cdg \<Rightarrow> cdg option" where
  "dep_blocks F t [] g = Some g"
| "dep_blocks F t (A # As) g =
     Option.bind (dep_successors F t A (succs F A) g) (dep_blocks F t As)"

partial_function (option) link_root ::
  "post_dom_tree \<Rightarrow> nat \<Rightarrow> bb option option \<Rightarrow> cdg \<Rightarrow> cdg option" where
  "link_root t rn cur g =
     (case cur of
        None \<Rightarrow> Some g
      | Some x \<Rightarrow>
          (case x of
             None \<Rightarrow> link_root t rn (dt_getIDom t x) g
           | Some b \<Rightarrow>
               (case getNode g (Some b) of
                  None \<Rightarrow> None
                | Some cn \<Rightarrow>
                    Option.bind (link_child OTHER rn cn g)
                      (\<lambda>g'. link_root t rn (dt_getIDom t x) g'))))"

definition computeDependencies :: "func \<Rightarrow> post_dom_tree \<Rightarrow> cdg \<Rightarrow> cdg option" where
  "computeDependencies F t g =
     (let g1 = fold add_block (f_blocks F) (add_root g)
      in Option.bind (dep_blocks F t (f_blocks F) g1) (\<lambda>g2.
         link_root t (length (heap g)) (dt_node t (Some (entry_block F))) g2))"

definition graphForFunction :: "func \<Rightarrow> post_dom_tree \<Rightarrow> cdg \<Rightarrow> cdg option" where
  "graphForFunction F t g = computeDependencies F t g"

section \<open>The edges of a graph\<close>

text \<open>
  \<open>linked g S\<close>: the children and parents recorded in the nodes of \<open>g\<close> are exactly the typed edges \<open>S\<close>,
  so each node is a child of all its parents and a parent of all its children.
\<close>

fun children_of :: "edge_type \<Rightarrow> cdnode \<Rightarrow> nat list" where
  "children_of TRUE n = TrueChildren n"
| "children_of FALSE n = FalseChildren n"
| "children_of OTHER n = OtherChildren n"

definition linked :: "cdg \<Rightarrow> (nat \<times> edge_type \<times> nat) set \<Rightarrow> bool" where
  "linked g S \<longleftrightarrow>
     (\<forall>p < length (heap g). \<forall>ty c. c \<in> set (children_of ty (heap g ! p)) \<longleftrightarrow> (p, ty, c) \<in> S) \<and>
     (\<forall>c < length (heap g). \<forall>p. p \<in> set (Parents (heap g ! c)) \<longleftrightarrow> (\<exists>ty. (p, ty, c) \<in> S))"

definition same_nodes :: "cdg \<Rightarrow> cdg \<Rightarrow> bool" where
  "same_nodes g g' \<longleftrightarrow> root g' = root g \<and> nodes g' = nodes g \<and> bbMap g' = bbMap g \<and>
     map TheBB (heap g') = map TheBB (heap g)"

lemma same_nodes_refl [simp]: "same_nodes g g"
  by (simp add: same_nodes_def)

lemma same_nodes_trans: "same_nodes g g' \<Longrightarrow> same_nodes g' g'' \<Longrightarrow> same_nodes g g''"
  by (simp add: same_nodes_def)

lemma same_nodes_length: "same_nodes g g' \<Longrightarrow> length (heap g') = length (heap g)"
  unfolding same_nodes_def by (metis length_map)

lemma same_nodes_getNode: "same_nodes g g' \<Longrightarrow> getNode g' b = getNode g b"
  by (cases b) (simp_all add: same_nodes_def getNode_def)

lemma same_nodes_block:
  "same_nodes g g' \<Longrightarrow> i < length (heap g) \<Longrightarrow> TheBB (heap g' ! i) = TheBB (heap g ! i)"
  unfolding same_nodes_def by (metis length_map nth_map)

lemma add_child_simps [simp]:
  "TheBB (add_child ty c n) = TheBB n" "Parents (add_child ty c n) = Parents n"
  "set (children_of ty' (add_child ty c n)) =
     (if ty' = ty then insert c (set (children_of ty' n)) else set (children_of ty' n))"
  by (cases ty; cases ty'; simp add: addTrue_def addFalse_def addOther_def set_insort_insert)+

lemma all_children_of: "v \<in> set (all_children n) \<longleftrightarrow> (\<exists>ty. v \<in> set (children_of ty n))"
proof
  assume "v \<in> set (all_children n)"
  then show "\<exists>ty. v \<in> set (children_of ty n)"
    unfolding all_children_def by (auto intro: exI[of _ TRUE] exI[of _ FALSE] exI[of _ OTHER])
next
  assume "\<exists>ty. v \<in> set (children_of ty n)"
  then obtain ty where "v \<in> set (children_of ty n)" ..
  then show "v \<in> set (all_children n)"
    by (cases ty) (auto simp: all_children_def)
qed

lemma children_of_parents [simp]: "children_of ty (n\<lparr>Parents := ps\<rparr>) = children_of ty n"
  by (cases ty) simp_all

lemma link_child_linked:
  assumes "linked g S" and p: "p < length (heap g)" and c: "c < length (heap g)"
  shows "\<exists>g'. link_child ty p c g = Some g' \<and> linked g' (insert (p, ty, c) S) \<and> same_nodes g g'"
proof -
  define g1 where "g1 = upd_node p (add_child ty c) g"
  define g2 where "g2 = upd_node c (\<lambda>n. n\<lparr>Parents := insort_insert p (Parents n)\<rparr>) g1"
  have len: "length (heap g1) = length (heap g)" "length (heap g2) = length (heap g)"
    by (simp_all add: g1_def g2_def upd_node_def)
  have kid: "set (children_of ty' (heap g2 ! i)) =
      (if i = p \<and> ty' = ty then insert c (set (children_of ty' (heap g ! i))) else set (children_of ty' (heap g ! i)))"
    if "i < length (heap g)" for i ty'
    using that p by (auto simp: g1_def g2_def upd_node_def nth_list_update)
  have par: "set (Parents (heap g2 ! i)) =
      (if i = c then insert p (set (Parents (heap g ! i))) else set (Parents (heap g ! i)))"
    if "i < length (heap g)" for i
    using that p c by (auto simp: g1_def g2_def upd_node_def nth_list_update set_insort_insert)
  have "c \<in> set (children_of ty (heap g1 ! p))"
    using p by (simp add: g1_def upd_node_def)
  then have "edge_find (heap g1 ! p) c (edge_begin (heap g1 ! p))"
    unfolding edge_find_children all_children_of ..
  then have "link_child ty p c g = Some g2"
    by (simp add: link_child_def addParent_def g2_def flip: g1_def)
  moreover have "linked g2 (insert (p, ty, c) S)"
    using assms(1) unfolding linked_def len by (auto simp: kid par split: if_splits)
  moreover have "same_nodes g g2"
    using p c by (auto simp: same_nodes_def g1_def g2_def upd_node_def nth_list_update
        intro!: nth_equalityI)
  ultimately show ?thesis by blast
qed


section \<open>Paths of the post-dominator tree\<close>

definition dt_level_ok :: "post_dom_tree \<Rightarrow> (bb option \<Rightarrow> nat) \<Rightarrow> bool" where
  "dt_level_ok t level \<longleftrightarrow> (\<forall>x y. dt_getIDom t x = Some y \<longrightarrow> level y < level x)"

lemma pdt_level: "pdt_ok F t \<Longrightarrow> \<exists>level. dt_level_ok t level"
  by (simp add: pdt_ok_def dt_level_ok_def)

lemma spdom_level:
  assumes "dt_level_ok t level" "spdom t y x"
  shows "level y < level x"
  using assms(2) unfolding spdom_def
proof (induction rule: trancl_induct)
  case (base y)
  then show ?case using assms(1) by (simp add: dt_level_ok_def up_edges_def)
next
  case (step y z)
  then have "level z < level y" using assms(1) by (simp add: dt_level_ok_def up_edges_def)
  with step.IH show ?case by simp
qed

lemma spdom_irrefl: "pdt_ok F t \<Longrightarrow> \<not> spdom t x x"
  using pdt_level spdom_level by fastforce

lemma pdom_refl [simp]: "pdom t x x"
  by (simp add: pdom_def)

lemma pdom_iff: "pdom t y x \<longleftrightarrow> y = x \<or> spdom t y x"
  by (auto simp: pdom_def spdom_def rtrancl_eq_or_trancl)

lemma pdom_trans: "pdom t z y \<Longrightarrow> pdom t y x \<Longrightarrow> pdom t z x"
  unfolding pdom_def by (rule rtrancl_trans)

lemma spdom_pdom_trans: "spdom t z y \<Longrightarrow> pdom t y x \<Longrightarrow> spdom t z x"
  unfolding pdom_def spdom_def by (rule rtrancl_trancl_trancl)

lemma pdom_spdom_trans: "pdom t z y \<Longrightarrow> spdom t y x \<Longrightarrow> spdom t z x"
  unfolding pdom_def spdom_def by (rule trancl_rtrancl_trancl)

lemma spdom_step: "spdom t y x \<longleftrightarrow> (\<exists>n. dt_getIDom t x = Some n \<and> pdom t y n)"
  unfolding spdom_def pdom_def by (auto simp: trancl_unfold_left up_edges_def)

text \<open>The ancestors of a node form a chain.\<close>

lemma pdom_linear: "pdom t y x \<Longrightarrow> pdom t z x \<Longrightarrow> pdom t y z \<or> spdom t z y"
proof -
  have "single_valued (up_edges t)"
    by (auto simp: single_valued_def up_edges_def)
  then show "pdom t y x \<Longrightarrow> pdom t z x \<Longrightarrow> ?thesis"
    unfolding pdom_iff[of t y z] spdom_def pdom_def
    by (metis single_valued_confluent rtranclD)
qed

text \<open>The nodes from \<open>x\<close> up to \<open>z\<close>, without \<open>z\<close>.\<close>

definition path_to :: "post_dom_tree \<Rightarrow> bb option \<Rightarrow> bb option \<Rightarrow> bb option set" where
  "path_to t x z = {y. pdom t y x \<and> spdom t z y}"

lemma path_to_end: "pdt_ok F t \<Longrightarrow> path_to t z z = {}"
  by (auto simp: path_to_def dest: spdom_irrefl spdom_pdom_trans)

lemma path_to_step:
  assumes "pdt_ok F t" "dt_getIDom t x = Some n" "spdom t z x"
  shows "path_to t x z = insert x (path_to t n z)"
proof -
  have "pdom t y x \<longleftrightarrow> y = x \<or> pdom t y n" for y
    using assms(2) by (auto simp: pdom_iff[of t y x] spdom_step)
  with assms(3) show ?thesis
    by (auto simp: path_to_def)
qed

lemma pdt_member_up: "pdt_ok F t \<Longrightarrow> dt_member t x \<Longrightarrow> pdom t y x \<Longrightarrow> dt_member t y"
  unfolding pdom_iff
  by (auto simp: spdom_def pdt_ok_def up_edges_def elim: trancl.cases)


section \<open>The construction adds the right edges\<close>

text \<open>The nodes of the graph are the root, with a null block, and one node per block.\<close>

definition node_table_ok :: "func \<Rightarrow> nat option \<Rightarrow> (bb \<Rightarrow> nat option) \<Rightarrow> bb option list \<Rightarrow> bool" where
  "node_table_ok F r m bs \<longleftrightarrow>
     (\<forall>b. m b \<noteq> None \<longleftrightarrow> b \<in> set (f_blocks F)) \<and>
     (\<forall>b i. m b = Some i \<longleftrightarrow> i < length bs \<and> bs ! i = Some b) \<and>
     (\<forall>i. r = Some i \<longleftrightarrow> i < length bs \<and> bs ! i = None) \<and> r \<noteq> None"

definition nodes_ok :: "func \<Rightarrow> cdg \<Rightarrow> bool" where
  "nodes_ok F g \<longleftrightarrow> node_table_ok F (root g) (bbMap g) (map TheBB (heap g))"

lemma nodes_ok_same: "same_nodes g g' \<Longrightarrow> nodes_ok F g \<Longrightarrow> nodes_ok F g'"
  by (simp add: same_nodes_def nodes_ok_def)

lemma nodes_ok_map:
  assumes "nodes_ok F g"
  shows "bbMap g b = Some i \<longleftrightarrow> i < length (heap g) \<and> TheBB (heap g ! i) = Some b"
proof -
  have "bbMap g b = Some i \<longleftrightarrow> i < length (map TheBB (heap g)) \<and> map TheBB (heap g) ! i = Some b"
    using assms unfolding nodes_ok_def node_table_ok_def by (elim conjE) (erule allE, erule allE)
  then show ?thesis by auto
qed

lemma nodes_ok_root:
  assumes "nodes_ok F g"
  shows "root g = Some i \<longleftrightarrow> i < length (heap g) \<and> TheBB (heap g ! i) = None"
proof -
  have "root g = Some i \<longleftrightarrow> i < length (map TheBB (heap g)) \<and> map TheBB (heap g) ! i = None"
    using assms unfolding nodes_ok_def node_table_ok_def by (elim conjE) (erule allE)
  then show ?thesis by auto
qed

lemma nodes_ok_root_ex:
  assumes "nodes_ok F g"
  obtains r where "root g = Some r"
  using assms unfolding nodes_ok_def node_table_ok_def by blast

lemma nodes_ok_blocks:
  assumes "nodes_ok F g"
  shows "b \<in> set (f_blocks F) \<longleftrightarrow> (\<exists>i. bbMap g b = Some i)"
proof -
  have "bbMap g b \<noteq> None \<longleftrightarrow> b \<in> set (f_blocks F)"
    using assms unfolding nodes_ok_def node_table_ok_def by (elim conjE) (erule allE)
  then show ?thesis by auto
qed

definition edges_to :: "cdg \<Rightarrow> nat \<Rightarrow> edge_type \<Rightarrow> bb option set \<Rightarrow> (nat \<times> edge_type \<times> nat) set" where
  "edges_to g an ty X = {(an, ty, i) |i. \<exists>x\<in>X. getNode g x = Some i}"

lemma edges_to_empty [simp]: "edges_to g an ty {} = {}"
  by (simp add: edges_to_def)

lemma edges_to_insert:
  "getNode g x = Some i \<Longrightarrow> edges_to g an ty (insert x X) = insert (an, ty, i) (edges_to g an ty X)"
  by (auto simp: edges_to_def)

lemma edges_to_same: "same_nodes g g' \<Longrightarrow> edges_to g' an ty X = edges_to g an ty X"
  by (simp add: edges_to_def same_nodes_getNode)

lemma nodes_ok_getNode:
  assumes n: "nodes_ok F g" and "b \<in> set (f_blocks F)"
  shows "\<exists>i < length (heap g). getNode g (Some b) = Some i"
proof -
  obtain i where "bbMap g b = Some i" using assms by (auto simp: nodes_ok_blocks)
  then show ?thesis using nodes_ok_map[OF n, of b i] by (auto simp: getNode_def)
qed

lemma path_node_block:
  assumes "pdt_ok F t" "dt_member t x" "dt_getIDom t x = Some n"
  obtains b where "x = Some b" "b \<in> set (f_blocks F)"
  using assms by (cases x) (auto simp: pdt_ok_def)

lemma link_path_linked:
  assumes t: "pdt_ok F t" and lv: "dt_level_ok t level" and L: "dt_member t L"
    and "nodes_ok F g" "linked g S" "an < length (heap g)" "dt_member t x" "pdom t L x"
  shows "\<exists>g'. link_path t ty an L (Some x) g = Some g' \<and>
    linked g' (S \<union> edges_to g an ty (path_to t x L)) \<and> same_nodes g g'"
  using assms(4-)
proof (induction "level x" arbitrary: x g S rule: less_induct)
  case less
  show ?case
  proof (cases "x = L")
    case True
    with less.prems L t show ?thesis
      by (subst link_path.simps) (simp add: dt_node_def path_to_end)
  next
    case False
    with less.prems(5) have sp: "spdom t L x" by (auto simp: pdom_iff)
    then obtain n where n: "dt_getIDom t x = Some n" "pdom t L n"
      unfolding spdom_step by blast
    obtain b where b: "x = Some b" "b \<in> set (f_blocks F)"
      by (rule path_node_block[OF t less.prems(4) n(1)])
    obtain i where i: "i < length (heap g)" "getNode g x = Some i"
      using nodes_ok_getNode[OF less.prems(1) b(2)] b(1) by blast
    obtain g1 where g1: "link_child ty an i g = Some g1" "linked g1 (insert (an, ty, i) S)"
      "same_nodes g g1"
      using link_child_linked[OF less.prems(2,3) i(1)] by blast
    have "level n < level x" using lv n(1) by (simp add: dt_level_ok_def)
    moreover have "dt_member t n" using t n(1) by (auto simp: pdt_ok_def)
    ultimately obtain g' where g': "link_path t ty an L (Some n) g1 = Some g'"
      "linked g' (insert (an, ty, i) S \<union> edges_to g1 an ty (path_to t n L))" "same_nodes g1 g'"
      using less.hyps[of n g1 "insert (an, ty, i) S"] g1 n(2) less.prems(1,3)
      by (metis nodes_ok_same same_nodes_length)
    have "link_path t ty an L (Some x) g = Some g'"
      using False L i(2) g1(1) g'(1) n(1) by (subst link_path.simps) (simp add: dt_node_def)
    moreover have "linked g' (S \<union> edges_to g an ty (path_to t x L))"
      using g'(2) by (simp add: path_to_step[OF t n(1) sp] edges_to_insert[OF i(2)]
          edges_to_same[OF g1(3)])
    ultimately show ?thesis
      using same_nodes_trans[OF g1(3) g'(3)] by blast
  qed
qed

text \<open>
  The typed control dependences of \<open>C\<close> on \<open>A\<close>: \<open>C\<close> post-dominates a successor of \<open>A\<close>, reached by an
  edge of the type, and does not strictly post-dominate \<open>A\<close>.
\<close>

definition cdep_via :: "post_dom_tree \<Rightarrow> bb \<Rightarrow> bb \<Rightarrow> bb option set" where
  "cdep_via t A B = {x. pdom t x (Some B) \<and> \<not> spdom t x (Some A)}"

lemma cdep_via_skip:
  assumes "pdt_ok F t" "A \<noteq> B" "pdom t (Some B) (Some A)"
  shows "cdep_via t A B = {}"
  using assms by (auto simp: cdep_via_def pdom_iff dest: spdom_pdom_trans pdom_spdom_trans spdom_irrefl)

lemma cdep_via_path:
  assumes t: "pdt_ok F t" and n: "ncd_ok t A B"
  shows "cdep_via t A B =
    (if dt_findNCD t A B = Some A then {Some A} else {}) \<union> path_to t (Some B) (dt_findNCD t A B)"
    (is "_ = ?S \<union> path_to t _ ?L")
proof (intro equalityI subsetI)
  fix x assume x: "x \<in> cdep_via t A B"
  then have xB: "pdom t x (Some B)" and xA: "\<not> spdom t x (Some A)"
    by (auto simp: cdep_via_def)
  have LB: "pdom t ?L (Some B)" and LA: "pdom t ?L (Some A)"
    using n by (auto simp: ncd_ok_def)
  from pdom_linear[OF xB LB] show "x \<in> ?S \<union> path_to t (Some B) ?L"
  proof
    assume "pdom t x ?L"
    with xA LA have "x = Some A" "?L = Some A"
      by (metis pdom_iff pdom_spdom_trans spdom_pdom_trans)+
    then show ?thesis by simp
  next
    assume "spdom t ?L x"
    with xB show ?thesis by (simp add: path_to_def)
  qed
next
  fix x assume "x \<in> ?S \<union> path_to t (Some B) ?L"
  moreover have "pdom t ?L (Some B)" using n by (auto simp: ncd_ok_def)
  moreover have "\<not> spdom t x (Some A)" if "pdom t x (Some B)" "spdom t ?L x"
  proof
    assume "spdom t x (Some A)"
    with that n have "pdom t x ?L" by (simp add: ncd_ok_def pdom_iff)
    with that(2) show False using t spdom_irrefl spdom_pdom_trans pdom_spdom_trans by metis
  qed
  ultimately show "x \<in> cdep_via t A B"
    using spdom_irrefl[OF t] by (auto simp: cdep_via_def path_to_def split: if_splits)
qed


text \<open>One edge of the control flow, then all edges of a block, then all blocks.\<close>

definition edge_deps :: "func \<Rightarrow> post_dom_tree \<Rightarrow> cdg \<Rightarrow> bb \<Rightarrow> bb \<Rightarrow> (nat \<times> edge_type \<times> nat) set" where
  "edge_deps F t g A B = {(an, ty, cn). getNode g (Some A) = Some an \<and>
     getEdgeType F A B = Some ty \<and> (\<exists>x\<in>cdep_via t A B. getNode g x = Some cn)}"

lemma edge_deps_same: "same_nodes g g' \<Longrightarrow> edge_deps F t g' A B = edge_deps F t g A B"
  by (simp add: edge_deps_def same_nodes_getNode)

lemma edge_deps_eq:
  assumes "getNode g (Some A) = Some an" "getEdgeType F A B = Some ty"
  shows "edge_deps F t g A B = edges_to g an ty (cdep_via t A B)"
  using assms by (auto simp: edge_deps_def edges_to_def)

lemma getEdgeType_succ: "B \<in> set (succs F A) \<Longrightarrow> \<exists>ty. getEdgeType F A B = Some ty"
  by (cases "f_terminator F A") (auto simp: getEdgeType_def succs_def)

lemma edges_to_Un: "edges_to g an ty (X \<union> Y) = edges_to g an ty X \<union> edges_to g an ty Y"
  by (auto simp: edges_to_def)

definition grows_by :: "cdg \<Rightarrow> (nat \<times> edge_type \<times> nat) set \<Rightarrow> cdg option \<Rightarrow> (nat \<times> edge_type \<times> nat) set \<Rightarrow> bool" where
  "grows_by g S r E \<longleftrightarrow> (\<exists>g'. r = Some g' \<and> linked g' (S \<union> E) \<and> same_nodes g g')"

lemma grows_by_none: "linked g S \<Longrightarrow> grows_by g S (Some g) {}"
  by (simp add: grows_by_def)

lemma grows_by_bind:
  assumes "grows_by g S r E"
    and "\<And>g'. linked g' (S \<union> E) \<Longrightarrow> same_nodes g g' \<Longrightarrow> grows_by g' (S \<union> E) (f g') E'"
  shows "grows_by g S (Option.bind r f) (E \<union> E')"
  using assms unfolding grows_by_def
  by (metis Option.bind.bind_lunit Un_assoc same_nodes_trans)

lemma dep_edge_grows:
  assumes F: "func_ok F" and t: "pdt_ok F t" and n: "nodes_ok F g" and l: "linked g S"
    and A: "A \<in> set (f_blocks F)" and B: "B \<in> set (succs F A)"
  shows "grows_by g S (dep_edge F t A B g) (edge_deps F t g A B)"
proof -
  have Bb: "B \<in> set (f_blocks F)" using F A B by (auto simp: func_ok_def)
  obtain an where an: "an < length (heap g)" "getNode g (Some A) = Some an"
    using nodes_ok_getNode[OF n A] by blast
  obtain ty where ty: "getEdgeType F A B = Some ty" using getEdgeType_succ[OF B] by blast
  note deps = edge_deps_eq[OF an(2) ty]
  let ?L = "dt_findNCD t A B"
  have ncd: "ncd_ok t A B" and dom: "dt_dominates t B A \<longleftrightarrow> pdom t (Some B) (Some A)"
    and mem: "dt_member t (Some B)"
    using t A Bb by (auto simp: pdt_ok_def)
  obtain level where lv: "dt_level_ok t level" using pdt_level[OF t] by blast
  show ?thesis
  proof (cases "A = B \<or> \<not> dt_dominates t B A")
    case False
    then have "dep_edge F t A B g = Some g" by (auto simp: dep_edge_def)
    moreover have "cdep_via t A B = {}" using cdep_via_skip[OF t] False dom by blast
    ultimately show ?thesis using grows_by_none[OF l] by (simp add: deps)
  next
    case True
    define self where "self = (if ?L = Some A then {Some A} else {} :: bb option set)"
    have "grows_by g S (if ?L = Some A then link_child ty an an g else Some g) (edges_to g an ty self)"
      using link_child_linked[OF l an(1) an(1)] grows_by_none[OF l]
      by (auto simp: grows_by_def self_def edges_to_insert[OF an(2)])
    moreover have "grows_by g' S' (link_path t ty an ?L (dt_node t (Some B)) g')
        (edges_to g an ty (path_to t (Some B) ?L))"
      if "linked g' S'" "same_nodes g g'" for g' S'
    proof -
      have "an < length (heap g')" using an(1) same_nodes_length[OF that(2)] by simp
      from link_path_linked[OF t lv _ nodes_ok_same[OF that(2) n] that(1) this mem] ncd mem
      show ?thesis by (auto simp: grows_by_def dt_node_def ncd_ok_def edges_to_same[OF that(2)])
    qed
    ultimately have "grows_by g S (Option.bind (if ?L = Some A then link_child ty an an g else Some g)
        (link_path t ty an ?L (dt_node t (Some B))))
        (edges_to g an ty self \<union> edges_to g an ty (path_to t (Some B) ?L))"
      by (rule grows_by_bind)
    moreover have "dep_edge F t A B g =
        Option.bind (if ?L = Some A then link_child ty an an g else Some g)
          (link_path t ty an ?L (dt_node t (Some B)))"
      using True by (simp add: dep_edge_def an(2) ty)
    ultimately show ?thesis
      by (simp add: deps cdep_via_path[OF t ncd] edges_to_Un self_def)
  qed
qed

lemma dep_successors_grows:
  assumes F: "func_ok F" "pdt_ok F t" and A: "A \<in> set (f_blocks F)"
  shows "nodes_ok F g \<Longrightarrow> linked g S \<Longrightarrow> set Bs \<subseteq> set (succs F A) \<Longrightarrow>
    grows_by g S (dep_successors F t A Bs g) (\<Union>B\<in>set Bs. edge_deps F t g A B)"
proof (induction Bs arbitrary: g S)
  case Nil
  then show ?case by (simp add: grows_by_none)
next
  case (Cons B Bs)
  have "grows_by g S (dep_edge F t A B g) (edge_deps F t g A B)"
    using dep_edge_grows[OF F Cons.prems(1,2) A] Cons.prems(3) by simp
  moreover have "grows_by g' S' (dep_successors F t A Bs g') (\<Union>B\<in>set Bs. edge_deps F t g A B)"
    if "linked g' S'" "same_nodes g g'" for g' S'
    using Cons.IH[of g' S'] that Cons.prems nodes_ok_same by (simp add: edge_deps_same)
  ultimately show ?case by (simp add: grows_by_bind)
qed

lemma dep_blocks_grows:
  assumes F: "func_ok F" "pdt_ok F t"
  shows "nodes_ok F g \<Longrightarrow> linked g S \<Longrightarrow> set As \<subseteq> set (f_blocks F) \<Longrightarrow>
    grows_by g S (dep_blocks F t As g) (\<Union>A\<in>set As. \<Union>B\<in>set (succs F A). edge_deps F t g A B)"
proof (induction As arbitrary: g S)
  case Nil
  then show ?case by (simp add: grows_by_none)
next
  case (Cons A As)
  have "grows_by g S (dep_successors F t A (succs F A) g) (\<Union>B\<in>set (succs F A). edge_deps F t g A B)"
    using dep_successors_grows[OF F _ Cons.prems(1,2)] Cons.prems(3) by simp
  moreover have "grows_by g' S' (dep_blocks F t As g')
      (\<Union>A\<in>set As. \<Union>B\<in>set (succs F A). edge_deps F t g A B)"
    if "linked g' S'" "same_nodes g g'" for g' S'
    using Cons.IH[of g' S'] that Cons.prems nodes_ok_same by (simp add: edge_deps_same)
  ultimately show ?case by (simp add: grows_by_bind)
qed


text \<open>The edges from the root.\<close>

lemma pdom_split: "{y. pdom t y x} = insert x {y. spdom t y x}"
  by (auto simp: pdom_iff)

lemma link_root_grows:
  assumes t: "pdt_ok F t" and lv: "dt_level_ok t level"
  shows "nodes_ok F g \<Longrightarrow> linked g S \<Longrightarrow> rn < length (heap g) \<Longrightarrow> dt_member t x \<Longrightarrow>
    grows_by g S (link_root t rn (Some x) g) (edges_to g rn OTHER {y. pdom t y x})"
proof (induction "level x" arbitrary: x g S rule: less_induct)
  case less
  have rest: "grows_by g' S' (link_root t rn (dt_getIDom t x) g')
      (edges_to g rn OTHER {y. spdom t y x})" if g': "linked g' S'" "same_nodes g g'" for g' S'
  proof (cases "dt_getIDom t x")
    case None
    then have "{y. spdom t y x} = {}" by (auto simp: spdom_step)
    with None g' show ?thesis by (subst link_root.simps) (simp add: grows_by_none)
  next
    case (Some n)
    have "level n < level x" using lv Some by (simp add: dt_level_ok_def)
    moreover have "dt_member t n" using t Some by (auto simp: pdt_ok_def)
    ultimately have "grows_by g' S' (link_root t rn (Some n) g') (edges_to g' rn OTHER {y. pdom t y n})"
      using less.hyps[of n g' S'] g' less.prems(1,3) nodes_ok_same same_nodes_length by metis
    with Some g' show ?thesis by (simp add: edges_to_same spdom_step)
  qed
  show ?case
  proof (cases x)
    case None
    have "link_root t rn (Some x) g = link_root t rn (dt_getIDom t x) g"
      using None by (subst link_root.simps) simp
    moreover have "edges_to g rn OTHER {y. pdom t y x} = edges_to g rn OTHER {y. spdom t y x}"
      using None by (auto simp: edges_to_def pdom_split getNode_def)
    ultimately show ?thesis using rest[OF less.prems(2)] by simp
  next
    case (Some b)
    with t less.prems(4) have "b \<in> set (f_blocks F)" by (auto simp: pdt_ok_def)
    then obtain i where i: "i < length (heap g)" "getNode g (Some b) = Some i"
      using nodes_ok_getNode[OF less.prems(1)] by blast
    have "grows_by g S (link_child OTHER rn i g) {(rn, OTHER, i)}"
      using link_child_linked[OF less.prems(2,3) i(1)] by (simp add: grows_by_def)
    from grows_by_bind[OF this rest]
    have "grows_by g S (Option.bind (link_child OTHER rn i g) (link_root t rn (dt_getIDom t x)))
        (edges_to g rn OTHER {y. pdom t y x})"
      using edges_to_insert[OF i(2)] Some by (simp add: pdom_split)
    moreover have "link_root t rn (Some x) g =
        Option.bind (link_child OTHER rn i g) (link_root t rn (dt_getIDom t x))"
      using Some i(2) by (subst link_root.simps) simp
    ultimately show ?thesis by simp
  qed
qed

text \<open>The graph before any edge.\<close>

lemma new_node_simps [simp]:
  "children_of ty (new_node b) = []" "Parents (new_node b) = []" "TheBB (new_node b) = b"
  by (cases ty) (simp_all add: new_node_def)

lemma alloc_linked: "linked g {} \<Longrightarrow> linked (alloc_node b g) {}"
  unfolding linked_def alloc_node_def by (auto simp: nth_append less_Suc_eq)

lemma add_blocks_table:
  assumes "distinct bs"
  shows "node_table_ok \<lparr>f_blocks = bs, f_terminator = f\<rparr> (root (fold add_block bs (add_root empty_cdg)))
      (bbMap (fold add_block bs (add_root empty_cdg)))
      (map TheBB (heap (fold add_block bs (add_root empty_cdg)))) \<and>
    root (fold add_block bs (add_root empty_cdg)) = Some 0 \<and>
    linked (fold add_block bs (add_root empty_cdg)) {}"
  using assms
proof (induction bs rule: rev_induct)
  case Nil
  have "linked (add_root empty_cdg) {}"
    by (auto simp: linked_def add_root_def alloc_node_def empty_cdg_def)
  then show ?case
    by (auto simp: node_table_ok_def add_root_def alloc_node_def empty_cdg_def nth_Cons')
next
  case (snoc b bs)
  define g where "g = fold add_block bs (add_root empty_cdg)"
  have IH: "node_table_ok \<lparr>f_blocks = bs, f_terminator = f\<rparr> (root g) (bbMap g) (map TheBB (heap g))"
    "root g = Some 0" "linked g {}"
    using snoc.IH snoc.prems unfolding g_def by (metis distinct_append)+
  have "bbMap g b = None"
    using IH(1)[unfolded node_table_ok_def, THEN conjunct1, rule_format, of b] snoc.prems by simp
  moreover have "i < length (heap g) \<and> TheBB (heap g ! i) = Some b \<longleftrightarrow> bbMap g b = Some i" for i
    using nodes_ok_map[of "\<lparr>f_blocks = bs, f_terminator = f\<rparr>" g b i] IH(1) by (simp add: nodes_ok_def)
  ultimately have "TheBB (heap g ! i) \<noteq> Some b" if "i < length (heap g)" for i
    using that by (metis option.distinct(1))
  then have "node_table_ok \<lparr>f_blocks = bs @ [b], f_terminator = f\<rparr> (root (add_block b g))
      (bbMap (add_block b g)) (map TheBB (heap (add_block b g)))"
    using IH(1) unfolding node_table_ok_def add_block_def alloc_node_def
    by (auto simp: nth_append less_Suc_eq \<open>bbMap g b = None\<close>)
  moreover have "linked (add_block b g) {}"
    using alloc_linked[OF IH(3), of "Some b"] by (simp add: add_block_def linked_def)
  moreover have "root (add_block b g) = Some 0"
    using IH(2) by (simp add: add_block_def alloc_node_def)
  ultimately show ?case by (simp add: g_def)
qed

lemma add_blocks_nodes_ok:
  assumes "func_ok F"
  defines "g \<equiv> fold add_block (f_blocks F) (add_root empty_cdg)"
  shows "nodes_ok F g" "root g = Some 0" "linked g {}"
proof -
  have d: "distinct (f_blocks F)" using assms by (simp add: func_ok_def)
  have "node_table_ok \<lparr>f_blocks = f_blocks F, f_terminator = f\<rparr> = node_table_ok F" for f
    by (simp add: node_table_ok_def fun_eq_iff)
  then show "nodes_ok F g" "root g = Some 0" "linked g {}"
    using add_blocks_table[OF d] unfolding nodes_ok_def g_def by metis+
qed

section \<open>The graph is control dependence\<close>

definition control_dependent :: "func \<Rightarrow> post_dom_tree \<Rightarrow> edge_type \<Rightarrow> bb \<Rightarrow> bb \<Rightarrow> bool" where
  "control_dependent F t ty A C \<longleftrightarrow> A \<in> set (f_blocks F) \<and>
     (\<exists>B\<in>set (succs F A). getEdgeType F A B = Some ty \<and>
        pdom t (Some C) (Some B) \<and> \<not> spdom t (Some C) (Some A))"

definition control_edges :: "func \<Rightarrow> post_dom_tree \<Rightarrow> cdg \<Rightarrow> (nat \<times> edge_type \<times> nat) set" where
  "control_edges F t g = {(p, ty, c). \<exists>C. getNode g (Some C) = Some c \<and>
     ((\<exists>A. getNode g (Some A) = Some p \<and> control_dependent F t ty A C) \<or>
      (root g = Some p \<and> ty = OTHER \<and> pdom t (Some C) (Some (entry_block F))))}"

lemma bex_getNode:
  "(\<exists>x\<in>X. getNode g x = Some i) \<longleftrightarrow> (\<exists>C. Some C \<in> X \<and> getNode g (Some C) = Some i)"
proof
  assume "\<exists>x\<in>X. getNode g x = Some i"
  then obtain x where "x \<in> X" "getNode g x = Some i" ..
  then show "\<exists>C. Some C \<in> X \<and> getNode g (Some C) = Some i"
    by (cases x) (auto simp: getNode_def)
qed blast

lemma control_edges_eq:
  assumes "root g = Some rn"
  shows "(\<Union>A\<in>set (f_blocks F). \<Union>B\<in>set (succs F A). edge_deps F t g A B) \<union>
    edges_to g rn OTHER {y. pdom t y (Some (entry_block F))} = control_edges F t g" (is "?D \<union> ?R = _")
proof -
  have "?D = {(p, ty, c). \<exists>C. getNode g (Some C) = Some c \<and>
     (\<exists>A. getNode g (Some A) = Some p \<and> control_dependent F t ty A C)}"
    unfolding edge_deps_def control_dependent_def cdep_via_def bex_getNode by blast
  moreover have "?R = {(p, ty, c). \<exists>C. getNode g (Some C) = Some c \<and>
     root g = Some p \<and> ty = OTHER \<and> pdom t (Some C) (Some (entry_block F))}"
    unfolding edges_to_def bex_getNode using assms by auto
  ultimately show ?thesis by (auto simp: control_edges_def)
qed

lemma computeDependencies_linked:
  assumes F: "func_ok F" and t: "pdt_ok F t"
  shows "\<exists>g. computeDependencies F t empty_cdg = Some g \<and> nodes_ok F g \<and>
    linked g (control_edges F t g)"
proof -
  define g1 where "g1 = fold add_block (f_blocks F) (add_root empty_cdg)"
  note g1 = add_blocks_nodes_ok[OF F, folded g1_def]
  obtain level where lv: "dt_level_ok t level" using pdt_level[OF t] by blast
  have e: "dt_member t (Some (entry_block F))"
    using F t by (simp add: func_ok_def pdt_ok_def entry_block_def)
  have r: "0 < length (heap g1)" using nodes_ok_root[OF g1(1), of 0] g1(2) by simp
  let ?D = "\<Union>A\<in>set (f_blocks F). \<Union>B\<in>set (succs F A). edge_deps F t g1 A B"
  let ?R = "edges_to g1 0 OTHER {y. pdom t y (Some (entry_block F))}"
  have "grows_by g' S' (link_root t 0 (dt_node t (Some (entry_block F))) g') ?R"
    if "linked g' S'" "same_nodes g1 g'" for g' S'
    using link_root_grows[OF t lv nodes_ok_same[OF that(2) g1(1)] that(1) _ e] that(2) r e
    by (simp add: same_nodes_length edges_to_same dt_node_def)
  from grows_by_bind[OF dep_blocks_grows[OF F t g1(1,3) order_refl] this]
  obtain g where g: "computeDependencies F t empty_cdg = Some g" "linked g (?D \<union> ?R)" "same_nodes g1 g"
    by (auto simp: grows_by_def computeDependencies_def empty_cdg_def simp flip: g1_def)
      (auto simp: g1_def empty_cdg_def)
  moreover have "control_edges F t g = control_edges F t g1"
    using g(3) by (simp add: control_edges_def same_nodes_getNode) (simp add: same_nodes_def)
  ultimately show ?thesis
    using control_edges_eq[OF g1(2)] nodes_ok_same[OF g(3) g1(1)] by metis
qed


text \<open>C32: Building the control dependence graph of a function succeeds (no assertion fails and every
  walk up the post-dominator tree ends) and gives a graph with one node per block and a root, in which
  the true, false and other children of \<open>A\<close> are exactly the blocks that post-dominate a successor of
  \<open>A\<close> on an edge of that type without strictly post-dominating \<open>A\<close>, the children of the root the
  post-dominators of the entry block, and the parents of a node the nodes it is a child of. The
  hypotheses on the tree are the documented behaviour of LLVM's post-dominator tree; one of them is that
  every block has a node in it, which a tree grown from the exit blocks alone gives only for functions
  whose blocks all reach an exit.\<close>
theorem computeDependencies_exact:
  assumes "func_ok F" and "pdt_ok F t"
  shows "\<exists>g. computeDependencies F t empty_cdg = Some g \<and> nodes_ok F g \<and>
    (\<forall>p < length (heap g). \<forall>ty c.
       c \<in> set (children_of ty (heap g ! p)) \<longleftrightarrow> (p, ty, c) \<in> control_edges F t g) \<and>
    (\<forall>c < length (heap g). \<forall>p.
       p \<in> set (Parents (heap g ! c)) \<longleftrightarrow> (\<exists>ty. (p, ty, c) \<in> control_edges F t g))"
  using computeDependencies_linked[OF assms] by (simp add: linked_def)

text \<open>
  An example: block 0 branches to 1 and 2, block 2 loops on itself or leaves to 1. The
  post-dominator tree has the root 1.
\<close>

definition sample_func :: func where
  "sample_func = \<lparr>f_blocks = [0, 1, 2],
     f_terminator = (\<lambda>b. if b = 0 then CondBr 1 2 else if b = 2 then CondBr 2 1 else OtherTerm [])\<rparr>"

definition sample_pdt :: post_dom_tree where
  "sample_pdt = \<lparr>dt_member = (\<lambda>x. x = Some 0 \<or> x = Some 1 \<or> x = Some 2),
     dt_getIDom = (\<lambda>x. if x = Some 0 \<or> x = Some 2 then Some (Some 1) else None),
     dt_dominates = (\<lambda>b a. b = a \<or> b = 1 \<and> (a = 0 \<or> a = 2)),
     dt_findNCD = (\<lambda>a b. if a = b then Some a else Some 1)\<rparr>"

lemma sample_func_ok: "func_ok sample_func"
  by (simp add: func_ok_def sample_func_def succs_def)

lemma sample_spdom: "spdom sample_pdt y x \<longleftrightarrow> (x = Some 0 \<or> x = Some 2) \<and> y = Some 1"
proof -
  have "\<not> spdom sample_pdt y (Some 1)" for y
    by (auto simp: spdom_step sample_pdt_def)
  then show ?thesis
    by (auto simp: spdom_step[of _ _ x] pdom_iff) (simp_all add: sample_pdt_def split: if_splits)
qed

lemma sample_pdt_ok: "pdt_ok sample_func sample_pdt"
proof -
  have "\<forall>x y. dt_getIDom sample_pdt x = Some y \<longrightarrow>
      (if y = Some 1 then 0 else 1 :: nat) < (if x = Some 1 then 0 else 1)"
    by (auto simp: sample_pdt_def)
  then have "\<exists>level :: bb option \<Rightarrow> nat. \<forall>x y. dt_getIDom sample_pdt x = Some y \<longrightarrow> level y < level x"
    by (rule exI[of _ "\<lambda>x. if x = Some 1 then 0 else 1"])
  then show ?thesis
    unfolding pdt_ok_def ncd_ok_def pdom_iff sample_spdom
    by (intro conjI) (auto simp: sample_func_def sample_pdt_def)
qed

theorem computeDependencies_exact_witness:
  "\<exists>g. computeDependencies sample_func sample_pdt empty_cdg = Some g \<and> nodes_ok sample_func g \<and>
    (\<forall>p < length (heap g). \<forall>ty c. c \<in> set (children_of ty (heap g ! p)) \<longleftrightarrow>
       (p, ty, c) \<in> control_edges sample_func sample_pdt g) \<and>
    (\<forall>c < length (heap g). \<forall>p. p \<in> set (Parents (heap g ! c)) \<longleftrightarrow>
       (\<exists>ty. (p, ty, c) \<in> control_edges sample_func sample_pdt g))"
  by (rule computeDependencies_exact[OF sample_func_ok sample_pdt_ok])

end
