(* ===== verification/CdgQueries.thy ===== *)
theory CdgQueries
  imports CdgGraph
begin

text \<open>
  Questions about the control dependence graph (\<^verbatim>\<open>src/lib/CFG/CFG.cpp\<close>): \<open>influences\<close>, a breadth-first
  search over the parents, and \<open>controls\<close>, a walk along single parents. The locale \<open>worklist\<close> has what
  searches with a worklist and a visited set share; the search for a path inside a loop uses it as well.
\<close>

section \<open>Searches with a worklist\<close>

locale worklist =
  fixes next_of :: "'n \<Rightarrow> 'n list"
  assumes finite_next: "finite (\<Union>n. set (next_of n))"
begin

definition reach :: "'n list \<Rightarrow> 'n set" where
  "reach starts = {y. \<exists>x\<in>set starts. (x, y) \<in> {(x, y). y \<in> set (next_of x)}\<^sup>*}"

text \<open>All visited nodes are reachable, and those no longer in the worklist have been expanded.\<close>

definition explored :: "'n list \<Rightarrow> 'n set \<Rightarrow> 'n list \<Rightarrow> bool" where
  "explored starts visited work \<longleftrightarrow> set starts \<subseteq> visited \<and> visited \<subseteq> reach starts \<and>
     set work \<subseteq> visited \<and> (\<forall>x\<in>visited - set work. set (next_of x) \<subseteq> visited)"

lemma explored_start: "explored starts (set starts) starts"
  by (auto simp: explored_def reach_def)

lemma explored_step:
  assumes e: "explored starts visited (n # rest)"
    and v: "visited' = visited \<union> set (next_of n)"
    and w: "set work' = set rest \<union> (set (next_of n) - visited)"
  shows "explored starts visited' work'"
proof -
  have "n \<in> reach starts" using e by (auto simp: explored_def)
  then have "set (next_of n) \<subseteq> reach starts"
    unfolding reach_def by (auto intro: rtrancl_into_rtrancl)
  with e show ?thesis
    unfolding explored_def v w by auto
qed

lemma explored_done: "explored starts visited [] \<Longrightarrow> visited = reach starts"
proof
  assume e: "explored starts visited []"
  show "reach starts \<subseteq> visited"
  proof
    fix y assume "y \<in> reach starts"
    then obtain x where "x \<in> set starts" "(x, y) \<in> {(x, y). y \<in> set (next_of x)}\<^sup>*"
      by (auto simp: reach_def)
    from this(2,1) e show "y \<in> visited"
      by (induction rule: rtrancl_induct) (auto simp: explored_def)
  qed
qed (simp add: explored_def)

text \<open>Each round visits something new or shortens the worklist.\<close>

definition weight :: "'n set \<Rightarrow> nat" where
  "weight visited = card ((\<Union>n. set (next_of n)) - visited)"

lemma round_decreases:
  assumes "visited' = visited \<union> set (next_of n)"
    and "length work' \<le> length rest + card (set (next_of n) - visited)"
  shows "weight visited' < weight visited \<or>
    weight visited' = weight visited \<and> length work' < length (n # rest)"
proof (cases "set (next_of n) \<subseteq> visited")
  case True
  then have "set (next_of n) - visited = {}" "visited \<union> set (next_of n) = visited" by auto
  with assms show ?thesis by simp
next
  case False
  have "(\<Union>n. set (next_of n)) - visited' \<subset> (\<Union>n. set (next_of n)) - visited"
    using False assms(1) by auto
  then show ?thesis
    unfolding weight_def by (intro disjI1 psubset_card_mono) (simp_all add: finite_next)
qed

end

text \<open>Pushing the elements of a list that have not been visited, each once.\<close>

fun push_unvisited :: "'n list \<Rightarrow> 'n set \<Rightarrow> 'n list \<Rightarrow> 'n set \<times> 'n list" where
  "push_unvisited [] visited work = (visited, work)"
| "push_unvisited (p # ps) visited work =
     (if p \<in> visited then push_unvisited ps visited work
      else push_unvisited ps (insert p visited) (work @ [p]))"

lemma push_unvisited_visited: "fst (push_unvisited ps visited work) = visited \<union> set ps"
  by (induction ps visited work rule: push_unvisited.induct) auto

lemma push_unvisited_work: "set (snd (push_unvisited ps visited work)) = set work \<union> (set ps - visited)"
  by (induction ps visited work rule: push_unvisited.induct) auto

lemma push_unvisited_length:
  "length (snd (push_unvisited ps visited work)) = length work + card (set ps - visited)"
proof (induction ps visited work rule: push_unvisited.induct)
  case (2 p ps visited work)
  show ?case
  proof (cases "p \<in> visited")
    case True
    then have "set (p # ps) - visited = set ps - visited" by auto
    with 2 True show ?thesis by simp
  next
    case False
    then have "set (p # ps) - visited = insert p (set ps - insert p visited)" by auto
    with 2 False show ?thesis by simp
  qed
qed simp

section \<open>Influence\<close>

definition deref :: "cdg \<Rightarrow> nat \<Rightarrow> cdnode option" where
  "deref g n = (if n < length (heap g) then Some (heap g ! n) else None)"

definition parents_of :: "cdg \<Rightarrow> nat \<Rightarrow> nat list" where
  "parents_of g n = (case deref g n of None \<Rightarrow> [] | Some nd \<Rightarrow> Parents nd)"

lemma parents_of_finite: "finite (\<Union>n. set (parents_of g n))"
proof -
  have "(\<Union>n. set (parents_of g n)) \<subseteq> (\<Union>nd\<in>set (heap g). set (Parents nd))"
    by (auto simp: parents_of_def deref_def split: if_splits) (use nth_mem in blast)
  then show ?thesis by (rule finite_subset) simp
qed

interpretation parent_search: worklist "parents_of g" for g
  by unfold_locales (rule parents_of_finite)

function influences_loop :: "cdg \<Rightarrow> bb \<Rightarrow> nat set \<Rightarrow> nat list \<Rightarrow> bool option" where
  "influences_loop g A processed [] = Some False"
| "influences_loop g A processed (n # work) =
     (case deref g n of
        None \<Rightarrow> None
      | Some nd \<Rightarrow>
          (if TheBB nd = Some A then Some True
           else influences_loop g A (fst (push_unvisited (Parents nd) processed work))
                  (snd (push_unvisited (Parents nd) processed work))))"
  by pat_completeness auto
termination
proof (relation "(\<lambda>(g, A, v, w). parent_search.weight g v) <*mlex*> measure (\<lambda>(g, A, v, w). length w)",
    goal_cases)
  case 1
  show ?case by (simp add: wf_mlex)
next
  case (2 g A processed n work nd)
  then have "parents_of g n = Parents nd" by (simp add: parents_of_def)
  then show ?case
    using parent_search.round_decreases[where g = g and n = n and visited = processed and rest = work
        and visited' = "fst (push_unvisited (parents_of g n) processed work)"
        and work' = "snd (push_unvisited (parents_of g n) processed work)"]
    by (auto simp: mlex_prod_def push_unvisited_visited push_unvisited_length)
qed

definition influences :: "cdg \<Rightarrow> bb \<Rightarrow> bb \<Rightarrow> bool option" where
  "influences g A B =
     (case Option.bind (getNode g (Some B)) (deref g) of
        None \<Rightarrow> None
      | Some n \<Rightarrow> influences_loop g A (set (Parents n)) (Parents n))"

text \<open>The search answers whether a node of the block is reachable.\<close>

definition closed_parents :: "cdg \<Rightarrow> bool" where
  "closed_parents g \<longleftrightarrow> (\<forall>nd\<in>set (heap g). \<forall>p\<in>set (Parents nd). p < length (heap g))"

lemma influences_loop_exact:
  "closed_parents g \<Longrightarrow> parent_search.explored g starts visited work \<Longrightarrow> \<forall>n\<in>visited. n < length (heap g) \<Longrightarrow>
    \<forall>n\<in>visited - set work. TheBB (heap g ! n) \<noteq> Some A \<Longrightarrow>
    influences_loop g A visited work =
      Some (\<exists>n\<in>parent_search.reach g starts. TheBB (heap g ! n) = Some A)"
proof (induction g A visited work rule: influences_loop.induct)
  case (1 g A processed)
  then show ?case
    using parent_search.explored_done[OF 1(2)] by simp
next
  case (2 g A processed n work)
  have n: "n \<in> processed" "n < length (heap g)"
    using 2(3,4) by (auto simp: parent_search.explored_def)
  then have nd: "deref g n = Some (heap g ! n)" "parents_of g n = Parents (heap g ! n)"
    by (simp_all add: deref_def parents_of_def)
  show ?case
  proof (cases "TheBB (heap g ! n) = Some A")
    case True
    with n 2(3) nd(1) show ?thesis
      by (auto simp: parent_search.explored_def)
  next
    case False
    let ?p = "push_unvisited (Parents (heap g ! n)) processed work"
    have "parent_search.explored g starts (fst ?p) (snd ?p)"
      by (rule parent_search.explored_step[OF 2(3)])
        (simp_all add: nd(2) push_unvisited_visited push_unvisited_work)
    moreover have "\<forall>n\<in>fst ?p. n < length (heap g)"
      using 2(2,4) n(2) by (auto simp: push_unvisited_visited closed_parents_def)
    moreover have "\<forall>n\<in>fst ?p - set (snd ?p). TheBB (heap g ! n) \<noteq> Some A"
      using 2(5) False by (auto simp: push_unvisited_visited push_unvisited_work)
    ultimately show ?thesis
      using 2(1)[OF nd(1) False 2(2)] False by (simp add: nd(1))
  qed
qed


text \<open>On a graph that was built, parents are control dependences.\<close>

definition cdep :: "func \<Rightarrow> post_dom_tree \<Rightarrow> (bb \<times> bb) set" where
  "cdep F t = {(A, C). \<exists>ty. control_dependent F t ty A C}"

definition built_graph :: "func \<Rightarrow> post_dom_tree \<Rightarrow> cdg \<Rightarrow> bool" where
  "built_graph F t g \<longleftrightarrow> nodes_ok F g \<and> linked g (control_edges F t g)"

lemma computeDependencies_built:
  "func_ok F \<Longrightarrow> pdt_ok F t \<Longrightarrow> graphForFunction F t empty_cdg = Some g \<Longrightarrow> built_graph F t g"
  using computeDependencies_linked[of F t] by (auto simp: graphForFunction_def built_graph_def)

lemma getNode_iff:
  "nodes_ok F g \<Longrightarrow> getNode g (Some b) = Some i \<longleftrightarrow> i < length (heap g) \<and> TheBB (heap g ! i) = Some b"
  using nodes_ok_map[of F g b i] by (simp add: getNode_def)

lemma built_parent_iff:
  assumes "built_graph F t g" and c: "c < length (heap g)"
  shows "p \<in> set (Parents (heap g ! c)) \<longleftrightarrow> p < length (heap g) \<and>
    (\<exists>C. TheBB (heap g ! c) = Some C \<and>
      (case TheBB (heap g ! p) of Some A \<Rightarrow> (A, C) \<in> cdep F t
       | None \<Rightarrow> pdom t (Some C) (Some (entry_block F))))"
proof -
  have n: "nodes_ok F g" using assms by (simp add: built_graph_def)
  have "p \<in> set (Parents (heap g ! c)) \<longleftrightarrow> (\<exists>ty. (p, ty, c) \<in> control_edges F t g)"
    using assms by (simp add: built_graph_def linked_def)
  then show ?thesis
    unfolding control_edges_def cdep_def
    using c by (cases "TheBB (heap g ! p)") (auto simp: getNode_iff[OF n] nodes_ok_root[OF n])
qed

lemma built_closed: "built_graph F t g \<Longrightarrow> closed_parents g"
  unfolding closed_parents_def by (metis in_set_conv_nth built_parent_iff)

text \<open>A chain of parents up to a block is a chain of control dependences, and the other way round.\<close>

definition parent_rel :: "cdg \<Rightarrow> (nat \<times> nat) set" where
  "parent_rel g = {(c, p). p \<in> set (parents_of g c)}"

lemma parents_of_nth: "c < length (heap g) \<Longrightarrow> parents_of g c = Parents (heap g ! c)"
  by (simp add: parents_of_def deref_def)

lemma parent_rel_bound: "(c, p) \<in> parent_rel g \<Longrightarrow> c < length (heap g)"
  by (auto simp: parent_rel_def parents_of_def deref_def split: if_splits)

lemma parent_chain_cdep:
  assumes g: "built_graph F t g" and "(b, p) \<in> (parent_rel g)\<^sup>+" "TheBB (heap g ! b) = Some B"
  shows "p < length (heap g) \<and> (\<forall>A. TheBB (heap g ! p) = Some A \<longrightarrow> (A, B) \<in> (cdep F t)\<^sup>+)"
  using assms(2)
proof (induction rule: trancl_induct)
  case (base p)
  then show ?case
    using built_parent_iff[OF g, of b p] parent_rel_bound[OF base] assms(3)
    by (auto simp: parent_rel_def parents_of_nth)
next
  case (step p q)
  then have "q \<in> set (Parents (heap g ! p))"
    by (simp add: parent_rel_def parents_of_nth)
  with step.IH built_parent_iff[OF g, of p q] show ?case
    by (auto intro: trancl_into_trancl2)
qed

lemma cdep_parent_step:
  assumes g: "built_graph F t g" and "(A, C) \<in> cdep F t" "getNode g (Some C) = Some c"
  shows "\<exists>a. getNode g (Some A) = Some a \<and> (c, a) \<in> parent_rel g"
proof -
  have n: "nodes_ok F g" using g by (simp add: built_graph_def)
  have "A \<in> set (f_blocks F)" using assms(2) by (auto simp: cdep_def control_dependent_def)
  then obtain a where "getNode g (Some A) = Some a" using nodes_ok_getNode[OF n] by blast
  with assms built_parent_iff[OF g, of c a] show ?thesis
    by (auto simp: getNode_iff[OF n] parent_rel_def parents_of_nth)
qed

lemma cdep_parent_chain:
  assumes g: "built_graph F t g" and "(A, B) \<in> (cdep F t)\<^sup>+"
    and b: "getNode g (Some B) = Some b"
  shows "\<exists>a. getNode g (Some A) = Some a \<and> (b, a) \<in> (parent_rel g)\<^sup>+"
  using assms(2)
proof (induction rule: converse_trancl_induct)
  case (base A)
  then show ?case using cdep_parent_step[OF g _ b] by blast
next
  case (step A C)
  then show ?case using cdep_parent_step[OF g step(1)] by (meson trancl_into_trancl)
qed

lemma parent_reach:
  "parent_search.reach g (parents_of g b) = {p. (b, p) \<in> (parent_rel g)\<^sup>+}"
  unfolding parent_search.reach_def parent_rel_def
  by (auto simp: trancl_unfold_left)

lemma influences_built:
  assumes g: "built_graph F t g" and B: "B \<in> set (f_blocks F)"
  shows "influences g A B = Some ((A, B) \<in> (cdep F t)\<^sup>+)"
proof -
  have n: "nodes_ok F g" using g by (simp add: built_graph_def)
  obtain b where b: "b < length (heap g)" "getNode g (Some B) = Some b"
    using nodes_ok_getNode[OF n B] by blast
  have bB: "TheBB (heap g ! b) = Some B" using b by (simp add: getNode_iff[OF n])
  let ?ps = "Parents (heap g ! b)"
  have "influences g A B = influences_loop g A (set ?ps) ?ps"
    using b by (simp add: influences_def deref_def)
  also have "\<dots> = Some (\<exists>p\<in>parent_search.reach g ?ps. TheBB (heap g ! p) = Some A)"
    using b(1) built_closed[OF g]
    by (intro influences_loop_exact parent_search.explored_start) (auto simp: closed_parents_def)
  also have "(\<exists>p\<in>parent_search.reach g ?ps. TheBB (heap g ! p) = Some A) \<longleftrightarrow>
      (\<exists>p. (b, p) \<in> (parent_rel g)\<^sup>+ \<and> TheBB (heap g ! p) = Some A)"
    using parent_reach[of g b] by (auto simp: parents_of_nth[OF b(1)])
  also have "\<dots> \<longleftrightarrow> (A, B) \<in> (cdep F t)\<^sup>+"
    using parent_chain_cdep[OF g _ bB] cdep_parent_chain[OF g _ b(2)]
    by (auto simp: getNode_iff[OF n])
  finally show ?thesis .
qed

text \<open>C33: Whether a block influences another, asked of the graph built for a function, is answered
  without fail, and the answer is yes exactly when a chain of control dependences leads from the first
  to the second.\<close>
theorem influences_exact:
  assumes "func_ok F" "pdt_ok F t" "graphForFunction F t empty_cdg = Some g"
    and "B \<in> set (f_blocks F)"
  shows "influences g A B = Some ((A, B) \<in> {(X, Y). \<exists>ty. control_dependent F t ty X Y}\<^sup>+)"
  using influences_built[OF computeDependencies_built[OF assms(1-3)] assms(4)]
  unfolding cdep_def .

section \<open>Control\<close>

text \<open>The walk along single parents, which may not end: not returning is \<open>None\<close> as well.\<close>

partial_function (option) controls_loop :: "cdg \<Rightarrow> bb \<Rightarrow> nat \<Rightarrow> bool option" where
  "controls_loop g A n =
     (case deref g n of
        None \<Rightarrow> None
      | Some nd \<Rightarrow>
          (if getNumParents nd = 1 then
             (case deref g (hd (Parents nd)) of
                None \<Rightarrow> None
              | Some p \<Rightarrow>
                  (if TheBB p = Some A then Some True else controls_loop g A (hd (Parents nd))))
           else Some False))"

definition controls :: "cdg \<Rightarrow> bb \<Rightarrow> bb \<Rightarrow> bool option" where
  "controls g A B =
     (case getNode g (Some B) of None \<Rightarrow> None | Some n \<Rightarrow> controls_loop g A n)"

definition flow_edges :: "func \<Rightarrow> (bb \<times> bb) set" where
  "flow_edges F = {(x, y). x \<in> set (f_blocks F) \<and> y \<in> set (succs F x)}"

text \<open>A block on the way to \<open>B\<close> decides whether \<open>B\<close> is reached, unless \<open>B\<close> post-dominates the entry.\<close>

lemma deciding_block:
  assumes R: "R \<subseteq> flow_edges F"
  shows "(entry_block F, x) \<in> R ^^ k \<Longrightarrow> pdom t (Some B) (Some x) \<Longrightarrow>
    pdom t (Some B) (Some (entry_block F)) \<or>
    (\<exists>Y j. j < k \<and> (entry_block F, Y) \<in> R ^^ j \<and> (Y, B) \<in> cdep F t)"
proof (induction k arbitrary: x)
  case 0
  then show ?case by simp
next
  case (Suc k)
  from Suc.prems(1) obtain y where y: "(entry_block F, y) \<in> R ^^ k" "(y, x) \<in> R" by auto
  show ?case
  proof (cases "pdom t (Some B) (Some y)")
    case True
    with Suc.IH[OF y(1)] show ?thesis by (meson less_SucI)
  next
    case False
    then have "\<not> spdom t (Some B) (Some y)" by (simp add: pdom_iff)
    moreover from y(2) R have "y \<in> set (f_blocks F)" "x \<in> set (succs F y)"
      by (auto simp: flow_edges_def)
    ultimately have "(y, B) \<in> cdep F t"
      using Suc.prems(2) getEdgeType_succ unfolding cdep_def control_dependent_def by blast
    with y(1) show ?thesis by blast
  qed
qed

lemma built_root_parents:
  assumes "built_graph F t g" "r < length (heap g)" "TheBB (heap g ! r) = None"
  shows "Parents (heap g ! r) = []"
  using built_parent_iff[OF assms(1,2)] assms(3) by (metis ex_in_conv empty_set option.distinct(1) set_empty)

lemma controls_loop_reachable:
  assumes g: "built_graph F t g" and R: "R \<subseteq> flow_edges F"
  shows "(entry_block F, B) \<in> R ^^ k \<Longrightarrow> getNode g (Some B) = Some b \<Longrightarrow>
    \<exists>r. controls_loop g A b = Some r \<and>
      (r \<longrightarrow> (entry_block F, A) \<in> R\<^sup>* \<and> (A, B) \<in> (cdep F t)\<^sup>+)"
proof (induction k arbitrary: B b rule: less_induct)
  case (less k)
  have n: "nodes_ok F g" using g by (simp add: built_graph_def)
  have b: "b < length (heap g)" "TheBB (heap g ! b) = Some B"
    using less.prems(2) by (simp_all add: getNode_iff[OF n])
  then have db: "deref g b = Some (heap g ! b)" by (simp add: deref_def)
  show ?case
  proof (cases "getNumParents (heap g ! b) = 1")
    case False
    then have "controls_loop g A b = Some False" by (subst controls_loop.simps) (simp add: db)
    then show ?thesis by (intro exI[of _ False]) simp
  next
    case True
    then obtain p where p: "Parents (heap g ! b) = [p]"
      by (auto simp: getNumParents_def length_Suc_conv)
    then have pl: "p < length (heap g)"
      using built_parent_iff[OF g b(1), of p] by simp
    have step: "controls_loop g A b =
        (if TheBB (heap g ! p) = Some A then Some True else controls_loop g A p)"
      using True pl b(1) by (subst controls_loop.simps) (simp add: db p deref_def)
    show ?thesis
    proof (cases "pdom t (Some B) (Some (entry_block F))")
      case True
      obtain r where r: "root g = Some r" using nodes_ok_root_ex[OF n] .
      then have rr: "r < length (heap g)" "TheBB (heap g ! r) = None"
        by (simp_all add: nodes_ok_root[OF n])
      with True b(2) have "r \<in> set (Parents (heap g ! b))"
        using built_parent_iff[OF g b(1), of r] by simp
      with p have "p = r" by simp
      with rr have "controls_loop g A p = Some False"
        using built_root_parents[OF g rr] by (subst controls_loop.simps) (simp add: deref_def getNumParents_def)
      with step rr \<open>p = r\<close> show ?thesis by (intro exI[of _ False]) simp
    next
      case False
      with deciding_block[OF R less.prems(1), of t B] obtain Y j
        where Y: "j < k" "(entry_block F, Y) \<in> R ^^ j" "(Y, B) \<in> cdep F t" by auto
      from cdep_parent_step[OF g Y(3) less.prems(2)] p b(1)
      have py: "getNode g (Some Y) = Some p"
        by (auto simp: parent_rel_def parents_of_nth)
      then have "TheBB (heap g ! p) = Some Y" by (simp add: getNode_iff[OF n])
      with less.IH[OF Y(1,2) py] Y(2,3) step show ?thesis
        by (auto intro: trancl_into_trancl relpow_imp_rtrancl)
    qed
  qed
qed

text \<open>C34: For a block that is reachable from the entry, asking whether another block controls it
  terminates; and when the answer is yes, that block influences it and dominates it: no path
  from the entry reaches the one without going through the other.\<close>
theorem controls_sound:
  assumes "func_ok F" "pdt_ok F t" "graphForFunction F t empty_cdg = Some g"
    and B: "B \<in> set (f_blocks F)" "(entry_block F, B) \<in> (flow_edges F)\<^sup>*"
  shows "\<exists>r. controls g A B = Some r \<and>
    (r \<longrightarrow> influences g A B = Some True \<and>
       (A = entry_block F \<or> (entry_block F, B) \<notin> {(x, y). (x, y) \<in> flow_edges F \<and> y \<noteq> A}\<^sup>*))"
proof -
  have g: "built_graph F t g" by (rule computeDependencies_built[OF assms(1-3)])
  then obtain b where b: "getNode g (Some B) = Some b"
    using nodes_ok_getNode B(1) unfolding built_graph_def by blast
  have c: "controls g A B = controls_loop g A b" using b by (simp add: controls_def)
  obtain k where "(entry_block F, B) \<in> flow_edges F ^^ k" using B(2) rtrancl_power by blast
  from controls_loop_reachable[OF g order_refl this b]
  obtain r where r: "controls g A B = Some r" "r \<longrightarrow> (A, B) \<in> (cdep F t)\<^sup>+"
    unfolding c by blast
  let ?R = "{(x, y). (x, y) \<in> flow_edges F \<and> y \<noteq> A}"
  have "A = entry_block F \<or> (entry_block F, B) \<notin> ?R\<^sup>*" if "r"
  proof (rule disjCI)
    assume "\<not> (entry_block F, B) \<notin> ?R\<^sup>*"
    then obtain k where "(entry_block F, B) \<in> ?R ^^ k" using rtrancl_power by blast
    from controls_loop_reachable[OF g _ this b, of A] that r(1) c
    have "(entry_block F, A) \<in> ?R\<^sup>*" by auto
    then show "A = entry_block F" by (cases rule: rtrancl.cases) auto
  qed
  with r influences_built[OF g B(1), of A] show ?thesis by auto
qed


section \<open>The example, and a walk that does not end\<close>

lemma sample_built:
  obtains g where "graphForFunction sample_func sample_pdt empty_cdg = Some g"
  using computeDependencies_linked[OF sample_func_ok sample_pdt_ok]
  by (auto simp: graphForFunction_def)

lemma sample_control_dependent: "control_dependent sample_func sample_pdt FALSE 0 2"
  by (simp add: control_dependent_def pdom_iff sample_spdom)
    (simp add: sample_func_def succs_def getEdgeType_def)

theorem influences_exact_witness:
  "\<exists>g. graphForFunction sample_func sample_pdt empty_cdg = Some g \<and> influences g 0 2 = Some True"
proof -
  obtain g where g: "graphForFunction sample_func sample_pdt empty_cdg = Some g"
    by (rule sample_built)
  have "2 \<in> set (f_blocks sample_func)" by (simp add: sample_func_def)
  from influences_exact[OF sample_func_ok sample_pdt_ok g this, of 0] sample_control_dependent
  show ?thesis using g by auto
qed

theorem controls_sound_witness:
  "\<exists>g r. graphForFunction sample_func sample_pdt empty_cdg = Some g \<and> controls g 0 2 = Some r"
proof -
  obtain g where g: "graphForFunction sample_func sample_pdt empty_cdg = Some g"
    by (rule sample_built)
  have B: "2 \<in> set (f_blocks sample_func)" by (simp add: sample_func_def)
  have "(entry_block sample_func, 2) \<in> (flow_edges sample_func)\<^sup>*"
    by (rule r_into_rtrancl) (simp add: flow_edges_def sample_func_def entry_block_def succs_def)
  from controls_sound[OF sample_func_ok sample_pdt_ok g B this, of 0] g show ?thesis by blast
qed

text \<open>A node that is its own only parent, as an unreachable block that loops on itself is, keeps the
  walk going for ever unless it is the block asked about.\<close>

lemma controls_diverges:
  assumes "deref g n = Some nd" "Parents nd = [n]" "TheBB nd \<noteq> Some A"
  shows "controls_loop g A n = None"
proof -
  have "controls_loop g A n = Some r \<Longrightarrow>
      \<forall>nd. deref g n = Some nd \<longrightarrow> Parents nd = [n] \<longrightarrow> TheBB nd = Some A" for r
    by (rule controls_loop.raw_induct[where
          P = "\<lambda>g A n r. \<forall>nd. deref g n = Some nd \<longrightarrow> Parents nd = [n] \<longrightarrow> TheBB nd = Some A"])
      (auto split: option.splits if_splits simp: getNumParents_def)
  with assms show ?thesis by (cases "controls_loop g A n") auto
qed

end
