(* ===== verification/FsmExtract.thy ===== *)
theory FsmExtract
  imports CdgQueries
begin

text \<open>
  The pass that extracts a state machine from the loops of a function
  (\<^verbatim>\<open>src/lib/FSMExtractor/FSMExtractor.cpp\<close>): which stores to struct fields inside a loop depend on which
  loads of the same field, the values compared and stored, and the lines it prints. The parts of LLVM's
  instructions the pass reads are data types; its loop information, post-dominator tree and symbol
  table are parameters.
\<close>

section \<open>The search for a path inside a loop\<close>

text \<open>
  \<^verbatim>\<open>findAPath\<close> keeps a vector used as a stack; its last element is the head of the list. \<open>None\<close> stands
  for the early return when the target is met.
\<close>

fun first_blocks :: "bb list \<Rightarrow> bb \<Rightarrow> bb \<Rightarrow> bb list \<Rightarrow> bb set \<Rightarrow> bb list \<Rightarrow> (bb set \<times> bb list) option" where
  "first_blocks L h B [] visited stack = Some (visited, stack)"
| "first_blocks L h B (s # ss) visited stack =
     (if s \<notin> set L then first_blocks L h B ss visited stack
      else if s = h then first_blocks L h B ss visited stack
      else if s = B then None
      else first_blocks L h B ss (insert s visited) (s # stack))"

fun push_blocks :: "bb list \<Rightarrow> bb \<Rightarrow> bb \<Rightarrow> bb list \<Rightarrow> bb set \<Rightarrow> bb list \<Rightarrow> (bb set \<times> bb list) option" where
  "push_blocks L h B [] visited stack = Some (visited, stack)"
| "push_blocks L h B (s # ss) visited stack =
     (if s \<in> visited then push_blocks L h B ss visited stack
      else if s \<notin> set L then push_blocks L h B ss visited stack
      else if s = h then push_blocks L h B ss visited stack
      else if s = B then None
      else push_blocks L h B ss (insert s visited) (s # stack))"

text \<open>The successors a path may take.\<close>

definition path_next :: "func \<Rightarrow> bb list \<Rightarrow> bb \<Rightarrow> bb \<Rightarrow> bb list" where
  "path_next F L h b = filter (\<lambda>s. s \<in> set L \<and> s \<noteq> h) (succs F b)"

lemma path_next_finite: "finite (\<Union>b. set (path_next F L h b))"
  by (rule finite_subset[of _ "set L"]) (auto simp: path_next_def)

interpretation path_search: worklist "path_next F L h" for F L h
  by unfold_locales (rule path_next_finite)

lemma push_blocks_None:
  "B \<notin> visited \<Longrightarrow> push_blocks L h B ss visited stack = None \<longleftrightarrow> B \<in> set ss \<and> B \<in> set L \<and> B \<noteq> h"
  by (induction L h B ss visited stack rule: push_blocks.induct) auto

lemma push_blocks_Some:
  "push_blocks L h B ss visited stack = Some (v, st) \<Longrightarrow>
     v = visited \<union> set (filter (\<lambda>s. s \<in> set L \<and> s \<noteq> h) ss) \<and>
     set st = set stack \<union> (set (filter (\<lambda>s. s \<in> set L \<and> s \<noteq> h) ss) - visited) \<and>
     length st = length stack + card (set (filter (\<lambda>s. s \<in> set L \<and> s \<noteq> h) ss) - visited)"
proof (induction L h B ss visited stack rule: push_blocks.induct)
  case (2 L h B s ss visited stack)
  let ?f = "\<lambda>ss. set (filter (\<lambda>s. s \<in> set L \<and> s \<noteq> h) ss)"
  consider "s \<in> visited" | "s \<notin> visited" "\<not> (s \<in> set L \<and> s \<noteq> h)"
    | "s \<notin> visited" "s \<in> set L" "s \<noteq> h"
    by blast
  then show ?case
  proof cases
    case 1
    then have "?f (s # ss) - visited = ?f ss - visited" "visited \<union> ?f (s # ss) = visited \<union> ?f ss"
      by auto
    moreover have "push_blocks L h B ss visited stack = Some (v, st)" using 1 "2.prems" by simp
    ultimately show ?thesis using "2.IH"(1)[OF 1] by simp
  next
    case 2
    then have "?f (s # ss) = ?f ss" by auto
    moreover have "push_blocks L h B ss visited stack = Some (v, st)"
      using 2 "2.prems" by (cases "s \<in> set L") auto
    ultimately show ?thesis
      using "2.IH"(2)[OF 2(1)] "2.IH"(3)[OF 2(1)] 2(2) by (cases "s \<in> set L") simp_all
  next
    case 3
    then have "?f (s # ss) - visited = insert s (?f ss - insert s visited)"
      "visited \<union> ?f (s # ss) = insert s visited \<union> ?f ss" by auto
    moreover have "s \<noteq> B" "push_blocks L h B ss (insert s visited) (s # stack) = Some (v, st)"
      using 3 "2.prems" by (auto split: if_splits)
    ultimately show ?thesis using "2.IH"(4)[OF 3(1)] 3 by simp
  qed
qed simp

lemma first_blocks_None:
  "first_blocks L h B ss visited stack = None \<longleftrightarrow> B \<in> set ss \<and> B \<in> set L \<and> B \<noteq> h"
  by (induction L h B ss visited stack rule: first_blocks.induct) auto

lemma first_blocks_Some:
  "first_blocks L h B ss visited stack = Some (v, st) \<Longrightarrow>
     v = visited \<union> set (filter (\<lambda>s. s \<in> set L \<and> s \<noteq> h) ss) \<and>
     set st = set stack \<union> set (filter (\<lambda>s. s \<in> set L \<and> s \<noteq> h) ss)"
  by (induction L h B ss visited stack rule: first_blocks.induct) (auto split: if_splits)

function path_loop :: "func \<Rightarrow> bb list \<Rightarrow> bb \<Rightarrow> bb \<Rightarrow> bb set \<Rightarrow> bb list \<Rightarrow> bool" where
  "path_loop F L h B visited [] \<longleftrightarrow> False"
| "path_loop F L h B visited (b # stack) \<longleftrightarrow>
     (case push_blocks L h B (succs F b) visited stack of
        None \<Rightarrow> True
      | Some (v, st) \<Rightarrow> path_loop F L h B v st)"
  by pat_completeness auto
termination
proof (relation "(\<lambda>(F, L, h, B, v, st). path_search.weight F L h v) <*mlex*>
    measure (\<lambda>(F, L, h, B, v, st). length st)", goal_cases)
  case 1
  show ?case by (simp add: wf_mlex)
next
  case (2 F L h B visited b stack r v st)
  then show ?case
    using push_blocks_Some[of L h B "succs F b" visited stack v st]
      path_search.round_decreases[where F = F and L = L and h = h and n = b and visited = visited
        and rest = stack and visited' = v and work' = st]
    by (auto simp: mlex_prod_def path_next_def)
qed

definition findAPath :: "func \<Rightarrow> bb \<Rightarrow> bb \<Rightarrow> bb list \<Rightarrow> bb \<Rightarrow> bool" where
  "findAPath F A B L h \<longleftrightarrow>
     (case first_blocks L h B (succs F A) {} [] of
        None \<Rightarrow> True
      | Some (v, st) \<Rightarrow> path_loop F L h B v st)"

lemma path_loop_exact:
  "path_search.explored F L h starts visited work \<Longrightarrow> B \<notin> visited \<Longrightarrow>
   path_loop F L h B visited work \<longleftrightarrow> B \<in> path_search.reach F L h starts"
proof (induction F L h B visited work rule: path_loop.induct)
  case (1 F L h B visited)
  then show ?case using path_search.explored_done[OF 1(1)] by simp
next
  case (2 F L h B visited b stack)
  show ?case
  proof (cases "push_blocks L h B (succs F b) visited stack")
    case None
    then have "B \<in> set (path_next F L h b)"
      using push_blocks_None[OF 2(3)] by (simp add: path_next_def)
    moreover have "b \<in> path_search.reach F L h starts"
      using 2(2) by (auto simp: path_search.explored_def)
    ultimately show ?thesis
      using None by (auto simp: path_search.reach_def intro: rtrancl_into_rtrancl)
  next
    case (Some r)
    then obtain v st where r: "push_blocks L h B (succs F b) visited stack = Some (v, st)"
      by (cases r) simp
    note p = push_blocks_Some[OF r, folded path_next_def]
    have "path_search.explored F L h starts v st"
      by (rule path_search.explored_step[OF 2(2)]) (simp_all add: p)
    moreover have "B \<notin> v"
      using p 2(3) push_blocks_None[OF 2(3), of L h "succs F b" stack] r by (auto simp: path_next_def)
    ultimately show ?thesis using 2(1)[OF r refl] r by simp
  qed
qed

definition path_steps :: "func \<Rightarrow> bb list \<Rightarrow> bb \<Rightarrow> (bb \<times> bb) set" where
  "path_steps F L h = {(x, y). y \<in> set (succs F x) \<and> y \<in> set L \<and> y \<noteq> h}"

lemma findAPath_iff: "findAPath F A B L h \<longleftrightarrow> (A, B) \<in> (path_steps F L h)\<^sup>+"
proof -
  have reach: "path_search.reach F L h (path_next F L h A) = {y. (A, y) \<in> (path_steps F L h)\<^sup>+}"
    unfolding path_search.reach_def path_steps_def path_next_def by (auto simp: trancl_unfold_left)
  show ?thesis
  proof (cases "first_blocks L h B (succs F A) {} []")
    case None
    then show ?thesis
      using first_blocks_None[of L h B "succs F A"]
      by (auto simp: findAPath_def path_steps_def)
  next
    case (Some r)
    then obtain v st where r: "first_blocks L h B (succs F A) {} [] = Some (v, st)"
      by (cases r) simp
    note p = first_blocks_Some[OF r, folded path_next_def]
    have "path_search.explored F L h (path_next F L h A) v st"
      using path_search.explored_start[of F L h "path_next F L h A"] p
      by (auto simp: path_search.explored_def)
    moreover have "B \<notin> v"
      using p r first_blocks_None[of L h B "succs F A" "{}" "[]"] by (auto simp: path_next_def)
    ultimately show ?thesis
      using path_loop_exact reach r by (simp add: findAPath_def)
  qed
qed

text \<open>C35: The depth-first search for a path inside a loop ends, and finds one exactly when there is a
  path of at least one edge from \<open>A\<close> to \<open>B\<close> all of whose blocks after \<open>A\<close> lie in the loop and are not
  its header.\<close>
theorem findAPath_exact:
  "findAPath F A B L h \<longleftrightarrow>
     (A, B) \<in> {(x, y). y \<in> set (succs F x) \<and> y \<in> set L \<and> y \<noteq> h}\<^sup>+"
  using findAPath_iff unfolding path_steps_def .

section \<open>Instructions\<close>

datatype ir_type = IntegerTy nat | StructTy nat | OtherTy nat

text \<open>
  A pointer operand, as far as \<^verbatim>\<open>getStructFieldInfo\<close> looks at it: \<open>GetElementPtr\<close> has its source element
  type, its pointer operand and its indices (\<open>Some\<close> for a constant, sign extended); \<open>OtherInst\<close> is any
  other instruction and \<open>NotInst\<close> a value that is not an instruction.
\<close>

datatype ir_value =
    GetElementPtr ir_type ir_value "int option list"
  | BitCast ir_value
  | OtherInst
  | NotInst

datatype icmp_pred = ICMP_EQ | ICMP_NE | ICMP_UGT | ICMP_UGE | ICMP_ULT | ICMP_ULE
  | ICMP_SGT | ICMP_SGE | ICMP_SLT | ICMP_SLE

text \<open>A user of a load: a comparison with its second operand, or something else.\<close>

datatype ir_user = ICmpUser icmp_pred "int option" | OtherUser

record store_inst =
  st_id :: nat
  st_parent :: bb
  st_pointer :: ir_value
  st_type :: ir_type
  st_value :: "int option"

record load_inst =
  ld_id :: nat
  ld_parent :: bb
  ld_pointer :: ir_value
  ld_type :: ir_type
  ld_users :: "ir_user list"

datatype ir_inst = StoreI store_inst | LoadI load_inst | OtherI

record ir_loop =
  lp_header :: bb
  lp_blocks :: "bb list"

text \<open>The conversion of a 64-bit value to an \<open>int\<close>.\<close>

definition to_int :: "int \<Rightarrow> int" where
  "to_int n = signed_take_bit 31 n"

section \<open>Fields\<close>

record StructFieldInfo =
  Stype :: nat
  FieldOffset :: int
  FieldType :: ir_type

fun field_walk :: "ir_value \<Rightarrow> ir_type option \<times> int \<Rightarrow> ir_type option \<times> int" where
  "field_walk (GetElementPtr ty p idx) (t, off) =
     field_walk p (Some ty,
       (if length idx = 2 then (case idx ! 1 of Some c \<Rightarrow> to_int c | None \<Rightarrow> off) else off))"
| "field_walk (BitCast v) (t, off) = field_walk v (t, off)"
| "field_walk OtherInst (t, off) = (t, off)"
| "field_walk NotInst (t, off) = (t, off)"

definition getStructFieldInfo :: "ir_value \<Rightarrow> (nat \<times> int) option" where
  "getStructFieldInfo v =
     (case field_walk v (None, 0) of (Some (StructTy s), off) \<Rightarrow> Some (s, off) | _ \<Rightarrow> None)"

definition fieldTypeFilter :: "ir_type \<Rightarrow> bool" where
  "fieldTypeFilter ty = (case ty of IntegerTy w \<Rightarrow> w \<le> 32 | _ \<Rightarrow> False)"

type_synonym 'i field_access = "StructFieldInfo \<times> 'i"

definition field_of :: "ir_value \<Rightarrow> ir_type \<Rightarrow> StructFieldInfo option" where
  "field_of p ty = map_option (\<lambda>(s, off). \<lparr>Stype = s, FieldOffset = off, FieldType = ty\<rparr>)
     (getStructFieldInfo p)"

fun collect_block ::
  "ir_inst list \<Rightarrow> store_inst field_access list \<times> load_inst field_access list \<Rightarrow>
   store_inst field_access list \<times> load_inst field_access list" where
  "collect_block [] (ss, ls) = (ss, ls)"
| "collect_block (StoreI s # rest) (ss, ls) =
     (case field_of (st_pointer s) (st_type s) of
        None \<Rightarrow> collect_block rest (ss, ls)
      | Some i \<Rightarrow> collect_block rest (ss @ [(i, s)], ls))"
| "collect_block (LoadI l # rest) (ss, ls) =
     (case field_of (ld_pointer l) (ld_type l) of
        None \<Rightarrow> collect_block rest (ss, ls)
      | Some i \<Rightarrow> collect_block rest (ss, ls @ [(i, l)]))"
| "collect_block (OtherI # rest) (ss, ls) = collect_block rest (ss, ls)"

definition collect_fields ::
  "(bb \<Rightarrow> ir_inst list) \<Rightarrow> ir_loop \<Rightarrow> store_inst field_access list \<times> load_inst field_access list" where
  "collect_fields body lp = fold (\<lambda>b acc. collect_block (body b) acc) (lp_blocks lp) ([], [])"

section \<open>Loads that decide a store\<close>

text \<open>Whether a load is kept for a store; \<open>None\<close> is a failed assertion of the graph.\<close>

definition load_matches ::
  "func \<Rightarrow> cdg \<Rightarrow> ir_loop \<Rightarrow> store_inst field_access \<Rightarrow> load_inst field_access \<Rightarrow> bool option" where
  "load_matches F g lp SS LL =
     (if Stype (fst LL) = Stype (fst SS) \<and> FieldOffset (fst SS) = FieldOffset (fst LL) then
        (case influences g (ld_parent (snd LL)) (st_parent (snd SS)) of
           None \<Rightarrow> None
         | Some b \<Rightarrow>
             Some (b \<and> fieldTypeFilter (FieldType (fst LL)) \<and>
               findAPath F (ld_parent (snd LL)) (st_parent (snd SS)) (lp_blocks lp) (lp_header lp)))
      else Some False)"

fun matching_loads ::
  "func \<Rightarrow> cdg \<Rightarrow> ir_loop \<Rightarrow> store_inst field_access \<Rightarrow> load_inst field_access list \<Rightarrow>
   load_inst list \<Rightarrow> load_inst list option" where
  "matching_loads F g lp SS [] acc = Some acc"
| "matching_loads F g lp SS (LL # Ls) acc =
     (case load_matches F g lp SS LL of
        None \<Rightarrow> None
      | Some b \<Rightarrow> matching_loads F g lp SS Ls (if b then acc @ [snd LL] else acc))"

text \<open>The map from stores to loads is ordered by the addresses of the stores, their \<open>st_id\<close>.\<close>

fun pair_insert :: "store_inst \<Rightarrow> load_inst list \<Rightarrow> (store_inst \<times> load_inst list) list \<Rightarrow>
    (store_inst \<times> load_inst list) list" where
  "pair_insert s ls [] = [(s, ls)]"
| "pair_insert s ls ((t, ms) # m) =
     (if st_id s = st_id t then (s, ls) # m
      else if st_id s < st_id t then (s, ls) # (t, ms) # m
      else (t, ms) # pair_insert s ls m)"

fun load_store_pairs ::
  "func \<Rightarrow> cdg \<Rightarrow> ir_loop \<Rightarrow> load_inst field_access list \<Rightarrow> store_inst field_access list \<Rightarrow>
   (store_inst \<times> load_inst list) list \<Rightarrow> (store_inst \<times> load_inst list) list option" where
  "load_store_pairs F g lp Ls [] m = Some m"
| "load_store_pairs F g lp Ls (SS # Ss) m =
     (case matching_loads F g lp SS Ls [] of
        None \<Rightarrow> None
      | Some ms \<Rightarrow>
          load_store_pairs F g lp Ls Ss (if ms \<noteq> [] then pair_insert (snd SS) ms m else m))"

section \<open>Conditions\<close>

record ConditionBase =
  predicate :: icmp_pred
  direction :: string
  cond_value :: int

record PoState =
  state_value :: int
  condVec :: "ConditionBase list"
  isEqual :: bool

text \<open>
  The side of the branch on which the store can be reached. A null dereference (a comparison with
  something that is not a constant) and the second successor of an unconditional branch fail.
\<close>

definition branch_direction :: "func \<Rightarrow> ir_loop \<Rightarrow> bb \<Rightarrow> bb \<Rightarrow> string option" where
  "branch_direction F lp loadBB storeBB =
     (case f_terminator F loadBB of
        CondBr t f \<Rightarrow>
          Some (if findAPath F t storeBB (lp_blocks lp) (lp_header lp) then ''Yes''
                else if findAPath F f storeBB (lp_blocks lp) (lp_header lp) then ''Not''
                else [])
      | UncondBr _ \<Rightarrow> None
      | OtherTerm _ \<Rightarrow> Some [])"

fun user_conditions ::
  "func \<Rightarrow> ir_loop \<Rightarrow> bb \<Rightarrow> bb \<Rightarrow> ir_user list \<Rightarrow> ConditionBase list option" where
  "user_conditions F lp loadBB storeBB [] = Some []"
| "user_conditions F lp loadBB storeBB (OtherUser # us) = user_conditions F lp loadBB storeBB us"
| "user_conditions F lp loadBB storeBB (ICmpUser p c # us) =
     (case c of
        None \<Rightarrow> None
      | Some v \<Rightarrow>
          Option.bind (branch_direction F lp loadBB storeBB) (\<lambda>d.
          map_option (\<lambda>cs. \<lparr>predicate = p, direction = d, cond_value = to_int v\<rparr> # cs)
            (user_conditions F lp loadBB storeBB us)))"

fun load_conditions ::
  "func \<Rightarrow> ir_loop \<Rightarrow> bb \<Rightarrow> load_inst list \<Rightarrow> ConditionBase list option" where
  "load_conditions F lp storeBB [] = Some []"
| "load_conditions F lp storeBB (l # ls) =
     Option.bind (user_conditions F lp (ld_parent l) storeBB (ld_users l)) (\<lambda>cs.
     map_option ((@) cs) (load_conditions F lp storeBB ls))"

text \<open>A new \<open>StateBase\<close> is zero, which a store of a value that is no constant leaves it.\<close>

fun po_states ::
  "func \<Rightarrow> ir_loop \<Rightarrow> (store_inst \<times> load_inst list) list \<Rightarrow> PoState list option" where
  "po_states F lp [] = Some []"
| "po_states F lp ((s, ls) # m) =
     Option.bind (load_conditions F lp (st_parent s) ls) (\<lambda>cs.
     map_option ((#) \<lparr>state_value = (case st_value s of Some v \<Rightarrow> to_int v | None \<Rightarrow> 0),
                      condVec = cs, isEqual = False\<rparr>)
       (po_states F lp m))"

section \<open>Output\<close>

definition icmpString :: "icmp_pred \<Rightarrow> bool \<Rightarrow> string" where
  "icmpString p br =
     (case p of
        ICMP_EQ \<Rightarrow> ''==''
      | ICMP_NE \<Rightarrow> ''ICMP_NE''
      | ICMP_UGT \<Rightarrow> ''ICMP_UGE''
      | ICMP_UGE \<Rightarrow> ''ICMP_UGE''
      | ICMP_ULT \<Rightarrow> ''ICMP_ULT''
      | ICMP_ULE \<Rightarrow> ''ICMP_ULE''
      | ICMP_SGT \<Rightarrow> ''ICMP_SGT''
      | ICMP_SGE \<Rightarrow> ''ICMP_SGE''
      | ICMP_SLT \<Rightarrow> (if br then ''<'' else ''>='')
      | ICMP_SLE \<Rightarrow> ''>='')"

datatype out_line = Separator | StoreState int | CondLine string int

fun print_conditions :: "bool \<Rightarrow> int set \<Rightarrow> ConditionBase list \<Rightarrow> out_line list" where
  "print_conditions eq printed [] = []"
| "print_conditions eq printed (c # cs) =
     (if eq \<and> predicate c \<noteq> ICMP_EQ then print_conditions eq printed cs
      else if cond_value c \<in> printed then print_conditions eq printed cs
      else CondLine (icmpString (predicate c) (direction c \<noteq> ''Not'')) (cond_value c) #
             print_conditions eq (insert (cond_value c) printed) cs)"

fun print_states :: "PoState list \<Rightarrow> out_line list" where
  "print_states [] = []"
| "print_states (s # ss) =
     StoreState (state_value s) # print_conditions (isEqual s) {} (condVec s) @ Separator # print_states ss"

definition printPoState :: "PoState list \<Rightarrow> out_line list" where
  "printPoState ss = Separator # print_states ss"

section \<open>The pass\<close>

definition collectStoreAndStore ::
  "func \<Rightarrow> post_dom_tree \<Rightarrow> (bb \<Rightarrow> ir_inst list) \<Rightarrow> ir_loop \<Rightarrow> out_line list option" where
  "collectStoreAndStore F t body lp =
     Option.bind (graphForFunction F t empty_cdg) (\<lambda>g.
     Option.bind
       (load_store_pairs F g lp (snd (collect_fields body lp)) (fst (collect_fields body lp)) []) (\<lambda>m.
     if m = [] then Some [] else map_option printPoState (po_states F lp m)))"

record module_fun =
  mf_func :: func
  mf_pdt :: post_dom_tree
  mf_body :: "bb \<Rightarrow> ir_inst list"
  mf_loops :: "ir_loop list"

datatype run_result = Exit1 | Aborted | Finished "out_line list"

fun run_loops :: "module_fun \<Rightarrow> ir_loop list \<Rightarrow> out_line list option" where
  "run_loops m [] = Some []"
| "run_loops m (lp # lps) =
     Option.bind (collectStoreAndStore (mf_func m) (mf_pdt m) (mf_body m) lp) (\<lambda>out.
     map_option ((@) out) (run_loops m lps))"

text \<open>\<open>runOnModule\<close>, with the two options and the lookup of a function by name as arguments.\<close>

definition runOnModule :: "string \<Rightarrow> string \<Rightarrow> (string \<Rightarrow> module_fun option) \<Rightarrow> run_result" where
  "runOnModule strFunctionName strOutFilePath getFunction =
     (let fname = (if strFunctionName = [] then ''main'' else strFunctionName) in
      if strOutFilePath = [] then Exit1
      else (case getFunction fname of
              None \<Rightarrow> Aborted
            | Some m \<Rightarrow>
                (if mf_loops m = [] then Finished []
                 else (case run_loops m (mf_loops m) of None \<Rightarrow> Aborted | Some out \<Rightarrow> Finished out))))"

section \<open>Which loads are kept\<close>

text \<open>
  The specification: the load reads the field the store writes, has an integer type of at most 32 bits,
  its block influences the store's through control dependences, and the store's block is reached from
  the load's inside one iteration of the loop.
\<close>

definition decides ::
  "func \<Rightarrow> post_dom_tree \<Rightarrow> ir_loop \<Rightarrow> store_inst field_access \<Rightarrow> load_inst field_access \<Rightarrow> bool" where
  "decides F t lp SS LL \<longleftrightarrow>
     Stype (fst LL) = Stype (fst SS) \<and> FieldOffset (fst LL) = FieldOffset (fst SS) \<and>
     (\<exists>w\<le>32. FieldType (fst LL) = IntegerTy w) \<and>
     (ld_parent (snd LL), st_parent (snd SS)) \<in> (cdep F t)\<^sup>+ \<and>
     (ld_parent (snd LL), st_parent (snd SS)) \<in> (path_steps F (lp_blocks lp) (lp_header lp))\<^sup>+"

lemma fieldTypeFilter_iff: "fieldTypeFilter ty \<longleftrightarrow> (\<exists>w\<le>32. ty = IntegerTy w)"
  by (cases ty) (auto simp: fieldTypeFilter_def)

lemma load_matches_built:
  assumes "built_graph F t g" "st_parent (snd SS) \<in> set (f_blocks F)"
  shows "load_matches F g lp SS LL = Some (decides F t lp SS LL)"
  by (auto simp: load_matches_def decides_def influences_built[OF assms] findAPath_iff fieldTypeFilter_iff)

lemma matching_loads_built:
  assumes "built_graph F t g" "st_parent (snd SS) \<in> set (f_blocks F)"
  shows "matching_loads F g lp SS Ls acc = Some (acc @ map snd (filter (decides F t lp SS) Ls))"
  by (induction Ls arbitrary: acc) (simp_all add: load_matches_built[OF assms])

definition pairs_sorted :: "(store_inst \<times> load_inst list) list \<Rightarrow> bool" where
  "pairs_sorted m \<longleftrightarrow> sorted_wrt (\<lambda>x y. st_id (fst x) < st_id (fst y)) m"

lemma pair_insert_set:
  "\<forall>x\<in>set m. st_id (fst x) \<noteq> st_id s \<Longrightarrow> set (pair_insert s ls m) = insert (s, ls) (set m)"
  by (induction s ls m rule: pair_insert.induct) auto

lemma pair_insert_sorted:
  "\<forall>x\<in>set m. st_id (fst x) \<noteq> st_id s \<Longrightarrow> pairs_sorted m \<Longrightarrow> pairs_sorted (pair_insert s ls m)"
proof (induction s ls m rule: pair_insert.induct)
  case (2 s ls t ms m)
  then show ?case
    by (auto simp: pairs_sorted_def pair_insert_set)
qed (simp add: pairs_sorted_def)

definition kept_pairs ::
  "func \<Rightarrow> post_dom_tree \<Rightarrow> ir_loop \<Rightarrow> load_inst field_access list \<Rightarrow> store_inst field_access list \<Rightarrow>
   (store_inst \<times> load_inst list) set" where
  "kept_pairs F t lp Ls Ss = {(s, ls). \<exists>i. (i, s) \<in> set Ss \<and> ls \<noteq> [] \<and>
     ls = map snd (filter (decides F t lp (i, s)) Ls)}"

lemma kept_pairs_Cons:
  "kept_pairs F t lp Ls (SS # Ss) =
     (if filter (decides F t lp SS) Ls \<noteq> [] then {(snd SS, map snd (filter (decides F t lp SS) Ls))} else {}) \<union>
     kept_pairs F t lp Ls Ss"
  by (cases SS) (auto simp: kept_pairs_def)

lemma load_store_pairs_built:
  assumes g: "built_graph F t g"
  shows "\<forall>SS\<in>set Ss. st_parent (snd SS) \<in> set (f_blocks F) \<Longrightarrow> distinct (map (st_id \<circ> snd) Ss) \<Longrightarrow>
    pairs_sorted m \<Longrightarrow> \<forall>x\<in>set m. \<forall>SS\<in>set Ss. st_id (fst x) \<noteq> st_id (snd SS) \<Longrightarrow>
    \<exists>m'. load_store_pairs F g lp Ls Ss m = Some m' \<and> pairs_sorted m' \<and>
      set m' = set m \<union> kept_pairs F t lp Ls Ss"
proof (induction Ss arbitrary: m)
  case Nil
  then show ?case by (simp add: kept_pairs_def)
next
  case (Cons SS Ss)
  define ls where "ls = map snd (filter (decides F t lp SS) Ls)"
  define m1 where "m1 = (if ls \<noteq> [] then pair_insert (snd SS) ls m else m)"
  have fresh: "\<forall>x\<in>set m. st_id (fst x) \<noteq> st_id (snd SS)" using Cons.prems(4) by simp
  have m1: "set m1 = set m \<union> (if ls \<noteq> [] then {(snd SS, ls)} else {})" "pairs_sorted m1"
    using pair_insert_set[OF fresh] pair_insert_sorted[OF fresh Cons.prems(3)] Cons.prems(3)
    by (simp_all add: m1_def)
  have "\<forall>x\<in>set m1. \<forall>SS\<in>set Ss. st_id (fst x) \<noteq> st_id (snd SS)"
  proof -
    have "\<forall>SS'\<in>set Ss. st_id (snd SS) \<noteq> st_id (snd SS')" using Cons.prems(2) by force
    then show ?thesis using Cons.prems(4) by (auto simp: m1(1) split: if_splits)
  qed
  with Cons.IH[of m1] Cons.prems m1(2) obtain m' where
    m': "load_store_pairs F g lp Ls Ss m1 = Some m'" "pairs_sorted m'"
    "set m' = set m1 \<union> kept_pairs F t lp Ls Ss" by auto
  have "matching_loads F g lp SS Ls [] = Some ls"
    using matching_loads_built[OF g] Cons.prems(1) by (simp add: ls_def)
  then have "load_store_pairs F g lp Ls (SS # Ss) m = Some m'"
    using m'(1) by (simp add: m1_def)
  moreover have "set m' = set m \<union> kept_pairs F t lp Ls (SS # Ss)"
    unfolding m'(3) m1(1) kept_pairs_Cons by (simp add: ls_def Un_ac)
  ultimately show ?case using m'(2) by blast
qed

text \<open>Stores and loads that touch a field, in the order of the blocks and instructions.\<close>

fun store_access :: "ir_inst \<Rightarrow> store_inst field_access option" where
  "store_access (StoreI s) = map_option (\<lambda>i. (i, s)) (field_of (st_pointer s) (st_type s))"
| "store_access _ = None"

fun load_access :: "ir_inst \<Rightarrow> load_inst field_access option" where
  "load_access (LoadI l) = map_option (\<lambda>i. (i, l)) (field_of (ld_pointer l) (ld_type l))"
| "load_access _ = None"

lemma store_access_iff:
  "store_access x = Some (i, s) \<longleftrightarrow> x = StoreI s \<and> field_of (st_pointer s) (st_type s) = Some i"
  by (cases x) auto

lemma set_store_accesses:
  "(i, s) \<in> set (List.map_filter store_access xs) \<longleftrightarrow>
     StoreI s \<in> set xs \<and> field_of (st_pointer s) (st_type s) = Some i"
  by (induction xs) (auto simp: List.map_filter_simps store_access_iff split: option.splits)

lemma collect_block_eq:
  "collect_block body acc =
     (fst acc @ List.map_filter store_access body, snd acc @ List.map_filter load_access body)"
  by (induction body acc rule: collect_block.induct)
    (auto simp: List.map_filter_def split: option.splits)

lemma collect_fields_eq:
  "collect_fields body lp =
     (List.map_filter store_access (concat (map body (lp_blocks lp))),
      List.map_filter load_access (concat (map body (lp_blocks lp))))"
proof -
  have "fold (\<lambda>b acc. collect_block (body b) acc) bs acc =
      (fst acc @ List.map_filter store_access (concat (map body bs)),
       snd acc @ List.map_filter load_access (concat (map body bs)))" for bs acc
    by (induction bs arbitrary: acc) (simp_all add: collect_block_eq List.map_filter_def)
  then show ?thesis by (simp add: collect_fields_def)
qed

text \<open>C36: For a loop of a function, the pass pairs each store to a struct field with exactly the
  loads of the same field that decide it, in program order: loads of an integer of at most 32 bits
  whose block influences the store's block through control dependences and reaches it inside one
  iteration. Stores no load decides are left out, and the pairs are ordered by the stores' addresses.\<close>
theorem load_store_pairs_exact:
  assumes "func_ok F" "pdt_ok F t" "graphForFunction F t empty_cdg = Some g"
    and "set (lp_blocks lp) \<subseteq> set (f_blocks F)"
    and "\<forall>b s. StoreI s \<in> set (body b) \<longrightarrow> st_parent s = b"
    and "distinct (map (st_id \<circ> snd) (fst (collect_fields body lp)))"
  shows "\<exists>m. load_store_pairs F g lp (snd (collect_fields body lp)) (fst (collect_fields body lp)) [] =
        Some m \<and> pairs_sorted m \<and>
      (\<forall>s ls. (s, ls) \<in> set m \<longleftrightarrow> ls \<noteq> [] \<and>
         (\<exists>i. StoreI s \<in> set (concat (map body (lp_blocks lp))) \<and>
            field_of (st_pointer s) (st_type s) = Some i \<and>
            ls = map snd (filter (decides F t lp (i, s)) (snd (collect_fields body lp)))))"
proof -
  have mem: "(i, s) \<in> set (fst (collect_fields body lp)) \<longleftrightarrow>
      StoreI s \<in> set (concat (map body (lp_blocks lp))) \<and> field_of (st_pointer s) (st_type s) = Some i" for i s
    unfolding collect_fields_eq fst_conv set_store_accesses ..
  have "\<forall>SS\<in>set (fst (collect_fields body lp)). st_parent (snd SS) \<in> set (f_blocks F)"
    using mem assms(4,5) by fastforce
  from load_store_pairs_built[OF computeDependencies_built[OF assms(1-3)] this assms(6),
      where m = "[]" and lp = lp and Ls = "snd (collect_fields body lp)"]
  show ?thesis
    by (auto simp: pairs_sorted_def kept_pairs_def mem)
qed

section \<open>An example\<close>

text \<open>
  A loop with header 0: block 1 loads a field and branches to the store in 2 or past it; 3 goes round
  again or leaves to 4.
\<close>

definition fsm_func :: func where
  "fsm_func = \<lparr>f_blocks = [0, 1, 2, 3, 4],
     f_terminator = (\<lambda>b. if b = 0 then UncondBr 1 else if b = 1 then CondBr 2 3
       else if b = 2 then UncondBr 3 else if b = 3 then CondBr 0 4 else OtherTerm [])\<rparr>"

definition fsm_up :: "bb \<Rightarrow> bb list" where
  "fsm_up b = (if b = 0 then [1, 3, 4] else if b = 1 \<or> b = 2 then [3, 4] else if b = 3 then [4] else [])"

definition fsm_pdt :: post_dom_tree where
  "fsm_pdt = \<lparr>dt_member = (\<lambda>x. \<exists>b\<in>{0, 1, 2, 3, 4}. x = Some b),
     dt_getIDom = (\<lambda>x. case x of None \<Rightarrow> None
       | Some b \<Rightarrow> (case fsm_up b of [] \<Rightarrow> None | c # _ \<Rightarrow> Some (Some c))),
     dt_dominates = (\<lambda>b a. b \<in> set (a # fsm_up a)),
     dt_findNCD = (\<lambda>a b. Some (hd (filter (\<lambda>c. c \<in> set (b # fsm_up b)) (a # fsm_up a))))\<rparr>"

definition fsm_loop :: ir_loop where
  "fsm_loop = \<lparr>lp_header = 0, lp_blocks = [0, 1, 2, 3]\<rparr>"

definition fsm_field :: ir_value where
  "fsm_field = GetElementPtr (StructTy 7) OtherInst [Some 0, Some 3]"

definition fsm_store :: store_inst where
  "fsm_store = \<lparr>st_id = 20, st_parent = 2, st_pointer = fsm_field, st_type = IntegerTy 32,
     st_value = Some 5\<rparr>"

definition fsm_load :: load_inst where
  "fsm_load = \<lparr>ld_id = 10, ld_parent = 1, ld_pointer = fsm_field, ld_type = IntegerTy 32,
     ld_users = [ICmpUser ICMP_EQ (Some 4)]\<rparr>"

definition fsm_body :: "bb \<Rightarrow> ir_inst list" where
  "fsm_body b = (if b = 1 then [LoadI fsm_load] else if b = 2 then [OtherI, StoreI fsm_store] else [])"

lemma fsm_func_ok: "func_ok fsm_func"
  by (simp add: func_ok_def fsm_func_def succs_def)

lemma fsm_idom [simp]:
  "dt_getIDom fsm_pdt None = None" "dt_getIDom fsm_pdt (Some 0) = Some (Some 1)"
  "dt_getIDom fsm_pdt (Some (Suc 0)) = Some (Some 3)" "dt_getIDom fsm_pdt (Some 2) = Some (Some 3)"
  "dt_getIDom fsm_pdt (Some 3) = Some (Some 4)"
  "4 \<le> b \<Longrightarrow> dt_getIDom fsm_pdt (Some b) = None"
  by (simp_all add: fsm_pdt_def fsm_up_def)

lemma fsm_spdom: "spdom fsm_pdt y (Some b) \<longleftrightarrow> (\<exists>c\<in>set (fsm_up b). y = Some c)"
proof -
  have 4: "4 \<le> b \<Longrightarrow> \<not> spdom fsm_pdt y (Some b)" for y b by (subst spdom_step) simp
  have 3: "spdom fsm_pdt y (Some 3) \<longleftrightarrow> y = Some 4" for y
    by (subst spdom_step) (simp add: pdom_iff 4)
  have 2: "spdom fsm_pdt y (Some 2) \<longleftrightarrow> y = Some 3 \<or> y = Some 4" for y
    by (subst spdom_step) (simp add: pdom_iff 3)
  have 1: "spdom fsm_pdt y (Some (Suc 0)) \<longleftrightarrow> y = Some 3 \<or> y = Some 4" for y
    by (subst spdom_step) (simp add: pdom_iff 3)
  have 0: "spdom fsm_pdt y (Some 0) \<longleftrightarrow> y = Some 1 \<or> y = Some 3 \<or> y = Some 4" for y
    by (subst spdom_step) (simp add: pdom_iff 1)
  consider "b = 0" | "b = Suc 0" | "b = 2" | "b = 3" | "4 \<le> b" by linarith
  then show ?thesis
    by cases (auto simp: 0 1 2 3 4 fsm_up_def)
qed

lemma fsm_pdom: "pdom fsm_pdt y (Some b) \<longleftrightarrow> (\<exists>c\<in>set (b # fsm_up b). y = Some c)"
  by (auto simp: pdom_iff fsm_spdom)

lemma fsm_sel:
  "dt_member fsm_pdt (Some b) \<longleftrightarrow> b \<in> {0, 1, 2, 3, 4}"
  "dt_dominates fsm_pdt b a \<longleftrightarrow> b \<in> set (a # fsm_up a)"
  "dt_findNCD fsm_pdt a b = Some (hd (filter (\<lambda>c. c \<in> set (b # fsm_up b)) (a # fsm_up a)))"
  by (simp_all add: fsm_pdt_def)

lemma fsm_up_simps [simp]:
  "fsm_up 0 = [Suc 0, 3, 4]" "fsm_up (Suc 0) = [3, 4]" "fsm_up 2 = [3, 4]" "fsm_up 3 = [4]" "fsm_up 4 = []"
  by (simp_all add: fsm_up_def)

lemma fsm_pdt_ok: "pdt_ok fsm_func fsm_pdt"
proof -
  have "\<forall>x y. dt_getIDom fsm_pdt x = Some y \<longrightarrow>
      (case y of None \<Rightarrow> 0 | Some b \<Rightarrow> length (fsm_up b)) < (case x of None \<Rightarrow> 0 | Some b \<Rightarrow> length (fsm_up b))"
    by (auto simp: fsm_pdt_def fsm_up_def split: option.splits list.splits if_splits)
  then have "\<exists>level :: bb option \<Rightarrow> nat. \<forall>x y. dt_getIDom fsm_pdt x = Some y \<longrightarrow> level y < level x"
    by (rule exI[of _ "\<lambda>x. case x of None \<Rightarrow> 0 | Some b \<Rightarrow> length (fsm_up b)"])
  moreover have "\<forall>x y. dt_getIDom fsm_pdt x = Some y \<longrightarrow> dt_member fsm_pdt y"
    by (auto simp: fsm_pdt_def fsm_up_def split: option.splits list.splits if_splits)
  moreover have "\<forall>a b. dt_dominates fsm_pdt b a \<longleftrightarrow> pdom fsm_pdt (Some b) (Some a)"
    by (simp add: fsm_pdom fsm_sel)
  moreover have "\<forall>a\<in>{0, Suc 0, 2, 3, 4}. \<forall>b\<in>{0, Suc 0, 2, 3, 4}. ncd_ok fsm_pdt a b"
    unfolding ncd_ok_def fsm_sel by (simp add: fsm_pdom fsm_sel) auto
  ultimately show ?thesis
    unfolding pdt_ok_def by (simp add: fsm_func_def fsm_sel)
qed

lemma fsm_fields:
  "collect_fields fsm_body fsm_loop =
     ([(\<lparr>Stype = 7, FieldOffset = 3, FieldType = IntegerTy 32\<rparr>, fsm_store)],
      [(\<lparr>Stype = 7, FieldOffset = 3, FieldType = IntegerTy 32\<rparr>, fsm_load)])"
  by (simp add: collect_fields_def fsm_body_def fsm_loop_def field_of_def fsm_store_def fsm_load_def
      fsm_field_def getStructFieldInfo_def to_int_def)

lemma fsm_decides:
  "decides fsm_func fsm_pdt fsm_loop
     (\<lparr>Stype = 7, FieldOffset = 3, FieldType = IntegerTy 32\<rparr>, fsm_store)
     (\<lparr>Stype = 7, FieldOffset = 3, FieldType = IntegerTy 32\<rparr>, fsm_load)"
proof -
  have "(1, 2) \<in> cdep fsm_func fsm_pdt"
    by (simp add: cdep_def control_dependent_def pdom_iff fsm_spdom)
      (simp add: fsm_func_def succs_def getEdgeType_def fsm_up_def)
  moreover have "(1, 2) \<in> path_steps fsm_func (lp_blocks fsm_loop) (lp_header fsm_loop)"
    by (simp add: path_steps_def fsm_func_def succs_def fsm_loop_def)
  ultimately show ?thesis
    by (simp add: decides_def fsm_store_def fsm_load_def r_into_trancl)
qed

theorem load_store_pairs_exact_witness:
  "\<exists>g m. graphForFunction fsm_func fsm_pdt empty_cdg = Some g \<and>
     load_store_pairs fsm_func g fsm_loop (snd (collect_fields fsm_body fsm_loop))
       (fst (collect_fields fsm_body fsm_loop)) [] = Some m \<and> (fsm_store, [fsm_load]) \<in> set m"
proof -
  obtain g where g: "graphForFunction fsm_func fsm_pdt empty_cdg = Some g"
    using computeDependencies_linked[OF fsm_func_ok fsm_pdt_ok] by (auto simp: graphForFunction_def)
  have "set (lp_blocks fsm_loop) \<subseteq> set (f_blocks fsm_func)"
    "\<forall>b s. StoreI s \<in> set (fsm_body b) \<longrightarrow> st_parent s = b"
    "distinct (map (st_id \<circ> snd) (fst (collect_fields fsm_body fsm_loop)))"
    by (simp_all add: fsm_fields) (simp_all add: fsm_loop_def fsm_func_def fsm_body_def fsm_store_def)
  from load_store_pairs_exact[OF fsm_func_ok fsm_pdt_ok g this]
  obtain m where m: "load_store_pairs fsm_func g fsm_loop (snd (collect_fields fsm_body fsm_loop))
       (fst (collect_fields fsm_body fsm_loop)) [] = Some m"
    and iff: "\<And>s ls. (s, ls) \<in> set m \<longleftrightarrow> ls \<noteq> [] \<and>
      (\<exists>i. StoreI s \<in> set (concat (map fsm_body (lp_blocks fsm_loop))) \<and>
         field_of (st_pointer s) (st_type s) = Some i \<and>
         ls = map snd (filter (decides fsm_func fsm_pdt fsm_loop (i, s))
           (snd (collect_fields fsm_body fsm_loop))))"
    by blast
  have "(fsm_store, [fsm_load]) \<in> set m"
  proof -
    have "field_of (st_pointer fsm_store) (st_type fsm_store) =
        Some \<lparr>Stype = 7, FieldOffset = 3, FieldType = IntegerTy 32\<rparr>"
      by (simp add: field_of_def fsm_store_def fsm_field_def getStructFieldInfo_def to_int_def)
    moreover have "StoreI fsm_store \<in> set (concat (map fsm_body (lp_blocks fsm_loop)))"
      by (simp add: fsm_body_def fsm_loop_def)
    ultimately show ?thesis
      unfolding iff fsm_fields using fsm_decides by simp
  qed
  with g m show ?thesis by blast
qed

section \<open>Conditions and output\<close>

text \<open>
  A store in the false successor itself: neither search finds it, because a path has at least one edge,
  so the direction stays empty and the condition is printed as if the true side led to the store.
\<close>

lemma store_in_false_successor:
  "branch_direction (fsm_func\<lparr>f_terminator := (f_terminator fsm_func)(1 := CondBr 3 2)\<rparr>) fsm_loop 1 2 =
     Some []"
  by (simp add: branch_direction_def findAPath_def fsm_func_def fsm_loop_def succs_def)

text \<open>Per state every value of a condition is printed, and printed once.\<close>

fun line_value :: "out_line \<Rightarrow> int" where
  "line_value (CondLine _ v) = v"
| "line_value (StoreState v) = v"
| "line_value Separator = 0"

lemma insert_Diff_new: "v \<notin> P \<Longrightarrow> insert v Y - P = insert v (Y - insert v P)"
  by blast

lemma print_conditions_values:
  "line_value ` set (print_conditions eq printed cs) =
     cond_value ` {c \<in> set cs. eq \<longrightarrow> predicate c = ICMP_EQ} - printed"
proof (induction eq printed cs rule: print_conditions.induct)
  case (2 eq printed c cs)
  let ?K = "\<lambda>cs. {c \<in> set cs. eq \<longrightarrow> predicate c = ICMP_EQ}"
  show ?case
  proof (cases "eq \<and> predicate c \<noteq> ICMP_EQ")
    case True
    then have "?K (c # cs) = ?K cs" by auto
    then show ?thesis using 2(1)[OF True] True by simp
  next
    case False
    then have "?K (c # cs) = insert c (?K cs)" by auto
    then have K: "cond_value ` ?K (c # cs) - printed =
        insert (cond_value c) (cond_value ` ?K cs) - printed" by (simp only: image_insert)
    show ?thesis
    proof (cases "cond_value c \<in> printed")
      case True
      then have "print_conditions eq printed (c # cs) = print_conditions eq printed cs" by simp
      with 2(2)[OF False True] True show ?thesis unfolding K by (simp only: insert_Diff_if if_True)
    next
      case notin: False
      then have "line_value ` set (print_conditions eq printed (c # cs)) =
          insert (cond_value c) (line_value ` set (print_conditions eq (insert (cond_value c) printed) cs))"
        by (subst print_conditions.simps, subst if_not_P[OF False], subst if_not_P[OF notin]) simp
      with 2(3)[OF False notin] show ?thesis unfolding K by (simp only: insert_Diff_new[OF notin])
    qed
  qed
qed simp

lemma print_conditions_distinct: "distinct (map line_value (print_conditions eq printed cs))"
proof (induction eq printed cs rule: print_conditions.induct)
  case (2 eq printed c cs)
  then show ?case
    using print_conditions_values[of eq "insert (cond_value c) printed" cs] by simp
qed simp

text \<open>The pass aborts on a function it cannot find, and does nothing without loops.\<close>

lemma runOnModule_missing:
  "out \<noteq> [] \<Longrightarrow> getFunction (if name = [] then ''main'' else name) = None \<Longrightarrow>
     runOnModule name out getFunction = Aborted"
  by (simp add: runOnModule_def)

end
