(* ===== verification/Searchers.thy ===== *)
theory Searchers
  imports Prelude "HOL-Library.Monad_Syntax"
begin

text \<open>
  The searchers that choose the next execution state (\<^verbatim>\<open>src/KleeSE/lib/klee/Core/Searcher.cpp\<close>,
  \<^verbatim>\<open>Searcher.h\<close>, \<^verbatim>\<open>UserSearcher.cpp\<close>) and the loop of the executor that drives them (\<^verbatim>\<open>Executor.cpp\<close>).
  Execution states are numbers, their addresses. What the searchers ask of their surroundings is the
  record \<open>world\<close>: the clock, the random numbers and the instruction counter, and what
  \<open>updateConstraintsIds\<close> reads and writes in the states. Times are of any type with the operations the
  code uses of \<^verbatim>\<open>double\<close>, of which no law is assumed. \<open>None\<close> is a failed assertion or an access to an
  empty container.
\<close>

section \<open>The surroundings\<close>

type_synonym est = nat

record 'd world =
  clock :: "nat \<Rightarrow> 'd"
  ticks :: nat
  slack :: 'd
  rng :: "nat \<Rightarrow> 32 word"
  draws :: nat
  instructions :: "64 word"
  source_line :: "est \<Rightarrow> string"
  n_constraints :: "est \<Rightarrow> nat"
  constraintsInstSrc :: "est \<Rightarrow> string list"

definition getWallTime :: "'d world \<Rightarrow> 'd \<times> 'd world" where
  "getWallTime w = (clock w (ticks w), w\<lparr>ticks := Suc (ticks w)\<rparr>)"

definition getInt32 :: "'d world \<Rightarrow> 32 word \<times> 'd world" where
  "getInt32 w = (rng w (draws w), w\<lparr>draws := Suc (draws w)\<rparr>)"

definition note_constraint :: "string \<Rightarrow> est \<Rightarrow> 'd world \<Rightarrow> 'd world" where
  "note_constraint line s w =
     (if n_constraints w s > length (constraintsInstSrc w s)
      then w\<lparr>constraintsInstSrc := (constraintsInstSrc w)(s := constraintsInstSrc w s @ [line])\<rparr> else w)"

definition updateConstraintsIds :: "est option \<Rightarrow> est list \<Rightarrow> 'd world \<Rightarrow> 'd world" where
  "updateConstraintsIds current added w =
     (case current of
        None \<Rightarrow> w
      | Some c \<Rightarrow> fold (note_constraint (source_line w c)) added (note_constraint (source_line w c) c w))"

section \<open>Searchers\<close>

datatype 'd searcher =
    DFSSearcher "est list"
  | BFSSearcher "est list"
  | RandomSearcher "est list"
  | BatchingSearcher "'d searcher" 'd "32 word" "est option" 'd "32 word"
  | InterleavedSearcher "'d searcher list" nat

text \<open>A batching searcher has its base, the two budgets, the last state and when it was started.\<close>

definition erase_state :: "est \<Rightarrow> est list \<Rightarrow> est list option" where
  "erase_state es states = (if es \<in> set states then Some (remove1 es states) else None)"

primrec dfs_remove :: "est list \<Rightarrow> est list \<Rightarrow> est list option" where
  "dfs_remove [] states = Some states"
| "dfs_remove (es # removed) states =
     (if states = [] then None
      else if es = last states then dfs_remove removed (butlast states)
      else Option.bind (erase_state es states) (dfs_remove removed))"

primrec bfs_remove :: "est list \<Rightarrow> est list \<Rightarrow> est list option" where
  "bfs_remove [] states = Some states"
| "bfs_remove (es # removed) states =
     (if states = [] then None
      else if es = hd states then bfs_remove removed (tl states)
      else Option.bind (erase_state es states) (bfs_remove removed))"

primrec random_remove :: "est list \<Rightarrow> est list \<Rightarrow> est list option" where
  "random_remove [] states = Some states"
| "random_remove (es # removed) states = Option.bind (erase_state es states) (random_remove removed)"

text \<open>If states were added, the current one forked and goes to the end of the queue.\<close>

definition bfs_rotate :: "est option \<Rightarrow> est list \<Rightarrow> est list \<Rightarrow> est list \<Rightarrow> est list option" where
  "bfs_rotate current added removed states =
     (case current of
        None \<Rightarrow> Some states
      | Some c \<Rightarrow>
          (if added \<noteq> [] \<and> c \<notin> set removed
           then map_option (\<lambda>states. states @ [c]) (erase_state c states) else Some states))"

fun empty_searcher :: "'d searcher \<Rightarrow> bool" where
  "empty_searcher (DFSSearcher states) \<longleftrightarrow> states = []"
| "empty_searcher (BFSSearcher states) \<longleftrightarrow> states = []"
| "empty_searcher (RandomSearcher states) \<longleftrightarrow> states = []"
| "empty_searcher (BatchingSearcher b tb ib l lt li) \<longleftrightarrow> empty_searcher b"
| "empty_searcher (InterleavedSearcher [] i) \<longleftrightarrow> True"
| "empty_searcher (InterleavedSearcher (s # ss) i) \<longleftrightarrow> empty_searcher s"

text \<open>
  \<open>batch_over\<close> is the test whether a batch has ended; the counter has 64 bits, the copy taken at the
  start of the batch 32. The time is read only if there is a last state, and the test of the
  instructions is reached only if the time is not up.
\<close>

definition batch_over ::
  "'d::{minus,ord} \<Rightarrow> 32 word \<Rightarrow> est option \<Rightarrow> 'd \<Rightarrow> 32 word \<Rightarrow> 'd world \<Rightarrow> bool \<times> 'd world" where
  "batch_over tb ib l lt li w =
     (case l of
        None \<Rightarrow> (True, w)
      | Some _ \<Rightarrow>
          (let (t, w) = getWallTime w
           in (t - lt > tb \<or> instructions w - ucast li > ucast ib, w)))"

text \<open>The new time budget when a batch ends.\<close>

definition batch_budget ::
  "'d::{minus,times,ord} \<Rightarrow> est option \<Rightarrow> 'd \<Rightarrow> 'd world \<Rightarrow> 'd \<times> 'd world" where
  "batch_budget tb l lt w =
     (case l of
        None \<Rightarrow> (tb, w)
      | Some _ \<Rightarrow>
          (let (t, w) = getWallTime w
           in (if t - lt > tb * slack w then t - lt else tb, w)))"

definition dfs_select :: "est list \<Rightarrow> est option" where
  "dfs_select states = (if states = [] then None else Some (last states))"

definition bfs_select :: "est list \<Rightarrow> est option" where
  "bfs_select states = (if states = [] then None else Some (hd states))"

definition random_select :: "est list \<Rightarrow> 'd world \<Rightarrow> (est \<times> 'd world) option" where
  "random_select states w =
     (if states = [] then None
      else (let (r, w) = getInt32 w in Some (states ! (unat r mod length states), w)))"

text \<open>The index of the next searcher of an interleaving, counted down and wrapped around.\<close>

definition next_index :: "nat \<Rightarrow> nat \<Rightarrow> nat" where
  "next_index n i = (if i - 1 = 0 then n else i - 1)"

function selectState ::
  "('d::{minus,times,ord}) searcher \<Rightarrow> 'd world \<Rightarrow> (est \<times> 'd searcher \<times> 'd world) option" where
  "selectState (DFSSearcher states) w =
     map_option (\<lambda>x. (x, DFSSearcher states, w)) (dfs_select states)"
| "selectState (BFSSearcher states) w =
     map_option (\<lambda>x. (x, BFSSearcher states, w)) (bfs_select states)"
| "selectState (RandomSearcher states) w =
     map_option (\<lambda>(x, w). (x, RandomSearcher states, w)) (random_select states w)"
| "selectState (BatchingSearcher b tb ib l lt li) w =
     (case batch_over tb ib l lt li w of
        (False, w) \<Rightarrow> Some (the l, BatchingSearcher b tb ib l lt li, w)
      | (True, w) \<Rightarrow>
          (case batch_budget tb l lt w of
             (tb, w) \<Rightarrow>
               (case selectState b w of
                  None \<Rightarrow> None
                | Some (s, b, w) \<Rightarrow>
                    (case getWallTime w of
                       (t, w) \<Rightarrow>
                         Some (s, BatchingSearcher b tb ib (Some s) t (ucast (instructions w)), w)))))"
| "selectState (InterleavedSearcher ss i) w =
     (if i = 0 \<or> length ss < i then None
      else (case selectState (ss ! (i - 1)) w of
              None \<Rightarrow> None
            | Some (s, b, w) \<Rightarrow>
                Some (s, InterleavedSearcher (ss[i - 1 := b]) (next_index (length ss) i), w)))"
  by pat_completeness auto
termination
proof (relation "measure (\<lambda>(s, w). size s)", goal_cases)
  case (3 ss i w)
  then have "ss ! (i - 1) \<in> set ss" by (intro nth_mem) linarith
  then show ?case using size_list_estimation'[of "ss ! (i - 1)" ss] by (simp add: less_Suc_eq_le)
qed simp_all

definition dfs_update :: "est list \<Rightarrow> est list \<Rightarrow> est list \<Rightarrow> est list option" where
  "dfs_update added removed states = dfs_remove removed (states @ added)"

definition bfs_update :: "est option \<Rightarrow> est list \<Rightarrow> est list \<Rightarrow> est list \<Rightarrow> est list option" where
  "bfs_update current added removed states =
     Option.bind (bfs_rotate current added removed states) (\<lambda>states. bfs_remove removed (states @ added))"

definition random_update :: "est list \<Rightarrow> est list \<Rightarrow> est list \<Rightarrow> est list option" where
  "random_update added removed states = random_remove removed (states @ added)"

text \<open>A batch ends when its state is removed.\<close>

definition forget_removed :: "est list \<Rightarrow> est option \<Rightarrow> est option" where
  "forget_removed removed l =
     (case l of None \<Rightarrow> None | Some s \<Rightarrow> if s \<in> set removed then None else Some s)"

lemmas searcher_ops = dfs_select_def bfs_select_def random_select_def next_index_def
  dfs_update_def bfs_update_def random_update_def forget_removed_def

declare searcher_ops [simp]

fun update ::
    "est option \<Rightarrow> est list \<Rightarrow> est list \<Rightarrow> 'd searcher \<Rightarrow> 'd world \<Rightarrow> ('d searcher \<times> 'd world) option"
  and update_each ::
    "est option \<Rightarrow> est list \<Rightarrow> est list \<Rightarrow> 'd searcher list \<Rightarrow> 'd world \<Rightarrow> ('d searcher list \<times> 'd world) option"
where
  "update current added removed (DFSSearcher states) w =
     map_option (\<lambda>states. (DFSSearcher states, updateConstraintsIds current added w))
       (dfs_update added removed states)"
| "update current added removed (BFSSearcher states) w =
     map_option (\<lambda>states. (BFSSearcher states, updateConstraintsIds current added w))
       (bfs_update current added removed states)"
| "update current added removed (RandomSearcher states) w =
     map_option (\<lambda>states. (RandomSearcher states, updateConstraintsIds current added w))
       (random_update added removed states)"
| "update current added removed (BatchingSearcher b tb ib l lt li) w =
     map_option
       (\<lambda>(b, w). (BatchingSearcher b tb ib (forget_removed removed l) lt li, w))
       (update current added removed b (updateConstraintsIds current added w))"
| "update current added removed (InterleavedSearcher ss i) w =
     map_option (\<lambda>(ss, w). (InterleavedSearcher ss i, w))
       (update_each current added removed ss (updateConstraintsIds current added w))"
| "update_each current added removed [] w = Some ([], w)"
| "update_each current added removed (s # ss) w =
     Option.bind (update current added removed s w) (\<lambda>(s, w).
     map_option (\<lambda>(ss, w). (s # ss, w)) (update_each current added removed ss w))"


text \<open>
  The searcher with iterative deepening stands on top of the others: its base, the time slice, the
  start of the present one and the set of paused states, in ascending order.
\<close>

record 'd deepening =
  baseSearcher :: "'d searcher"
  slice :: 'd
  startTime :: 'd
  pausedStates :: "est list"

datatype 'd top_searcher = Plain "'d searcher" | Deepening "'d deepening"

definition empty_top :: "'d top_searcher \<Rightarrow> bool" where
  "empty_top ts = (case ts of Plain s \<Rightarrow> empty_searcher s
     | Deepening d \<Rightarrow> empty_searcher (baseSearcher d) \<and> pausedStates d = [])"







section \<open>The searcher of the options\<close>





section \<open>The loop of the executor\<close>

text \<open>
  What \<open>executeInstruction\<close> does to the execution states is a parameter, with the timers and the memory
  check after it: it works on the interpreter's own memory (\<open>'i\<close>, the contents of all states), knows
  the executor's states and the selected one, may read and change the surroundings (the clock goes on,
  a state gets new constraints), and leaves the states it adds and removes.
\<close>

type_synonym ('i, 'd) executor = "'i \<Rightarrow> est set \<Rightarrow> est \<Rightarrow> 'd world \<Rightarrow> est list \<times> est list \<times> 'i \<times> 'd world"

definition stepInstruction :: "'d world \<Rightarrow> 'd world" where
  "stepInstruction w = w\<lparr>instructions := instructions w + 1\<rparr>"

text \<open>The executor's own set of states; removing one it does not have fails an assertion.\<close>

fun erase_states :: "est list \<Rightarrow> est set \<Rightarrow> est set option" where
  "erase_states [] states = Some states"
| "erase_states (es # removed) states =
     (if es \<in> states then erase_states removed (states - {es}) else None)"

definition updateStates ::
  "(est option \<Rightarrow> est list \<Rightarrow> est list \<Rightarrow> 'h \<Rightarrow> 'w \<Rightarrow> ('h \<times> 'w) option) \<Rightarrow>
   est option \<Rightarrow> est list \<Rightarrow> est list \<Rightarrow> est set \<Rightarrow> 'h \<Rightarrow> 'w \<Rightarrow> (est set \<times> 'h \<times> 'w) option" where
  "updateStates upd current added removed states s w = do {
     (s, w) \<leftarrow> upd current added removed s w;
     states \<leftarrow> erase_states removed (states \<union> set added);
     Some (states, s, w) }"

text \<open>
  The loop runs while there are states, for at most the given number of rounds (the flag that halts the
  execution can be raised in any of them); the result has the states selected, in order.
\<close>

fun run_loop ::
  "('h \<Rightarrow> 'd world \<Rightarrow> (est \<times> 'h \<times> 'd world) option) \<Rightarrow>
   (est option \<Rightarrow> est list \<Rightarrow> est list \<Rightarrow> 'h \<Rightarrow> 'd world \<Rightarrow> ('h \<times> 'd world) option) \<Rightarrow>
   ('i, 'd) executor \<Rightarrow> nat \<Rightarrow> 'i \<Rightarrow> est set \<Rightarrow> 'h \<Rightarrow> 'd world \<Rightarrow>
   (est list \<times> 'i \<times> est set \<times> 'h \<times> 'd world) option" where
  "run_loop sel upd exec 0 i states s w = Some ([], i, states, s, w)"
| "run_loop sel upd exec (Suc n) i states s w =
     (if states = {} then Some ([], i, states, s, w)
      else do {
        (x, s, w) \<leftarrow> sel s w;
        let (added, removed, i, w) = exec i states x (stepInstruction w);
        (states, s, w) \<leftarrow> updateStates upd (Some x) added removed states s w;
        (xs, i, states, s, w) \<leftarrow> run_loop sel upd exec n i states s w;
        Some (x # xs, i, states, s, w) })"


text \<open>What an update makes of a set of states.\<close>

definition updated :: "est set \<Rightarrow> est list \<Rightarrow> est list \<Rightarrow> est set" where
  "updated states added removed = (states \<union> set added) - set removed"

lemma erase_states_eq:
  "distinct removed \<Longrightarrow> set removed \<subseteq> S \<Longrightarrow> erase_states removed S = Some (S - set removed)"
proof (induction removed arbitrary: S)
  case (Cons e removed)
  then have "set removed \<subseteq> S - {e}" "distinct removed" "e \<in> S" by auto
  moreover from this have "erase_states removed (S - {e}) = Some (S - {e} - set removed)"
    using Cons.IH by blast
  ultimately show ?case by (simp add: Diff_insert2[symmetric])
qed simp


section \<open>What a searcher holds\<close>

fun contents :: "'d searcher \<Rightarrow> est set" where
  "contents (DFSSearcher states) = set states"
| "contents (BFSSearcher states) = set states"
| "contents (RandomSearcher states) = set states"
| "contents (BatchingSearcher b tb ib l lt li) = contents b"
| "contents (InterleavedSearcher [] i) = {}"
| "contents (InterleavedSearcher (s # ss) i) = contents s"

text \<open>The searchers of an interleaving hold the same states, and its index is the number of one.\<close>

fun searcher_ok :: "'d searcher \<Rightarrow> bool" where
  "searcher_ok (DFSSearcher states) \<longleftrightarrow> distinct states"
| "searcher_ok (BFSSearcher states) \<longleftrightarrow> distinct states"
| "searcher_ok (RandomSearcher states) \<longleftrightarrow> distinct states"
| "searcher_ok (BatchingSearcher b tb ib l lt li) \<longleftrightarrow>
     searcher_ok b \<and> (case l of None \<Rightarrow> True | Some s \<Rightarrow> s \<in> contents b)"
| "searcher_ok (InterleavedSearcher ss i) \<longleftrightarrow>
     0 < i \<and> i \<le> length ss \<and> list_all searcher_ok ss \<and> list_all (\<lambda>s. contents s = contents (hd ss)) ss"

lemma contents_Interleaved: "ss \<noteq> [] \<Longrightarrow> contents (InterleavedSearcher ss i) = contents (hd ss)"
  by (cases ss) simp_all


definition legal :: "est set \<Rightarrow> est set \<Rightarrow> est option \<Rightarrow> est list \<Rightarrow> est list \<Rightarrow> bool" where
  "legal active states current added removed \<longleftrightarrow>
     (\<forall>c. current = Some c \<longrightarrow> c \<in> active) \<and> distinct added \<and> set added \<inter> states = {} \<and>
     distinct removed \<and> set removed \<subseteq> states \<union> set added"

lemma erase_state_eq:
  "distinct xs \<Longrightarrow> e \<in> set xs \<Longrightarrow> erase_state e xs = Some (filter (\<lambda>x. x \<noteq> e) xs)"
  by (simp add: erase_state_def distinct_remove1_removeAll removeAll_filter_not_eq) metis

lemma filter_other [simp]: "e \<notin> set xs \<Longrightarrow> filter (\<lambda>x. x \<noteq> e) xs = xs"
  by (auto simp: filter_id_conv)

lemma butlast_filter: "distinct xs \<Longrightarrow> xs \<noteq> [] \<Longrightarrow> butlast xs = filter (\<lambda>x. x \<noteq> last xs) xs"
  by (induction xs rule: rev_induct) simp_all

lemma tl_filter: "distinct xs \<Longrightarrow> xs \<noteq> [] \<Longrightarrow> tl xs = filter (\<lambda>x. x \<noteq> hd xs) xs"
  by (cases xs) simp_all

lemma removed_rest:
  "distinct (e # removed) \<Longrightarrow> set (e # removed) \<subseteq> set xs \<Longrightarrow>
     set removed \<subseteq> set (filter (\<lambda>x. x \<noteq> e) xs)"
  by auto

lemma random_remove_eq:
  "distinct xs \<Longrightarrow> distinct removed \<Longrightarrow> set removed \<subseteq> set xs \<Longrightarrow>
     random_remove removed xs = Some (filter (\<lambda>x. x \<notin> set removed) xs)"
proof (induction removed arbitrary: xs)
  case (Cons e removed)
  then show ?case
    using Cons.IH[OF _ _ removed_rest[OF Cons.prems(2,3)]] erase_state_eq[of xs e] by auto
qed simp

lemma dfs_remove_eq:
  "distinct xs \<Longrightarrow> distinct removed \<Longrightarrow> set removed \<subseteq> set xs \<Longrightarrow>
     dfs_remove removed xs = Some (filter (\<lambda>x. x \<notin> set removed) xs)"
proof (induction removed arbitrary: xs)
  case (Cons e removed)
  then show ?case
    using Cons.IH[OF _ _ removed_rest[OF Cons.prems(2,3)]] erase_state_eq[of xs e] butlast_filter[of xs] by auto
qed simp

lemma bfs_remove_eq:
  "distinct xs \<Longrightarrow> distinct removed \<Longrightarrow> set removed \<subseteq> set xs \<Longrightarrow>
     bfs_remove removed xs = Some (filter (\<lambda>x. x \<notin> set removed) xs)"
proof (induction removed arbitrary: xs)
  case (Cons e removed)
  then show ?case
    using Cons.IH[OF _ _ removed_rest[OF Cons.prems(2,3)]] erase_state_eq[of xs e] tl_filter[of xs] by auto
qed simp

lemma bfs_rotate_eq:
  assumes "distinct xs" "legal (set xs) (set xs) current added removed"
  shows "\<exists>ys. bfs_rotate current added removed xs = Some ys \<and> distinct ys \<and> set ys = set xs"
proof (cases current)
  case (Some c)
  with assms have "c \<in> set xs" by (simp add: legal_def)
  with assms(1) Some show ?thesis by (auto simp: bfs_rotate_def erase_state_eq)
qed (simp add: bfs_rotate_def assms(1))

lemma update_contents:
  "searcher_ok s \<Longrightarrow> legal (contents s) (contents s) current added removed \<Longrightarrow>
     \<exists>s' w'. update current added removed s w = Some (s', w') \<and> searcher_ok s' \<and>
       contents s' = updated (contents s) added removed"
  "\<And>C. list_all searcher_ok ss \<Longrightarrow> list_all (\<lambda>s. contents s = C) ss \<Longrightarrow> legal C C current added removed \<Longrightarrow>
     \<exists>ss' w'. update_each current added removed ss w = Some (ss', w') \<and> length ss' = length ss \<and>
       list_all searcher_ok ss' \<and> list_all (\<lambda>s. contents s = updated C added removed) ss'"
proof (induction current added removed s w and current added removed ss w
    rule: update_update_each.induct)
  case (1 current added removed states w)
  then have "dfs_remove removed (states @ added) =
      Some (filter (\<lambda>x. x \<notin> set removed) (states @ added))"
    by (intro dfs_remove_eq) (auto simp: legal_def)
  with 1 show ?case by (auto simp: updated_def legal_def)
next
  case (2 current added removed states w)
  then obtain ys where ys: "bfs_rotate current added removed states = Some ys" "distinct ys"
    "set ys = set states"
    using bfs_rotate_eq[of states current added removed] by auto
  then have "bfs_remove removed (ys @ added) = Some (filter (\<lambda>x. x \<notin> set removed) (ys @ added))"
    using 2 by (intro bfs_remove_eq) (auto simp: legal_def)
  with 2 ys show ?case by (auto simp: updated_def legal_def)
next
  case (3 current added removed states w)
  then have "random_remove removed (states @ added) =
      Some (filter (\<lambda>x. x \<notin> set removed) (states @ added))"
    by (intro random_remove_eq) (auto simp: legal_def)
  with 3 show ?case by (auto simp: updated_def legal_def)
next
  case (4 current added removed b tb ib l lt li w)
  then obtain b' w' where "update current added removed b (updateConstraintsIds current added w) = Some (b', w')"
    "searcher_ok b'" "contents b' = updated (contents b) added removed"
    by auto
  with 4(2) show ?case by (auto simp: updated_def split: option.splits)
next
  case (5 current added removed ss i w)
  then have ss: "ss \<noteq> []" "list_all searcher_ok ss" "list_all (\<lambda>s. contents s = contents (hd ss)) ss"
    by auto
  with 5 have l: "legal (contents (hd ss)) (contents (hd ss)) current added removed"
    by (simp add: contents_Interleaved)
  obtain ss' w' where u: "update_each current added removed ss (updateConstraintsIds current added w) = Some (ss', w')"
    "length ss' = length ss" "list_all searcher_ok ss'"
    "list_all (\<lambda>s. contents s = updated (contents (hd ss)) added removed) ss'"
    using 5(1)[OF ss(2,3) l] by blast
  then have "ss' \<noteq> []" using ss(1) by auto
  then have "contents (hd ss') = updated (contents (hd ss)) added removed"
    using u(4) by (cases ss') auto
  with u 5(2) ss(1) \<open>ss' \<noteq> []\<close> show ?case by (simp add: contents_Interleaved)
next
  case (6 current added removed w)
  then show ?case by simp
next
  case (7 current added removed s ss w C)
  then obtain s' w1 where "update current added removed s w = Some (s', w1)" "searcher_ok s'"
    "contents s' = updated C added removed" by auto
  with 7 show ?case by fastforce
qed


lemma select_contents:
  fixes s :: "('d::{minus,times,ord}) searcher"
  shows "searcher_ok s \<Longrightarrow> contents s \<noteq> {} \<Longrightarrow>
     \<exists>x s' w'. selectState s w = Some (x, s', w') \<and> x \<in> contents s \<and> searcher_ok s' \<and>
       contents s' = contents s"
proof (induction s w rule: selectState.induct)
  case (1 states w)
  then show ?case by simp
next
  case (2 states w)
  then show ?case by simp
next
  case (3 states w)
  then show ?case by (simp add: getInt32_def)
next
  case (4 b tb ib l lt li w)
  obtain over w1 where o: "batch_over tb ib l lt li w = (over, w1)" by fastforce
  show ?case
  proof (cases over)
    case False
    with o have "l \<noteq> None" by (cases l) (auto simp: batch_over_def)
    with 4(2) o False show ?thesis by auto
  next
    case True
    with o have o': "batch_over tb ib l lt li w = (True, w1)" by simp
    obtain tb' w2 where t: "batch_budget tb l lt w1 = (tb', w2)" by fastforce
    obtain x b' w3 where "selectState b w2 = Some (x, b', w3)" "x \<in> contents b" "searcher_ok b'"
      "contents b' = contents b"
      using 4 o' t by force
    with o' t show ?thesis by (simp add: getWallTime_def)
  qed
next
  case (5 ss i w)
  then have i: "0 < i" "i \<le> length ss" by auto
  then have m: "ss ! (i - 1) \<in> set ss" by (intro nth_mem) linarith
  then have ne: "ss \<noteq> []" by auto
  have c: "contents (ss ! (i - 1)) = contents (hd ss)" "searcher_ok (ss ! (i - 1))"
    using 5(2) m by (auto simp: list_all_iff)
  obtain x b w1 where s: "selectState (ss ! (i - 1)) w = Some (x, b, w1)" "x \<in> contents (hd ss)"
    "searcher_ok b" "contents b = contents (hd ss)"
    using 5(1) 5(2,3) c i ne by (auto simp: contents_Interleaved)
  let ?ss = "ss[i - 1 := b]"
  have hd: "contents (hd ?ss) = contents (hd ss)"
    using ne s(4) by (cases "i - 1") (auto simp: hd_conv_nth nth_list_update)
  have "list_all searcher_ok ?ss" "list_all (\<lambda>s. contents s = contents (hd ss)) ?ss"
    using 5(2) s(3,4) by (auto intro!: list_all_update)
  then have "searcher_ok (InterleavedSearcher ?ss (if i - 1 = 0 then length ss else i - 1))"
    using i ne hd by auto
  with s i ne hd show ?case by (simp add: contents_Interleaved)
qed

section \<open>What the executor needs of a searcher\<close>

locale scheduler =
  fixes valid :: "'h \<Rightarrow> bool"
    and members :: "'h \<Rightarrow> est set"
    and active :: "'h \<Rightarrow> est set"
    and sel :: "'h \<Rightarrow> 'd world \<Rightarrow> (est \<times> 'h \<times> 'd world) option"
    and upd :: "est option \<Rightarrow> est list \<Rightarrow> est list \<Rightarrow> 'h \<Rightarrow> 'd world \<Rightarrow> ('h \<times> 'd world) option"
  assumes sel_law: "valid s \<Longrightarrow> members s \<noteq> {} \<Longrightarrow>
      \<exists>x s' w'. sel s w = Some (x, s', w') \<and> x \<in> active s' \<and> x \<in> members s \<and> valid s' \<and>
        members s' = members s"
    and upd_law: "valid s \<Longrightarrow> legal (active s) (members s) current added removed \<Longrightarrow>
      \<exists>s' w'. upd current added removed s w = Some (s', w') \<and> valid s' \<and>
        members s' = updated (members s) added removed"

text \<open>
  What the executor does to the set of states: it adds new ones, each once, and removes some of those
  there are, each once. Nothing else is asked of the instructions.
\<close>

definition legal_step :: "('i, 'd) executor \<Rightarrow> bool" where
  "legal_step exec \<longleftrightarrow> (\<forall>i S x w. finite S \<longrightarrow> x \<in> S \<longrightarrow>
     (case exec i S x w of (added, removed, _) \<Rightarrow>
        distinct added \<and> set added \<inter> S = {} \<and> distinct removed \<and> set removed \<subseteq> S \<union> set added))"

lemma legal_stepD:
  assumes "legal_step exec" "finite S" "x \<in> S" "exec i S x w = (added, removed, i', w')"
  shows "distinct added" "set added \<inter> S = {}" "distinct removed" "set removed \<subseteq> S \<union> set added"
proof -
  have "case exec i S x w of (added, removed, _) \<Rightarrow>
      distinct added \<and> set added \<inter> S = {} \<and> distinct removed \<and> set removed \<subseteq> S \<union> set added"
    by (rule assms(1)[unfolded legal_step_def, rule_format, OF assms(2,3)])
  then show "distinct added" "set added \<inter> S = {}" "distinct removed" "set removed \<subseteq> S \<union> set added"
    using assms(4) by simp_all
qed

lemma updateStates_eq:
  assumes "upd current added removed s w = Some (s', w')" "distinct removed" "set removed \<subseteq> S \<union> set added"
  shows "updateStates upd current added removed S s w = Some (updated S added removed, s', w')"
  using assms erase_states_eq[OF assms(2,3)] by (simp add: updateStates_def updated_def)

context scheduler begin

lemma run_law:
  assumes step: "legal_step exec"
  shows "valid s \<Longrightarrow> finite (members s) \<Longrightarrow>
    \<exists>xs i' states s' w'. run_loop sel upd exec n i (members s) s w = Some (xs, i', states, s', w') \<and>
      valid s' \<and> members s' = states \<and> length xs \<le> n \<and> (length xs < n \<longrightarrow> states = {})"
proof (induction n arbitrary: i s w)
  case 0
  then show ?case by simp
next
  case (Suc n)
  show ?case
  proof (cases "members s = {}")
    case True
    with Suc.prems show ?thesis by simp
  next
    case False
    obtain x s1 w1 where x: "sel s w = Some (x, s1, w1)" "x \<in> active s1" "x \<in> members s" "valid s1"
      "members s1 = members s"
      using sel_law[OF Suc.prems(1) False] by blast
    obtain added removed i2 w2 where e: "exec i (members s) x (stepInstruction w1) = (added, removed, i2, w2)"
      by (metis prod_cases4)
    note l = legal_stepD[OF step Suc.prems(2) x(3) e]
    then have "legal (active s1) (members s1) (Some x) added removed"
      using x(2,5) by (simp add: legal_def)
    from upd_law[OF x(4) this, of w2] obtain s3 w3 where
      u: "upd (Some x) added removed s1 w2 = Some (s3, w3)" "valid s3" "members s3 = updated (members s) added removed"
      using x(5) by auto
    have "finite (members s3)" using u(3) Suc.prems(2) by (simp add: updated_def)
    from Suc.IH[OF u(2) this, of i2 w3] obtain xs i' states s' w' where
      "run_loop sel upd exec n i2 (members s3) s3 w3 = Some (xs, i', states, s', w')" "valid s'"
      "members s' = states" "length xs \<le> n" "length xs < n \<longrightarrow> states = {}" by blast
    moreover have "updateStates upd (Some x) added removed (members s) s1 w2 = Some (members s3, s3, w3)"
      unfolding u(3) using u(1) l(3,4) by (rule updateStates_eq)
    ultimately show ?thesis using x(1) e False by simp
  qed
qed

end

interpretation base_scheduler: scheduler searcher_ok contents contents selectState update
proof unfold_locales
  fix s :: "('d::{minus,times,ord}) searcher" and w assume "searcher_ok s" "contents s \<noteq> {}"
  from select_contents[OF this]
  show "\<exists>x s' w'. selectState s w = Some (x, s', w') \<and> x \<in> contents s' \<and> x \<in> contents s \<and>
      searcher_ok s' \<and> contents s' = contents s"
    by force
qed (rule update_contents(1))

section \<open>Iterative deepening\<close>













section \<open>The executor never loses a state\<close>





section \<open>No state waits for ever in the queue\<close>

lemma bfs_round:
  assumes d: "distinct (y # zs)" and A: "added \<noteq> [] \<or> y \<in> set removed"
    and l: "distinct added" "set added \<inter> set (y # zs) = {}" "distinct removed"
      "set removed \<subseteq> set (y # zs) \<union> set added"
  shows "update (Some y) added removed (BFSSearcher (y # zs)) w =
    Some (BFSSearcher (filter (\<lambda>x. x \<notin> set removed)
        (zs @ (if y \<in> set removed then [] else [y]) @ added)), updateConstraintsIds (Some y) added w)"
proof (cases "y \<in> set removed")
  case True
  then have "bfs_remove removed ((y # zs) @ added) =
      Some (filter (\<lambda>x. x \<notin> set removed) ((y # zs) @ added))"
    using d l by (intro bfs_remove_eq) auto
  with True show ?thesis by (simp add: bfs_rotate_def)
next
  case False
  have "bfs_remove removed ((zs @ [y]) @ added) =
      Some (filter (\<lambda>x. x \<notin> set removed) ((zs @ [y]) @ added))"
    using d l by (intro bfs_remove_eq) auto
  with False A show ?thesis by (simp add: bfs_rotate_def erase_state_def)
qed

lemma filter_index:
  "i < length as \<Longrightarrow> P (as ! i) \<Longrightarrow>
     \<exists>j\<le>i. j < length (filter P (as @ bs)) \<and> filter P (as @ bs) ! j = as ! i"
proof (induction as arbitrary: i)
  case (Cons a as)
  show ?case
  proof (cases i)
    case 0
    with Cons.prems show ?thesis by auto
  next
    case (Suc k)
    with Cons.IH[of k] Cons.prems obtain j where
      j: "j \<le> k" "j < length (filter P (as @ bs))" "filter P (as @ bs) ! j = as ! k" by auto
    show ?thesis
    proof (cases "P a")
      case True
      with j Suc show ?thesis by (intro exI[of _ "Suc j"]) simp
    next
      case False
      with j Suc show ?thesis by (intro exI[of _ j]) simp
    qed
  qed
qed simp

lemma run_loop_round:
  assumes "states \<noteq> {}" "sel s w = Some (x, s1, w1)" "exec i states x (stepInstruction w1) = (added, removed, i2, w2)"
    and "updateStates upd (Some x) added removed states s1 w2 = Some (states3, s3, w3)"
  shows "run_loop sel upd exec (Suc n) i states s w =
    map_option (\<lambda>(c, r). (x # c, r)) (run_loop sel upd exec n i2 states3 s3 w3)"
  using assms by (simp add: map_option_case split: option.splits)

definition forks_or_ends :: "('i, 'd) executor \<Rightarrow> bool" where
  "forks_or_ends exec \<longleftrightarrow> (\<forall>i S x w. finite S \<longrightarrow> x \<in> S \<longrightarrow>
     (case exec i S x w of (added, removed, _) \<Rightarrow> added \<noteq> [] \<or> x \<in> set removed))"

text \<open>C38: Breadth-first search is fair at the level of forks: if every round forks or terminates the
  selected state, and no other state's instructions remove the state that waits at position \<open>k\<close> of the
  queue, then it is selected within the next \<open>k + 1\<close> rounds.\<close>
theorem bfs_fair:
  fixes w :: "('d::{minus,times,ord}) world"
  assumes step: "legal_step exec" "forks_or_ends exec"
    and keep: "\<forall>i S y w. y \<noteq> x \<longrightarrow> x \<notin> set (fst (snd (exec i S y w)))"
    and xs: "distinct xs" "k < length xs" "xs ! k = x" "k < n"
  shows "\<exists>chosen i' rest s w'.
    run_loop selectState update exec n i (set xs) (BFSSearcher xs) w = Some (chosen, i', rest, s, w') \<and>
    x \<in> set chosen"
  using xs
proof (induction n arbitrary: xs k i w)
  case 0
  then show ?case by simp
next
  case (Suc n)
  obtain y zs where yz: "xs = y # zs" using Suc.prems(2) by (cases xs) auto
  obtain A R i2 w2 where e: "exec i (set xs) y (stepInstruction w) = (A, R, i2, w2)" by (metis prod_cases4)
  have y: "finite (set xs)" "y \<in> set xs" using yz by simp_all
  note lg = legal_stepD[OF step(1) y e]
  have AR: "A \<noteq> [] \<or> y \<in> set R"
    using step(2) y e unfolding forks_or_ends_def by (metis (mono_tags, lifting) case_prod_conv)
  define xs' where "xs' = filter (\<lambda>x. x \<notin> set R) (zs @ (if y \<in> set R then [] else [y]) @ A)"
  define w' where "w' = updateConstraintsIds (Some y) A w2"
  have u: "update (Some y) A R (BFSSearcher xs) w2 = Some (BFSSearcher xs', w')"
    using bfs_round[of y zs A R w2] Suc.prems(1) lg AR unfolding yz xs'_def w'_def by simp
  have x': "distinct xs'" "set xs' = updated (set xs) A R"
    using Suc.prems(1) lg by (auto simp: xs'_def yz updated_def)
  have upd: "updateStates update (Some y) A R (set xs) (BFSSearcher xs) w2 = Some (set xs', BFSSearcher xs', w')"
    unfolding x'(2) using u lg(3,4) by (rule updateStates_eq)
  have round: "run_loop selectState update exec (Suc n) i (set xs) (BFSSearcher xs) w =
      map_option (\<lambda>(c, r). (y # c, r)) (run_loop selectState update exec n i2 (set xs') (BFSSearcher xs') w')"
    using e upd by (intro run_loop_round) (simp_all add: yz)
  show ?case
  proof (cases k)
    case 0
    have "searcher_ok (BFSSearcher xs' :: 'd searcher)" "finite (contents (BFSSearcher xs' :: 'd searcher))"
      using x'(1) by simp_all
    from base_scheduler.run_law[OF step(1) this, of n i2 w'] 0 Suc.prems(3) yz show ?thesis
      unfolding round by auto
  next
    case (Suc l)
    have l: "l < length zs" "zs ! l = x" using Suc Suc.prems yz by simp_all
    then have "x \<noteq> y" using Suc.prems(1) yz by auto
    then have "x \<notin> set (fst (snd (exec i (set xs) y (stepInstruction w))))" using keep by metis
    then have "x \<notin> set R" using e by simp
    with filter_index[of l zs "\<lambda>x. x \<notin> set R" "(if y \<in> set R then [] else [y]) @ A"] l
    obtain j where j: "j \<le> l" "j < length xs'" "xs' ! j = x" by (auto simp: xs'_def)
    have "j < n" using j(1) Suc Suc.prems(4) by simp
    from Suc.IH[OF x'(1) j(2,3) this, of i2 w'] show ?thesis
      unfolding round by auto
  qed
qed


section \<open>Examples\<close>

text \<open>Instructions that fork a state with a fresh address and count the forks; every third ends its state.\<close>

definition sample_step :: "(nat, int) executor" where
  "sample_step i S x w =
     (if finite S \<and> i mod 3 \<noteq> 2 then ([Suc (Max S)], [], Suc i, w) else ([], [x], Suc i, w))"

lemma sample_step_ok: "legal_step sample_step" "forks_or_ends sample_step"
proof -
  have "Suc (Max S) \<notin> S" if "finite S" for S :: "est set"
    using Max_ge[OF that] by (metis not_less_eq_eq order_refl)
  then show "legal_step sample_step" "forks_or_ends sample_step"
    by (auto simp: legal_step_def forks_or_ends_def sample_step_def)
qed

definition sample_world :: "int world" where
  "sample_world = \<lparr>clock = int, ticks = 0, slack = 2, rng = word_of_nat, draws = 0, instructions = 0,
     source_line = (\<lambda>_. []), n_constraints = (\<lambda>_. 0), constraintsInstSrc = (\<lambda>_. [])\<rparr>"


theorem bfs_fair_witness:
  "\<exists>chosen i' rest s w'. run_loop selectState update sample_step 3 0 {4, 7, 9} (BFSSearcher [4, 7, 9])
     sample_world = Some (chosen, i', rest, s, w') \<and> 9 \<in> set chosen"
  using bfs_fair[OF sample_step_ok, of 9 "[4, 7, 9]" 2 3 0 sample_world]
  by (simp add: sample_step_def del: run_loop.simps)

text \<open>After \<open>2 ^ 32\<close> instructions the copy of the counter taken at the start of a batch has lost its
  upper half: every batch ends at once, whatever the budget.\<close>

lemma batching_stops:
  assumes "2 ^ 32 \<le> unat (instructions w)"
  shows "fst (batch_over tb ib (Some s) lt (ucast (instructions w)) w)"
proof -
  let ?x = "instructions w" and ?y = "ucast (ucast (instructions w) :: 32 word) :: 64 word"
  have y: "unat ?y = unat ?x mod 2 ^ 32"
    by (simp add: unsigned_ucast_eq take_bit_eq_mod unat_mod_distrib)
  then have "?y \<le> ?x" by (simp add: word_le_nat_alt)
  then have "unat (?x - ?y) = unat ?x - unat ?x mod 2 ^ 32"
    using y by (simp add: unat_sub)
  moreover have "2 ^ 32 \<le> unat ?x - unat ?x mod 2 ^ 32"
    using assms by (metis div_greater_zero_iff le_add_diff_inverse minus_mod_eq_mult_div mult_le_mono2
        mult.right_neutral zero_less_numeral zero_less_power One_nat_def Suc_leI)
  moreover have "unat (ucast ib :: 64 word) < 2 ^ 32"
  proof -
    have "take_bit 64 (unat ib) \<le> unat ib" by (rule take_bit_nat_less_eq_self)
    also have "unat ib < 2 ^ 32" using unsigned_less[where w = ib and ?'a = nat] by simp
    finally show ?thesis by (simp add: unsigned_ucast_eq)
  qed
  ultimately have "ucast ib < ?x - ?y" by (simp add: word_less_nat_alt)
  then show ?thesis by (simp add: batch_over_def getWallTime_def)
qed

end
