(* ===== verification/KTestFile.thy ===== *)
theory KTestFile
  imports Prelude "HOL-Library.Monad_Syntax" "HOL-Library.Sublist" "HOL-Library.Extended_Nat"
begin

text \<open>
  The file format of test cases (\<^verbatim>\<open>src/KleeSE/lib/klee/Basic/KTest.cpp\<close>). A file being read is a list of
  bytes, read from its front; \<open>None\<close> is the error return of the code. A file being written is a stream
  of the C library: the bytes that reached the device, those the library still holds in its buffer, and
  the number of bytes the device has room for. How many of the pending bytes a call of \<^verbatim>\<open>fwrite\<close> passes
  to the device is up to the library: it is a parameter of the model, a function of the numbers of bytes
  sent, held and new. A call fails when the device has no room for the bytes it passes on, and the bytes
  held are passed on, if they fit, when the stream is closed. A C string is the list of its bytes, up to
  the first null byte when it is written. Allocation succeeds, except for the buffer of a string of
  \<open>2 ^ 32 - 1\<close> bytes, whose size wraps to zero.
\<close>

type_synonym byte = "8 word"

section \<open>Streams\<close>

text \<open>\<open>fread(p, n, 1, f) == 1\<close>: reading one item of no bytes does not count as reading one.\<close>

definition fread :: "nat \<Rightarrow> byte list \<Rightarrow> (byte list \<times> byte list) option" where
  "fread n f = (if n = 0 \<or> length f < n then None else Some (take n f, drop n f))"

record out_file =
  device :: "byte list"
  buffer :: "byte list"
  capacity :: nat

type_synonym policy = "nat \<Rightarrow> nat \<Rightarrow> nat \<Rightarrow> nat"
type_synonym writer = "out_file \<Rightarrow> bool \<times> out_file"

definition fopen_wb :: "nat \<Rightarrow> out_file" where
  "fopen_wb space = \<lparr>device = [], buffer = [], capacity = space\<rparr>"

definition transmit :: "nat \<Rightarrow> byte list \<Rightarrow> writer" where
  "transmit n pending f =
     (let n = min n (length pending); room = capacity f - length (device f); k = min n room
      in (n \<le> room, f\<lparr>device := device f @ take k pending, buffer := drop k pending\<rparr>))"

text \<open>\<open>fwrite(p, n, 1, f) == 1\<close>, or \<open>fwrite(p, 1, n, f) == n\<close> for a positive \<open>n\<close>.\<close>

definition fwrite :: "policy \<Rightarrow> byte list \<Rightarrow> writer" where
  "fwrite flushes bs f =
     (if bs = [] then (False, f)
      else transmit (flushes (length (device f)) (length (buffer f)) (length bs)) (buffer f @ bs) f)"

text \<open>Whether closing the stream succeeded, and what the device holds then.\<close>

definition fclose :: "out_file \<Rightarrow> bool \<times> byte list" where
  "fclose f = (case transmit (length (buffer f)) (buffer f) f of (ok, f) \<Rightarrow> (ok, device f))"

text \<open>Calls in order, up to the first that fails.\<close>

primrec in_order :: "writer list \<Rightarrow> writer" where
  "in_order [] f = (True, f)"
| "in_order (w # ws) f = (case w f of (ok, f) \<Rightarrow> if ok then in_order ws f else (False, f))"

fun be32 :: "byte list \<Rightarrow> 32 word" where
  "be32 [d0, d1, d2, d3] =
     push_bit 8 (push_bit 8 (push_bit 8 (ucast d0) + ucast d1) + ucast d2) + ucast d3"
| "be32 _ = 0"

definition read_uint32 :: "byte list \<Rightarrow> (32 word \<times> byte list) option" where
  "read_uint32 f = do { (d, f) \<leftarrow> fread 4 f; Some (be32 d, f) }"

definition bytes32 :: "32 word \<Rightarrow> byte list" where
  "bytes32 v = [ucast (drop_bit 24 v), ucast (drop_bit 16 v), ucast (drop_bit 8 v), ucast v]"

definition write_uint32 :: "policy \<Rightarrow> 32 word \<Rightarrow> writer" where
  "write_uint32 flushes v = fwrite flushes (bytes32 v)"

definition c_string :: "byte list \<Rightarrow> byte list" where
  "c_string s = takeWhile (\<lambda>b. b \<noteq> 0) s"

definition read_string :: "byte list \<Rightarrow> (byte list \<times> byte list) option" where
  "read_string f = do {
     (len, f) \<leftarrow> read_uint32 f;
     if len + 1 = 0 then None else fread (unat len) f }"

definition write_string :: "policy \<Rightarrow> byte list \<Rightarrow> writer" where
  "write_string flushes s =
     (let len = of_nat (length (c_string s)) :: 32 word
      in in_order [write_uint32 flushes len, fwrite flushes (take (unat len) (c_string s))])"

section \<open>Test cases\<close>

record KTestObject =
  obj_name :: "byte list"
  obj_bytes :: "byte list"

record KTest =
  version :: "32 word"
  args :: "byte list list"
  symArgvs :: "32 word"
  symArgvLen :: "32 word"
  objects :: "KTestObject list"

definition KTEST_MAGIC :: "byte list" where
  "KTEST_MAGIC = [75, 84, 69, 83, 84]"

definition BOUT_MAGIC :: "byte list" where
  "BOUT_MAGIC = [66, 79, 85, 84, 10]"

definition getCurrentVersion :: "32 word" where
  "getCurrentVersion = 3"

definition checkHeader :: "byte list \<Rightarrow> byte list option" where
  "checkHeader f = do {
     (h, f) \<leftarrow> fread 5 f;
     if h \<noteq> KTEST_MAGIC \<and> h \<noteq> BOUT_MAGIC then None else Some f }"

text \<open>A file that cannot be opened is \<open>None\<close>.\<close>

definition isKTestFile :: "byte list option \<Rightarrow> bool" where
  "isKTestFile file = (case file of None \<Rightarrow> False | Some f \<Rightarrow> checkHeader f \<noteq> None)"

primrec read_args :: "nat \<Rightarrow> byte list \<Rightarrow> (byte list list \<times> byte list) option" where
  "read_args 0 f = Some ([], f)"
| "read_args (Suc n) f = do {
     (s, f) \<leftarrow> read_string f;
     (ss, f) \<leftarrow> read_args n f;
     Some (s # ss, f) }"

definition read_object :: "byte list \<Rightarrow> (KTestObject \<times> byte list) option" where
  "read_object f = do {
     (s, f) \<leftarrow> read_string f;
     (n, f) \<leftarrow> read_uint32 f;
     (bs, f) \<leftarrow> fread (unat n) f;
     Some (\<lparr>obj_name = s, obj_bytes = bs\<rparr>, f) }"

primrec read_objects :: "nat \<Rightarrow> byte list \<Rightarrow> (KTestObject list \<times> byte list) option" where
  "read_objects 0 f = Some ([], f)"
| "read_objects (Suc n) f = do {
     (b, f) \<leftarrow> read_object f;
     (bs, f) \<leftarrow> read_objects n f;
     Some (b # bs, f) }"

definition read_sym_args :: "32 word \<Rightarrow> byte list \<Rightarrow> ((32 word \<times> 32 word) \<times> byte list) option" where
  "read_sym_args v f =
     (if 2 \<le> v then do {
        (a, f) \<leftarrow> read_uint32 f;
        (l, f) \<leftarrow> read_uint32 f;
        Some ((a, l), f) }
      else Some ((0, 0), f))"

definition read_ktest :: "byte list \<Rightarrow> (KTest \<times> byte list) option" where
  "read_ktest f = do {
     f \<leftarrow> checkHeader f;
     (v, f) \<leftarrow> read_uint32 f;
     if v > getCurrentVersion then None else do {
     (n, f) \<leftarrow> read_uint32 f;
     (as, f) \<leftarrow> read_args (unat n) f;
     (sym, f) \<leftarrow> read_sym_args v f;
     (m, f) \<leftarrow> read_uint32 f;
     (bs, f) \<leftarrow> read_objects (unat m) f;
     Some (\<lparr>version = v, args = as, symArgvs = fst sym, symArgvLen = snd sym, objects = bs\<rparr>, f) } }"

definition kTest_fromFile :: "byte list option \<Rightarrow> KTest option" where
  "kTest_fromFile file =
     (case file of None \<Rightarrow> None | Some f \<Rightarrow> map_option fst (read_ktest f))"

definition write_object :: "policy \<Rightarrow> KTestObject \<Rightarrow> writer" where
  "write_object flushes b = in_order [
     write_string flushes (obj_name b),
     write_uint32 flushes (of_nat (length (obj_bytes b))),
     fwrite flushes (obj_bytes b)]"

definition write_ktest :: "policy \<Rightarrow> KTest \<Rightarrow> writer" where
  "write_ktest flushes t = in_order [
     fwrite flushes KTEST_MAGIC,
     write_uint32 flushes getCurrentVersion,
     write_uint32 flushes (of_nat (length (args t))),
     in_order (map (write_string flushes) (args t)),
     write_uint32 flushes (symArgvs t),
     write_uint32 flushes (symArgvLen t),
     write_uint32 flushes (of_nat (length (objects t))),
     in_order (map (write_object flushes) (objects t))]"

text \<open>
  Whether the call returns 1, and what the file holds then; a file that cannot be opened is \<open>None\<close>, another
  is the room for it. The stream is closed on both paths, and what closing it returns is ignored.
\<close>

definition kTest_toFile :: "policy \<Rightarrow> KTest \<Rightarrow> nat option \<Rightarrow> bool \<times> byte list" where
  "kTest_toFile flushes t file =
     (case file of None \<Rightarrow> (False, [])
      | Some space \<Rightarrow> (case write_ktest flushes t (fopen_wb space) of (ok, f) \<Rightarrow> (ok, snd (fclose f))))"

definition kTest_numBytes :: "KTest \<Rightarrow> 32 word" where
  "kTest_numBytes t = foldl (\<lambda>n b. n + of_nat (length (obj_bytes b))) 0 (objects t)"

section \<open>What is written is read\<close>

lemma push_add_byte:
  fixes x :: "32 word" and b :: byte
  shows "push_bit 8 x + ucast b = push_bit 8 x OR ucast b"
  by (rule disjunctive_add_eq_or, rule bit_word_eqI) (auto simp: bit_simps dest: bit_imp_le_length)

lemma be32_bytes32 [simp]: "be32 (bytes32 v) = v"
  unfolding bytes32_def be32.simps push_add_byte
proof (rule bit_word_eqI)
  fix n :: nat assume "n < LENGTH(32)"
  then consider "n < 8" | "8 \<le> n" "n < 16" | "16 \<le> n" "n < 24" | "24 \<le> n" "n < 32"
    by fastforce
  then show "bit (push_bit 8 (push_bit 8 (push_bit 8 (ucast (ucast (drop_bit 24 v) :: byte)) OR
      ucast (ucast (drop_bit 16 v) :: byte)) OR ucast (ucast (drop_bit 8 v) :: byte)) OR
      ucast (ucast v :: byte) :: 32 word) n \<longleftrightarrow> bit v n"
    by cases (auto simp: bit_simps)
qed

lemma length_bytes32 [simp]: "length (bytes32 v) = 4"
  by (simp add: bytes32_def)

text \<open>
  The bytes given to the library so far, and a buffer that holds at most \<open>B\<close> bytes after a call that
  succeeds. \<open>emits B w E ok\<close>: the writer gives the library the bytes \<open>E\<close>, or the first of them when it
  fails; it fails when it is not \<open>ok\<close>, and otherwise only if they exceed the room of the device.
\<close>

definition given :: "out_file \<Rightarrow> byte list" where
  "given f = device f @ buffer f"

definition buffers :: "enat \<Rightarrow> policy \<Rightarrow> bool" where
  "buffers B flushes \<longleftrightarrow> (\<forall>sent held new. enat held \<le> B \<longrightarrow>
     enat (held + new) \<le> enat (flushes sent held new) + B)"

lemma buffers_any: "buffers \<infinity> flushes"
  by (simp add: buffers_def)

definition emits :: "enat \<Rightarrow> writer \<Rightarrow> byte list \<Rightarrow> bool \<Rightarrow> bool" where
  "emits B w E ok \<longleftrightarrow> (\<forall>f r f'. length (device f) \<le> capacity f \<longrightarrow> enat (length (buffer f)) \<le> B \<longrightarrow> w f = (r, f') \<longrightarrow>
     length (device f') \<le> capacity f' \<and> capacity f' = capacity f \<and>
     (\<exists>P. prefix P E \<and> given f' = given f @ P \<and> (r \<longrightarrow> P = E)) \<and>
     (r \<longrightarrow> ok \<and> enat (length (buffer f')) \<le> B) \<and>
     (\<not> r \<longrightarrow> ok \<longrightarrow> capacity f < length (given f @ E)))"

lemma emitsD:
  assumes "emits B w E ok" "length (device f) \<le> capacity f" "enat (length (buffer f)) \<le> B" "w f = (r, f')"
  shows "length (device f') \<le> capacity f'" "capacity f' = capacity f"
    "\<exists>P. prefix P E \<and> given f' = given f @ P \<and> (r \<longrightarrow> P = E)"
    "r \<Longrightarrow> ok" "r \<Longrightarrow> enat (length (buffer f')) \<le> B" "\<not> r \<Longrightarrow> ok \<Longrightarrow> capacity f < length (given f @ E)"
  using assms unfolding emits_def by blast+

lemma transmit_given: "transmit n pending f = (r, f') \<Longrightarrow> given f' = device f @ pending"
  by (auto simp: transmit_def given_def Let_def)

lemma transmit_device:
  "transmit n pending f = (r, f') \<Longrightarrow> length (device f) \<le> capacity f \<Longrightarrow> length (device f') \<le> capacity f'"
  by (auto simp: transmit_def Let_def)

lemma transmit_capacity: "transmit n pending f = (r, f') \<Longrightarrow> capacity f' = capacity f"
  by (auto simp: transmit_def Let_def)

lemma transmit_done: "transmit n pending f = (True, f') \<Longrightarrow> length (buffer f') = length pending - n"
  by (auto simp: transmit_def Let_def)

lemma transmit_failed: "transmit n pending f = (False, f') \<Longrightarrow> capacity f < length (device f @ pending)"
  by (auto simp: transmit_def Let_def)

lemma emits_fwrite:
  assumes "buffers B flushes"
  shows "emits B (fwrite flushes bs) bs (bs \<noteq> [])"
  unfolding emits_def
proof (intro allI impI)
  fix f r f' assume f: "length (device f) \<le> capacity f" "enat (length (buffer f)) \<le> B" "fwrite flushes bs f = (r, f')"
  let ?n = "flushes (length (device f)) (length (buffer f)) (length bs)"
  have B: "enat (length (buffer f) + length bs) \<le> enat ?n + B" using assms f(2) by (simp add: buffers_def)
  have rest: "enat (length (buffer f) + length bs - ?n) \<le> B" using B by (cases B) auto
  show "length (device f') \<le> capacity f' \<and> capacity f' = capacity f \<and>
     (\<exists>P. prefix P bs \<and> given f' = given f @ P \<and> (r \<longrightarrow> P = bs)) \<and>
     (r \<longrightarrow> bs \<noteq> [] \<and> enat (length (buffer f')) \<le> B) \<and> (\<not> r \<longrightarrow> bs \<noteq> [] \<longrightarrow> capacity f < length (given f @ bs))"
  proof (cases "bs = []")
    case True
    with f show ?thesis by (simp add: fwrite_def)
  next
    case False
    with f(3) have t: "transmit ?n (buffer f @ bs) f = (r, f')" by (simp add: fwrite_def)
    have "given f' = given f @ bs" using transmit_given[OF t] by (simp add: given_def)
    moreover have "r \<longrightarrow> enat (length (buffer f')) \<le> B" using transmit_done t rest by fastforce
    moreover have "\<not> r \<longrightarrow> capacity f < length (given f @ bs)" using transmit_failed t by (fastforce simp: given_def)
    moreover note transmit_device[OF t f(1)] transmit_capacity[OF t]
    ultimately show ?thesis using False by blast
  qed
qed

lemma emits_uint32: "buffers B flushes \<Longrightarrow> emits B (write_uint32 flushes v) (bytes32 v) True"
  using emits_fwrite[of B flushes "bytes32 v"] by (simp add: write_uint32_def) (simp add: bytes32_def)

lemma emits_done: "emits B (in_order []) [] True"
  by (simp add: emits_def)

lemma emits_step:
  assumes w: "emits B w E ok" and ws: "emits B (in_order ws) E' ok'"
  shows "emits B (in_order (w # ws)) (E @ E') (ok \<and> ok')"
  unfolding emits_def
proof (intro allI impI)
  fix f r f' assume f: "length (device f) \<le> capacity f" "enat (length (buffer f)) \<le> B" "in_order (w # ws) f = (r, f')"
  obtain r1 f1 where w1: "w f = (r1, f1)" by fastforce
  note one = emitsD[OF w f(1,2) w1]
  from one(3) obtain P where P: "prefix P E" "given f1 = given f @ P" "r1 \<longrightarrow> P = E" by blast
  show "length (device f') \<le> capacity f' \<and> capacity f' = capacity f \<and>
     (\<exists>P. prefix P (E @ E') \<and> given f' = given f @ P \<and> (r \<longrightarrow> P = E @ E')) \<and>
     (r \<longrightarrow> (ok \<and> ok') \<and> enat (length (buffer f')) \<le> B) \<and>
     (\<not> r \<longrightarrow> ok \<and> ok' \<longrightarrow> capacity f < length (given f @ E @ E'))"
  proof (cases r1)
    case True
    with f(3) w1 have w2: "in_order ws f1 = (r, f')" by simp
    note two = emitsD[OF ws one(1) one(5)[OF True] w2]
    from two(3) obtain P' where P': "prefix P' E'" "given f' = given f1 @ P'" "r \<longrightarrow> P' = E'" by blast
    have "prefix (E @ P') (E @ E')" using P'(1) by simp
    with one(2,4) two(1,2,4-6) P P' True show ?thesis by auto
  next
    case False
    with f(3) w1 have e: "r = False" "f' = f1" by simp_all
    have "prefix P (E @ E')" using P(1) by (rule prefix_prefix)
    with one(1,2,6) P False e show ?thesis by auto
  qed
qed

lemma emits_one: "emits B w E ok \<Longrightarrow> emits B (in_order [w]) E ok"
  using emits_step[OF _ emits_done, of B w E ok] by simp

lemma emits_each:
  assumes "\<forall>x\<in>set xs. emits B (w x) (E x) (ok x)"
  shows "emits B (in_order (map w xs)) (concat (map E xs)) (\<forall>x\<in>set xs. ok x)"
  using assms
proof (induction xs)
  case (Cons x xs)
  then have "emits B (w x) (E x) (ok x)" "emits B (in_order (map w xs)) (concat (map E xs)) (\<forall>x\<in>set xs. ok x)"
    by simp_all
  from emits_step[OF this] show ?case by (simp del: in_order.simps)
qed (use emits_done in simp)

text \<open>The bytes of the parts of a file.\<close>

definition enc_string :: "byte list \<Rightarrow> byte list" where
  "enc_string s = bytes32 (of_nat (length (c_string s))) @ c_string s"

definition enc_object :: "KTestObject \<Rightarrow> byte list" where
  "enc_object b = enc_string (obj_name b) @ bytes32 (of_nat (length (obj_bytes b))) @ obj_bytes b"

definition enc_ktest :: "KTest \<Rightarrow> byte list" where
  "enc_ktest t = KTEST_MAGIC @ bytes32 getCurrentVersion @ bytes32 (of_nat (length (args t))) @
     concat (map enc_string (args t)) @ bytes32 (symArgvs t) @ bytes32 (symArgvLen t) @
     bytes32 (of_nat (length (objects t))) @ concat (map enc_object (objects t))"

text \<open>The sizes the fields of the code's structures can hold.\<close>

definition string_fits :: "byte list \<Rightarrow> bool" where
  "string_fits s \<longleftrightarrow> length (c_string s) < 2 ^ 32 - 1"

definition object_fits :: "KTestObject \<Rightarrow> bool" where
  "object_fits b \<longleftrightarrow> string_fits (obj_name b) \<and> length (obj_bytes b) < 2 ^ 32"

definition ktest_fits :: "KTest \<Rightarrow> bool" where
  "ktest_fits t \<longleftrightarrow> length (args t) < 2 ^ 32 \<and> length (objects t) < 2 ^ 32 \<and>
     (\<forall>s\<in>set (args t). string_fits s) \<and> (\<forall>b\<in>set (objects t). object_fits b)"

definition object_nonempty :: "KTestObject \<Rightarrow> bool" where
  "object_nonempty b \<longleftrightarrow> c_string (obj_name b) \<noteq> [] \<and> obj_bytes b \<noteq> []"

definition ktest_nonempty :: "KTest \<Rightarrow> bool" where
  "ktest_nonempty t \<longleftrightarrow> (\<forall>s\<in>set (args t). c_string s \<noteq> []) \<and> (\<forall>b\<in>set (objects t). object_nonempty b)"

lemma unat_of_nat32 [simp]: "n < 2 ^ 32 \<Longrightarrow> unat (of_nat n :: 32 word) = n"
  by (simp add: unsigned_of_nat take_bit_nat_eq_self)

lemma emits_string:
  assumes "buffers B flushes" "string_fits s"
  shows "emits B (write_string flushes s) (enc_string s) (c_string s \<noteq> [])"
proof -
  have "unat (of_nat (length (c_string s)) :: 32 word) = length (c_string s)"
    using assms(2) by (intro unat_of_nat32) (simp add: string_fits_def)
  then have "write_string flushes s =
      in_order [write_uint32 flushes (of_nat (length (c_string s))), fwrite flushes (c_string s)]"
    by (simp add: write_string_def Let_def)
  then show ?thesis
    using emits_step[OF emits_uint32 emits_one[OF emits_fwrite], OF assms(1) assms(1)]
    by (simp add: enc_string_def)
qed

lemma emits_object:
  assumes "buffers B flushes" "object_fits b"
  shows "emits B (write_object flushes b) (enc_object b) (object_nonempty b)"
proof -
  have "emits B (write_string flushes (obj_name b)) (enc_string (obj_name b)) (c_string (obj_name b) \<noteq> [])"
    using assms by (intro emits_string) (simp_all add: object_fits_def)
  from emits_step[OF this emits_step[OF emits_uint32[OF assms(1)] emits_one[OF emits_fwrite[OF assms(1)]]]]
  show ?thesis
    by (simp add: write_object_def enc_object_def object_nonempty_def)
qed

lemma emits_ktest:
  assumes b: "buffers B flushes" and t: "ktest_fits t"
  shows "emits B (write_ktest flushes t) (enc_ktest t) (ktest_nonempty t)"
proof -
  have a: "emits B (in_order (map (write_string flushes) (args t))) (concat (map enc_string (args t)))
      (\<forall>s\<in>set (args t). c_string s \<noteq> [])"
    using t by (intro emits_each ballI emits_string b) (simp add: ktest_fits_def)
  have o: "emits B (in_order (map (write_object flushes) (objects t))) (concat (map enc_object (objects t)))
      (\<forall>b\<in>set (objects t). object_nonempty b)"
    using t by (intro emits_each ballI emits_object b) (simp add: ktest_fits_def)
  have "emits B (write_ktest flushes t) (enc_ktest t) (KTEST_MAGIC \<noteq> [] \<and> True \<and> True \<and>
      (\<forall>s\<in>set (args t). c_string s \<noteq> []) \<and> True \<and> True \<and> True \<and> (\<forall>b\<in>set (objects t). object_nonempty b))"
    unfolding enc_ktest_def write_ktest_def
    by (intro emits_step emits_fwrite emits_uint32 emits_one a o b)
  then show ?thesis by (simp add: ktest_nonempty_def KTEST_MAGIC_def)
qed

text \<open>The whole call: what it returns, and the file it leaves.\<close>

lemma toFile_result:
  assumes "buffers B flushes" "ktest_fits t" "kTest_toFile flushes t (Some space) = (r, bs)"
  shows "prefix bs (enc_ktest t)" "r \<Longrightarrow> ktest_nonempty t \<and> bs = take space (enc_ktest t)"
    "ktest_nonempty t \<Longrightarrow> length (enc_ktest t) \<le> space \<Longrightarrow> r"
    "r \<Longrightarrow> enat (length (enc_ktest t)) \<le> enat space + B"
proof -
  obtain f where w: "write_ktest flushes t (fopen_wb space) = (r, f)" "bs = snd (fclose f)"
    using assms(3) by (auto simp: kTest_toFile_def split: prod.splits)
  have o: "length (device (fopen_wb space)) \<le> capacity (fopen_wb space)" "enat (length (buffer (fopen_wb space))) \<le> B"
    "given (fopen_wb space) = []" "capacity (fopen_wb space) = space"
    by (simp_all add: fopen_wb_def given_def flip: zero_enat_def)
  note e = emitsD[OF emits_ktest[OF assms(1,2)] o(1,2) w(1), unfolded o(3,4)]
  from e(3) obtain P where P: "prefix P (enc_ktest t)" "given f = P" "r \<longrightarrow> P = enc_ktest t" by auto
  have bs: "bs = take space P"
    using e(1,2) unfolding w(2) P(2)[symmetric] by (simp add: fclose_def transmit_def Let_def given_def min_def)
  show "prefix bs (enc_ktest t)" unfolding bs using P(1) take_is_prefix prefix_order.trans by blast
  show "r \<Longrightarrow> ktest_nonempty t \<and> bs = take space (enc_ktest t)" using e(4) P(3) bs by simp
  show "ktest_nonempty t \<Longrightarrow> length (enc_ktest t) \<le> space \<Longrightarrow> r" using e(6) by force
  show "r \<Longrightarrow> enat (length (enc_ktest t)) \<le> enat space + B"
    using e(1,2,5) arg_cong[OF P(2), of length] P(3) by (cases B) (auto simp: given_def)
qed

text \<open>A library that keeps as much as it is given: whatever it does, it holds no more than that.\<close>

text \<open>\<open>parses r E v\<close>: the reader takes the bytes \<open>E\<close> from the front and returns \<open>v\<close>.\<close>

definition parses :: "(byte list \<Rightarrow> ('v \<times> byte list) option) \<Rightarrow> byte list \<Rightarrow> 'v \<Rightarrow> bool" where
  "parses r E v \<longleftrightarrow> (\<forall>f. r (E @ f) = Some (v, f))"

lemma parses_fread: "E \<noteq> [] \<Longrightarrow> n = length E \<Longrightarrow> parses (fread n) E E"
  by (simp add: parses_def fread_def)

lemma parses_uint32: "parses read_uint32 (bytes32 v) v"
  by (simp add: parses_def read_uint32_def fread_def)

lemma parses_string:
  assumes "string_fits s" "c_string s \<noteq> []"
  shows "parses read_string (enc_string s) (c_string s)"
proof -
  let ?n = "length (c_string s)"
  have n: "unat (of_nat ?n :: 32 word) = ?n"
    using assms(1) by (intro unat_of_nat32) (simp add: string_fits_def)
  have "of_nat ?n + 1 \<noteq> (0 :: 32 word)"
  proof
    assume "of_nat ?n + 1 = (0 :: 32 word)"
    then have "unat (of_nat (Suc ?n) :: 32 word) = 0" by (simp add: add.commute)
    moreover have "unat (of_nat (Suc ?n) :: 32 word) = Suc ?n"
      using assms(1) by (intro unat_of_nat32) (simp add: string_fits_def)
    ultimately show False by simp
  qed
  then show ?thesis
    using parses_uint32 parses_fread[OF assms(2), of ?n] n
    by (simp add: parses_def read_string_def enc_string_def)
qed

definition reread_object :: "KTestObject \<Rightarrow> KTestObject" where
  "reread_object b = b\<lparr>obj_name := c_string (obj_name b)\<rparr>"

lemma parses_object:
  assumes "object_fits b" "object_nonempty b"
  shows "parses read_object (enc_object b) (reread_object b)"
proof -
  have s: "parses read_string (enc_string (obj_name b)) (c_string (obj_name b))"
    using assms by (intro parses_string) (simp_all add: object_fits_def object_nonempty_def)
  have b: "parses (fread (unat (of_nat (length (obj_bytes b)) :: 32 word))) (obj_bytes b) (obj_bytes b)"
    using assms by (intro parses_fread) (simp_all add: object_fits_def object_nonempty_def)
  show ?thesis
    unfolding read_object_def[abs_def] enc_object_def
    using s b parses_uint32 by (simp add: parses_def reread_object_def)
qed

lemma parses_args:
  "\<forall>s\<in>set ss. string_fits s \<and> c_string s \<noteq> [] \<Longrightarrow>
     parses (read_args (length ss)) (concat (map enc_string ss)) (map c_string ss)"
  by (induction ss) (use parses_string in \<open>auto simp: parses_def\<close>)

lemma parses_objects:
  "\<forall>b\<in>set bs. object_fits b \<and> object_nonempty b \<Longrightarrow>
     parses (read_objects (length bs)) (concat (map enc_object bs)) (map reread_object bs)"
  by (induction bs) (use parses_object in \<open>auto simp: parses_def\<close>)

definition reread :: "KTest \<Rightarrow> KTest" where
  "reread t = t\<lparr>version := getCurrentVersion, args := map c_string (args t),
     objects := map reread_object (objects t)\<rparr>"

lemma parses_ktest:
  assumes "ktest_fits t" "ktest_nonempty t"
  shows "parses read_ktest (enc_ktest t) (reread t)"
proof -
  have a: "parses (read_args (unat (of_nat (length (args t)) :: 32 word)))
      (concat (map enc_string (args t))) (map c_string (args t))"
    using assms parses_args[of "args t"] by (simp add: ktest_fits_def ktest_nonempty_def)
  have b: "parses (read_objects (unat (of_nat (length (objects t)) :: 32 word)))
      (concat (map enc_object (objects t))) (map reread_object (objects t))"
    using assms parses_objects[of "objects t"] by (simp add: ktest_fits_def ktest_nonempty_def)
  have h: "checkHeader (KTEST_MAGIC @ f) = Some f" for f
    by (simp add: checkHeader_def fread_def KTEST_MAGIC_def)
  show ?thesis
    using a b parses_uint32 unfolding parses_def enc_ktest_def read_ktest_def
    by (simp add: h read_sym_args_def) (simp add: getCurrentVersion_def reread_def)
qed


text \<open>A reader that succeeds leaves the rest of a longer file alone.\<close>

definition local_reader :: "(byte list \<Rightarrow> ('v \<times> byte list) option) \<Rightarrow> bool" where
  "local_reader r \<longleftrightarrow> (\<forall>f v f' x. r f = Some (v, f') \<longrightarrow> r (f @ x) = Some (v, f' @ x))"

lemma local_fread: "local_reader (fread n)"
  by (auto simp: local_reader_def fread_def split: if_splits)

lemma local_bind:
  "local_reader r \<Longrightarrow> (\<And>v. local_reader (r' v)) \<Longrightarrow>
     local_reader (\<lambda>f. Option.bind (r f) (\<lambda>(v, f). r' v f))"
  by (fastforce simp: local_reader_def split: Option.bind_splits)

lemma local_return: "local_reader (\<lambda>f. Some (v, f))"
  by (simp add: local_reader_def)

lemma local_if: "local_reader r \<Longrightarrow> local_reader s \<Longrightarrow> local_reader (\<lambda>f. if b then r f else s f)"
  by (simp add: local_reader_def)

lemma local_none: "local_reader (\<lambda>f. None)"
  by (simp add: local_reader_def)

lemmas local_rules = local_bind local_return local_if local_none local_fread

lemma local_uint32: "local_reader read_uint32"
  unfolding read_uint32_def[abs_def] by (intro local_rules)

lemma local_string: "local_reader read_string"
  unfolding read_string_def[abs_def] by (intro local_rules local_uint32)

lemma local_object: "local_reader read_object"
  unfolding read_object_def[abs_def] by (intro local_rules local_uint32 local_string)

lemma local_args: "local_reader (read_args n)"
proof (induction n)
  case (Suc n)
  have "read_args (Suc n) = (\<lambda>f. do { (s, f) \<leftarrow> read_string f; (ss, f) \<leftarrow> read_args n f; Some (s # ss, f) })"
    by (simp add: fun_eq_iff)
  then show ?case by (simp only:) (intro local_rules local_string Suc)
qed (simp add: local_reader_def)

lemma local_objects: "local_reader (read_objects n)"
proof (induction n)
  case (Suc n)
  have "read_objects (Suc n) =
      (\<lambda>f. do { (b, f) \<leftarrow> read_object f; (bs, f) \<leftarrow> read_objects n f; Some (b # bs, f) })"
    by (simp add: fun_eq_iff)
  then show ?case by (simp only:) (intro local_rules local_object Suc)
qed (simp add: local_reader_def)

lemma local_sym_args: "local_reader (read_sym_args v)"
  unfolding read_sym_args_def[abs_def] by (intro local_rules local_uint32)

lemma local_ktest: "local_reader read_ktest"
proof -
  have eq: "read_ktest = (\<lambda>f. do {
     (h, f) \<leftarrow> fread 5 f;
     if h \<noteq> KTEST_MAGIC \<and> h \<noteq> BOUT_MAGIC then None else do {
     (v, f) \<leftarrow> read_uint32 f;
     if v > getCurrentVersion then None else do {
     (n, f) \<leftarrow> read_uint32 f;
     (as, f) \<leftarrow> read_args (unat n) f;
     (sym, f) \<leftarrow> read_sym_args v f;
     (m, f) \<leftarrow> read_uint32 f;
     (bs, f) \<leftarrow> read_objects (unat m) f;
     Some (\<lparr>version = v, args = as, symArgvs = fst sym, symArgvLen = snd sym, objects = bs\<rparr>, f) } } })"
    by (auto simp: read_ktest_def checkHeader_def fun_eq_iff split: Option.bind_splits)
  show ?thesis
    by (subst eq) (intro local_rules local_uint32 local_args local_sym_args local_objects)
qed

lemma read_back:
  assumes "ktest_fits t" "ktest_nonempty t"
  shows "kTest_fromFile (Some (enc_ktest t @ rest)) = Some (reread t)"
  using parses_ktest[OF assms] by (simp add: kTest_fromFile_def parses_def)

lemma read_prefix:
  assumes "ktest_fits t" "ktest_nonempty t" "n < length (enc_ktest t)"
  shows "kTest_fromFile (Some (take n (enc_ktest t))) = None"
proof (cases "read_ktest (take n (enc_ktest t))")
  case (Some r)
  then have "read_ktest (take n (enc_ktest t) @ drop n (enc_ktest t)) = Some (fst r, snd r @ drop n (enc_ktest t))"
    using local_ktest unfolding local_reader_def by (metis prod.collapse)
  moreover have "read_ktest (enc_ktest t @ []) = Some (reread t, [])"
    using parses_ktest[OF assms(1,2)] unfolding parses_def by blast
  ultimately show ?thesis using assms(3) by simp
qed (simp add: kTest_fromFile_def)

section \<open>The properties\<close>

text \<open>C39: When writing a test case is reported as done, the file is read again if the device had room for
  it: every argument and object name up to its first null byte, all object bytes, and the present
  version, whatever follows in the file; and every proper prefix of it is refused. If the device had no
  room for all of it, the file is refused: a test case is never read as another. How the library buffers
  does not matter.\<close>
theorem ktest_roundtrip:
  assumes "ktest_fits t" and "kTest_toFile flushes t (Some space) = (True, bs)"
  shows "if length (enc_ktest t) \<le> space
    then kTest_fromFile (Some (bs @ rest)) = Some (reread t) \<and> (\<forall>n < length bs. kTest_fromFile (Some (take n bs)) = None)
    else kTest_fromFile (Some bs) = None"
proof -
  have ne: "ktest_nonempty t" and bs: "bs = take space (enc_ktest t)"
    using toFile_result(2)[OF buffers_any assms] by simp_all
  show ?thesis
    using read_back[OF assms(1) ne] read_prefix[OF assms(1) ne] unfolding bs by simp
qed

text \<open>C40: Whatever the library buffers, the file left by a call is a prefix of the encoding. The call
  reports an error if some argument, object name or object is empty (an item of no bytes does not count as
  written), or if the encoding exceeds the room of the device by more than the library can hold in its
  buffer. Otherwise, if the device has room, it reports success and the whole encoding is in the file. (In
  between, closing the stream may fail, which the code ignores: the call then reports success, and the file
  has as much of the encoding as the device has room for.)\<close>
theorem ktest_write_fails:
  assumes "ktest_fits t" "buffers (enat B) flushes" and "kTest_toFile flushes t (Some space) = (r, bs)"
  defines "empty_item \<equiv> (\<exists>s\<in>set (args t). c_string s = []) \<or>
      (\<exists>b\<in>set (objects t). c_string (obj_name b) = [] \<or> obj_bytes b = [])"
  shows "prefix bs (enc_ktest t) \<and> (r \<longrightarrow> bs = take space (enc_ktest t)) \<and>
    (empty_item \<or> space + B < length (enc_ktest t) \<longrightarrow> \<not> r) \<and>
    (\<not> empty_item \<and> length (enc_ktest t) \<le> space \<longrightarrow> r \<and> bs = enc_ktest t)"
proof -
  have e: "empty_item \<longleftrightarrow> \<not> ktest_nonempty t"
    unfolding empty_item_def ktest_nonempty_def object_nonempty_def by blast
  note w = toFile_result[OF assms(2,1,3)]
  from w(4) have "r \<Longrightarrow> length (enc_ktest t) \<le> space + B" by simp
  with w(1-3) show ?thesis unfolding e by fastforce
qed

text \<open>A library that keeps what fits its buffer and sends everything else.\<close>

definition block_buffered :: "nat \<Rightarrow> policy" where
  "block_buffered B sent held new = (if held + new \<le> B then 0 else held + new)"

lemma block_buffered_buffers: "buffers (enat B) (block_buffered B)"
  by (simp add: buffers_def block_buffered_def)

definition sample_ktest :: KTest where
  "sample_ktest = \<lparr>version = 3, args = [[97, 0, 98]], symArgvs = 1, symArgvLen = 2,
     objects = [\<lparr>obj_name = [120], obj_bytes = [1, 2]\<rparr>]\<rparr>"

lemma sample_ktest_fits: "ktest_fits sample_ktest"
  by (simp add: ktest_fits_def sample_ktest_def string_fits_def object_fits_def c_string_def)

lemma sample_ktest_nonempty: "ktest_nonempty sample_ktest"
  by (simp add: ktest_nonempty_def object_nonempty_def sample_ktest_def c_string_def)

lemma sample_ktest_length: "length (enc_ktest sample_ktest) = 41"
  by (simp add: sample_ktest_def c_string_def enc_ktest_def enc_string_def enc_object_def KTEST_MAGIC_def)

theorem ktest_roundtrip_witness:
  "\<exists>bs. kTest_toFile (block_buffered 16) sample_ktest (Some 100) = (True, bs) \<and>
     kTest_fromFile (Some (bs @ [7])) = Some (reread sample_ktest)"
proof -
  obtain r bs where w: "kTest_toFile (block_buffered 16) sample_ktest (Some 100) = (r, bs)" by fastforce
  then have "r" using toFile_result(3)[OF block_buffered_buffers sample_ktest_fits w] sample_ktest_nonempty
    by (simp add: sample_ktest_length)
  with w ktest_roundtrip[OF sample_ktest_fits, of "block_buffered 16" 100 bs "[7]"] show ?thesis
    by (simp add: sample_ktest_length)
qed

theorem ktest_write_fails_witness:
  "\<not> fst (kTest_toFile (block_buffered 16) sample_ktest (Some 5)) \<and>
   kTest_toFile (block_buffered 16) sample_ktest (Some 41) = (True, enc_ktest sample_ktest)"
proof -
  note w = ktest_write_fails[OF sample_ktest_fits block_buffered_buffers, of 16 _ "fst f" "snd f" for f]
  from w[of 5 "kTest_toFile (block_buffered 16) sample_ktest (Some 5)"]
    w[of 41 "kTest_toFile (block_buffered 16) sample_ktest (Some 41)"] sample_ktest_nonempty show ?thesis
    by (auto simp: sample_ktest_length ktest_nonempty_def object_nonempty_def prod_eq_iff)
qed

text \<open>
  The result of closing the stream is ignored, so a call can report success and leave an empty file: the
  test case fits the buffer of the library, and the device is full.
\<close>

lemma fwrite_held:
  "bs \<noteq> [] \<Longrightarrow> length (buffer f) + length bs \<le> B \<Longrightarrow>
     fwrite (block_buffered B) bs f = (True, f\<lparr>buffer := buffer f @ bs\<rparr>)"
  by (simp add: fwrite_def block_buffered_def transmit_def)

lemma unreported_truncation:
  "kTest_toFile (block_buffered 4096) sample_ktest (Some 0) = (True, [])"
proof -
  have b: "bytes32 v \<noteq> []" for v by (simp add: bytes32_def)
  show ?thesis
    by (simp add: kTest_toFile_def write_ktest_def write_object_def write_string_def write_uint32_def b
        fwrite_held fopen_wb_def fclose_def transmit_def sample_ktest_def c_string_def KTEST_MAGIC_def)
qed

end
