(* ===== verification/MapOfSets.thy ===== *)
theory MapOfSets
  imports Prelude "HOL-Library.Sublist"
begin

text \<open>
  Maps keyed by sets, stored as a tree of their elements in ascending order
  (\<^verbatim>\<open>include/klee/Internal/ADT/MapOfSets.h\<close>). A \<open>std::set\<close> is the list of its elements in ascending order
  of \<open>lt\<close>, and the \<open>std::map\<close> of the children of a node the list of its entries in that order; an iterator
  into either is the rest of the list. The laws of the order are the locale \<open>key_order\<close>.
\<close>

section \<open>Nodes\<close>

text \<open>The flag \<open>isEndOfSet\<close> with the value it guards is an option.\<close>

datatype ('k, 'v) mnode = MNode (entry: "'v option") (children: "('k \<times> ('k, 'v) mnode) list")

definition empty_node :: "('k, 'v) mnode" where
  "empty_node = MNode None []"

lemma mnode_induct [case_names MNode]:
  assumes "\<And>v kids. (\<And>k c. (k, c) \<in> set kids \<Longrightarrow> P c) \<Longrightarrow> P (MNode v kids)"
  shows "P n"
  by (induction n rule: mnode.induct) (metis assms snds.intros snd_conv)

definition kids_size :: "('k \<times> ('k, 'v) mnode) list \<Rightarrow> nat" where
  "kids_size kids = (\<Sum>(k, c) \<leftarrow> kids. Suc (size c))"

lemma kids_size_simps [simp]:
  "kids_size [] = 0" "kids_size (p # kids) = Suc (size (snd p)) + kids_size kids"
  by (simp_all add: kids_size_def case_prod_beta)

lemma kids_size_less [simp]: "kids_size kids < size (MNode v kids)"
proof -
  have "kids_size kids \<le> size_list (size_prod (\<lambda>_. 0) size) kids"
    by (induction kids) auto
  then show ?thesis by simp
qed

lemma kids_size_mem: "(k, c) \<in> set kids \<Longrightarrow> Suc (size c) \<le> kids_size kids"
  by (induction kids) auto

section \<open>Operations\<close>

text \<open>\<open>children.insert(make_pair(k, Node()))\<close>, and \<open>f\<close> of the child it finds or makes.\<close>

fun alter_child :: "('k \<Rightarrow> 'k \<Rightarrow> bool) \<Rightarrow> 'k \<Rightarrow> (('k, 'v) mnode \<Rightarrow> ('k, 'v) mnode) \<Rightarrow>
    ('k \<times> ('k, 'v) mnode) list \<Rightarrow> ('k \<times> ('k, 'v) mnode) list" where
  "alter_child lt k f [] = [(k, f empty_node)]"
| "alter_child lt k f ((k', c) # kids) =
     (if k' = k then (k', f c) # kids
      else if lt k k' then (k, f empty_node) # (k', c) # kids
      else (k', c) # alter_child lt k f kids)"

fun mos_insert :: "('k \<Rightarrow> 'k \<Rightarrow> bool) \<Rightarrow> 'k list \<Rightarrow> 'v \<Rightarrow> ('k, 'v) mnode \<Rightarrow> ('k, 'v) mnode" where
  "mos_insert lt [] v n = MNode (Some v) (children n)"
| "mos_insert lt (k # ks) v n = MNode (entry n) (alter_child lt k (mos_insert lt ks v) (children n))"

fun mos_lookup :: "'k list \<Rightarrow> ('k, 'v) mnode \<Rightarrow> 'v option" where
  "mos_lookup [] n = entry n"
| "mos_lookup (k # ks) n =
     (case map_of (children n) k of None \<Rightarrow> None | Some c \<Rightarrow> mos_lookup ks c)"

definition mos_clear :: "('k, 'v) mnode \<Rightarrow> ('k, 'v) mnode" where
  "mos_clear n = MNode None []"

text \<open>\<open>findSubsets\<close>: the elements of the set that lead to a child are followed in turn.\<close>

definition end_of_set :: "'k list \<Rightarrow> ('k, 'v) mnode \<Rightarrow> ('k list \<times> 'v) list" where
  "end_of_set accum n = (case entry n of Some v \<Rightarrow> [(accum, v)] | None \<Rightarrow> [])"

fun subsets_loop :: "('k \<times> ('k, 'v) mnode) list \<Rightarrow> 'k list \<Rightarrow> 'k list \<Rightarrow> ('k list \<times> 'v) list" where
  "subsets_loop kids accum [] = []"
| "subsets_loop kids accum (elt # it) =
     (case map_of kids elt of
        Some c \<Rightarrow> end_of_set (accum @ [elt]) c @ subsets_loop (children c) (accum @ [elt]) it
      | None \<Rightarrow> []) @ subsets_loop kids accum it"

definition findSubsets :: "('k, 'v) mnode \<Rightarrow> 'k list \<Rightarrow> 'k list \<Rightarrow> ('k list \<times> 'v) list" where
  "findSubsets n accum ks = end_of_set accum n @ subsets_loop (children n) accum ks"

definition mos_subsets :: "'k list \<Rightarrow> ('k, 'v) mnode \<Rightarrow> ('k list \<times> 'v) list" where
  "mos_subsets ks n = findSubsets n [] ks"

text \<open>\<open>findSupersets\<close>, and its loops over the children; the loop ends at a child beyond the element.\<close>

function findSupersets ::
    "('k \<Rightarrow> 'k \<Rightarrow> bool) \<Rightarrow> ('k, 'v) mnode \<Rightarrow> 'k list \<Rightarrow> 'k list \<Rightarrow> ('k list \<times> 'v) list"
  and supersets_loop ::
    "('k \<Rightarrow> 'k \<Rightarrow> bool) \<Rightarrow> ('k \<times> ('k, 'v) mnode) list \<Rightarrow> 'k list \<Rightarrow> 'k list \<Rightarrow> ('k list \<times> 'v) list" where
  "findSupersets lt (MNode v kids) accum ks =
     (if ks = [] then end_of_set accum (MNode v kids) else []) @ supersets_loop lt kids accum ks"
| "supersets_loop lt [] accum ks = []"
| "supersets_loop lt ((k, c) # it) accum [] =
     findSupersets lt c (accum @ [k]) [] @ supersets_loop lt it accum []"
| "supersets_loop lt ((k, c) # it) accum (elt # rest) =
     (if elt = k then findSupersets lt c (accum @ [k]) rest @ supersets_loop lt it accum (elt # rest)
      else if lt k elt then findSupersets lt c (accum @ [k]) (elt # rest) @ supersets_loop lt it accum (elt # rest)
      else [])"
  by pat_completeness auto
termination
  by (relation "measure (\<lambda>x. case x of Inl (lt, n, accum, ks) \<Rightarrow> size n
    | Inr (lt, kids, accum, ks) \<Rightarrow> kids_size kids)") (auto simp del: mnode.size)

definition mos_supersets :: "('k \<Rightarrow> 'k \<Rightarrow> bool) \<Rightarrow> 'k list \<Rightarrow> ('k, 'v) mnode \<Rightarrow> ('k list \<times> 'v) list" where
  "mos_supersets lt ks n = findSupersets lt n [] ks"

definition kids_lower_bound :: "('k \<Rightarrow> 'k \<Rightarrow> bool) \<Rightarrow> 'k \<Rightarrow> ('k \<times> 'c) list \<Rightarrow> ('k \<times> 'c) list" where
  "kids_lower_bound lt k kids = dropWhile (\<lambda>(k', c). lt k' k) kids"

lemma kids_size_lower_bound: "kids_size (kids_lower_bound lt k kids) \<le> kids_size kids"
  by (induction kids) (auto simp: kids_lower_bound_def)

text \<open>
  \<open>findSubset\<close> walks the rest of the set and the children side by side: the element is advanced to
  the child, an equal pair is descended, and the child is advanced to the element.
\<close>

function find_subset ::
    "('k \<Rightarrow> 'k \<Rightarrow> bool) \<Rightarrow> ('v \<Rightarrow> bool) \<Rightarrow> 'k list \<Rightarrow> ('k, 'v) mnode \<Rightarrow> 'v option"
  and subset_loop ::
    "('k \<Rightarrow> 'k \<Rightarrow> bool) \<Rightarrow> ('v \<Rightarrow> bool) \<Rightarrow> 'k list \<Rightarrow> ('k \<times> ('k, 'v) mnode) list \<Rightarrow> 'v option" where
  "find_subset lt p ks (MNode v kids) =
     (case v of
        Some x \<Rightarrow> if p x then Some x else
          (case ks of [] \<Rightarrow> None | k # _ \<Rightarrow> subset_loop lt p ks (kids_lower_bound lt k kids))
      | None \<Rightarrow> (case ks of [] \<Rightarrow> None | k # _ \<Rightarrow> subset_loop lt p ks (kids_lower_bound lt k kids)))"
| "subset_loop lt p it [] = None"
| "subset_loop lt p [] (kc # kids) = None"
| "subset_loop lt p (i # it) ((k, c) # kids) =
     (if lt i k then subset_loop lt p it ((k, c) # kids)
      else if i = k then
        (case find_subset lt p it c of
           Some r \<Rightarrow> Some r
         | None \<Rightarrow> subset_loop lt p it ((k, c) # kids))
      else subset_loop lt p (i # it) kids)"
  by pat_completeness auto
termination
  by (relation "measures [\<lambda>x. case x of Inl (lt, p, ks, n) \<Rightarrow> size n | Inr (lt, p, it, kids) \<Rightarrow> kids_size kids,
      \<lambda>x. case x of Inl (lt, p, ks, n) \<Rightarrow> length ks | Inr (lt, p, it, kids) \<Rightarrow> length it]")
    (auto simp del: mnode.size intro: le_less_trans[OF kids_size_lower_bound kids_size_less])

definition findSubset :: "('k \<Rightarrow> 'k \<Rightarrow> bool) \<Rightarrow> 'k list \<Rightarrow> ('v \<Rightarrow> bool) \<Rightarrow> ('k, 'v) mnode \<Rightarrow> 'v option" where
  "findSubset lt ks p n = find_subset lt p ks n"

text \<open>
  \<open>findSuperset\<close> tries every child with the set as it is, whatever its element, and then the child
  of the first element with the rest.
\<close>

function find_superset ::
    "('k \<Rightarrow> 'k \<Rightarrow> bool) \<Rightarrow> ('v \<Rightarrow> bool) \<Rightarrow> 'k list \<Rightarrow> ('k, 'v) mnode \<Rightarrow> 'v option"
  and superset_loop ::
    "('k \<Rightarrow> 'k \<Rightarrow> bool) \<Rightarrow> ('v \<Rightarrow> bool) \<Rightarrow> 'k list \<Rightarrow> ('k \<times> ('k, 'v) mnode) list \<Rightarrow> 'v option" where
  "find_superset lt p [] (MNode v kids) =
     (case v of
        Some x \<Rightarrow> if p x then Some x else superset_loop lt p [] kids
      | None \<Rightarrow> superset_loop lt p [] kids)"
| "find_superset lt p (k # ks) (MNode v kids) =
     (case superset_loop lt p (k # ks) kids of
        Some r \<Rightarrow> Some r
      | None \<Rightarrow>
          (case kids_lower_bound lt k kids of
             [] \<Rightarrow> None
           | (k', c) # _ \<Rightarrow> if k = k' then find_superset lt p ks c else None))"
| "superset_loop lt p ks [] = None"
| "superset_loop lt p ks ((k, c) # kids) =
     (case find_superset lt p ks c of Some r \<Rightarrow> Some r | None \<Rightarrow> superset_loop lt p ks kids)"
  by pat_completeness auto
termination
proof (relation "measure (\<lambda>x. case x of Inl (lt, p, ks, n) \<Rightarrow> size n
    | Inr (lt, p, ks, kids) \<Rightarrow> kids_size kids)", goal_cases)
  case (5 lt p k ks v kids kc rest k' c)
  then have "size c < kids_size kids"
    using kids_size_lower_bound[of lt k kids] by auto
  then show ?case
    using less_trans[OF _ kids_size_less[of kids v]] by (simp del: mnode.size)
qed (auto simp del: mnode.size)

definition findSuperset :: "('k \<Rightarrow> 'k \<Rightarrow> bool) \<Rightarrow> 'k list \<Rightarrow> ('v \<Rightarrow> bool) \<Rightarrow> ('k, 'v) mnode \<Rightarrow> 'v option" where
  "findSuperset lt ks p n = find_superset lt p ks n"


section \<open>The order and the invariant\<close>

locale key_order =
  fixes lt :: "'k \<Rightarrow> 'k \<Rightarrow> bool" and K :: "'k set"
  assumes lt_irrefl: "\<not> lt x x"
    and lt_trans: "lt x y \<Longrightarrow> lt y z \<Longrightarrow> lt x z"
    and lt_total: "x \<in> K \<Longrightarrow> y \<in> K \<Longrightarrow> x \<noteq> y \<Longrightarrow> lt x y \<or> lt y x"

definition ascending :: "('k \<Rightarrow> 'k \<Rightarrow> bool) \<Rightarrow> 'k set \<Rightarrow> 'k list \<Rightarrow> bool" where
  "ascending lt K ks \<longleftrightarrow> sorted_wrt lt ks \<and> set ks \<subseteq> K"

lemma ascending_simps [simp]:
  "ascending lt K []"
  "ascending lt K (k # ks) \<longleftrightarrow> k \<in> K \<and> (\<forall>j \<in> set ks. lt k j) \<and> ascending lt K ks"
  by (auto simp: ascending_def)

fun mos_ok :: "('k \<Rightarrow> 'k \<Rightarrow> bool) \<Rightarrow> 'k set \<Rightarrow> ('k, 'v) mnode \<Rightarrow> bool" where
  "mos_ok lt K (MNode v kids) \<longleftrightarrow>
     ascending lt K (map fst kids) \<and> (\<forall>p \<in> set kids. mos_ok lt K (snd p))"

lemma mos_ok_children: "mos_ok lt K n \<longleftrightarrow>
    ascending lt K (map fst (children n)) \<and> (\<forall>p \<in> set (children n). mos_ok lt K (snd p))"
  by (cases n) simp

lemma mos_ok_empty [simp]: "mos_ok lt K empty_node"
  by (simp add: empty_node_def)

text \<open>The keys of the tree, and the sets it maps, are ascending.\<close>

definition paths_ok :: "('k \<Rightarrow> 'k \<Rightarrow> bool) \<Rightarrow> ('k, 'v) mnode \<Rightarrow> bool" where
  "paths_ok lt n \<longleftrightarrow> (\<forall>ks. mos_lookup ks n \<noteq> None \<longrightarrow> sorted_wrt lt ks)"

lemma mos_lookup_empty [simp]: "mos_lookup ks empty_node = None"
  by (cases ks) (simp_all add: empty_node_def)

section \<open>Answers of a search\<close>

definition finds :: "'v option \<Rightarrow> 'v set \<Rightarrow> bool" where
  "finds res S \<longleftrightarrow> (case res of Some r \<Rightarrow> r \<in> S | None \<Rightarrow> S = {})"

lemma finds_simps [simp]: "finds (Some r) S \<longleftrightarrow> r \<in> S" "finds None S \<longleftrightarrow> S = {}"
  by (simp_all add: finds_def)

lemma finds_orelse:
  "finds a A \<Longrightarrow> (a = None \<Longrightarrow> finds b B) \<Longrightarrow> finds (case a of Some r \<Rightarrow> Some r | None \<Rightarrow> b) (A \<union> B)"
  by (cases a) (auto simp: finds_def split: option.splits)

definition subset_values :: "('v \<Rightarrow> bool) \<Rightarrow> 'k list \<Rightarrow> ('k, 'v) mnode \<Rightarrow> 'v set" where
  "subset_values p ks n = {r. p r \<and> (\<exists>js. subseq js ks \<and> mos_lookup js n = Some r)}"

definition subset_values_kids :: "('v \<Rightarrow> bool) \<Rightarrow> 'k list \<Rightarrow> ('k \<times> ('k, 'v) mnode) list \<Rightarrow> 'v set" where
  "subset_values_kids p ks kids = {r. p r \<and> (\<exists>k c js. (k, c) \<in> set kids \<and> subseq (k # js) ks \<and> mos_lookup js c = Some r)}"

definition superset_values :: "('v \<Rightarrow> bool) \<Rightarrow> 'k list \<Rightarrow> ('k, 'v) mnode \<Rightarrow> 'v set" where
  "superset_values p ks n = {r. p r \<and> (\<exists>js. subseq ks js \<and> mos_lookup js n = Some r)}"

lemma map_of_ascending:
  assumes "ascending lt K (map fst kids)" "\<And>x. \<not> lt x x"
  shows "map_of kids k = Some c \<longleftrightarrow> (k, c) \<in> set kids"
proof -
  have "distinct (map fst kids)"
    using assms by (induction kids) (auto dest: bspec)
  then show ?thesis by simp
qed

lemma subset_values_node:
  assumes "\<And>k c. map_of kids k = Some c \<longleftrightarrow> (k, c) \<in> set kids"
  shows "subset_values p ks (MNode v kids) = {r. p r \<and> v = Some r} \<union> subset_values_kids p ks kids" (is "?l = ?r")
proof (intro equalityI subsetI)
  fix r assume "r \<in> ?l"
  then obtain js where js: "p r" "subseq js ks" "mos_lookup js (MNode v kids) = Some r"
    by (auto simp: subset_values_def)
  then show "r \<in> ?r"
    using assms by (cases js) (auto simp: subset_values_kids_def split: option.splits)
next
  fix r assume "r \<in> ?r"
  then consider "p r" "v = Some r"
    | k c js where "p r" "(k, c) \<in> set kids" "subseq (k # js) ks" "mos_lookup js c = Some r"
    by (auto simp: subset_values_kids_def)
  then show "r \<in> ?l"
  proof cases
    case 1
    then show ?thesis by (auto simp: subset_values_def intro!: exI[of _ "[]"])
  next
    case (2 k c js)
    then have "mos_lookup (k # js) (MNode v kids) = Some r"
      using assms[of k c] by simp
    then show ?thesis using 2 by (auto simp: subset_values_def)
  qed
qed

lemma superset_values_node:
  assumes "\<And>k c. map_of kids k = Some c \<longleftrightarrow> (k, c) \<in> set kids"
  shows "superset_values p [] (MNode v kids) = {r. p r \<and> v = Some r} \<union> (\<Union>(k, c) \<in> set kids. superset_values p [] c)" (is "?a = ?b")
    and "superset_values p (k # ks) (MNode v kids) =
      (\<Union>(k', c) \<in> set kids. superset_values p (k # ks) c) \<union> (\<Union>(k', c) \<in> {kc \<in> set kids. fst kc = k}. superset_values p ks c)" (is "?l = ?r")
proof -
  have look: "mos_lookup js (MNode v kids) = Some r \<longleftrightarrow>
      (js = [] \<and> v = Some r) \<or> (\<exists>j c js'. js = j # js' \<and> (j, c) \<in> set kids \<and> mos_lookup js' c = Some r)" for js r
    by (cases js) (auto simp flip: assms split: option.splits)
  show "?a = ?b"
    by (auto simp: superset_values_def look)
  have sub: "subseq (k # ks) (j # js) \<longleftrightarrow> subseq (k # ks) js \<or> (j = k \<and> subseq ks js)" for j js
    by (cases "j = k") (auto dest: subseq_Cons')
  show "?l = ?r"
  proof (intro equalityI subsetI)
    fix r assume "r \<in> ?l"
    then obtain j c js where "p r" "subseq (k # ks) (j # js)" "(j, c) \<in> set kids" "mos_lookup js c = Some r"
      by (auto simp: superset_values_def look)
    then show "r \<in> ?r" unfolding sub by (auto simp: superset_values_def)
  next
    fix r assume "r \<in> ?r"
    then obtain j c js where "p r" "(j, c) \<in> set kids" "mos_lookup js c = Some r"
      "subseq (k # ks) js \<or> (j = k \<and> subseq ks js)"
      by (auto simp: superset_values_def)
    then have "subseq (k # ks) (j # js)" "mos_lookup (j # js) (MNode v kids) = Some r"
      by (simp_all only: sub look) blast
    then show "r \<in> ?l" using \<open>p r\<close> unfolding superset_values_def by blast
  qed
qed

context key_order
begin

lemma map_of_kids: "ascending lt K (map fst kids) \<Longrightarrow> map_of kids k = Some c \<longleftrightarrow> (k, c) \<in> set kids"
  using map_of_ascending[of lt K kids k c] lt_irrefl by blast

lemma map_of_alter:
  assumes "ascending lt K (map fst kids)" "k \<in> K"
  shows "map_of (alter_child lt k f kids) j =
    (if j = k then Some (f (case map_of kids k of Some c \<Rightarrow> c | None \<Rightarrow> empty_node)) else map_of kids j)"
  using assms
proof (induction kids)
  case (Cons kc kids)
  obtain k' c where kc: "kc = (k', c)" by fastforce
  have None: "map_of kids k = None" if "lt k k'"
  proof -
    have "j \<noteq> k" if "j \<in> fst ` set kids" for j
      using lt_trans[OF \<open>lt k k'\<close>, of j] Cons.prems(1) that kc lt_irrefl by auto
    then show ?thesis by (auto simp: map_of_eq_None_iff)
  qed
  have "ascending lt K (map fst kids)" using Cons.prems(1) by simp
  note IH = Cons.IH[OF this Cons.prems(2)]
  show ?case
    using None IH by (cases "j = k"; cases "k' = k"; cases "lt k k'") (simp_all add: kc)
qed simp

lemma ascending_alter:
  assumes "ascending lt K (map fst kids)" "k \<in> K"
  shows "ascending lt K (map fst (alter_child lt k f kids))"
    and "fst ` set (alter_child lt k f kids) = insert k (fst ` set kids)"
  using assms
proof (induction kids)
  case (Cons kc kids)
  obtain k' c where kc: "kc = (k', c)" by fastforce
  case 1
  then show ?case
    using Cons.IH kc lt_total[of k k'] by (auto simp: image_iff dest: lt_trans)
  case 2
  then show ?case
    using Cons.IH kc by auto
qed simp_all

lemma alter_child_ok:
  assumes "\<forall>p \<in> set kids. mos_ok lt K (snd p)" "\<And>c. mos_ok lt K c \<Longrightarrow> mos_ok lt K (f c)"
  shows "\<forall>p \<in> set (alter_child lt k f kids). mos_ok lt K (snd p)"
  using assms(1)
proof (induction kids)
  case (Cons kc kids)
  then show ?case using assms(2) by (cases kc) simp
qed (simp add: assms(2))

lemma mos_insert_ok:
  "mos_ok lt K n \<Longrightarrow> ascending lt K ks \<Longrightarrow> mos_ok lt K (mos_insert lt ks v n)"
proof (induction ks arbitrary: n)
  case Nil
  then show ?case by (cases n) simp
next
  case (Cons k ks)
  then show ?case
    using ascending_alter(1)[of "children n" k] alter_child_ok[of "children n" "mos_insert lt ks v"]
    by (cases n) simp
qed

lemma mos_lookup_insert:
  "mos_ok lt K n \<Longrightarrow> ascending lt K ks \<Longrightarrow>
   mos_lookup js (mos_insert lt ks v n) = (if js = ks then Some v else mos_lookup js n)"
proof (induction ks arbitrary: n js)
  case Nil
  then show ?case by (cases js) auto
next
  case (Cons k ks)
  have kid: "mos_ok lt K (case map_of (children n) k of Some c \<Rightarrow> c | None \<Rightarrow> empty_node)"
    using Cons.prems(1) map_of_kids[of "children n" k] by (fastforce simp: mos_ok_children[of _ _ n] split: option.splits)
  have c: "ascending lt K (map fst (children n))" "ascending lt K ks" "k \<in> K"
    using Cons.prems by (simp_all add: mos_ok_children[of _ _ n])
  note IH = Cons.IH[OF kid c(2)]
  show ?case
  proof (cases js)
    case (Cons j js')
    then show ?thesis
      using map_of_alter[OF c(1,3)] IH by (simp split: option.splits)
  qed simp
qed

lemma mos_insert_paths:
  "mos_ok lt K n \<Longrightarrow> ascending lt K ks \<Longrightarrow> paths_ok lt n \<Longrightarrow> paths_ok lt (mos_insert lt ks v n)"
  by (auto simp: paths_ok_def mos_lookup_insert ascending_def)

lemma map_of_empty_clear [simp]: "mos_ok lt K (mos_clear n)" "mos_lookup ks (mos_clear n) = None"
  by (cases ks; simp add: mos_clear_def)+

subsection \<open>Subsets\<close>

lemma subset_kids_nil [simp]: "subset_values_kids p it [] = {}" "subset_values_kids p [] kids = {}"
  by (auto simp: subset_values_kids_def)

lemma subset_kids_skip_element:
  assumes "\<forall>k' \<in> fst ` set kids. k' \<noteq> i"
  shows "subset_values_kids p (i # it) kids = subset_values_kids p it kids"
proof -
  have "subseq (k # js) (i # it) \<longleftrightarrow> subseq (k # js) it" if "(k, c) \<in> set kids" for k c js
  proof -
    have "k \<noteq> i" using assms that by force
    then show ?thesis by simp
  qed
  then show ?thesis
    unfolding subset_values_kids_def by blast
qed

lemma subset_kids_skip_child:
  assumes "k \<notin> set it"
  shows "subset_values_kids p it ((k, c) # kids) = subset_values_kids p it kids"
proof -
  have "\<not> subseq (k # js) it" for js
    using assms list_emb_set[of "(=)" "k # js" it k] by auto
  then show ?thesis by (auto simp: subset_values_kids_def)
qed

lemma subset_kids_Cons: "subset_values_kids p it ((k, c) # kids) =
    {r. p r \<and> (\<exists>js. subseq (k # js) it \<and> mos_lookup js c = Some r)} \<union> subset_values_kids p it kids"
  by (auto simp: subset_values_kids_def)

lemma subset_kids_descend:
  assumes "\<forall>k' \<in> fst ` set kids. k' \<noteq> k"
  shows "subset_values_kids p (k # it) ((k, c) # kids) =
    subset_values p it c \<union> subset_values_kids p it ((k, c) # kids)"
proof -
  have "{r. p r \<and> (\<exists>js. subseq (k # js) (k # it) \<and> mos_lookup js c = Some r)} = subset_values p it c"
    by (simp add: subset_values_def)
  moreover have "{r. p r \<and> (\<exists>js. subseq (k # js) it \<and> mos_lookup js c = Some r)} \<subseteq> subset_values p it c"
    by (auto simp: subset_values_def dest: subseq_Cons')
  ultimately show ?thesis
    unfolding subset_kids_Cons subset_kids_skip_element[OF assms] by blast
qed

lemma subset_kids_lower_bound:
  "\<forall>j \<in> set ks. lt k j \<Longrightarrow>
   subset_values_kids p (k # ks) (kids_lower_bound lt k kids) = subset_values_kids p (k # ks) kids"
proof (induction kids)
  case (Cons kc kids)
  obtain k' c where kc: "kc = (k', c)" by fastforce
  have "k' \<notin> set (k # ks)" if "lt k' k"
    using that Cons.prems lt_irrefl lt_trans by (metis set_ConsD)
  then show ?case
    using Cons subset_kids_skip_child[of k' "k # ks" p c kids] by (simp add: kids_lower_bound_def kc)
qed (simp add: kids_lower_bound_def)

lemma kids_lower_bound_ok:
  "ascending lt K (map fst kids) \<Longrightarrow> ascending lt K (map fst (kids_lower_bound lt k kids))"
  "\<forall>q \<in> set kids. mos_ok lt K (snd q) \<Longrightarrow> \<forall>q \<in> set (kids_lower_bound lt k kids). mos_ok lt K (snd q)"
  by (induction kids) (auto simp: kids_lower_bound_def)

lemma find_subset_node:
  assumes "ascending lt K (map fst kids)"
    and "\<And>k ks'. ks = k # ks' \<Longrightarrow> (\<And>x. v = Some x \<Longrightarrow> \<not> p x) \<Longrightarrow>
      finds (subset_loop lt p ks (kids_lower_bound lt k kids)) (subset_values_kids p ks kids)"
  shows "finds (find_subset lt p ks (MNode v kids)) (subset_values p ks (MNode v kids))"
proof -
  have here: "subset_values p ks (MNode v kids) = {r. p r \<and> v = Some r} \<union> subset_values_kids p ks kids"
    using assms(1) by (intro subset_values_node map_of_kids)
  show ?thesis
  proof (cases "\<exists>x. v = Some x \<and> p x")
    case True
    then show ?thesis unfolding here by auto
  next
    case False
    then have f: "find_subset lt p ks (MNode v kids) =
        (case ks of [] \<Rightarrow> None | k # _ \<Rightarrow> subset_loop lt p ks (kids_lower_bound lt k kids))"
      and none: "{r. p r \<and> v = Some r} = {}"
      by (auto split: option.splits)
    show ?thesis
      unfolding here f none using assms(2) False by (cases ks) (simp_all del: find_subset.simps)
  qed
qed

lemma subset_loop_step:
  assumes kids: "ascending lt K (map fst ((k, c) # kids))" and it: "ascending lt K (i # it)"
    and element: "lt i k \<Longrightarrow> finds (subset_loop lt p it ((k, c) # kids)) (subset_values_kids p it ((k, c) # kids))"
    and child: "i = k \<Longrightarrow> finds (find_subset lt p it c) (subset_values p it c)"
    and next_element: "i = k \<Longrightarrow> find_subset lt p it c = None \<Longrightarrow>
      finds (subset_loop lt p it ((k, c) # kids)) (subset_values_kids p it ((k, c) # kids))"
    and next_child: "lt k i \<Longrightarrow> finds (subset_loop lt p (i # it) kids) (subset_values_kids p (i # it) kids)"
  shows "finds (subset_loop lt p (i # it) ((k, c) # kids)) (subset_values_kids p (i # it) ((k, c) # kids))"
proof -
  have gt: "\<forall>k' \<in> fst ` set kids. lt k k'" and lti: "\<forall>j \<in> set it. lt i j" and K: "i \<in> K" "k \<in> K"
    using kids it by simp_all
  consider "lt i k" | "i = k" | "lt k i" "\<not> lt i k" "i \<noteq> k"
    using lt_total K by blast
  then show ?thesis
  proof cases
    case 1
    have "\<forall>k' \<in> fst ` set ((k, c) # kids). k' \<noteq> i"
    proof
      fix k' assume "k' \<in> fst ` set ((k, c) # kids)"
      then have "lt i k'" using gt 1 lt_trans[of i k k'] by auto
      then show "k' \<noteq> i" using lt_irrefl by blast
    qed
    from subset_kids_skip_element[OF this] show ?thesis using element 1 by simp
  next
    case 2
    have "\<forall>k' \<in> fst ` set kids. k' \<noteq> k"
      using gt lt_irrefl by auto
    note d = subset_kids_descend[OF this, of p it c]
    have "subset_loop lt p (i # it) ((k, c) # kids) =
        (case find_subset lt p it c of Some r \<Rightarrow> Some r | None \<Rightarrow> subset_loop lt p it ((k, c) # kids))"
      using 2 lt_irrefl by simp
    then show ?thesis
      using finds_orelse[OF child[OF 2] next_element[OF 2]] d 2 by simp
  next
    case 3
    then have "k \<notin> set (i # it)"
      using lti lt_irrefl[of k] lt_trans[of k i k] by auto
    then have "subset_values_kids p (i # it) ((k, c) # kids) = subset_values_kids p (i # it) kids"
      by (rule subset_kids_skip_child)
    then show ?thesis using next_child 3 by simp
  qed
qed

lemma find_subset_aux:
  "lt' = lt \<Longrightarrow> mos_ok lt K n \<Longrightarrow> ascending lt K ks \<Longrightarrow> finds (find_subset lt' p ks n) (subset_values p ks n)"
  "lt' = lt \<Longrightarrow> ascending lt K (map fst kids) \<Longrightarrow> \<forall>q \<in> set kids. mos_ok lt K (snd q) \<Longrightarrow> ascending lt K it \<Longrightarrow>
   finds (subset_loop lt' p it kids) (subset_values_kids p it kids)"
proof (induction lt' p ks n and lt' p it kids rule: find_subset_subset_loop.induct)
  case (1 lt' p ks v kids)
  have asc: "ascending lt K (map fst kids)" and ok: "\<forall>q \<in> set kids. mos_ok lt K (snd q)"
    using 1(4) by simp_all
  show ?case
    unfolding 1(3)
  proof (rule find_subset_node[OF asc])
    fix k ks'
    assume "ks = k # ks'" "\<And>x. v = Some x \<Longrightarrow> \<not> p x"
    then have "finds (subset_loop lt' p ks (kids_lower_bound lt' k kids))
        (subset_values_kids p ks (kids_lower_bound lt' k kids))"
      using 1 kids_lower_bound_ok[of kids k] by (cases v) auto
    then show "finds (subset_loop lt p ks (kids_lower_bound lt k kids)) (subset_values_kids p ks kids)"
      using subset_kids_lower_bound[of ks' k p kids] \<open>ks = k # ks'\<close> 1(3,5) by simp
  qed
next
  case (4 lt' p i it k c kids)
  note eq = 4(5) and kids = 4(6) and ok = 4(7) and it = 4(8)
  have it': "ascending lt K it" and kids': "ascending lt K (map fst kids)"
    using kids it by simp_all
  show ?case
    unfolding eq
  proof (rule subset_loop_step[OF kids it])
    assume "lt i k"
    then show "finds (subset_loop lt p it ((k, c) # kids)) (subset_values_kids p it ((k, c) # kids))"
      using 4(1)[OF _ eq kids ok it'] eq by simp
  next
    assume e: "i = k"
    then have nlt: "\<not> lt' i k" using eq lt_irrefl by simp
    show "finds (find_subset lt p it c) (subset_values p it c)"
      using 4(2)[OF nlt e eq _ it'] ok eq by simp
    show "find_subset lt p it c = None \<Longrightarrow>
        finds (subset_loop lt p it ((k, c) # kids)) (subset_values_kids p it ((k, c) # kids))"
      using 4(3)[OF nlt e _ eq kids ok it'] eq by simp
  next
    assume "lt k i"
    then have "\<not> lt' i k" "i \<noteq> k" using eq lt_irrefl lt_trans by blast+
    from 4(4)[OF this eq kids' _ it] show "finds (subset_loop lt p (i # it) kids) (subset_values_kids p (i # it) kids)"
      using ok eq by simp
  qed
qed simp_all

lemmas find_subset_exact = find_subset_aux(1)[OF refl]

subsection \<open>Supersets\<close>

lemma kids_lower_bound_find:
  assumes "ascending lt K (map fst kids)" "k \<in> K"
  shows "(case kids_lower_bound lt k kids of [] \<Rightarrow> None | (k', c) # _ \<Rightarrow> if k = k' then Some c else None) =
    map_of kids k"
  using assms
proof (induction kids)
  case (Cons kc kids)
  obtain k' c where kc: "kc = (k', c)" by fastforce
  have "map_of kids k = None" if "k \<noteq> k'" "\<not> lt k' k"
  proof -
    have "lt k k'" using that Cons.prems lt_total[of k k'] kc by simp
    then have "j \<noteq> k" if "j \<in> fst ` set kids" for j
      using lt_trans[of k k' j] Cons.prems(1) that kc lt_irrefl by auto
    then show ?thesis by (auto simp: map_of_eq_None_iff)
  qed
  then show ?case
    using Cons kc lt_irrefl by (cases "lt k' k") (auto simp: kids_lower_bound_def)
qed (simp add: kids_lower_bound_def)

lemma find_superset_descend:
  assumes "ascending lt K (map fst kids)" "k \<in> K"
    and "\<And>k' c rest. kids_lower_bound lt k kids = (k', c) # rest \<Longrightarrow> k = k' \<Longrightarrow> (k, c) \<in> set kids \<Longrightarrow>
      finds (find_superset lt p ks c) (superset_values p ks c)"
  shows "finds (case kids_lower_bound lt k kids of [] \<Rightarrow> None
      | (k', c) # _ \<Rightarrow> if k = k' then find_superset lt p ks c else None)
    (\<Union>(k', c) \<in> {kc \<in> set kids. fst kc = k}. superset_values p ks c)"
proof -
  note lb = kids_lower_bound_find[OF assms(1,2)]
  have "{kc \<in> set kids. fst kc = k} = (case map_of kids k of None \<Rightarrow> {} | Some c \<Rightarrow> {(k, c)})"
    using map_of_kids[OF assms(1), of k] by (cases "map_of kids k") (auto simp flip: map_of_kids[OF assms(1)])
  then have A: "(\<Union>(k', c) \<in> {kc \<in> set kids. fst kc = k}. superset_values p ks c) =
      (case map_of kids k of None \<Rightarrow> {} | Some c \<Rightarrow> superset_values p ks c)"
    by (simp split: option.split)
  show ?thesis
  proof (cases "kids_lower_bound lt k kids")
    case Nil
    then show ?thesis using lb unfolding A by (simp split: option.splits)
  next
    case (Cons kc rest)
    obtain k' c where kc: "kc = (k', c)" by fastforce
    show ?thesis
    proof (cases "k = k'")
      case True
      have m: "map_of kids k = Some c"
        using lb Cons kc True by simp
      then have "(k, c) \<in> set kids" using map_of_kids[OF assms(1)] by simp
      then show ?thesis
        unfolding A using assms(3)[of k' c rest] m Cons kc True by simp
    next
      case False
      then show ?thesis
        using lb Cons kc unfolding A by (simp split: option.splits)
    qed
  qed
qed

lemma find_superset_aux:
  "lt' = lt \<Longrightarrow> mos_ok lt K n \<Longrightarrow> ascending lt K ks \<Longrightarrow> finds (find_superset lt' p ks n) (superset_values p ks n)"
  "lt' = lt \<Longrightarrow> \<forall>q \<in> set kids. mos_ok lt K (snd q) \<Longrightarrow> ascending lt K ks \<Longrightarrow>
   finds (superset_loop lt' p ks kids) (\<Union>(k, c) \<in> set kids. superset_values p ks c)"
proof (induction lt' p ks n and lt' p ks kids rule: find_superset_superset_loop.induct)
  case (1 lt' p v kids)
  have here: "superset_values p [] (MNode v kids) = {r. p r \<and> v = Some r} \<union> (\<Union>(k, c) \<in> set kids. superset_values p [] c)"
    using 1 by (intro superset_values_node map_of_kids) simp
  show ?case
    unfolding here using 1 by (cases v) (fastforce simp: finds_def split: option.splits)+
next
  case (2 lt' p k ks v kids)
  have asc: "ascending lt K (map fst kids)" "k \<in> K" using 2 by simp_all
  let ?U = "\<Union>(k', c) \<in> set kids. superset_values p (k # ks) c"
    and ?A = "\<Union>(k', c) \<in> {kc \<in> set kids. fst kc = k}. superset_values p ks c"
  have here: "superset_values p (k # ks) (MNode v kids) = ?U \<union> ?A"
    using asc by (intro superset_values_node map_of_kids) simp
  have loop: "finds (superset_loop lt p (k # ks) kids) ?U"
    using 2 by simp
  have desc: "finds (case kids_lower_bound lt k kids of [] \<Rightarrow> None
      | (k', c) # _ \<Rightarrow> if k = k' then find_superset lt p ks c else None) ?A"
    if none: "superset_loop lt p (k # ks) kids = None"
  proof (rule find_superset_descend[OF asc])
    fix k' c rest
    assume "kids_lower_bound lt k kids = (k', c) # rest" "k = k'" "(k, c) \<in> set kids"
    moreover from this have "mos_ok lt K c" using 2(4) by auto
    ultimately show "finds (find_superset lt p ks c) (superset_values p ks c)"
      using 2(2)[of "(k', c)" rest k' c] 2(3,5) none by simp
  qed
  show ?case
    unfolding here 2(3) find_superset.simps by (rule finds_orelse[OF loop desc])
next
  case (4 lt' p ks k c kids)
  then show ?case
    by (auto simp: finds_def split: option.splits)
qed simp_all

lemmas find_superset_exact = find_superset_aux(1)[OF refl]

text \<open>Inclusion of ascending sets is the subsequence order.\<close>

lemma subseq_ascending:
  assumes "sorted_wrt lt js" "ascending lt K ks"
  shows "subseq js ks \<longleftrightarrow> set js \<subseteq> set ks"
proof
  show "set js \<subseteq> set ks" if "subseq js ks"
    using list_emb_set[OF that] by auto
  show "subseq js ks" if "set js \<subseteq> set ks"
    using assms that
  proof (induction ks arbitrary: js)
    case (Cons k ks)
    show ?case
    proof (cases js)
      case js: (Cons j js')
      have tail: "set js' \<subseteq> set ks"
      proof
        fix x assume x: "x \<in> set js'"
        then have "lt j x" "x \<in> set (k # ks)" "j \<in> set (k # ks)" using Cons.prems js by auto
        then show "x \<in> set ks"
          using Cons.prems(2) lt_irrefl lt_trans by (metis ascending_simps(2) set_ConsD)
      qed
      show ?thesis
      proof (cases "j = k")
        case True
        then show ?thesis using Cons.IH[of js'] Cons.prems js tail by simp
      next
        case False
        then show ?thesis using Cons.IH[of js] Cons.prems js tail by simp
      qed
    qed simp
  qed simp
qed

lemma findSubset_sound_complete:
  assumes "mos_ok lt K n" "paths_ok lt n" "ascending lt K ks"
  shows "case findSubset lt ks p n of
      Some r \<Rightarrow> p r \<and> (\<exists>js. set js \<subseteq> set ks \<and> mos_lookup js n = Some r)
    | None \<Rightarrow> \<forall>js r. set js \<subseteq> set ks \<and> mos_lookup js n = Some r \<longrightarrow> \<not> p r"
proof -
  have "subset_values p ks n =
      {r. p r \<and> (\<exists>js. set js \<subseteq> set ks \<and> mos_lookup js n = Some r)}"
    using assms(2) subseq_ascending[OF _ assms(3)] unfolding subset_values_def paths_ok_def
    by (metis (no_types, lifting) option.discI)
  then show ?thesis
    using find_subset_exact[OF assms(1,3), of p] assms(2)
    by (auto simp: findSubset_def finds_def paths_ok_def split: option.splits)
qed

lemma mos_lookup_keys:
  "mos_ok lt K n \<Longrightarrow> mos_lookup js n = Some r \<Longrightarrow> set js \<subseteq> K"
proof (induction js arbitrary: n)
  case (Cons j js)
  obtain c where c: "map_of (children n) j = Some c" "mos_lookup js c = Some r"
    using Cons.prems(2) by (auto split: option.splits)
  moreover have "ascending lt K (map fst (children n))" "\<forall>q \<in> set (children n). mos_ok lt K (snd q)"
    using Cons.prems(1) by (cases n; simp)+
  ultimately show ?case
    using Cons.IH[of c] map_of_SomeD[OF c(1)] by (force simp: ascending_def)
qed simp

lemma findSuperset_sound_complete:
  assumes "mos_ok lt K n" "paths_ok lt n" "ascending lt K ks"
  shows "case findSuperset lt ks p n of
      Some r \<Rightarrow> p r \<and> (\<exists>js. set ks \<subseteq> set js \<and> mos_lookup js n = Some r)
    | None \<Rightarrow> \<forall>js r. set ks \<subseteq> set js \<and> mos_lookup js n = Some r \<longrightarrow> \<not> p r"
proof -
  have sub: "subseq ks js \<longleftrightarrow> set ks \<subseteq> set js" if "mos_lookup js n = Some r" for js r
    using subseq_ascending[of ks js] that assms mos_lookup_keys[OF assms(1) that]
    by (auto simp: ascending_def paths_ok_def)
  have "superset_values p ks n =
      {r. p r \<and> (\<exists>js. set ks \<subseteq> set js \<and> mos_lookup js n = Some r)}"
    using assms(2) sub unfolding superset_values_def paths_ok_def
    by (metis (no_types, lifting) option.discI)
  then show ?thesis
    using find_superset_exact[OF assms(1,3), of p] assms(2)
    by (auto simp: findSuperset_def finds_def paths_ok_def split: option.splits)
qed

subsection \<open>Enumerations\<close>

lemma set_end_of_set: "set (end_of_set accum n) = {(accum, r) | r. mos_lookup [] n = Some r}"
  by (auto simp: end_of_set_def split: option.splits)

lemma set_subsets_loop:
  "set (subsets_loop kids accum ks) =
   {(accum @ k # js, r) | k js r c. subseq (k # js) ks \<and> map_of kids k = Some c \<and> mos_lookup js c = Some r}"
proof (induction kids accum ks rule: subsets_loop.induct)
  case (2 kids accum elt it)
  let ?S = "\<lambda>P. {(accum @ k # js, r) | k js r c. P k js \<and> map_of kids k = Some c \<and> mos_lookup js c = Some r}"
  have child: "set (end_of_set (accum @ [elt]) c @ subsets_loop (children c) (accum @ [elt]) it) =
      {(accum @ elt # js, r) | js r. subseq js it \<and> mos_lookup js c = Some r}" (is "?l = ?r")
    if "map_of kids elt = Some c" for c
  proof (intro equalityI subsetI)
    fix x assume "x \<in> ?l"
    then show "x \<in> ?r"
      unfolding set_append set_end_of_set 2(1)[OF that] by (fastforce split: option.splits)
  next
    fix x assume "x \<in> ?r"
    then obtain js r where x: "x = (accum @ elt # js, r)" "subseq js it" "mos_lookup js c = Some r" by blast
    then show "x \<in> ?l"
      unfolding set_append set_end_of_set 2(1)[OF that] by (cases js) (fastforce split: option.splits)+
  qed
  have split: "?S (\<lambda>k js. subseq (k # js) (elt # it)) =
      ?S (\<lambda>k js. k = elt \<and> subseq js it) \<union> ?S (\<lambda>k js. subseq (k # js) it)"
  proof -
    have "subseq (k # js) (elt # it) \<longleftrightarrow> k = elt \<and> subseq js it \<or> subseq (k # js) it" for k js
      by (auto dest: subseq_Cons')
    then show ?thesis by (simp only:) blast
  qed
  have first: "?S (\<lambda>k js. k = elt \<and> subseq js it) = (case map_of kids elt of None \<Rightarrow> {}
      | Some c \<Rightarrow> {(accum @ elt # js, r) | js r. subseq js it \<and> mos_lookup js c = Some r})"
    by (auto split: option.splits)
  show ?case
  proof (cases "map_of kids elt")
    case None
    then show ?thesis unfolding split first using 2(2) by simp
  next
    case (Some c)
    define X where "X = end_of_set (accum @ [elt]) c @ subsets_loop (children c) (accum @ [elt]) it"
    have "subsets_loop kids accum (elt # it) = X @ subsets_loop kids accum it"
      by (simp add: Some X_def)
    then show ?thesis
      unfolding split first using 2(2) child[OF Some, folded X_def] Some by simp
  qed
qed simp

lemma set_mos_subsets:
  assumes "mos_ok lt K n"
  shows "set (mos_subsets ks n) = {(js, r). subseq js ks \<and> mos_lookup js n = Some r}"
proof -
  have "(js, r) \<in> set (mos_subsets ks n) \<longleftrightarrow> subseq js ks \<and> mos_lookup js n = Some r" for js r
    unfolding mos_subsets_def findSubsets_def set_append set_end_of_set set_subsets_loop
    by (cases js) (auto split: option.splits)
  then show ?thesis by auto
qed

definition paths_from :: "'k \<times> ('k, 'v) mnode \<Rightarrow> bool" where
  "paths_from q \<longleftrightarrow> (\<forall>js. mos_lookup js (snd q) \<noteq> None \<longrightarrow> sorted_wrt lt (fst q # js))"

lemma paths_children:
  assumes "mos_ok lt K n" "paths_ok lt n" "q \<in> set (children n)"
  shows "paths_from q" "paths_ok lt (snd q)"
proof -
  have "ascending lt K (map fst (children n))" using assms(1) by (cases n) simp
  then have "map_of (children n) (fst q) = Some (snd q)"
    using map_of_kids[of "children n" "fst q" "snd q"] assms(3) by simp
  then have "mos_lookup (fst q # js) n = mos_lookup js (snd q)" for js by simp
  then show "paths_from q" using assms(2) by (metis paths_ok_def paths_from_def)
  then show "paths_ok lt (snd q)" by (auto simp: paths_from_def paths_ok_def)
qed

lemma supersets_beyond:
  assumes "lt elt k" "ascending lt K (map fst ((k, c) # kids))" "\<forall>q \<in> set ((k, c) # kids). paths_from q"
    and "(k', c') \<in> set ((k, c) # kids)" "mos_lookup js c' = Some r"
  shows "\<not> subseq (elt # rest) (k' # js)"
proof
  assume "subseq (elt # rest) (k' # js)"
  then have "elt \<in> set (k' # js)" using list_emb_set by fastforce
  moreover have "lt elt k'"
    using assms(4) assms(1,2) lt_trans[of elt k k'] by force
  moreover have "sorted_wrt lt (k' # js)"
    using bspec[OF assms(3,4)] assms(5) by (auto simp: paths_from_def)
  ultimately show False
    using lt_irrefl[of elt] lt_trans[of elt k' elt] by auto
qed

lemma findSupersets_node:
  assumes "ascending lt K (map fst kids)"
    and "set (supersets_loop lt' kids accum ks) =
      {(accum @ k # js, r) | k c js r. (k, c) \<in> set kids \<and> subseq ks (k # js) \<and> mos_lookup js c = Some r}"
  shows "set (findSupersets lt' (MNode v kids) accum ks) =
    {(accum @ js, r) | js r. subseq ks js \<and> mos_lookup js (MNode v kids) = Some r}"
proof -
  have "set (if ks = [] then end_of_set accum (MNode v kids) else []) = {(accum, r) | r. subseq ks [] \<and> v = Some r}"
    by (cases ks) (auto simp: set_end_of_set)
  moreover have "mos_lookup js (MNode v kids) = Some r \<longleftrightarrow>
      (js = [] \<and> v = Some r) \<or> (\<exists>k c js'. js = k # js' \<and> (k, c) \<in> set kids \<and> mos_lookup js' c = Some r)" for js r
    by (cases js) (auto simp flip: map_of_kids[OF assms(1)] split: option.splits)
  ultimately show ?thesis
    using assms(2) by (simp only: findSupersets.simps set_append) fastforce
qed

lemma set_findSupersets_aux:
  fixes n :: "('k, 'v) mnode" and kids :: "('k \<times> ('k, 'v) mnode) list"
  shows "lt' = lt \<Longrightarrow> mos_ok lt K n \<Longrightarrow> paths_ok lt n \<Longrightarrow> ascending lt K ks \<Longrightarrow>
   set (findSupersets lt' n accum ks) = {(accum @ js, r) | js r. subseq ks js \<and> mos_lookup js n = Some r}"
  and "lt' = lt \<Longrightarrow> ascending lt K (map fst kids) \<Longrightarrow>
   \<forall>q \<in> set kids. mos_ok lt K (snd q) \<and> paths_from q \<and> paths_ok lt (snd q) \<Longrightarrow> ascending lt K ks \<Longrightarrow>
   set (supersets_loop lt' kids accum ks) =
     {(accum @ k # js, r) | k c js r. (k, c) \<in> set kids \<and> subseq ks (k # js) \<and> mos_lookup js c = Some r}"
proof (induction lt' n accum ks and lt' kids accum ks rule: findSupersets_supersets_loop.induct)
  case (1 lt' v kids accum ks)
  have asc: "ascending lt K (map fst kids)" using 1 by simp
  have "set (supersets_loop lt' kids accum ks) =
     {(accum @ k # js, r) | k c js r. (k, c) \<in> set kids \<and> subseq ks (k # js) \<and> mos_lookup js c = Some r}"
    using 1(1)[OF 1(2) asc _ 1(5)] paths_children[OF 1(3,4)] 1(3) by simp
  from findSupersets_node[OF asc this] show ?case .
next
  case (3 lt' k c kids accum)
  have kid: "set (findSupersets lt' c (accum @ [k]) []) = {(accum @ k # js, r) | js r. mos_lookup js c = Some r}"
    using 3(1)[OF 3(3)] 3(5) by simp
  have rest: "set (supersets_loop lt' kids accum []) =
      {(accum @ k # js, r) | k c js r. (k, c) \<in> set kids \<and> mos_lookup js c = Some r}"
    using 3(2)[OF 3(3)] 3(4,5) by simp
  show ?case
    unfolding supersets_loop.simps set_append kid rest by auto
next
  case (4 lt' k c kids accum elt rest)
  note eq = 4(5) and kids = 4(6) and ok = 4(7) and ks = 4(8)
  let ?S = "\<lambda>kcs. {(accum @ k # js, r) | k c js r. (k, c) \<in> kcs \<and> subseq (elt # rest) (k # js) \<and> mos_lookup js c = Some r}"
  have split: "?S (set ((k, c) # kids)) = ?S {(k, c)} \<union> ?S (set kids)"
    unfolding list.set(2) by blast
  have kids': "ascending lt K (map fst kids)" using kids by simp
  show ?case
  proof (cases "elt = k")
    case True
    have "set (findSupersets lt' c (accum @ [k]) rest) = ?S {(k, c)}"
      using 4(1)[OF True eq] ok ks True by auto
    then show ?thesis
      unfolding split using 4(2)[OF True eq kids' _ ks] ok True by simp
  next
    case ne: False
    show ?thesis
    proof (cases "lt k elt")
      case True
      have "set (findSupersets lt' c (accum @ [k]) (elt # rest)) = ?S {(k, c)}"
        using 4(3)[OF ne _ eq _ _ ks] True eq ok ne by auto
      then show ?thesis
        unfolding split using 4(4)[OF ne _ eq kids' _ ks] True eq ok ne by simp
    next
      case False
      then have "lt elt k" using ne lt_total[of elt k] ks kids by auto
      have "?S (set ((k, c) # kids)) = {}"
        using supersets_beyond[OF \<open>lt elt k\<close> kids] ok by blast
      then show ?thesis
        using ne False eq by simp
    qed
  qed
qed simp_all

lemma set_mos_supersets:
  assumes "mos_ok lt K n" "paths_ok lt n" "ascending lt K ks"
  shows "set (mos_supersets lt ks n) = {(js, r). subseq ks js \<and> mos_lookup js n = Some r}"
  using set_findSupersets_aux(1)[OF refl assms, of "[]"] by (auto simp: mos_supersets_def)

end

section \<open>Runs\<close>

text \<open>Any sequence of insertions and clearings, and the map on sets it stands for.\<close>

datatype ('k, 'v) mos_op = Insert "'k list" 'v | Clear

fun mos_run :: "('k \<Rightarrow> 'k \<Rightarrow> bool) \<Rightarrow> ('k, 'v) mos_op list \<Rightarrow> ('k, 'v) mnode \<Rightarrow> ('k, 'v) mnode" where
  "mos_run lt [] n = n"
| "mos_run lt (Insert ks v # ops) n = mos_run lt ops (mos_insert lt ks v n)"
| "mos_run lt (Clear # ops) n = mos_run lt ops (mos_clear n)"

fun map_run :: "('k, 'v) mos_op list \<Rightarrow> ('k list \<Rightarrow> 'v option) \<Rightarrow> 'k list \<Rightarrow> 'v option" where
  "map_run [] m = m"
| "map_run (Insert ks v # ops) m = map_run ops (m(ks \<mapsto> v))"
| "map_run (Clear # ops) m = map_run ops Map.empty"

fun op_ok :: "('k \<Rightarrow> 'k \<Rightarrow> bool) \<Rightarrow> 'k set \<Rightarrow> ('k, 'v) mos_op \<Rightarrow> bool" where
  "op_ok lt K (Insert ks v) \<longleftrightarrow> ascending lt K ks"
| "op_ok lt K Clear \<longleftrightarrow> True"

context key_order
begin

lemma mos_run_ok:
  assumes "list_all (op_ok lt K) ops" "mos_ok lt K n" "paths_ok lt n" "\<forall>ks. mos_lookup ks n = m ks"
  shows "mos_ok lt K (mos_run lt ops n) \<and> paths_ok lt (mos_run lt ops n) \<and>
    (\<forall>ks. mos_lookup ks (mos_run lt ops n) = map_run ops m ks)"
  using assms
proof (induction lt\<equiv>lt ops n arbitrary: m rule: mos_run.induct)
  case (2 ks v ops n)
  then show ?case
    using 2(1)[of "m(ks \<mapsto> v)"] mos_insert_ok[of n ks v] mos_insert_paths[of n ks v] mos_lookup_insert[of n ks _ v]
    by simp
next
  case (3 ops n)
  then show ?case
    using 3(1)[of Map.empty] by (simp add: paths_ok_def)
qed simp

lemma mos_run_empty:
  assumes "list_all (op_ok lt K) ops"
  shows "mos_ok lt K (mos_run lt ops empty_node)" "paths_ok lt (mos_run lt ops empty_node)"
    "mos_lookup ks (mos_run lt ops empty_node) = map_run ops Map.empty ks"
  using mos_run_ok[OF assms, of empty_node Map.empty] by (simp_all add: paths_ok_def)

end

interpretation nat_keys: key_order "(<) :: nat \<Rightarrow> nat \<Rightarrow> bool" UNIV
  by unfold_locales auto

section \<open>Properties\<close>

text \<open>C28: The tree implements a map on sets: after any sequence of insertions and clearings, a lookup
  returns the value last inserted for the set, \<open>subsets\<close> lists exactly the entries whose set is
  included in the given one, and \<open>supersets\<close> exactly those whose set includes it.\<close>

theorem MapOfSets_refines_map:
  assumes "key_order lt K" "list_all (op_ok lt K) ops" "ascending lt K ks"
  shows "mos_lookup ks (mos_run lt ops empty_node) = map_run ops Map.empty ks \<and>
    set (mos_subsets ks (mos_run lt ops empty_node)) =
      {(js, r). map_run ops Map.empty js = Some r \<and> set js \<subseteq> set ks} \<and>
    set (mos_supersets lt ks (mos_run lt ops empty_node)) =
      {(js, r). map_run ops Map.empty js = Some r \<and> set ks \<subseteq> set js}"
proof -
  note run = key_order.mos_run_empty[OF assms(1,2)]
  have asc: "ascending lt K js" if "map_run ops Map.empty js = Some r" for js r
    using run(1,2) key_order.mos_lookup_keys[OF assms(1) run(1), of js r] that
    by (auto simp: ascending_def paths_ok_def run(3))
  have "subseq js ks \<longleftrightarrow> set js \<subseteq> set ks" "subseq ks js \<longleftrightarrow> set ks \<subseteq> set js"
    if "map_run ops Map.empty js = Some r" for js r
    using key_order.subseq_ascending[OF assms(1)] asc[OF that] assms(3) by (auto simp: ascending_def)
  then show ?thesis
    unfolding key_order.set_mos_subsets[OF assms(1) run(1)] key_order.set_mos_supersets[OF assms(1) run(1,2) assms(3)]
      run(3) by auto
qed

definition sample_sets :: "(nat, bool) mos_op list" where
  "sample_sets = [Insert [3, 5] False, Insert [3] True, Insert [2, 7] False, Insert [3, 5] True]"

lemma sample_sets_ok: "list_all (op_ok (<) UNIV) sample_sets" "ascending (<) UNIV [5::nat]" "ascending (<) UNIV [3, 5::nat]"
  by (simp_all add: sample_sets_def ascending_def)

theorem MapOfSets_refines_map_witness:
  "mos_lookup [3, 5] (mos_run (<) sample_sets empty_node) = map_run sample_sets Map.empty [3, 5] \<and>
   map_run sample_sets Map.empty [3, 5] = Some True \<and>
   set (mos_supersets (<) [5] (mos_run (<) sample_sets empty_node)) =
     {(js, r). map_run sample_sets Map.empty js = Some r \<and> set [5] \<subseteq> set js}"
proof -
  note r = MapOfSets_refines_map[OF nat_keys.key_order_axioms sample_sets_ok(1)]
  have "map_run sample_sets Map.empty [3, 5] = Some True"
    by (simp add: sample_sets_def)
  then show ?thesis
    using r[OF sample_sets_ok(2)] r[OF sample_sets_ok(3)] by (elim conjE) (intro conjI)
qed

text \<open>C29: The two searches are exact: \<open>findSubset\<close> returns a value that satisfies the predicate and
  is stored for a subset of the given set, and fails only if there is none; likewise \<open>findSuperset\<close>
  for supersets.\<close>

theorem MapOfSets_searches_exact:
  assumes "key_order lt K" "list_all (op_ok lt K) ops" "ascending lt K ks"
  shows "(case findSubset lt ks p (mos_run lt ops empty_node) of
      Some r \<Rightarrow> p r \<and> (\<exists>js. set js \<subseteq> set ks \<and> map_run ops Map.empty js = Some r)
    | None \<Rightarrow> \<forall>js r. set js \<subseteq> set ks \<and> map_run ops Map.empty js = Some r \<longrightarrow> \<not> p r) \<and>
   (case findSuperset lt ks p (mos_run lt ops empty_node) of
      Some r \<Rightarrow> p r \<and> (\<exists>js. set ks \<subseteq> set js \<and> map_run ops Map.empty js = Some r)
    | None \<Rightarrow> \<forall>js r. set ks \<subseteq> set js \<and> map_run ops Map.empty js = Some r \<longrightarrow> \<not> p r)"
proof -
  note run = key_order.mos_run_empty[OF assms(1,2)]
  show ?thesis
    using key_order.findSubset_sound_complete[OF assms(1) run(1,2) assms(3), of p]
      key_order.findSuperset_sound_complete[OF assms(1) run(1,2) assms(3), of p]
    unfolding run(3) by (intro conjI)
qed

theorem MapOfSets_searches_exact_witness:
  "findSubset (<) [2, 3, 7] Not (mos_run (<) sample_sets empty_node) = Some False \<and>
   findSuperset (<) [5] Not (mos_run (<) sample_sets empty_node) = None \<and>
   \<not> (\<exists>js r. set [5] \<subseteq> set js \<and> map_run sample_sets Map.empty js = Some r \<and> \<not> r)"
proof -
  have "findSubset (<) [2, 3, 7] Not (mos_run (<) sample_sets empty_node) = Some False"
    and none: "findSuperset (<) [5] Not (mos_run (<) sample_sets empty_node) = None"
    unfolding sample_sets_def by code_simp+
  then show ?thesis
    using MapOfSets_searches_exact[OF nat_keys.key_order_axioms sample_sets_ok(1,2), of Not]
    unfolding none option.case by blast
qed

end
