(* ===== verification/CexCachingSolver.thy ===== *)
theory CexCachingSolver
  imports MapOfSets IndependentSets ExprCompare SolverCache "HOL-Library.Product_Lexorder"
begin

text \<open>
  The counterexample cache (\<^verbatim>\<open>lib/klee/Solver/CexCachingSolver.cpp\<close>): a solver that remembers for the set
  of constraints of each query an assignment that satisfies it, or that there is none, and that
  answers from the entries of subsets and supersets. A null assignment is \<open>None\<close>; the command line
  options are a record.
\<close>

section \<open>Keys, assignments and their table\<close>

definition expr_less :: "(apint \<Rightarrow> 32 word) \<Rightarrow> expr \<Rightarrow> expr \<Rightarrow> bool" where
  "expr_less hv a b \<longleftrightarrow> expr_compare hv a b < 0"

text \<open>\<open>std::set::insert\<close>.\<close>

fun set_add :: "('k \<Rightarrow> 'k \<Rightarrow> bool) \<Rightarrow> 'k \<Rightarrow> 'k list \<Rightarrow> 'k list" where
  "set_add lt x [] = [x]"
| "set_add lt x (y # ys) = (if x = y then y # ys else if lt x y then x # y # ys else y # set_add lt x ys)"

definition key_of :: "(apint \<Rightarrow> 32 word) \<Rightarrow> expr list \<Rightarrow> expr list" where
  "key_of hv cs = fold (set_add (expr_less hv)) cs []"

text \<open>The constructor of \<open>Assignment\<close>: \<open>insert\<close> into a map ordered by the addresses of the arrays.\<close>

fun bind_array :: "array \<Rightarrow> int list \<Rightarrow> (array \<times> int list) list \<Rightarrow> (array \<times> int list) list" where
  "bind_array a v [] = [(a, v)]"
| "bind_array a v ((b, w) # m) =
     (if addr a < addr b then (a, v) # (b, w) # m
      else if addr b < addr a then (b, w) # bind_array a v m
      else (b, w) # m)"

definition new_assignment :: "array list \<Rightarrow> int list list \<Rightarrow> assignment" where
  "new_assignment objs vals =
     \<lparr>allowFreeValues = False, bindings = fold (\<lambda>(a, v). bind_array a v) (zip objs vals) []\<rparr>"

definition assignment_less :: "assignment \<Rightarrow> assignment \<Rightarrow> bool" where
  "assignment_less a b \<longleftrightarrow>
     map (\<lambda>(x, v). (addr x, v)) (bindings a) < map (\<lambda>(x, v). (addr x, v)) (bindings b)"

text \<open>The memo table: the assignment that is in the table afterwards, and the table.\<close>

fun memoize :: "assignment \<Rightarrow> assignment list \<Rightarrow> assignment \<times> assignment list" where
  "memoize a [] = (a, [a])"
| "memoize a (b # bs) =
     (if assignment_less a b then (a, a # b # bs)
      else if assignment_less b a then (case memoize a bs of (r, bs') \<Rightarrow> (r, b # bs'))
      else (b, b # bs))"

section \<open>The solver\<close>

record cex_opts =
  CexCacheTryAll :: bool
  CexCacheSuperSet :: bool
  CexCacheExperimental :: bool
  DebugCexCacheCheckBinding :: bool

record 's cex_state =
  cex_inner :: 's
  cex_cache :: "(expr, assignment option) mnode"
  assignmentsTable :: "assignment list"
  queryCexCacheHits :: nat
  queryCexCacheMisses :: nat

definition NullAssignment :: "assignment option \<Rightarrow> bool" where
  "NullAssignment a \<longleftrightarrow> a = None"

definition NonNullAssignment :: "assignment option \<Rightarrow> bool" where
  "NonNullAssignment a \<longleftrightarrow> a \<noteq> None"

definition NullOrSatisfyingAssignment :: "expr list \<Rightarrow> assignment option \<Rightarrow> bool" where
  "NullOrSatisfyingAssignment key a = (case a of None \<Rightarrow> True | Some asg \<Rightarrow> satisfies asg key)"

definition searchForAssignment ::
    "cex_opts \<Rightarrow> (apint \<Rightarrow> 32 word) \<Rightarrow> expr list \<Rightarrow> 's cex_state \<Rightarrow> assignment option option" where
  "searchForAssignment opts hv key st =
     (case mos_lookup key (cex_cache st) of
        Some r \<Rightarrow> Some r
      | None \<Rightarrow>
          (let super = (if CexCacheSuperSet opts
                        then findSuperset (expr_less hv) key NonNullAssignment (cex_cache st) else None)
           in if CexCacheTryAll opts then
                (case (case super of Some r \<Rightarrow> Some r
                       | None \<Rightarrow> findSubset (expr_less hv) key NullAssignment (cex_cache st)) of
                   Some r \<Rightarrow> Some r
                 | None \<Rightarrow> map_option Some (find (\<lambda>a. satisfies a key) (assignmentsTable st)))
              else
                (case super of Some r \<Rightarrow> Some r
                 | None \<Rightarrow> findSubset (expr_less hv) key (NullOrSatisfyingAssignment key) (cex_cache st))))"

definition cex_hit :: "'s cex_state \<Rightarrow> 's cex_state" where
  "cex_hit st = st\<lparr>queryCexCacheHits := queryCexCacheHits st + 1\<rparr>"

definition cex_miss :: "'s cex_state \<Rightarrow> 's cex_state" where
  "cex_miss st = st\<lparr>queryCexCacheMisses := queryCexCacheMisses st + 1\<rparr>"

text \<open>The key, the result where one was found, and the state.\<close>

definition lookupAssignment ::
    "cex_opts \<Rightarrow> (apint \<Rightarrow> 32 word) \<Rightarrow> query \<Rightarrow> 's cex_state \<Rightarrow>
     expr list \<times> assignment option option \<times> 's cex_state" where
  "lookupAssignment opts hv q st =
     (let key = key_of hv (constraints q); neg = createIsZero (qexpr q) in
      case dyn_Constant neg of
        Some c \<Rightarrow>
          if CE_isFalse c then (key, Some None, cex_hit st)
          else (let found = searchForAssignment opts hv key st
                in (key, found, if found \<noteq> None then cex_hit st else cex_miss st))
      | None \<Rightarrow>
          (let key' = set_add (expr_less hv) neg key; found = searchForAssignment opts hv key' st
           in (key', found, if found \<noteq> None then cex_hit st else cex_miss st)))"

text \<open>\<open>None\<close> is a failure of the underlying solver, or the error the debug check reports.\<close>

definition getAssignment ::
    "cex_opts \<Rightarrow> (apint \<Rightarrow> 32 word) \<Rightarrow> 's solver_impl \<Rightarrow> query \<Rightarrow> 's cex_state \<Rightarrow>
     assignment option option \<times> 's cex_state" where
  "getAssignment opts hv solver q st =
     (case lookupAssignment opts hv q st of
        (key, Some r, st1) \<Rightarrow> (Some r, st1)
      | (key, None, st1) \<Rightarrow>
          (let objects = findSymbolicObjects key in
           case computeInitialValues solver q objects (cex_inner st1) of
             (None, s') \<Rightarrow> (None, st1\<lparr>cex_inner := s'\<rparr>)
           | (Some None, s') \<Rightarrow>
               (Some None, st1\<lparr>cex_inner := s', cex_cache := mos_insert (expr_less hv) key None (cex_cache st1)\<rparr>)
           | (Some (Some vals), s') \<Rightarrow>
               (case memoize (new_assignment objects vals) (assignmentsTable st1) of
                  (binding, table) \<Rightarrow>
                    if DebugCexCacheCheckBinding opts \<and> \<not> satisfies binding key
                    then (None, st1\<lparr>cex_inner := s', assignmentsTable := table\<rparr>)
                    else (Some (Some binding),
                          st1\<lparr>cex_inner := s', assignmentsTable := table,
                              cex_cache := mos_insert (expr_less hv) key (Some binding) (cex_cache st1)\<rparr>))))"

definition cex_computeValidity ::
    "cex_opts \<Rightarrow> (apint \<Rightarrow> 32 word) \<Rightarrow> 's solver_impl \<Rightarrow> query \<Rightarrow> 's cex_state \<Rightarrow> Validity option \<times> 's cex_state" where
  "cex_computeValidity opts hv solver q st =
     (case getAssignment opts hv solver (withFalse q) st of
        (Some (Some a), st1) \<Rightarrow>
          (case dyn_Constant (evaluate a (qexpr q)) of
             None \<Rightarrow> (None, st1)
           | Some c \<Rightarrow>
               if CE_isTrue c then
                 (case getAssignment opts hv solver q st1 of
                    (None, st2) \<Rightarrow> (None, st2)
                  | (Some r, st2) \<Rightarrow> (Some (if r = None then VTrue else Unknown), st2))
               else
                 (case getAssignment opts hv solver (negateExpr q) st1 of
                    (None, st2) \<Rightarrow> (None, st2)
                  | (Some r, st2) \<Rightarrow> (Some (if r = None then VFalse else Unknown), st2)))
      | (_, st1) \<Rightarrow> (None, st1))"

text \<open>With the experimental option, a query whose negation is known to hold is reported as a failure.\<close>

definition cex_computeTruth ::
    "cex_opts \<Rightarrow> (apint \<Rightarrow> 32 word) \<Rightarrow> 's solver_impl \<Rightarrow> query \<Rightarrow> 's cex_state \<Rightarrow> bool option \<times> 's cex_state" where
  "cex_computeTruth opts hv solver q st =
     (let (known, st1) =
        (if CexCacheExperimental opts
         then (case lookupAssignment opts hv (negateExpr q) st of (_, r, st1) \<Rightarrow> (r = Some None, st1))
         else (False, st))
      in if known then (None, st1)
         else (case getAssignment opts hv solver q st1 of
                 (None, st2) \<Rightarrow> (None, st2)
               | (Some r, st2) \<Rightarrow> (Some (r = None), st2)))"

definition cex_computeValue ::
    "cex_opts \<Rightarrow> (apint \<Rightarrow> 32 word) \<Rightarrow> 's solver_impl \<Rightarrow> query \<Rightarrow> 's cex_state \<Rightarrow> expr option \<times> 's cex_state" where
  "cex_computeValue opts hv solver q st =
     (case getAssignment opts hv solver (withFalse q) st of
        (Some (Some a), st1) \<Rightarrow>
          (let result = evaluate a (qexpr q)
           in (if isConstantExpr result then Some result else None, st1))
      | (_, st1) \<Rightarrow> (None, st1))"

definition bound_values :: "assignment \<Rightarrow> array \<Rightarrow> int list" where
  "bound_values a os = (case map_of (bindings a) os of Some v \<Rightarrow> v | None \<Rightarrow> replicate (arr_size os) 0)"

definition cex_computeInitialValues ::
    "cex_opts \<Rightarrow> (apint \<Rightarrow> 32 word) \<Rightarrow> 's solver_impl \<Rightarrow> query \<Rightarrow> array list \<Rightarrow> 's cex_state \<Rightarrow>
     int list list option option \<times> 's cex_state" where
  "cex_computeInitialValues opts hv solver q objs st =
     (case getAssignment opts hv solver q st of
        (None, st1) \<Rightarrow> (None, st1)
      | (Some None, st1) \<Rightarrow> (Some None, st1)
      | (Some (Some a), st1) \<Rightarrow> (Some (Some (map (bound_values a) objs)), st1))"

definition CexCachingSolver ::
    "cex_opts \<Rightarrow> (apint \<Rightarrow> 32 word) \<Rightarrow> 's solver_impl \<Rightarrow> 's cex_state solver_impl" where
  "CexCachingSolver opts hv solver =
     \<lparr>computeTruth = cex_computeTruth opts hv solver,
      computeValidity = cex_computeValidity opts hv solver,
      computeValue = cex_computeValue opts hv solver,
      computeInitialValues = cex_computeInitialValues opts hv solver\<rparr>"

definition new_cex_state :: "'s \<Rightarrow> 's cex_state" where
  "new_cex_state s = \<lparr>cex_inner = s, cex_cache = empty_node, assignmentsTable = [],
     queryCexCacheHits = 0, queryCexCacheMisses = 0\<rparr>"

section \<open>The order of expressions as an order of keys\<close>

text \<open>The expressions over a set of arrays with distinct addresses.\<close>

definition exprs_over :: "array set \<Rightarrow> expr set" where
  "exprs_over A = (if inj_on addr A then {e. expr_arrays e \<subseteq> A} else {})"

lemma expr_less_irrefl: "\<not> expr_less hv a a"
  using compare_swap(1)[of hv a a] by (simp add: expr_less_def del: expr_compare.simps)

interpretation expr_keys: key_order "expr_less hv" "exprs_over A" for hv A
proof
  show "\<not> expr_less hv x x" for x
    by (rule expr_less_irrefl)
  show "expr_less hv x z" if "expr_less hv x y" "expr_less hv y z" for x y z
    using compare_tri(1)[of hv x y z] that by (simp add: expr_less_def tri_def del: expr_compare.simps)
  show "expr_less hv x y \<or> expr_less hv y x" if "x \<in> exprs_over A" "y \<in> exprs_over A" "x \<noteq> y" for x y
  proof -
    have "inj_on addr (expr_arrays x \<union> expr_arrays y)"
      using that(1,2) by (auto simp: exprs_over_def split: if_splits intro: inj_on_subset)
    then have "expr_compare hv x y \<noteq> 0"
      using compare_eq_0_iff that(3) by blast
    then show ?thesis
      using compare_swap(1)[of hv x y] by (auto simp: expr_less_def simp del: expr_compare.simps)
  qed
qed

context key_order
begin

lemma set_set_add [simp]: "set (set_add lt x ys) = insert x (set ys)"
  by (induction ys) auto

lemma ascending_set_add: "ascending lt K ys \<Longrightarrow> x \<in> K \<Longrightarrow> ascending lt K (set_add lt x ys)"
proof (induction ys)
  case (Cons y ys)
  then show ?case
    using lt_total[of x y] lt_trans[of x y] by auto
qed simp

end

lemma set_key_of [simp]: "set (key_of hv cs) = set cs"
proof -
  have "set (fold (set_add (expr_less hv)) cs ks) = set cs \<union> set ks" for ks
    by (induction cs arbitrary: ks) auto
  then show ?thesis by (simp add: key_of_def)
qed

lemma ascending_key_of:
  assumes "set cs \<subseteq> exprs_over A"
  shows "ascending (expr_less hv) (exprs_over A) (key_of hv cs)"
proof -
  have "ascending (expr_less hv) (exprs_over A) (fold (set_add (expr_less hv)) cs ks)"
    if "ascending (expr_less hv) (exprs_over A) ks" for ks
    using assms that by (induction cs arbitrary: ks) (auto intro: expr_keys.ascending_set_add)
  then show ?thesis by (simp add: key_of_def)
qed

section \<open>The arrays that are read\<close>

text \<open>The finder collects the symbolic arrays of all reads.\<close>

definition symbolic_arrays :: "read_expr set \<Rightarrow> array set" where
  "symbolic_arrays R = {a. isSymbolicArray a \<and> a \<in> fst ` R}"

lemma symbolic_arrays_simps [simp]:
  "symbolic_arrays {} = {}" "symbolic_arrays (R \<union> S) = symbolic_arrays R \<union> symbolic_arrays S"
  "symbolic_arrays (insert r R) = (if isSymbolicArray (fst r) then {fst r} else {}) \<union> symbolic_arrays R"
  by (auto simp: symbolic_arrays_def)

lemma set_sym_visit:
  "\<And>objs. set (sym_visit e objs) = set objs \<union> symbolic_arrays (reads_in True e)"
  "\<And>objs. set (sym_updates us objs) = set objs \<union> symbolic_arrays (reads_in_updates True us)"
  by (induction e and us) (auto simp: Let_def)

lemma distinct_sym_visit:
  "\<And>objs. distinct objs \<Longrightarrow> distinct (sym_visit e objs)"
  "\<And>objs. distinct objs \<Longrightarrow> distinct (sym_updates us objs)"
  by (induction e and us) (simp_all add: Let_def)

lemma findSymbolicObjects_arrays:
  "set (findSymbolicObjects es) = (\<Union>e \<in> set es. symbolic_arrays (reads_in True e))"
  "distinct (findSymbolicObjects es)"
proof -
  have "set (fold sym_visit es objs) = set objs \<union> (\<Union>e \<in> set es. symbolic_arrays (reads_in True e))" for objs
    by (induction es arbitrary: objs) (auto simp: set_sym_visit)
  then show "set (findSymbolicObjects es) = (\<Union>e \<in> set es. symbolic_arrays (reads_in True e))"
    by (simp add: findSymbolicObjects_def)
  have "distinct objs \<Longrightarrow> distinct (fold sym_visit es objs)" for objs
    by (induction es arbitrary: objs) (simp_all add: distinct_sym_visit)
  then show "distinct (findSymbolicObjects es)"
    by (simp add: findSymbolicObjects_def)
qed

lemma reads_in_arrays:
  "\<forall>r \<in> reads_in v e. fst r \<in> expr_arrays e"
  "\<forall>r \<in> reads_in_updates v us. fst r \<in> update_arrays us"
  by (induction e and us) auto

section \<open>Assignments as environments\<close>

definition aenv :: "assignment \<Rightarrow> env" where
  "aenv asg = assignment_env asg (\<lambda>_ _. 0)"

text \<open>An assignment of whole arrays of values in range, with no free values.\<close>

definition asg_ok :: "assignment \<Rightarrow> bool" where
  "asg_ok asg \<longleftrightarrow> \<not> allowFreeValues asg \<and>
     (\<forall>a v. map_of (bindings asg) a = Some v \<longrightarrow> length v = arr_size a \<and> list_all (fits (range_w a)) v)"

lemma map_of_bind_array:
  assumes "\<forall>b \<in> fst ` set m. addr b \<noteq> addr a"
  shows "map_of (bind_array a v m) b = (if b = a then Some v else map_of m b)"
    and "fst ` set (bind_array a v m) = insert a (fst ` set m)"
proof -
  have "map_of m a = None" using assms by (force simp: map_of_eq_None_iff)
  then show "map_of (bind_array a v m) b = (if b = a then Some v else map_of m b)"
    using assms by (induction m) (auto split: if_splits)
  show "fst ` set (bind_array a v m) = insert a (fst ` set m)"
    using assms
  proof (induction m)
    case (Cons p m)
    then show ?case by (cases p) (simp add: insert_commute)
  qed simp
qed

lemma map_of_new_assignment:
  assumes "inj_on addr (set objs)" "distinct objs"
  shows "map_of (bindings (new_assignment objs (map f objs))) a = (if a \<in> set objs then Some (f a) else None)"
proof -
  have "map_of (fold (\<lambda>(a, v). bind_array a v) (zip os (map f os)) m) a =
      (if a \<in> set os then Some (f a) else map_of m a)"
    if "distinct os" "inj_on addr (set os \<union> fst ` set m)" "set os \<inter> fst ` set m = {}" for os m
    using that
  proof (induction os arbitrary: m)
    case (Cons o' os)
    have fresh: "\<forall>b \<in> fst ` set m. addr b \<noteq> addr o'"
    proof
      fix b assume b: "b \<in> fst ` set m"
      then have "b \<noteq> o'" using Cons.prems(3) by auto
      then show "addr b \<noteq> addr o'" using b inj_onD[OF Cons.prems(2), of b o'] by auto
    qed
    note b = map_of_bind_array[OF fresh, of "f o'"]
    have "set (o' # os) \<union> fst ` set m = set os \<union> fst ` set (bind_array o' (f o') m)"
      using b(2) by auto
    then have "inj_on addr (set os \<union> fst ` set (bind_array o' (f o') m))"
      using Cons.prems(2) by simp
    moreover have "set os \<inter> fst ` set (bind_array o' (f o') m) = {}"
      using Cons.prems b(2) by auto
    ultimately show ?case
      using Cons.IH[of "bind_array o' (f o') m"] Cons.prems(1) b(1) by auto
  qed simp
  from this[of objs "[]"] assms show ?thesis by (simp add: new_assignment_def)
qed

lemma arrays_of_new_assignment:
  assumes "inj_on addr (set objs)" "distinct objs"
  shows "fst ` set (bindings (new_assignment objs (map f objs))) = set objs"
proof -
  have "dom (map_of (bindings (new_assignment objs (map f objs)))) = set objs"
    using map_of_new_assignment[OF assms, of f] by (auto simp: dom_def split: if_splits)
  then show ?thesis by (simp add: dom_map_of_conv_image_fst)
qed

lemma aenv_bound:
  assumes "map_of (bindings asg) a = Some v" "0 \<le> i" "i < int (length v)"
  shows "aenv asg a i = v ! nat i"
  using assms by (simp add: aenv_def assignment_env_def)

lemma aenv_unbound:
  assumes "map_of (bindings asg) a = None" "\<not> allowFreeValues asg"
  shows "aenv asg a i = 0"
  using assms by (simp add: aenv_def assignment_env_def)

lemma new_assignment_ok:
  assumes "inj_on addr (set objs)" "distinct objs" "list_all wf_array objs"
  shows "asg_ok (new_assignment objs (map (array_values \<rho>) objs))"
proof -
  have "list_all (fits (range_w a)) (array_values \<rho> a)" if "a \<in> set objs" for a
    using assms(3) that by (simp add: array_values_def list_all_iff fits_initial_value)
  then show ?thesis
    unfolding asg_ok_def map_of_new_assignment[OF assms(1,2)]
    by (auto simp: new_assignment_def array_values_def)
qed

lemma new_assignment_value:
  assumes "inj_on addr (set objs)" "distinct objs" "a \<in> set objs" "wf_array a" "0 \<le> i" "i < int (arr_size a)"
  shows "initial_value (aenv (new_assignment objs (map (array_values \<rho>) objs))) a i = initial_value \<rho> a i"
proof -
  have "map_of (bindings (new_assignment objs (map (array_values \<rho>) objs))) a = Some (array_values \<rho> a)"
    using map_of_new_assignment[OF assms(1,2)] assms(3) by simp
  then have "aenv (new_assignment objs (map (array_values \<rho>) objs)) a i = initial_value \<rho> a i"
    using assms(5,6) aenv_bound[of _ a "array_values \<rho> a" i] by (simp add: array_values_def)
  then show ?thesis
    using fits_initial_value[OF assms(4), of \<rho> i] by (auto simp: initial_value_def take_bit_fits)
qed

text \<open>\<open>computeInitialValues\<close> reports the contents of the arrays in the environment of the assignment.\<close>

lemma bound_values_array:
  assumes "asg_ok asg" "isSymbolicArray a"
  shows "bound_values asg a = array_values (aenv asg) a"
proof (cases "map_of (bindings asg) a")
  case None
  then show ?thesis
    using assms aenv_unbound[OF None]
    by (simp add: bound_values_def array_values_def initial_value_def asg_ok_def isConstantArray_def map_replicate_const)
next
  case (Some v)
  have v: "length v = arr_size a" "list_all (fits (range_w a)) v"
    using assms(1) Some by (auto simp: asg_ok_def)
  have "initial_value (aenv asg) a (int i) = v ! i" if "i < arr_size a" for i
    using that v aenv_bound[OF Some, of "int i"] assms(2)
    by (simp add: initial_value_def isConstantArray_def list_all_length take_bit_fits)
  then show ?thesis
    using Some v by (simp add: bound_values_def array_values_def list_eq_iff_nth_eq)
qed

text \<open>A syntactic check that an assignment satisfies constraints is sound, and complete for
  expressions that evaluate to constants.\<close>

lemma satisfies_sound:
  assumes "satisfies asg cs" "\<forall>c \<in> set cs. wt c \<and> defined_everywhere c"
  shows "models (aenv asg) cs"
  unfolding models_def list_all_iff
proof
  fix c assume c: "c \<in> set cs"
  then have "isTrue (evaluate asg c)" using assms(1) by (auto simp: satisfies_def list_all_iff)
  then obtain d where d: "evaluate asg c = ConstantExpr d" "rawval d \<noteq> 0"
    by (auto simp: isTrue_def CE_isTrue_def split: option.splits)
  have "eval (aenv asg) (evaluate asg c) = eval (aenv asg) c"
    using evaluate_sound[of c asg "\<lambda>_ _. 0"] assms(2) c by (auto simp: aenv_def defined_everywhere_def)
  then show "holds (aenv asg) c" using d by (simp add: holds_def)
qed

lemma satisfies_complete:
  assumes "asg_ok asg" "models (aenv asg) cs"
    "\<forall>c \<in> set cs. wt c \<and> getWidth c = 1 \<and> defined_everywhere c \<and> foldable c"
  shows "satisfies asg cs"
proof -
  have "eval (aenv asg) c = 1" if "c \<in> set cs" for c
    using assms(2,3) that eval_Bool[of c "aenv asg"] by (auto simp: models_def list_all_iff holds_def)
  then show ?thesis
    using satisfies_iff[of asg cs "\<lambda>_ _. 0"] assms(1,3) by (simp add: asg_ok_def aenv_def defined_everywhere_def)
qed

section \<open>The invariant\<close>

text \<open>What a result for a key says, and the state of the cache.\<close>

definition result_ok :: "expr list \<Rightarrow> assignment option \<Rightarrow> bool" where
  "result_ok key r = (case r of Some asg \<Rightarrow> asg_ok asg \<and> models (aenv asg) key | None \<Rightarrow> \<forall>\<rho>. \<not> models \<rho> key)"

definition bound_in :: "array set \<Rightarrow> assignment \<Rightarrow> bool" where
  "bound_in A asg \<longleftrightarrow> asg_ok asg \<and> fst ` set (bindings asg) \<subseteq> A"

definition cex_inv :: "('s \<Rightarrow> bool) \<Rightarrow> (apint \<Rightarrow> 32 word) \<Rightarrow> array set \<Rightarrow> 's cex_state \<Rightarrow> bool" where
  "cex_inv good hv A st \<longleftrightarrow> good (cex_inner st) \<and>
     mos_ok (expr_less hv) (exprs_over A) (cex_cache st) \<and> paths_ok (expr_less hv) (cex_cache st) \<and>
     (\<forall>ks r. mos_lookup ks (cex_cache st) = Some r \<longrightarrow> result_ok ks r) \<and>
     (\<forall>asg \<in> set (assignmentsTable st). bound_in A asg)"

lemma models_set: "models \<rho> cs \<longleftrightarrow> (\<forall>c \<in> set cs. holds \<rho> c)"
  by (simp add: models_def list_all_iff)

lemma result_ok_subset:
  "result_ok ks None \<Longrightarrow> set ks \<subseteq> set ks' \<Longrightarrow> result_ok ks' None"
  by (auto simp: result_ok_def models_set)

lemma result_ok_superset:
  "result_ok ks (Some asg) \<Longrightarrow> set ks' \<subseteq> set ks \<Longrightarrow> result_ok ks' (Some asg)"
  by (auto simp: result_ok_def models_set)

definition key_ok :: "(apint \<Rightarrow> 32 word) \<Rightarrow> array set \<Rightarrow> expr list \<Rightarrow> bool" where
  "key_ok hv A key \<longleftrightarrow> ascending (expr_less hv) (exprs_over A) key \<and>
     (\<forall>c \<in> set key. wt c \<and> getWidth c = 1 \<and> defined_everywhere c)"

lemma search_sound:
  assumes inv: "cex_inv good hv A st" and key: "key_ok hv A key"
    and found: "searchForAssignment opts hv key st = Some r"
  shows "result_ok key r"
proof (cases "mos_lookup key (cex_cache st)")
  case (Some r')
  then show ?thesis using inv found by (auto simp: searchForAssignment_def cex_inv_def)
next
  case None
  note c = inv[unfolded cex_inv_def]
  have asc: "ascending (expr_less hv) (exprs_over A) key"
    and wt: "\<forall>c \<in> set key. wt c \<and> defined_everywhere c"
    using key by (simp_all add: key_ok_def)
  have super: "result_ok key r" if "findSuperset (expr_less hv) key NonNullAssignment (cex_cache st) = Some r" for r
    using expr_keys.findSuperset_sound_complete[OF _ _ asc, of "cex_cache st" NonNullAssignment] c that
    by (cases r) (auto simp: NonNullAssignment_def intro: result_ok_superset)
  have sub: "\<exists>js. p r \<and> set js \<subseteq> set key \<and> result_ok js r"
    if "findSubset (expr_less hv) key p (cex_cache st) = Some r" for p r
    using expr_keys.findSubset_sound_complete[OF _ _ asc, of "cex_cache st" p] c that by auto
  have null: "result_ok key r" if "findSubset (expr_less hv) key NullAssignment (cex_cache st) = Some r" for r
    using sub[OF that] by (auto simp: NullAssignment_def intro: result_ok_subset)
  have sat: "result_ok key r"
    if s: "findSubset (expr_less hv) key (NullOrSatisfyingAssignment key) (cex_cache st) = Some r" for r
  proof (cases r)
    case None
    then show ?thesis using sub[OF s] by (auto intro: result_ok_subset)
  next
    case (Some asg)
    then have "satisfies asg key" "asg_ok asg"
      using sub[OF s] by (auto simp: NullOrSatisfyingAssignment_def result_ok_def)
    then show ?thesis using satisfies_sound wt Some by (simp add: result_ok_def)
  qed
  have trial: "result_ok key r" if t: "map_option Some (find (\<lambda>a. satisfies a key) (assignmentsTable st)) = Some r" for r
  proof -
    obtain asg where asg: "find (\<lambda>a. satisfies a key) (assignmentsTable st) = Some asg" "r = Some asg"
      using t by (cases "find (\<lambda>a. satisfies a key) (assignmentsTable st)") simp_all
    then have "satisfies asg key" "asg \<in> set (assignmentsTable st)"
      unfolding find_Some_iff by auto
    with asg(2) show ?thesis using satisfies_sound[OF _ wt] c by (simp add: result_ok_def bound_in_def)
  qed
  show ?thesis
    using found None super null sat trial
    by (simp add: searchForAssignment_def Let_def split: if_splits option.splits)
qed

section \<open>Queries\<close>

text \<open>
  The queries considered: over arrays with distinct addresses, with no division by a value that can
  be 0, and reading arrays within their bounds wherever the constraints hold.
\<close>

definition fine_query :: "array set \<Rightarrow> query \<Rightarrow> bool" where
  "fine_query A q \<longleftrightarrow> bool_query q \<and>
     (\<forall>c \<in> set (createIsZero (qexpr q) # constraints q).
        c \<in> exprs_over A \<and> defined_everywhere c \<and> (\<forall>\<rho>. models \<rho> (constraints q) \<longrightarrow> reads_inside \<rho> c))"

definition answer_ok :: "query \<Rightarrow> assignment option \<Rightarrow> bool" where
  "answer_ok q r = (case r of
      Some asg \<Rightarrow> asg_ok asg \<and> models (aenv asg) (constraints q) \<and> \<not> holds (aenv asg) (qexpr q)
    | None \<Rightarrow> valid q)"

text \<open>A key for a query: the constraints, and the negated expression unless it is constant.\<close>

definition key_for :: "(apint \<Rightarrow> 32 word) \<Rightarrow> array set \<Rightarrow> query \<Rightarrow> expr list \<Rightarrow> bool" where
  "key_for hv A q key \<longleftrightarrow> key_ok hv A key \<and> set key \<subseteq> set (createIsZero (qexpr q) # constraints q) \<and>
     (\<forall>\<rho>. models \<rho> key \<longleftrightarrow> models \<rho> (constraints q) \<and> \<not> holds \<rho> (qexpr q))"

lemma answer_for_key: "key_for hv A q key \<Longrightarrow> result_ok key r \<longleftrightarrow> answer_ok q r"
  by (auto simp: key_for_def result_ok_def answer_ok_def valid_def split: option.split)

lemma answer_ok_None [simp]: "answer_ok q None \<longleftrightarrow> valid q"
  by (simp add: answer_ok_def)

lemma bool_query_constraints: "bool_query q \<Longrightarrow> c \<in> set (constraints q) \<Longrightarrow> wt c \<and> getWidth c = 1"
  by (auto simp: bool_query_def query_ok_def constraints_ok_def list_all_iff)

lemma fine_queryD:
  assumes "fine_query A q"
  shows "bool_query q" "inj_on addr A" "set (createIsZero (qexpr q) # constraints q) \<subseteq> exprs_over A"
    "\<forall>c \<in> set (createIsZero (qexpr q) # constraints q). wt c \<and> getWidth c = 1 \<and> defined_everywhere c"
    "\<And>c \<rho>. c \<in> set (createIsZero (qexpr q) # constraints q) \<Longrightarrow> models \<rho> (constraints q) \<Longrightarrow> reads_inside \<rho> c"
    "holds \<rho> (createIsZero (qexpr q)) \<longleftrightarrow> \<not> holds \<rho> (qexpr q)"
proof -
  show b: "bool_query q" using assms by (simp add: fine_query_def)
  show "inj_on addr A" "set (createIsZero (qexpr q) # constraints q) \<subseteq> exprs_over A"
    using assms by (auto simp: fine_query_def exprs_over_def split: if_splits)
  note z = createIsZero_bool[OF bool_queryD(3,2)[OF b]]
  show "\<forall>c \<in> set (createIsZero (qexpr q) # constraints q). wt c \<and> getWidth c = 1 \<and> defined_everywhere c"
    using assms z(1,2) bool_query_constraints[OF b] by (auto simp: fine_query_def)
  show "\<And>c \<rho>. c \<in> set (createIsZero (qexpr q) # constraints q) \<Longrightarrow> models \<rho> (constraints q) \<Longrightarrow> reads_inside \<rho> c"
    using assms by (auto simp: fine_query_def)
  show "holds \<rho> (createIsZero (qexpr q)) \<longleftrightarrow> \<not> holds \<rho> (qexpr q)" by (rule z(3))
qed

lemma key_for_query:
  assumes q: "fine_query A q"
  shows "dyn_Constant (createIsZero (qexpr q)) = None \<Longrightarrow>
      key_for hv A q (set_add (expr_less hv) (createIsZero (qexpr q)) (key_of hv (constraints q)))"
    and "dyn_Constant (createIsZero (qexpr q)) = Some c \<Longrightarrow> \<not> CE_isFalse c \<Longrightarrow> key_for hv A q (key_of hv (constraints q))"
    and "dyn_Constant (createIsZero (qexpr q)) = Some c \<Longrightarrow> CE_isFalse c \<Longrightarrow> valid q"
proof -
  let ?neg = "createIsZero (qexpr q)"
  note f = fine_queryD[OF q]
  have asc: "ascending (expr_less hv) (exprs_over A) (key_of hv (constraints q))"
    using f(3) by (intro ascending_key_of) auto
  have const: "holds \<rho> (qexpr q) \<longleftrightarrow> CE_isFalse c" if "dyn_Constant ?neg = Some c" for \<rho> c
  proof -
    have n: "?neg = ConstantExpr c" using that by (cases ?neg) simp_all
    then have "getBitWidth c = 1" using f(4) by simp
    then show ?thesis using f(6)[of \<rho>] n by (auto simp: holds_def CE_isFalse_def)
  qed
  show "key_for hv A q (set_add (expr_less hv) ?neg (key_of hv (constraints q)))"
    using f(3,4,6) expr_keys.ascending_set_add[OF asc, of ?neg] by (auto simp: key_for_def key_ok_def models_set)
  show "dyn_Constant ?neg = Some c \<Longrightarrow> \<not> CE_isFalse c \<Longrightarrow> key_for hv A q (key_of hv (constraints q))"
    using f(4) asc const by (auto simp: key_for_def key_ok_def models_set)
  show "dyn_Constant ?neg = Some c \<Longrightarrow> CE_isFalse c \<Longrightarrow> valid q"
    using const by (auto simp: valid_def)
qed

lemma cex_inv_counters [simp]:
  "cex_inv good hv A (cex_hit st) \<longleftrightarrow> cex_inv good hv A st"
  "cex_inv good hv A (cex_miss st) \<longleftrightarrow> cex_inv good hv A st"
  by (simp_all add: cex_inv_def cex_hit_def cex_miss_def)

lemma lookup_sound:
  assumes inv: "cex_inv good hv A st" and q: "fine_query A q"
    and look: "lookupAssignment opts hv q st = (key, found, st1)"
  shows "cex_inv good hv A st1" "found = Some r \<Longrightarrow> answer_ok q r" "found = None \<Longrightarrow> key_for hv A q key"
proof -
  have search: "searchForAssignment opts hv key st = Some r \<Longrightarrow> answer_ok q r" if "key_for hv A q key" for key
    using that search_sound[OF inv, of key opts r] answer_for_key[OF that] by (auto simp: key_for_def)
  show "cex_inv good hv A st1" "found = Some r \<Longrightarrow> answer_ok q r" "found = None \<Longrightarrow> key_for hv A q key"
    using look inv search key_for_query(1,2)[OF q, where hv = hv] key_for_query(3)[OF q]
    by (auto simp: lookupAssignment_def Let_def split: option.splits if_splits)
qed

lemma key_arrays:
  assumes "fine_query A q" "key_for hv A q key"
  shows "set (findSymbolicObjects key) \<subseteq> A" "list_all wf_array (findSymbolicObjects key)"
    and "(a, us, i) \<in> reads_in True c \<Longrightarrow> c \<in> set key \<Longrightarrow> wf_array a \<and> wt i \<and> getWidth i = domain_w a"
proof -
  have ok: "\<forall>c \<in> set key. wt c \<and> c \<in> exprs_over A"
    using assms(2) by (auto simp: key_for_def key_ok_def ascending_def)
  show "set (findSymbolicObjects key) \<subseteq> A"
    using ok reads_in_arrays(1)[of True] fine_queryD(2)[OF assms(1)]
    by (fastforce simp: findSymbolicObjects_arrays symbolic_arrays_def exprs_over_def)
  have wf: "wf_array a \<and> wt i \<and> getWidth i = domain_w a" if "(a, us, i) \<in> reads_in True c" "c \<in> set key" for a us i c
    using bspec[OF wt_reads_in(1)[THEN mp] that(1)] ok that(2) by fastforce
  then show "(a, us, i) \<in> reads_in True c \<Longrightarrow> c \<in> set key \<Longrightarrow> wf_array a \<and> wt i \<and> getWidth i = domain_w a"
    by blast
  show "list_all wf_array (findSymbolicObjects key)"
    using wf by (fastforce simp: list_all_iff findSymbolicObjects_arrays symbolic_arrays_def)
qed

text \<open>The assignment built from a counterexample satisfies the key it was asked for.\<close>

lemma fresh_assignment:
  assumes q: "fine_query A q" and key: "key_for hv A q key"
    and \<rho>: "models \<rho> (constraints q)" "\<not> holds \<rho> (qexpr q)"
    and objs: "objs = findSymbolicObjects key" and asg: "asg = new_assignment objs (map (array_values \<rho>) objs)"
  shows "result_ok key (Some asg)" "bound_in A asg"
proof -
  have keys: "set key \<subseteq> set (createIsZero (qexpr q) # constraints q)" and m: "models \<rho> key"
    using key \<rho> by (auto simp: key_for_def)
  note arrays = findSymbolicObjects_arrays[of key, folded objs]
    and wf = key_arrays(3)[OF q key]
    and wfs = key_arrays(2)[OF q key, folded objs] and sub = key_arrays(1)[OF q key, folded objs]
  have inj: "inj_on addr (set objs)"
    using fine_queryD(2)[OF q] sub inj_on_subset by blast
  have "eval \<rho> c = eval (aenv asg) c" if c: "c \<in> set key" for c
  proof -
    have "initial_value \<rho> a (eval \<rho> i) = initial_value (aenv asg) a (eval \<rho> i)"
      if r: "(a, us, i) \<in> reads_in True c" for a us i
    proof -
      have "eval \<rho> i < int (arr_size a)"
        using fine_queryD(5)[OF q subsetD[OF keys c] \<rho>(1)] r by (auto simp: reads_inside_def)
      moreover have "0 \<le> eval \<rho> i"
        using wf[OF r c] fits_eval[of i "domain_w a" \<rho>] by (auto simp: fits_def)
      moreover have "a \<in> set objs" if "isSymbolicArray a"
        using that r c by (force simp: arrays(1) symbolic_arrays_def)
      ultimately show ?thesis
        using new_assignment_value[OF inj arrays(2), of a "eval \<rho> i" \<rho>] wf[OF r c] asg
        by (cases "isSymbolicArray a") (simp_all add: initial_value_def isConstantArray_def)
    qed
    then show ?thesis
      using eval_same(1)[of \<rho> "aenv asg" c] by (auto simp: reads_same_def)
  qed
  then have "models (aenv asg) key" using m by (auto simp: models_set holds_def)
  then show "result_ok key (Some asg)"
    using new_assignment_ok[OF inj arrays(2) wfs] asg by (simp add: result_ok_def)
  have "fst ` set (bindings asg) = set objs"
    unfolding asg by (rule arrays_of_new_assignment[OF inj arrays(2)])
  then show "bound_in A asg"
    using new_assignment_ok[OF inj arrays(2) wfs] asg sub by (simp add: bound_in_def)
qed

text \<open>
  Assignments over the arrays \<open>A\<close> that the table does not tell apart are equal, so that the entry kept
  for a new assignment is the assignment itself.
\<close>

lemma assignment_less_total:
  assumes "bound_in A a" "bound_in A b" "inj_on addr A" "\<not> assignment_less a b" "\<not> assignment_less b a"
  shows "a = b"
proof -
  have eq: "map (\<lambda>(x, v). (addr x, v)) (bindings a) = map (\<lambda>(x, v). (addr x, v)) (bindings b)"
    using assms(4,5) by (simp add: assignment_less_def)
  have "inj_on (\<lambda>(x, v). (addr x, v)) (set (bindings a) \<union> set (bindings b))"
  proof (rule inj_onI)
    fix p q assume "p \<in> set (bindings a) \<union> set (bindings b)" "q \<in> set (bindings a) \<union> set (bindings b)"
      and e: "(\<lambda>(x, v). (addr x, v)) p = (\<lambda>(x, v). (addr x, v)) q"
    then have "fst p \<in> A" "fst q \<in> A" using assms(1,2) by (auto simp: bound_in_def)
    then show "p = q" using e inj_onD[OF assms(3), of "fst p" "fst q"] by (cases p; cases q) auto
  qed
  then have "bindings a = bindings b"
    using map_inj_on[OF eq] by blast
  then show ?thesis
    using assms(1,2) by (cases a; cases b) (simp add: bound_in_def asg_ok_def)
qed

lemma memoize_same:
  assumes "memoize a bs = (r, bs')" "bound_in A a" "\<forall>b \<in> set bs. bound_in A b" "inj_on addr A"
  shows "r = a \<and> set bs' \<subseteq> insert a (set bs)"
  using assms(1,3)
proof (induction bs arbitrary: bs')
  case (Cons b bs)
  then show ?case
    using assignment_less_total[OF assms(2) _ assms(4), of b] by (auto split: if_splits prod.splits)
qed simp

section \<open>The operations keep the invariant and answer correctly\<close>

lemma cex_inv_fields:
  "cex_inv good hv A st \<Longrightarrow> good s' \<Longrightarrow> cex_inv good hv A (st\<lparr>cex_inner := s'\<rparr>)"
  "cex_inv good hv A st \<Longrightarrow> \<forall>asg \<in> set t. bound_in A asg \<Longrightarrow> cex_inv good hv A (st\<lparr>assignmentsTable := t\<rparr>)"
  by (simp_all add: cex_inv_def)

lemma cex_inv_insert:
  assumes "cex_inv good hv A st" "key_for hv A q key" "result_ok key r"
  shows "cex_inv good hv A (st\<lparr>cex_cache := mos_insert (expr_less hv) key r (cex_cache st)\<rparr>)"
proof -
  have asc: "ascending (expr_less hv) (exprs_over A) key"
    using assms(2) by (simp add: key_for_def key_ok_def)
  have ok: "mos_ok (expr_less hv) (exprs_over A) (cex_cache st)"
    using assms(1) by (simp add: cex_inv_def)
  show ?thesis
    using assms(1,3) expr_keys.mos_insert_ok[OF ok asc] expr_keys.mos_insert_paths[OF ok asc]
      expr_keys.mos_lookup_insert[OF ok asc, of _ r]
    by (simp add: cex_inv_def)
qed

text \<open>
  The queries of the operations: those of \<open>computeValidity\<close> also ask for the negation and evaluate
  the expression under an assignment; those of \<open>computeValue\<close> have expressions of any width.
\<close>

definition fine_constraints :: "array set \<Rightarrow> query \<Rightarrow> bool" where
  "fine_constraints A q \<longleftrightarrow> query_ok q \<and> inj_on addr A \<and> defined_everywhere (qexpr q) \<and>
     (\<forall>c \<in> set (constraints q). c \<in> exprs_over A \<and> defined_everywhere c \<and>
        (\<forall>\<rho>. models \<rho> (constraints q) \<longrightarrow> reads_inside \<rho> c))"

definition cex_query :: "array set \<Rightarrow> query \<Rightarrow> bool" where
  "cex_query A q \<longleftrightarrow> fine_query A q \<and> fine_query A (negateExpr q) \<and> defined_everywhere (qexpr q)"

lemma withFalse_constraints [simp]: "constraints (withFalse q) = constraints q"
  by (simp add: withFalse_def)

lemma fine_withFalse: "fine_constraints A q \<Longrightarrow> fine_query A (withFalse q)"
proof -
  assume f: "fine_constraints A q"
  have "createIsZero (alloc_Const 1 0) = ConstantExpr (APInt 1 1)" by code_simp
  then have z: "createIsZero (qexpr (withFalse q)) = ConstantExpr (APInt 1 1)"
    by (simp only: withFalse_def withExpr_sel)
  have "bool_query (withFalse q)"
    using f unfolding withFalse_def fine_constraints_def
    by (intro bool_query_withExpr) (simp_all add: alloc_Const_def apint_of_def)
  then show ?thesis
    unfolding fine_query_def z
    using f by (fastforce simp: fine_constraints_def exprs_over_def defined_everywhere_def reads_inside_def
        split: if_splits)
qed

lemma cex_query_constraints: "cex_query A q \<Longrightarrow> fine_constraints A q"
  using fine_queryD(1,2)[of A q] by (auto simp: cex_query_def fine_constraints_def fine_query_def bool_query_def)

lemma answer_ok_valid: "answer_ok q r \<Longrightarrow> r = None \<longleftrightarrow> valid q"
  by (cases r) (auto simp: answer_ok_def valid_def)

lemma answer_withFalse:
  assumes "query_ok q" "answer_ok (withFalse q) r"
  shows "\<exists>a. r = Some a \<and> asg_ok a \<and> models (aenv a) (constraints q)"
  using assms valid_withFalse[OF assms(1)] by (cases r) (auto simp: answer_ok_def)

lemma evaluate_assignment:
  assumes "wt e" "defined_everywhere e" "dyn_Constant (evaluate a e) = Some c"
  shows "evaluate a e = ConstantExpr c" "getBitWidth c = getWidth e" "rawval c = eval (aenv a) e"
proof -
  show e: "evaluate a e = ConstantExpr c"
    using assms(3) by (cases "evaluate a e") simp_all
  show "getBitWidth c = getWidth e" "rawval c = eval (aenv a) e"
    using evaluate_sound[of e a "\<lambda>_ _. 0"] assms(1,2) e by (simp_all add: aenv_def defined_everywhere_def)
qed

text \<open>Expressions that an assignment evaluates to constants.\<close>

definition foldable_query :: "query \<Rightarrow> bool" where
  "foldable_query q \<longleftrightarrow> (\<forall>c \<in> set (createIsZero (qexpr q) # constraints q). foldable c)"

definition answers :: "'s solver_impl \<Rightarrow> ('s \<Rightarrow> bool) \<Rightarrow> query \<Rightarrow> bool" where
  "answers impl good q \<longleftrightarrow>
     (\<forall>objs s. good s \<longrightarrow> list_all wf_array objs \<longrightarrow> fst (computeInitialValues impl q objs s) \<noteq> None)"

definition answered :: "cex_opts \<Rightarrow> 's solver_impl \<Rightarrow> ('s \<Rightarrow> bool) \<Rightarrow> query \<Rightarrow> bool" where
  "answered opts impl good q \<longleftrightarrow> answers impl good q \<and> (DebugCexCacheCheckBinding opts \<longrightarrow> foldable_query q)"

text \<open>A counterexample of the underlying solver, memoized and cached.\<close>

lemma new_binding_ok:
  assumes inv: "cex_inv good hv A st" and q: "fine_query A q" and key: "key_for hv A q key"
    and vls: "counterexample_ok q objs (Some vls)" and objs: "objs = findSymbolicObjects key"
    and m: "memoize (new_assignment objs vls) (assignmentsTable st) = (binding, table)"
  shows "cex_inv good hv A (st\<lparr>assignmentsTable := table\<rparr>)" "answer_ok q (Some binding)"
    and "cex_inv good hv A (st\<lparr>assignmentsTable := table,
        cex_cache := mos_insert (expr_less hv) key (Some binding) (cex_cache st)\<rparr>)"
    and "foldable_query q \<Longrightarrow> satisfies binding key"
proof -
  obtain \<rho> where \<rho>: "models \<rho> (constraints q)" "\<not> holds \<rho> (qexpr q)" "vls = map (array_values \<rho>) objs"
    using vls by (auto simp: counterexample_ok_def)
  note fresh = fresh_assignment[OF q key \<rho>(1,2) objs refl, folded \<rho>(3)]
  have b: "binding = new_assignment objs vls" "set table \<subseteq> insert binding (set (assignmentsTable st))"
    using memoize_same[OF m fresh(2) _ fine_queryD(2)[OF q]] inv by (auto simp: cex_inv_def)
  show "answer_ok q (Some binding)"
    using fresh(1) answer_for_key[OF key] b(1) by simp
  show inv2: "cex_inv good hv A (st\<lparr>assignmentsTable := table\<rparr>)"
    using cex_inv_fields(2)[OF inv, of table] b fresh(2) inv by (auto simp: cex_inv_def)
  show "cex_inv good hv A (st\<lparr>assignmentsTable := table,
      cex_cache := mos_insert (expr_less hv) key (Some binding) (cex_cache st)\<rparr>)"
    using cex_inv_insert[OF inv2 key, of "Some binding"] fresh(1) b(1) by simp
  show "satisfies binding key" if "foldable_query q"
    using satisfies_complete[of binding key] fresh(1) b(1) key that
    by (auto simp: result_ok_def key_for_def key_ok_def foldable_query_def)
qed

context solver_contract
begin

lemma getAssignment_ok:
  assumes inv: "cex_inv good hv A st" and q: "fine_query A q"
    and get: "getAssignment opts hv impl q st = (res, st')"
  shows "cex_inv good hv A st' \<and> (\<forall>r. res = Some r \<longrightarrow> answer_ok q r) \<and> (answered opts impl good q \<longrightarrow> res \<noteq> None)"
proof -
  obtain key found st1 where look: "lookupAssignment opts hv q st = (key, found, st1)"
    by (cases "lookupAssignment opts hv q st") auto
  note l = lookup_sound[OF inv q look]
  show ?thesis
  proof (cases found)
    case (Some r)
    then show ?thesis using get look l by (auto simp: getAssignment_def)
  next
    case None
    note key = l(3)[OF None]
    define objs where "objs = findSymbolicObjects key"
    obtain vs s' where c: "computeInitialValues impl q objs (cex_inner st1) = (vs, s')" by fastforce
    have wf: "list_all wf_array objs"
      unfolding objs_def by (rule key_arrays(2)[OF q key])
    have ans: "good s'" "\<And>w. vs = Some w \<Longrightarrow> counterexample_ok q objs w"
      using initial_values[OF _ fine_queryD(1)[OF q] wf c] l(1) by (auto simp: cex_inv_def)
    note inv' = cex_inv_fields(1)[OF l(1) ans(1)] and defs = getAssignment_def Let_def objs_def[symmetric]
    consider "vs = None" | "vs = Some None" | vls where "vs = Some (Some vls)" by (cases vs) auto
    then show ?thesis
    proof cases
      case 1
      then have "\<not> answers impl good q"
        using wf c l(1) by (fastforce simp: answers_def cex_inv_def)
      then show ?thesis
        using get look None c inv' 1 by (auto simp: defs answered_def)
    next
      case 2
      then have "answer_ok q None" using ans(2) by (auto simp: counterexample_ok_def)
      then show ?thesis
        using get look None c 2 cex_inv_insert[OF inv' key] answer_for_key[OF key] by (auto simp: defs)
    next
      case (3 vls)
      obtain binding table where m: "memoize (new_assignment objs vls) (assignmentsTable st1) = (binding, table)"
        by fastforce
      note b = new_binding_ok[OF inv' q key ans(2)[OF 3] objs_def, simplified, OF m]
      show ?thesis
        using get look None c 3 m b by (auto simp: defs answered_def split: if_splits)
    qed
  qed
qed

lemma cex_truth_ok:
  assumes inv: "cex_inv good hv A st" and q: "cex_query A q"
    and c: "cex_computeTruth opts hv impl q st = (r, st')"
  shows "cex_inv good hv A st' \<and> (\<forall>b. r = Some b \<longrightarrow> b = valid q)"
proof -
  have fine: "fine_query A q" "fine_query A (negateExpr q)"
    using q by (simp_all add: cex_query_def)
  have get: "cex_inv good hv A st2 \<and> (\<forall>b. map_option (\<lambda>a. a = None) x = Some b \<longrightarrow> b = valid q)"
    if "cex_inv good hv A st1" "getAssignment opts hv impl q st1 = (x, st2)" for st1 x st2
    using getAssignment_ok[OF that(1) fine(1) that(2)] answer_ok_valid by auto
  obtain key found st1 where l: "lookupAssignment opts hv (negateExpr q) st = (key, found, st1)"
    by (cases "lookupAssignment opts hv (negateExpr q) st") auto
  have "cex_inv good hv A st1"
    by (rule lookup_sound(1)[OF inv fine(2) l])
  then show ?thesis
    using c get inv l by (fastforce simp: cex_computeTruth_def split: if_splits prod.splits option.splits)
qed

lemma cex_validity_ok:
  assumes inv: "cex_inv good hv A st" and q: "cex_query A q"
    and c: "cex_computeValidity opts hv impl q st = (v, st')"
  shows "cex_inv good hv A st' \<and> (\<forall>b. v = Some b \<longrightarrow> b = validity_of q)"
proof -
  have fine: "fine_query A q" "fine_query A (negateExpr q)" "defined_everywhere (qexpr q)"
    using q by (simp_all add: cex_query_def)
  note b = fine_queryD(1)[OF fine(1)]
  obtain x st1 where g1: "getAssignment opts hv impl (withFalse q) st = (x, st1)" by fastforce
  have 1: "cex_inv good hv A st1" "\<And>r. x = Some r \<Longrightarrow> answer_ok (withFalse q) r"
    using getAssignment_ok[OF inv fine_withFalse[OF cex_query_constraints[OF q]] g1] by auto
  obtain y st2 where g2: "getAssignment opts hv impl q st1 = (y, st2)" by fastforce
  have 2: "cex_inv good hv A st2" "\<And>r. y = Some r \<Longrightarrow> r = None \<longleftrightarrow> valid q"
    using getAssignment_ok[OF 1(1) fine(1) g2] answer_ok_valid by auto
  obtain z st3 where g3: "getAssignment opts hv impl (negateExpr q) st1 = (z, st3)" by fastforce
  have 3: "cex_inv good hv A st3" "\<And>r. z = Some r \<Longrightarrow> r = None \<longleftrightarrow> refuted q"
    using getAssignment_ok[OF 1(1) fine(2) g3] answer_ok_valid b by auto
  show ?thesis
  proof (cases "\<exists>a. x = Some (Some a)")
    case True
    then obtain a where a: "x = Some (Some a)" by blast
    have m: "models (aenv a) (constraints q)"
      using answer_withFalse[OF bool_queryD(1)[OF b] 1(2)[OF a]] by simp
    show ?thesis
    proof (cases "dyn_Constant (evaluate a (qexpr q))")
      case None
      then show ?thesis using c g1 a 1(1) by (auto simp: cex_computeValidity_def)
    next
      case (Some d)
      note e = evaluate_assignment[OF bool_queryD(3)[OF b] fine(3) Some]
      have "CE_isTrue d \<longleftrightarrow> holds (aenv a) (qexpr q)"
        using e bool_queryD(2)[OF b] by (auto simp: CE_isTrue_def holds_def)
      then have "CE_isTrue d \<Longrightarrow> \<not> refuted q" "\<not> CE_isTrue d \<Longrightarrow> \<not> valid q"
        using m by (auto simp: valid_def refuted_def)
      then show ?thesis
        using c g1 g2 g3 a Some 2 3 by (auto simp: cex_computeValidity_def validity_of_def split: if_splits option.splits)
    qed
  next
    case False
    then show ?thesis
      using c g1 1(1) by (auto simp: cex_computeValidity_def split: option.splits)
  qed
qed

lemma cex_value_ok:
  assumes inv: "cex_inv good hv A st" and q: "fine_constraints A q"
    and c: "cex_computeValue opts hv impl q st = (e, st')"
  shows "cex_inv good hv A st' \<and> (\<forall>v. e = Some v \<longrightarrow> value_ok q v)"
proof -
  have ok: "query_ok q" "wt (qexpr q)" "defined_everywhere (qexpr q)"
    using q by (simp_all add: fine_constraints_def query_ok_def)
  obtain x st1 where g: "getAssignment opts hv impl (withFalse q) st = (x, st1)" by fastforce
  have 1: "cex_inv good hv A st1" "\<And>r. x = Some r \<Longrightarrow> answer_ok (withFalse q) r"
    using getAssignment_ok[OF inv fine_withFalse[OF q] g] by auto
  have "value_ok q v" if x: "x = Some (Some a)" and const: "isConstantExpr (evaluate a (qexpr q))" and v: "v = evaluate a (qexpr q)" for a v
  proof -
    obtain d where d: "dyn_Constant (evaluate a (qexpr q)) = Some d"
      using const by (cases "evaluate a (qexpr q)") (simp_all add: isConstantExpr_def)
    show ?thesis
      using evaluate_assignment[OF ok(2,3) d] answer_withFalse[OF ok(1) 1(2)[OF x]] v
      by (auto simp: value_ok_def)
  qed
  then show ?thesis
    using c g 1(1) by (auto simp: cex_computeValue_def Let_def split: option.splits if_splits)
qed

lemma cex_values_ok:
  assumes inv: "cex_inv good hv A st" and q: "fine_query A q" and objs: "list_all isSymbolicArray objs"
    and c: "cex_computeInitialValues opts hv impl q objs st = (vs, st')"
  shows "cex_inv good hv A st' \<and> (\<forall>w. vs = Some w \<longrightarrow> counterexample_ok q objs w)"
proof -
  obtain x st1 where g: "getAssignment opts hv impl q st = (x, st1)" by fastforce
  have 1: "cex_inv good hv A st1" "\<And>r. x = Some r \<Longrightarrow> answer_ok q r"
    using getAssignment_ok[OF inv q g] by auto
  have "counterexample_ok q objs (Some (map (bound_values a) objs))" if "x = Some (Some a)" for a
  proof -
    have "map (bound_values a) objs = map (array_values (aenv a)) objs"
      using 1(2)[OF that] objs bound_values_array by (auto simp: answer_ok_def list_all_iff)
    then show ?thesis using 1(2)[OF that] by (auto simp: answer_ok_def counterexample_ok_def)
  qed
  moreover have "counterexample_ok q objs None" if "x = Some None"
    using 1(2)[OF that] by (simp add: counterexample_ok_def)
  ultimately show ?thesis
    using c g 1(1) by (auto simp: cex_computeInitialValues_def split: option.splits)
qed

text \<open>Where the underlying solver answers, so does this one; no assertion fails.\<close>

lemma getAssignment_answers:
  assumes "cex_inv good hv A st" "fine_query A q" "answered opts impl good q"
  obtains r st' where "getAssignment opts hv impl q st = (Some r, st')" "cex_inv good hv A st'" "answer_ok q r"
proof -
  obtain res st' where g: "getAssignment opts hv impl q st = (res, st')" by fastforce
  then show ?thesis
    using that getAssignment_ok[OF assms(1,2) g] assms(3) by (cases res) (auto simp: answered_def)
qed

lemma withFalse_answers:
  assumes "cex_inv good hv A st" "fine_constraints A q" "answered opts impl good (withFalse q)" "foldable (qexpr q)"
  obtains a c st' where "getAssignment opts hv impl (withFalse q) st = (Some (Some a), st')"
    "cex_inv good hv A st'" "evaluate a (qexpr q) = ConstantExpr c"
proof -
  have ok: "query_ok q" "wt (qexpr q)" "defined_everywhere (qexpr q)"
    using assms(2) by (simp_all add: fine_constraints_def query_ok_def)
  obtain r st' where g: "getAssignment opts hv impl (withFalse q) st = (Some r, st')" "cex_inv good hv A st'"
    "answer_ok (withFalse q) r"
    by (rule getAssignment_answers[OF assms(1) fine_withFalse[OF assms(2)] assms(3)])
  obtain a where "r = Some a" "asg_ok a"
    using answer_withFalse[OF ok(1) g(3)] by blast
  then show ?thesis
    using that g(1,2) evaluate_constant[of a "qexpr q" "\<lambda>_ _. 0"] ok assms(4)
    by (auto simp: asg_ok_def defined_everywhere_def)
qed

lemma cex_answers:
  assumes inv: "cex_inv good hv A st"
  shows "fine_query A q \<Longrightarrow> answered opts impl good q \<Longrightarrow> fst (cex_computeInitialValues opts hv impl q objs st) \<noteq> None"
    and "fine_query A q \<Longrightarrow> answered opts impl good q \<Longrightarrow> \<not> CexCacheExperimental opts \<Longrightarrow>
      fst (cex_computeTruth opts hv impl q st) \<noteq> None"
    and "fine_constraints A q \<Longrightarrow> answered opts impl good (withFalse q) \<Longrightarrow> foldable (qexpr q) \<Longrightarrow>
      fst (cex_computeValue opts hv impl q st) \<noteq> None"
    and "cex_query A q \<Longrightarrow> \<forall>p \<in> {q, negateExpr q, withFalse q}. answered opts impl good p \<Longrightarrow> foldable (qexpr q) \<Longrightarrow>
      fst (cex_computeValidity opts hv impl q st) \<noteq> None"
proof -
  show "fst (cex_computeInitialValues opts hv impl q objs st) \<noteq> None" if h: "fine_query A q" "answered opts impl good q"
  proof -
    obtain r st' where "getAssignment opts hv impl q st = (Some r, st')"
      by (rule getAssignment_answers[OF inv h])
    then show ?thesis by (cases r) (simp_all add: cex_computeInitialValues_def)
  qed
  show "fst (cex_computeTruth opts hv impl q st) \<noteq> None"
    if h: "fine_query A q" "answered opts impl good q" "\<not> CexCacheExperimental opts"
  proof -
    obtain r st' where "getAssignment opts hv impl q st = (Some r, st')"
      by (rule getAssignment_answers[OF inv h(1,2)])
    then show ?thesis using h(3) by (simp add: cex_computeTruth_def)
  qed
  show "fst (cex_computeValue opts hv impl q st) \<noteq> None"
    if h: "fine_constraints A q" "answered opts impl good (withFalse q)" "foldable (qexpr q)"
  proof -
    obtain a c st' where "getAssignment opts hv impl (withFalse q) st = (Some (Some a), st')"
      "evaluate a (qexpr q) = ConstantExpr c"
      by (rule withFalse_answers[OF inv h])
    then show ?thesis by (simp add: cex_computeValue_def isConstantExpr_def)
  qed
  show "fst (cex_computeValidity opts hv impl q st) \<noteq> None"
    if q: "cex_query A q" and a: "\<forall>p \<in> {q, negateExpr q, withFalse q}. answered opts impl good p" and f: "foldable (qexpr q)"
  proof -
    obtain b c st1 where 1: "getAssignment opts hv impl (withFalse q) st = (Some (Some b), st1)"
      "cex_inv good hv A st1" "evaluate b (qexpr q) = ConstantExpr c"
      by (rule withFalse_answers[OF inv cex_query_constraints[OF q] _ f, where opts = opts]) (use a in simp)
    have fine: "fine_query A q" "fine_query A (negateExpr q)"
      using q by (simp_all add: cex_query_def)
    obtain r st2 where 2: "getAssignment opts hv impl q st1 = (Some r, st2)"
      by (rule getAssignment_answers[OF 1(2) fine(1), where opts = opts]) (use a in simp)
    obtain r' st3 where 3: "getAssignment opts hv impl (negateExpr q) st1 = (Some r', st3)"
      by (rule getAssignment_answers[OF 1(2) fine(2), where opts = opts]) (use a in simp)
    show ?thesis using 1 2 3 by (simp add: cex_computeValidity_def)
  qed
qed

end

section \<open>Sequences of calls\<close>

inductive cex_calls ::
    "cex_opts \<Rightarrow> (apint \<Rightarrow> 32 word) \<Rightarrow> array set \<Rightarrow> 's solver_impl \<Rightarrow> 's cex_state \<Rightarrow> 's cex_state \<Rightarrow> bool"
  for opts hv A S where
  cex_none: "cex_calls opts hv A S st st"
| cex_truth: "cex_calls opts hv A S st st' \<Longrightarrow> cex_query A q \<Longrightarrow> cex_computeTruth opts hv S q st' = (r, st'') \<Longrightarrow>
    cex_calls opts hv A S st st''"
| cex_validity: "cex_calls opts hv A S st st' \<Longrightarrow> cex_query A q \<Longrightarrow> cex_computeValidity opts hv S q st' = (v, st'') \<Longrightarrow>
    cex_calls opts hv A S st st''"
| cex_value: "cex_calls opts hv A S st st' \<Longrightarrow> fine_constraints A q \<Longrightarrow> cex_computeValue opts hv S q st' = (e, st'') \<Longrightarrow>
    cex_calls opts hv A S st st''"
| cex_values: "cex_calls opts hv A S st st' \<Longrightarrow> fine_query A q \<Longrightarrow> list_all isSymbolicArray objs \<Longrightarrow>
    cex_computeInitialValues opts hv S q objs st' = (vs, st'') \<Longrightarrow> cex_calls opts hv A S st st''"

lemma cex_inv_new [simp]: "cex_inv good hv A (new_cex_state s) \<longleftrightarrow> good s"
  by (simp add: cex_inv_def new_cex_state_def paths_ok_def)

context solver_contract
begin

lemma cex_calls_inv: "cex_calls opts hv A impl st st' \<Longrightarrow> cex_inv good hv A st \<Longrightarrow> cex_inv good hv A st'"
proof (induction rule: cex_calls.induct)
  case (cex_truth st st' q r st'')
  then show ?case using cex_truth_ok by blast
next
  case (cex_validity st st' q v st'')
  then show ?case using cex_validity_ok by blast
next
  case (cex_value st st' q e st'')
  then show ?case using cex_value_ok by blast
next
  case (cex_values st st' q objs vs st'')
  then show ?case using cex_values_ok by blast
qed

end

section \<open>Properties\<close>

lemma CexCachingSolver_sel:
  "computeTruth (CexCachingSolver opts hv S) = cex_computeTruth opts hv S"
  "computeValidity (CexCachingSolver opts hv S) = cex_computeValidity opts hv S"
  "computeValue (CexCachingSolver opts hv S) = cex_computeValue opts hv S"
  "computeInitialValues (CexCachingSolver opts hv S) = cex_computeInitialValues opts hv S"
  by (simp_all add: CexCachingSolver_def)

text \<open>C30: The counterexample cache is sound over any solver that is, for every setting of its options:
  starting from an empty cache and after any sequence of calls, each of the four operations answers
  as the contract of solvers demands, whether the answer comes from the entry of the key, of a
  superset or a subset, from an assignment that happens to satisfy the key, or from the underlying
  solver. The queries read arrays within their bounds and never divide by 0.\<close>

theorem CexCachingSolver_sound:
  assumes "solver_contract S good" "good s" "cex_calls opts hv A S (new_cex_state s) st"
  shows "(cex_query A q \<longrightarrow>
      (\<forall>b st'. computeTruth (CexCachingSolver opts hv S) q st = (Some b, st') \<longrightarrow> b = valid q) \<and>
      (\<forall>v st'. computeValidity (CexCachingSolver opts hv S) q st = (Some v, st') \<longrightarrow> v = validity_of q)) \<and>
    (fine_constraints A q \<longrightarrow>
      (\<forall>e st'. computeValue (CexCachingSolver opts hv S) q st = (Some e, st') \<longrightarrow> value_ok q e)) \<and>
    (fine_query A q \<and> list_all isSymbolicArray objs \<longrightarrow>
      (\<forall>w st'. computeInitialValues (CexCachingSolver opts hv S) q objs st = (Some w, st') \<longrightarrow>
         counterexample_ok q objs w))"
proof -
  have inv: "cex_inv good hv A st"
    using solver_contract.cex_calls_inv[OF assms(1,3)] assms(2) by simp
  note S = assms(1) and results = solver_contract.cex_truth_ok solver_contract.cex_validity_ok
    solver_contract.cex_value_ok solver_contract.cex_values_ok
  have "b = valid q" if "cex_query A q" "cex_computeTruth opts hv S q st = (Some b, st')" for b st'
    using results(1)[OF S inv that] by simp
  moreover have "v = validity_of q" if "cex_query A q" "cex_computeValidity opts hv S q st = (Some v, st')" for v st'
    using results(2)[OF S inv that] by simp
  moreover have "value_ok q e" if "fine_constraints A q" "cex_computeValue opts hv S q st = (Some e, st')" for e st'
    using results(3)[OF S inv that] by simp
  moreover have "counterexample_ok q objs w"
    if "fine_query A q" "list_all isSymbolicArray objs" "cex_computeInitialValues opts hv S q objs st = (Some w, st')" for w st'
    using results(4)[OF S inv that] by simp
  ultimately show ?thesis
    unfolding CexCachingSolver_sel by blast
qed

text \<open>C31: The counterexample cache answers whenever the underlying solver does, for a query whose
  expression has no \<open>NotOptimized\<close> node over a constant, which divides by no value that can be 0, and
  which reads inside the arrays wherever the constraints hold: after any sequence of calls no
  assertion fails, neither the one that a satisfiable state has an assignment nor the one that an
  assignment evaluates the expression to a constant, and with the debug option the new assignment
  passes the check that it satisfies the key (whose expressions then have no such node either). The
  experimental option is excluded.\<close>

theorem CexCachingSolver_answers:
  assumes "solver_contract S good" "good s" "cex_calls opts hv A S (new_cex_state s) st"
    and "\<not> CexCacheExperimental opts" "cex_query A q" "foldable (qexpr q)"
    and "\<forall>p \<in> {q, negateExpr q, withFalse q}. answered opts S good p"
  shows "fst (computeTruth (CexCachingSolver opts hv S) q st) \<noteq> None \<and>
    fst (computeValidity (CexCachingSolver opts hv S) q st) \<noteq> None \<and>
    fst (computeValue (CexCachingSolver opts hv S) q st) \<noteq> None \<and>
    fst (computeInitialValues (CexCachingSolver opts hv S) q objs st) \<noteq> None"
proof -
  have inv: "cex_inv good hv A st"
    using solver_contract.cex_calls_inv[OF assms(1,3)] assms(2) by simp
  have "fine_query A q" using assms(5) by (simp add: cex_query_def)
  then show ?thesis
    unfolding CexCachingSolver_sel
    using solver_contract.cex_answers[OF assms(1) inv] cex_query_constraints[OF assms(5)] assms(4-7) by simp
qed

text \<open>
  With the experimental option, a query that the cache knows to be refuted, and so not to be valid,
  is reported as a failure of the solver.
\<close>

lemma experimental_failure:
  assumes "CexCacheExperimental opts" "cex_inv good hv A st" "cex_query A q"
    and "lookupAssignment opts hv (negateExpr q) st = (key, Some None, st1)"
  shows "cex_computeTruth opts hv S q st = (None, st1) \<and> \<not> valid q"
proof -
  have "fine_query A (negateExpr q)" "bool_query q"
    using assms(3) fine_queryD(1) by (auto simp: cex_query_def)
  then have "refuted q"
    using lookup_sound(2)[OF assms(2) _ assms(4), of None] by simp
  then have "\<not> valid q"
    using valid_not_refuted bool_queryD(1) \<open>bool_query q\<close> by blast
  then show ?thesis using assms(1,4) by (simp add: cex_computeTruth_def)
qed

definition sample_opts :: cex_opts where
  "sample_opts = \<lparr>CexCacheTryAll = False, CexCacheSuperSet = True, CexCacheExperimental = False,
     DebugCexCacheCheckBinding = True\<rparr>"

lemma sample_negations:
  "createIsZero (qexpr (sample_query Ugt 10)) = BinaryExpr Eq (ConstantExpr (APInt 1 0)) (qexpr (sample_query Ugt 10))"
  "createIsZero (createIsZero (qexpr (sample_query Ugt 10))) = qexpr (sample_query Ugt 10)"
  unfolding sample_query_def sample_byte_def by code_simp+

lemma sample_cex_query: "cex_query {sample_array} (sample_query Ugt 10)"
proof -
  let ?q = "sample_query Ugt 10" and ?A = "{sample_array}"
  let ?ult = "BinaryExpr Ult (sample_byte 0) (ConstantExpr (APInt 8 10))"
  have b: "bool_query ?q" by (rule sample_query_ok) (simp_all add: fits_def)
  have parts: "constraints ?q = [?ult]" "qexpr ?q = BinaryExpr Ugt (ConstantExpr (APInt 8 10)) (sample_byte 0)"
    by (simp_all add: sample_query_def)
  have simple: "c \<in> exprs_over ?A \<and> defined_everywhere c \<and> (\<forall>\<rho>. reads_inside \<rho> c)"
    if "c \<in> {?ult, qexpr ?q, createIsZero (qexpr ?q)}" for c
    using that unfolding sample_negations(1) unfolding parts(2)
    by (auto simp: exprs_over_def defined_everywhere_def reads_inside_def sample_byte_def sample_array_def isDivKind_def)
  then have "fine_query ?A ?q" "fine_query ?A (negateExpr ?q)"
    using b unfolding fine_query_def by (simp_all add: sample_negations(2) parts(1))
  then show ?thesis using simple[of "qexpr ?q"] by (simp add: cex_query_def)
qed

lemma sample_answered:
  "\<forall>p \<in> {sample_query Ugt 10, negateExpr (sample_query Ugt 10), withFalse (sample_query Ugt 10)}.
     answered sample_opts perfect_solver (\<lambda>_. True) p"
proof -
  have "createIsZero (alloc_Const 1 0) = ConstantExpr (APInt 1 1)" by code_simp
  then have "foldable (createIsZero (qexpr (withFalse (sample_query Ugt 10))))"
    by (simp only: withFalse_def withExpr_sel foldable.simps)
  moreover have "foldable (qexpr (sample_query Ugt 10))" "foldable (createIsZero (qexpr (sample_query Ugt 10)))"
    "list_all foldable (constraints (sample_query Ugt 10))"
    unfolding sample_negations(1) by (simp_all add: sample_query_def sample_byte_def)
  ultimately show ?thesis
    by (simp add: answered_def answers_def perfect_solver_def foldable_query_def sample_negations(2) list_all_iff)
qed

theorem CexCachingSolver_answers_witness:
  "fst (computeTruth (CexCachingSolver sample_opts (\<lambda>_. 0) perfect_solver) (sample_query Ugt 10) (new_cex_state ())) \<noteq> None \<and>
   fst (computeValidity (CexCachingSolver sample_opts (\<lambda>_. 0) perfect_solver) (sample_query Ugt 10) (new_cex_state ())) \<noteq> None"
proof -
  have "\<not> CexCacheExperimental sample_opts" "foldable (qexpr (sample_query Ugt 10))"
    by (simp_all add: sample_opts_def sample_query_def sample_byte_def)
  then show ?thesis
    using CexCachingSolver_answers[OF perfect.solver_contract_axioms TrueI cex_none _ sample_cex_query _ sample_answered]
    by blast
qed

theorem CexCachingSolver_sound_witness:
  "fst (computeTruth (CexCachingSolver sample_opts (\<lambda>_. 0) perfect_solver) (sample_query Ugt 10) (new_cex_state ())) = Some True"
proof -
  let ?C = "CexCachingSolver sample_opts (\<lambda>_. 0) perfect_solver" and ?q = "sample_query Ugt 10"
  have inv: "cex_inv (\<lambda>_. True) (\<lambda>_. 0) {sample_array} (new_cex_state ())" by simp
  have "fst (cex_computeTruth sample_opts (\<lambda>_. 0) perfect_solver ?q (new_cex_state ())) \<noteq> None"
    using perfect.cex_answers(2)[OF inv] sample_cex_query sample_answered
    by (simp add: cex_query_def sample_opts_def)
  then obtain b st' where r: "computeTruth ?C ?q (new_cex_state ()) = (Some b, st')"
    unfolding CexCachingSolver_sel by (metis option.collapse prod.collapse)
  have "b = valid ?q"
    using CexCachingSolver_sound[OF perfect.solver_contract_axioms TrueI cex_none] sample_cex_query r by blast
  then show ?thesis
    using r sample_query_valid(1) by simp
qed

end
