(* ===== verification/IndependentPoint.thy ===== *)
theory IndependentPoint
  imports IndependentSolver
begin

text \<open>
  The counterexamples of the independent solver (\<open>computeInitialValues\<close> in
  \<^verbatim>\<open>lib/klee/Solver/IndependentSolver.cpp\<close>) and its assertions: the point put together from the factors is a
  counterexample of the whole query, no factor is empty, the values fit the arrays, and the check of
  the created point never fails.
\<close>

section \<open>What the factors contain\<close>

text \<open>A factor has an expression, and its indices lie inside their arrays.\<close>

definition entries_inside :: "(array \<times> nat list) list \<Rightarrow> bool" where
  "entries_inside m \<longleftrightarrow> list_all (\<lambda>(a, d). list_all (\<lambda>j. j < arr_size a) d) m"

definition inside :: "element_set \<Rightarrow> bool" where
  "inside f \<longleftrightarrow> exprs f \<noteq> [] \<and> entries_inside (elements f)"

lemma entries_inside_simps [simp]:
  "entries_inside []" "entries_inside ((a, d) # m) \<longleftrightarrow> list_all (\<lambda>j. j < arr_size a) d \<and> entries_inside m"
  by (simp_all add: entries_inside_def)

lemma entries_inside_erase [simp]: "entries_inside m \<Longrightarrow> entries_inside (erase a m)"
  by (auto simp: entries_inside_def erase_def list_all_iff)

lemma entries_inside_assign [simp]:
  "entries_inside m \<Longrightarrow> entries_inside (assign a d m) \<longleftrightarrow> list_all (\<lambda>j. j < arr_size a) d"
  by (simp add: assign_def)

lemma entries_insideD: "entries_inside m \<Longrightarrow> map_of m a = Some d \<Longrightarrow> list_all (\<lambda>j. j < arr_size a) d"
  by (auto simp: entries_inside_def list_all_iff dest!: map_of_SomeD)

lemma add_reads_inside:
  "add_reads rs s = Some s' \<Longrightarrow> inside s \<Longrightarrow>
   \<forall>(a, us, i) \<in> set rs. \<forall>c. i = ConstantExpr c \<longrightarrow> nat (rawval c) < arr_size a \<Longrightarrow> inside s'"
proof (induction rs s rule: add_reads.induct)
  case (2 r rs s)
  obtain s1 where 1: "add_read r s = Some s1" "add_reads rs s1 = Some s'"
    using 2(2) by (auto split: option.splits)
  have "inside s1"
    using 1(1) 2(3,4)
    by (auto simp: add_read_def inside_def Let_def dense_add_def split: prod.splits if_splits option.splits
        dest: entries_insideD)
  then show ?case
    using 2(1)[OF 1] 2(4) by simp
qed simp

lemma inside_update [simp]:
  "inside s \<Longrightarrow> inside (s\<lparr>elements := m\<rparr>) \<longleftrightarrow> entries_inside m"
  "inside s \<Longrightarrow> inside (s\<lparr>wholeObjects := as\<rparr>)"
  "inside s \<Longrightarrow> inside (s\<lparr>elements := m, wholeObjects := as\<rparr>) \<longleftrightarrow> entries_inside m"
  "inside s \<Longrightarrow> inside (s\<lparr>exprs := es\<rparr>) \<longleftrightarrow> es \<noteq> []"
  "inside s \<Longrightarrow> entries_inside (elements s)" "inside s \<Longrightarrow> exprs s \<noteq> []"
  by (auto simp: inside_def)

lemma add_whole_inside: "inside s \<Longrightarrow> inside (snd (add_whole as s))"
  by (induction as s rule: add_whole.induct) auto

lemma add_elements_inside: "entries_inside m \<Longrightarrow> inside s \<Longrightarrow> inside (snd (add_elements m s))"
proof (induction m arbitrary: s)
  case (Cons p m)
  obtain a d where p: "p = (a, d)" by fastforce
  have m: "entries_inside m" "list_all (\<lambda>j. j < arr_size a) d"
    using Cons.prems(1) p by simp_all
  note ih = Cons.IH[OF m(1)]
  show ?case
  proof (cases "map_of (elements s) a")
    case None
    then show ?thesis
      using ih[of s] ih[of "s\<lparr>elements := (a, d) # elements s\<rparr>"] Cons.prems(2) m p by simp
  next
    case (Some d0)
    then have "list_all (\<lambda>j. j < arr_size a) d0"
      using Cons.prems(2) entries_insideD[of "elements s" a d0] by simp
    then have "inside (s\<lparr>elements := assign a (d0 @ filter (\<lambda>x. x \<notin> set d0) d) (elements s)\<rparr>)"
      using Cons.prems(2) m(2) by (auto simp: list_all_iff)
    then show ?thesis
      using ih Cons.prems(2) p Some by (simp add: dense_union_def split: bool.split)
  qed
qed simp

lemma ies_add_inside:
  assumes "ies_add s b = (m, s')" "inside s" "inside b"
  shows "inside s'"
proof -
  obtain m1 s1 m2 s2 where 1: "add_whole (wholeObjects b) (s\<lparr>exprs := exprs s @ exprs b\<rparr>) = (m1, s1)"
    "add_elements (elements b) s1 = (m2, s2)" by fastforce
  have "inside s1"
    using add_whole_inside[of "s\<lparr>exprs := exprs s @ exprs b\<rparr>" "wholeObjects b"] assms(2) 1(1) by simp
  then have "inside s2"
    using add_elements_inside[of "elements b" s1] assms(3) 1(2) by simp
  then show ?thesis
    using assms(1) 1 by (simp add: ies_add_def)
qed

lemma absorb_inside:
  "absorb cur cs = (cur', keep, d) \<Longrightarrow> inside cur \<Longrightarrow> list_all inside cs \<Longrightarrow> inside cur' \<and> list_all inside keep"
proof (induction cur cs arbitrary: cur' keep d rule: absorb.induct)
  case (2 cur c cs)
  obtain m cur1 where 1: "ies_add cur c = (m, cur1)" by fastforce
  show ?case
    using 2 1 ies_add_inside[OF 1] by (auto split: if_splits prod.splits)
qed simp

lemma factor_pass_inside: "factor_pass fs = (fs', d) \<Longrightarrow> list_all inside fs \<Longrightarrow> list_all inside fs'"
proof (induction fs arbitrary: fs' d rule: factor_pass.induct)
  case (2 f fs)
  obtain f1 keep d1 where 1: "absorb f fs = (f1, keep, d1)" by (metis prod_cases3)
  obtain gs d2 where 3: "factor_pass keep = (gs, d2)" by fastforce
  show ?case
    using "2.IH"[OF 1[symmetric] refl 3] absorb_inside[OF 1] 1 3 "2.prems" by auto
qed simp

lemma factor_loop_inside: "list_all inside fs \<Longrightarrow> list_all inside (factor_loop fs)"
proof (induction fs rule: factor_loop.induct)
  case (1 fs)
  obtain gs d where p: "factor_pass fs = (gs, d)" by fastforce
  show ?case
    using "1.IH"[OF p[symmetric]] factor_pass_inside[OF p "1.prems"] p
    by (cases d) (simp_all add: factor_loop.simps[of fs])
qed

lemma element_set_of_inside:
  assumes "element_set_of e = Some s" "wt e" "reads_inside \<rho> e"
  shows "inside s"
proof (rule add_reads_inside)
  show "add_reads (findReads e True) \<lparr>elements = [], wholeObjects = [], exprs = [e]\<rparr> = Some s"
    using assms(1) by (simp add: element_set_of_def)
  show "\<forall>(a, us, i) \<in> set (findReads e True). \<forall>c. i = ConstantExpr c \<longrightarrow> nat (rawval c) < arr_size a"
  proof (clarify)
    fix a us c assume "(a, us, ConstantExpr c) \<in> set (findReads e True)"
    then have "eval \<rho> (ConstantExpr c) < int (arr_size a)" "wt (ConstantExpr c)"
      using assms(3) wt_reads_in(1)[THEN mp, OF assms(2), of True]
      by (auto simp: reads_inside_def set_findReads)
    then show "nat (rawval c) < arr_size a"
      by (auto dest: fits_nonneg)
  qed
qed (simp add: inside_def)

lemma make_sets_inside:
  "make_sets es = Some fs \<Longrightarrow> list_all (\<lambda>e. wt e \<and> reads_inside \<rho> e) es \<Longrightarrow> list_all inside fs"
  using element_set_of_inside by (induction es arbitrary: fs) (auto split: option.splits)

lemma make_sets_Some: "list_all small_indices es \<Longrightarrow> make_sets es \<noteq> None"
  using element_set_of_Some by (induction es) (auto split: option.splits)


section \<open>The values fit the arrays\<close>

definition lengths_ok :: "value_map \<Rightarrow> bool" where
  "lengths_ok m \<longleftrightarrow> (\<forall>a v. map_of m a = Some v \<longrightarrow> length v = arr_size a)"

lemma merge_values_total:
  "lengths_ok m \<Longrightarrow> list_all (\<lambda>(a, vs). length vs = arr_size a) prs \<Longrightarrow> entries_inside els \<Longrightarrow>
   \<exists>m'. merge_values els prs m = Some m' \<and> lengths_ok m'"
proof (induction els prs m rule: merge_values.induct)
  case (2 els a vs r m)
  have erase: "map_of (filter (\<lambda>p. fst p \<noteq> a) m) b = (if b = a then None else map_of m b)" for b
    by (induction m) auto
  show ?case
  proof (cases "map_of m a")
    case None
    then have "lengths_ok ((a, vs) # m)"
      using 2(3,4) by (simp add: lengths_ok_def)
    then show ?thesis
      using 2(1)[OF None] 2(4,5) None by simp
  next
    case (Some old)
    let ?idx = "case map_of els a of Some d \<Rightarrow> d | None \<Rightarrow> []"
    have old: "length old = arr_size a"
      using 2(3) Some by (simp add: lengths_ok_def)
    have g: "length old = length vs \<and> list_all (\<lambda>i. i < length old) ?idx"
      using old 2(4,5) entries_insideD[of els a] by (auto split: option.split)
    have "lengths_ok ((a, put_values ?idx vs old) # filter (\<lambda>p. fst p \<noteq> a) m)"
      using 2(3) old erase by (auto simp: lengths_ok_def)
    then show ?thesis
      using 2(2)[OF Some refl g] 2(4,5) g Some by (simp add: Let_def old)
  qed
qed simp

lemma zip_lengths: "list_all (\<lambda>(a, vs). length vs = arr_size a) (zip as (map (array_values \<rho>) as))"
  by (induction as) (simp_all add: array_values_ok(1))

text \<open>No assertion of the loop over the factors fails, and it fails only where the wrapped solver does.\<close>

context complete_solver
begin

lemma solve_factors_total:
  "\<lbrakk>list_all factor_ok fs; list_all inside fs; \<forall>f \<in> set fs. \<forall>e \<in> set (exprs f). wt e \<and> getWidth e = 1;
    lengths_ok m; good s; solve_factors impl fs m s = (r, s')\<rbrakk> \<Longrightarrow>
   r \<noteq> Aborted \<and> (r = Failed \<longrightarrow> (\<exists>f \<in> set fs. \<exists>s1. good s1 \<and>
     fst (computeInitialValues impl \<lparr>constraints = exprs f, qexpr = alloc_Const 1 0\<rparr> (calculateArrayReferences f) s1) = None))"
proof (induction fs arbitrary: m s)
  case (Cons f fs)
  let ?as = "calculateArrayReferences f" and ?q = "\<lparr>constraints = exprs f, qexpr = alloc_Const 1 0\<rparr>"
  have f: "factor_ok f" "list_all factor_ok fs" "inside f" "list_all inside fs"
    "\<forall>f \<in> set fs. \<forall>e \<in> set (exprs f). wt e \<and> getWidth e = 1"
    using Cons.prems(1-3) by simp_all
  note ih = Cons.IH[OF f(2,4,5)]
  have e: "exprs f \<noteq> []" "entries_inside (elements f)"
    using f(3) by simp_all
  show ?case
  proof (cases "?as = []")
    case True
    then show ?thesis
      using ih[OF Cons.prems(4,5)] Cons.prems(6) e(1) by auto
  next
    case False
    obtain v s1 where v: "computeInitialValues impl ?q ?as s = (v, s1)" by fastforce
    have "typed_query ?q"
      using Cons.prems(3) by (auto simp: typed_query_def list_all_iff alloc_Const_def apint_of_def)
    from any_values[OF Cons.prems(5) this references_support(3)[OF f(1)] v]
    have s1: "good s1" and ce: "\<And>w. v = Some w \<Longrightarrow> counterexample_ok ?q ?as w" by simp_all
    consider "v = None" | "v = Some None" | vals where "v = Some (Some vals)" by (metis not_Some_eq)
    then show ?thesis
    proof cases
      case 1
      then have "r = Failed" "fst (computeInitialValues impl ?q ?as s) = None"
        using Cons.prems(6) False e(1) v by simp_all
      then show ?thesis
        using Cons.prems(5) by auto
    next
      case 2
      then show ?thesis
        using Cons.prems(6) False e(1) v by auto
    next
      case (3 vals)
      then obtain \<rho> where vals: "vals = map (array_values \<rho>) ?as"
        using ce[OF 3] by (auto simp: counterexample_ok_def)
      from merge_values_total[OF Cons.prems(4) zip_lengths e(2), of ?as \<rho>]
      obtain m' where m': "merge_values (elements f) (zip ?as (map (array_values \<rho>) ?as)) m = Some m'" "lengths_ok m'" by blast
      then have "merge_values (elements f) (zip ?as vals) m = Some m'" "length vals = length ?as"
        unfolding vals by simp_all
      then have "solve_factors impl fs m' s1 = (r, s')"
        using Cons.prems(6) 3 False e(1) v by simp
      from ih[OF m'(2) s1 this] show ?thesis
        by auto
    qed
  qed
qed auto

end


section \<open>The created point\<close>

text \<open>The elements an expression reads, all bound, are known to the evaluator.\<close>

lemma reads_known_reads_in:
  "(\<forall>(a, us, i) \<in> reads_in True e. K a (nat (eval \<rho> i)) \<or> isConstantArray a \<and> nat (eval \<rho> i) < arr_size a)
     \<longrightarrow> reads_known K \<rho> e"
  "(\<forall>(a, us, i) \<in> reads_in_updates True vs. K a (nat (eval \<rho> i)) \<or> isConstantArray a \<and> nat (eval \<rho> i) < arr_size a)
     \<longrightarrow> reads_known_updates K \<rho> vs"
  by (induction e and vs) auto

text \<open>The queries considered: those the evaluator turns into constants, reading inside the arrays.\<close>

definition checkable :: "query \<Rightarrow> bool" where
  "checkable q \<longleftrightarrow> (isConstantExpr (qexpr q) \<longrightarrow> isFalse (qexpr q)) \<and>
     (\<forall>c \<in> set (createIsZero (qexpr q) # constraints q). small_indices c \<and> foldable c \<and> defined_everywhere c \<and>
        (\<forall>\<rho>. models \<rho> (constraints q) \<longrightarrow> reads_inside \<rho> c))"

lemma checkable_goals: "checkable q \<Longrightarrow> c \<in> set (goals q) \<Longrightarrow>
    small_indices c \<and> foldable c \<and> defined_everywhere c \<and> (\<forall>\<rho>. models \<rho> (constraints q) \<longrightarrow> reads_inside \<rho> c)"
  by (auto simp: checkable_def goals_def split: if_splits)

lemma factors_inside:
  assumes "checkable q" "bool_query q"
  obtains fs where "getAllIndependentConstraintsSets q = Some fs" "list_all inside fs"
proof -
  note bq = bool_queryD[OF assms(2)]
  obtain \<rho> where \<rho>: "models \<rho> (constraints q)"
    using bq(1) by (auto simp: query_ok_def constraints_ok_def)
  have "list_all small_indices (goals q)"
    using checkable_goals[OF assms(1)] by (simp add: list_all_iff)
  then obtain gs where gs: "make_sets (goals q) = Some gs"
    using make_sets_Some by blast
  have "wt c" if "c \<in> set (goals q)" for c
    using that bq createIsZero_bool(1)[OF bq(3,2)]
    by (auto simp: goals_def query_ok_def constraints_ok_def list_all_iff split: if_splits)
  then have "list_all (\<lambda>e. wt e \<and> reads_inside \<rho> e) (goals q)"
    using checkable_goals[OF assms(1)] \<rho> by (simp add: list_all_iff)
  from make_sets_inside[OF gs this] have "list_all inside (factor_loop gs)"
    by (rule factor_loop_inside)
  moreover have "getAllIndependentConstraintsSets q = Some (factor_loop gs)"
    using gs assms(1)
    by (auto simp: getAllIndependentConstraintsSets_def goals_def checkable_def isConstantExpr_def isFalse_def
        simp del: make_sets.simps dyn_Constant_Some split: option.splits)
  ultimately show ?thesis
    using that by blast
qed

text \<open>The assignment of the check binds every array of a factor to its merged values.\<close>

definition point :: "array list \<Rightarrow> value_map \<Rightarrow> assignment" where
  "point objs m = \<lparr>allowFreeValues = True, bindings = zip objs (map (object_values m) objs) @ m\<rparr>"

lemma map_of_point: "map_of m a = Some v \<Longrightarrow> map_of (bindings (point objs m)) a = Some v"
  by (induction objs) (auto simp: point_def object_values_def)

text \<open>
  An expression of a factor has under the point the value it has in the environment of the factors,
  if it reads inside the arrays.
\<close>

lemma eval_point:
  assumes f: "f \<in> set fs" "factor_ok f" "e \<in> set (exprs f)" and d: "sorted_wrt (\<lambda>f g. support f \<inter> support g = {}) fs"
    and m: "merged fs [] m" and sol: "\<And>f. f \<in> set fs \<Longrightarrow> refs f \<noteq> {} \<Longrightarrow> holds_values m (sol f) f"
    and e: "wt e" "reads_inside (merged_env fs sol m) e"
  shows "eval (assignment_env (point objs m) \<rho>0) e = eval (merged_env fs sol m) e"
proof -
  let ?\<rho> = "merged_env fs sol m" and ?p = "assignment_env (point objs m) \<rho>0"
  have "reads_same ?\<rho> ?p (reads_in True e)"
    unfolding reads_same_def
  proof (clarify)
    fix a us i assume r: "(a, us, i) \<in> reads_in True e"
    have w: "wf_array a" "wt i"
      using wt_reads_in(1)[THEN mp, OF e(1), of True] r by auto
    let ?x = "eval ?\<rho> i"
    have x: "0 \<le> ?x" "?x < int (arr_size a)"
      using e(2) r w(2) by (auto simp: reads_inside_def)
    show "initial_value ?\<rho> a ?x = initial_value ?p a ?x"
    proof (cases "isConstantArray a")
      case True
      then show ?thesis
        using x by (simp add: initial_value_def)
    next
      case False
      have "(a, ?x) \<in> read_support (a, us, i)"
        using False w(2) by (cases i) (auto simp: read_support_def dest: fits_nonneg)
      then have s: "(a, ?x) \<in> support f"
        using f(2,3) r by (auto simp: factor_ok_def list_all_iff deps_def)
      then have a: "a \<in> refs f"
        using references_support(1)[OF f(2)] by blast
      then obtain v where v: "map_of m a = Some v" "v ! nat ?x = initial_value (sol f) a ?x"
        using sol[OF f(1)] s x unfolding holds_values_def by fastforce
      then have "length v = arr_size a"
        using values_okD[OF mergedD(1)[OF m]] by blast
      then have "?p a ?x = initial_value (sol f) a ?x"
        using map_of_point[OF v(1)] v(2) x by (simp add: assignment_env_def)
      moreover have "initial_value ?\<rho> a ?x = initial_value (sol f) a ?x"
        using find_factor[OF d f(1) s] False by (simp add: initial_value_def merged_env_def)
      ultimately show ?thesis
        using False fits_initial_value[OF w(1), of "sol f" ?x] take_bit_fits by (simp add: initial_value_def)
    qed
  qed
  then show ?thesis
    using eval_same(1) by metis
qed

lemma known_point:
  assumes f: "f \<in> set fs" "factor_ok f" "e \<in> set (exprs f)" and m: "merged fs [] m"
    and e: "wt e" "reads_inside (assignment_env (point objs m) \<rho>0) e"
  shows "reads_known (bound_element (point objs m)) (assignment_env (point objs m) \<rho>0) e"
proof (rule reads_known_reads_in(1)[THEN mp], clarify)
  let ?p = "assignment_env (point objs m) \<rho>0"
  fix a us i assume r: "(a, us, i) \<in> reads_in True e"
    and c: "\<not> (isConstantArray a \<and> nat (eval ?p i) < arr_size a)"
  have w: "wf_array a" "wt i"
    using wt_reads_in(1)[THEN mp, OF e(1), of True] r by auto
  have x: "0 \<le> eval ?p i" "eval ?p i < int (arr_size a)"
    using e(2) r w(2) by (auto simp: reads_inside_def)
  then have "\<not> isConstantArray a"
    using c by linarith
  then have "(a, eval ?p i) \<in> read_support (a, us, i)"
    using w(2) by (cases i) (auto simp: read_support_def dest: fits_nonneg)
  then have "(a, eval ?p i) \<in> support f"
    using f(2,3) r by (auto simp: factor_ok_def list_all_iff deps_def)
  then have "a \<in> refs f"
    using references_support(1)[OF f(2)] by blast
  then obtain v where v: "map_of m a = Some v"
    using mergedD(3)[OF m, of a] f(1) by fastforce
  then show "bound_element (point objs m) a (nat (eval ?p i))"
    using map_of_point[OF v] values_okD[OF mergedD(1)[OF m] v] x by (simp add: bound_element_def)
qed

lemma check_constraints_True:
  assumes "\<And>c. c \<in> set cs \<Longrightarrow> evaluate asg c = ConstantExpr (APInt 1 1)"
  shows "check_constraints asg cs = Some True"
  using assms by (induction cs) (simp_all add: CE_isFalse_def)


context complete_solver
begin

text \<open>The check of the point succeeds.\<close>

lemma created_point_ok:
  assumes q: "bool_query q" "in_tables q" "checkable q"
    and dep: "isConstantExpr (qexpr q) \<or> deps (createIsZero (qexpr q)) \<noteq> {}"
    and fs: "getAllIndependentConstraintsSets q = Some fs" and m: "merged fs [] m"
  shows "assertCreatedPointEvaluatesToTrue q objs (map (object_values m) objs) m = Some True"
proof -
  note bq = bool_queryD[OF q(1)]
  have w: "wt c \<and> getWidth c = 1" if "c \<in> set (goals q)" for c
    using that bq createIsZero_bool(1,2)[OF bq(3,2)]
    by (auto simp: goals_def query_ok_def constraints_ok_def list_all_iff split: if_splits)
  then have "list_all wt (goals q)" by (simp add: list_all_iff)
  note f = getAllIndependentConstraintsSets_ok[OF fs this]
  have "\<forall>f \<in> set fs. \<exists>\<rho>. refs f \<noteq> {} \<longrightarrow> models \<rho> (exprs f) \<and> holds_values m \<rho> f"
    using mergedD(2)[OF m] unfolding solved_def by blast
  then obtain sol where sol: "\<And>f. f \<in> set fs \<Longrightarrow> refs f \<noteq> {} \<Longrightarrow> models (sol f) (exprs f) \<and> holds_values m (sol f) f"
    by metis
  let ?\<rho> = "merged_env fs sol m" and ?p = "assignment_env (point objs m) (\<lambda>_ _. 0)"
  have h: "holds ?\<rho> c" if "c \<in> set (goals q)" for c
    using goals_hold[OF fs q(1,2) dep _ that] sol by blast
  then have models: "models ?\<rho> (constraints q)"
    by (auto simp: models_def list_all_iff goals_def)
  have place: "\<exists>f \<in> set fs. factor_ok f \<and> c \<in> set (exprs f)" if "c \<in> set (goals q)" for c
    using that f(1,2) by (auto simp: all_exprs_def list_all_iff)
  have same: "eval ?p c = eval ?\<rho> c" if c: "c \<in> set (goals q)" for c
    using place[OF c] eval_point[OF _ _ _ f(3) m, of _ c sol] sol w[OF c] checkable_goals[OF q(3) c] models by blast
  have pm: "models ?p (constraints q)"
    using models same by (auto simp: models_def list_all_iff holds_def goals_def)
  have ev: "evaluate (point objs m) c = ConstantExpr (APInt 1 1)" if c: "c \<in> set (goals q)" for c
  proof -
    have k: "reads_known (bound_element (point objs m)) ?p c"
      using place[OF c] known_point[OF _ _ _ m, of _ c objs] w[OF c] checkable_goals[OF q(3) c] pm by blast
    have "evaluable ?p c" "foldable c" "wt c" "getWidth c = 1"
      using checkable_goals[OF q(3) c] w[OF c] by (auto simp: defined_everywhere_def)
    then have "evaluate (point objs m) c = ConstantExpr (APInt 1 (eval ?p c))"
      using bound.ev_visit_constant[of c "point objs m" "\<lambda>_ _. 0"] k by (simp add: evaluate_def)
    moreover have "eval ?p c = 1"
      using h[OF c] same[OF c] eval_Bool[of c ?\<rho>] w[OF c] by (auto simp: holds_def)
    ultimately show ?thesis by simp
  qed
  have neg: "evaluate (point objs m) (createIsZero (qexpr q)) = ConstantExpr (APInt 1 1)"
  proof (cases "isConstantExpr (qexpr q)")
    case True
    then obtain c where c: "qexpr q = ConstantExpr c" by (rule isConstantExprE)
    then have "c = APInt 1 0"
      using q(3) True by (cases c) (simp add: checkable_def isFalse_def CE_isFalse_def)
    moreover have "createIsZero (ConstantExpr (APInt 1 0)) = ConstantExpr (APInt 1 1)"
      by code_simp
    ultimately show ?thesis
      unfolding c by (simp add: evaluate_def ev_visit.simps)
  qed (use ev in \<open>simp add: goals_def\<close>)
  have "set (constraints q) \<subseteq> set (goals q)"
    by (auto simp: goals_def)
  then have "check_constraints (point objs m) (constraints q) = Some True"
    using ev by (intro check_constraints_True) blast
  with neg show ?thesis
    by (simp add: assertCreatedPointEvaluatesToTrue_def flip: point_def) (simp add: CE_isTrue_def)
qed

lemma independent_values_total:
  assumes s: "good s" and q: "bool_query q" "in_tables q" "checkable q"
    and dep: "isConstantExpr (qexpr q) \<or> deps (createIsZero (qexpr q)) \<noteq> {}"
    and res: "independent_computeInitialValues impl q objs s = (r, s')"
  shows "r \<noteq> Aborted \<and> (r = Failed \<longrightarrow> (\<exists>q' as s1. set (constraints q') \<subseteq> set (goals q) \<and> good s1 \<and>
    fst (computeInitialValues impl q' as s1) = None))"
proof -
  note bq = bool_queryD[OF q(1)]
  obtain fs where fs: "getAllIndependentConstraintsSets q = Some fs" "list_all inside fs"
    using factors_inside[OF q(3,1)] .
  have w: "\<forall>x \<in> set (goals q). wt x \<and> getWidth x = 1"
    using bq createIsZero_bool(1,2)[OF bq(3,2)] by (auto simp: goals_def query_ok_def constraints_ok_def list_all_iff)
  then have "list_all wt (goals q)" by (simp add: list_all_iff)
  note f = getAllIndependentConstraintsSets_ok[OF fs(1) this]
  have typed: "\<forall>f \<in> set fs. \<forall>e \<in> set (exprs f). wt e \<and> getWidth e = 1"
    using w f(2) by (auto simp: all_exprs_def)
  obtain x s1 where x: "solve_factors impl fs [] s = (x, s1)" by fastforce
  have tot: "x \<noteq> Aborted \<and> (x = Failed \<longrightarrow> (\<exists>f \<in> set fs. \<exists>s1. good s1 \<and>
     fst (computeInitialValues impl \<lparr>constraints = exprs f, qexpr = alloc_Const 1 0\<rparr> (calculateArrayReferences f) s1) = None))"
    by (rule solve_factors_total[OF f(1) fs(2) typed _ s x]) (simp add: lengths_ok_def)
  have ok: "good s1 \<and> (\<forall>y. x = Returned y \<longrightarrow> (case y of
       None \<Rightarrow> \<exists>f \<in> set fs. \<forall>\<rho>. \<not> models \<rho> (exprs f) | Some m \<Rightarrow> merged fs [] m))"
    by (rule solve_factors_ok[OF f(1,3) typed _ _ s x]) (simp_all add: values_ok_def)
  show ?thesis
  proof (cases x)
    case (Returned y)
    show ?thesis
    proof (cases y)
      case (Some m)
      then have "merged fs [] m"
        using ok Returned by simp
      from created_point_ok[OF q dep fs(1) this, of objs] show ?thesis
        using res fs(1) x Returned Some by (auto simp: independent_computeInitialValues_def Let_def)
    qed (use res fs(1) x Returned in \<open>auto simp: independent_computeInitialValues_def\<close>)
  next
    case Failed
    then obtain f s2 where "f \<in> set fs" "good s2"
      "fst (computeInitialValues impl \<lparr>constraints = exprs f, qexpr = alloc_Const 1 0\<rparr> (calculateArrayReferences f) s2) = None"
      using tot by blast
    moreover have "set (constraints \<lparr>constraints = exprs f, qexpr = alloc_Const 1 0\<rparr>) \<subseteq> set (goals q)"
      using f(2) \<open>f \<in> set fs\<close> by (auto simp: all_exprs_def)
    moreover have "r = Failed"
      using res fs(1) x Failed by (simp add: independent_computeInitialValues_def)
    ultimately show ?thesis by blast
  qed (use tot in simp)
qed

end

section \<open>Properties\<close>

text \<open>C27: The counterexamples of the independent solver are counterexamples of the whole query. Over a
  solver that also answers the unsatisfiable queries of single factors, the values put together from
  the factors belong to one assignment that satisfies every constraint and falsifies the expression,
  and "no solution" means that the query is valid. No assertion on the way fails, the one that the
  created point satisfies the query included, and there is no answer only where the wrapped solver
  has none for some of the constraints. The expression is a constant or depends on some element (a
  factor without elements is skipped), and tables without updates are read within their bounds in
  every environment. For the assertions a constant expression is false, no \<open>NotOptimized\<close> node stands
  over a constant, nothing divides by 0, indices have at most 32 bits, and where the constraints hold
  all reads lie inside their arrays.\<close>

theorem IndependentSolver_counterexample:
  assumes "complete_solver impl good" "good s" "bool_query q" "in_tables q"
    and "isConstantExpr (qexpr q) \<or> deps (createIsZero (qexpr q)) \<noteq> {}"
    and "list_all (\<lambda>a. wf_array a \<and> isSymbolicArray a) objs"
    and "independent_computeInitialValues impl q objs s = (r, s')"
  shows "good s' \<and> computeInitialValues (IndependentSolver impl) q objs s = (answer r, s') \<and>
    (\<forall>w. r = Returned w \<longrightarrow> counterexample_ok q objs w) \<and>
    (checkable q \<longrightarrow> r \<noteq> Aborted \<and>
       (r = Failed \<longrightarrow> (\<exists>q' as s1. set (constraints q') \<subseteq> set (goals q) \<and> good s1 \<and>
          fst (computeInitialValues impl q' as s1) = None)))"
  using complete_solver.independent_values_ok[OF assms] complete_solver.independent_values_total[OF assms(1-4) _ assms(5,7)]
    assms(7) by (simp add: IndependentSolver_def independent_values_def)

lemma two_bytes_negation:
  "createIsZero (qexpr (two_bytes 5)) = BinaryExpr Eq (ConstantExpr (APInt 1 0)) (qexpr (two_bytes 5))"
  unfolding two_bytes_def sample_byte_def by code_simp

lemma two_bytes_checkable:
  "bool_query (two_bytes 5)" "in_tables (two_bytes 5)" "checkable (two_bytes 5)" "\<not> valid (two_bytes 5)"
  "deps (createIsZero (qexpr (two_bytes 5))) \<noteq> {}"
proof -
  have m: "models (\<lambda>_ _. 0) (constraints (two_bytes 5))" "models (\<lambda>a i. if i = 0 then 7 else 0) (constraints (two_bytes 5))"
    by (simp_all add: two_bytes_def models_def holds_def sample_byte_def sample_array_def initial_value_def
        isConstantArray_def isSymbolicArray_def take_bit_eq_mod)
  have "constraints_ok (constraints (two_bytes 5))"
    unfolding constraints_ok_def using m(1) by (intro conjI exI) (simp_all add: two_bytes_def fits_def)
  then show "bool_query (two_bytes 5)"
    by (simp add: bool_query_def query_ok_def two_bytes_def fits_def)
  have "\<not> holds (\<lambda>a i. if i = 0 then 7 else 0) (qexpr (two_bytes 5))"
    by (simp add: two_bytes_def holds_def sample_byte_def sample_array_def initial_value_def
        isConstantArray_def isSymbolicArray_def take_bit_eq_mod)
  then show "\<not> valid (two_bytes 5)"
    using m(2) unfolding valid_def by blast
  note z = two_bytes_negation
  show "in_tables (two_bytes 5)" "checkable (two_bytes 5)"
    by (simp_all add: in_tables_def goals_def tables_ok_def checkable_def z)
      (simp_all add: two_bytes_def sample_byte_def sample_array_def isConstantArray_def isSymbolicArray_def
        small_indices_def defined_everywhere_def reads_inside_def isDivKind_def tables_ok_def isConstantExpr_def)
  show "deps (createIsZero (qexpr (two_bytes 5))) \<noteq> {}"
    unfolding z by (simp add: deps_def two_bytes_def sample_byte_def read_support_def isConstantArray_def
        isSymbolicArray_def sample_array_def)
qed

theorem IndependentSolver_counterexample_witness:
  "\<exists>vals. independent_computeInitialValues perfect_solver (two_bytes 5) [sample_array] () = (Returned (Some vals), ()) \<and>
     counterexample_ok (two_bytes 5) [sample_array] (Some vals)"
proof -
  obtain r where r: "independent_computeInitialValues perfect_solver (two_bytes 5) [sample_array] () = (r, ())"
    by (metis old.unit.exhaust surj_pair)
  note q = two_bytes_checkable
  have objs: "list_all (\<lambda>a. wf_array a \<and> isSymbolicArray a) [sample_array]"
    by (simp add: wf_array_def isSymbolicArray_def sample_array_def)
  have t: "r \<noteq> Aborted" "\<And>w. r = Returned w \<Longrightarrow> counterexample_ok (two_bytes 5) [sample_array] w"
    "r = Failed \<Longrightarrow> \<exists>q' as s1. fst (computeInitialValues perfect_solver q' as s1) = None"
    using IndependentSolver_counterexample[OF perfect_complete.complete_solver_axioms TrueI q(1,2) disjI2[OF q(5)] objs r] q(3)
    by blast+
  then have "r \<noteq> Failed"
    by (auto simp: perfect_solver_def)
  then obtain w where w: "r = Returned w"
    using t(1) by (cases r) auto
  then have "w \<noteq> None"
    using t(2)[OF w] q(4) by (cases w) (simp_all add: counterexample_ok_def)
  with r w t(2) show ?thesis by auto
qed

end
