(* ===== verification/Spec2Isabelle.thy ===== *)
theory Spec2Isabelle
  imports ExprProps ExprBuilder ExprEval ExprCompare TreeIterator ObjectProps SolverCache SolverRange AddressSpace AddressResolve IndependentSets IndependentSolver CdgGraph CdgQueries FsmExtract Searchers KTestFile MapOfSets CexCachingSolver IndependentPoint
begin

text \<open>
  A verification library for this repository: the symbolic execution engine in \<^verbatim>\<open>src/KleeSE\<close> (a version of
  KLEE) and the passes in \<^verbatim>\<open>src/lib\<close> that extract the state machine of a program for it.
  The engine interprets a program over symbolic memory: memory objects hold bytes that are concrete
  values or expressions, pointers are resolved to objects through address spaces that forked states
  share, branches add constraints, and a chain of solvers decides what follows from them; a searcher
  chooses the state to go on with. Everything symbolic is built from one expression language, so the
  value of an expression in an environment (\<open>Exprs.eval\<close>) is the specification most theorems refer to.

  \<^bold>\<open>Expressions\<close> (\<^verbatim>\<open>include/klee/Expr.h\<close>, \<^verbatim>\<open>lib/klee/Expr/Expr.cpp\<close>, \<^verbatim>\<open>Updates.cpp\<close>, \<^verbatim>\<open>ArrayCache.cpp\<close>).
  \<open>BitVec\<close> has the operations of constants on integers reduced to a width; \<open>Exprs\<close> the kinds, arrays,
  update lists and expressions, their widths, typing (\<open>wt\<close>, what the assertions of the constructors
  maintain) and value; \<open>ExprCreate\<close> the smart constructors \<open>XxxExpr::create\<close>, and \<open>ExprCreateCorrect\<close>
  and \<open>ExprProps\<close> that each returns a well-typed expression of the value its plain constructor has
  (\<open>simplifies\<close>). \<open>ExprCompare\<close> has the hashes and the comparison of expressions, a linear order.
  \<open>ExprBuilder\<close> models \<^verbatim>\<open>lib/klee/Expr/ExprBuilder.cpp\<close> (the default, constant folding and
  simplifying builders, and the array reads the parser builds with them), \<open>ExprEval\<close> the evaluating
  visitor and assignments (\<^verbatim>\<open>ExprEvaluator.cpp\<close>, \<^verbatim>\<open>Assigment.cpp\<close>). \<open>ArrayCache\<close> creates the arrays
  and extends update lists.

  \<^bold>\<open>Containers\<close> (\<^verbatim>\<open>include/klee/Internal/ADT/ImmutableTree.h\<close>, \<^verbatim>\<open>ImmutableMap.h\<close>, \<^verbatim>\<open>util/BitArray.h\<close>).
  \<open>OrderedMap\<close> states the interface of an ordered map as a locale and of the map from disjoint address
  intervals as an extension; \<open>ImmutableTree\<close> models the AVL tree, proves its invariants and interprets
  the first; \<open>TreeIterator\<close> models the iterators with their explicit stacks and the searches that
  return them. \<open>BitArray\<close> is the array of bits packed in 32-bit words. \<open>MapOfSets\<close>
  (\<^verbatim>\<open>include/klee/Internal/ADT/MapOfSets.h\<close>) is the map keyed by sets, stored as a tree of ascending
  elements: it implements a map, and its searches for a subset and a superset are exact; the order
  of its keys is the locale \<open>key_order\<close>.

  \<^bold>\<open>Memory objects\<close> (\<^verbatim>\<open>lib/klee/Core/Memory.cpp\<close>, \<^verbatim>\<open>Memory.h\<close>). \<open>ObjectState\<close> has the state of an
  object (concrete store, concrete and flush masks, known symbolic bytes, update list) and all its
  operations; \<open>ObjectBytes\<close> the invariant \<open>obj_ok\<close> and the value of one byte; \<open>ObjectRefine\<close> and
  \<open>ObjectProps\<close> that reads and writes of any width, at constant and symbolic offsets, in both byte
  orders, implement a plain array of bytes, and that the bounds checks are exact.

  \<^bold>\<open>Address spaces\<close> (\<^verbatim>\<open>lib/klee/Core/AddressSpace.cpp\<close>, \<^verbatim>\<open>TimingSolver.cpp\<close>). \<open>AddressSpace\<close> models the
  map from memory objects to object states over the immutable tree, the copy-on-write keys and the
  resolution of constant pointers; its theorems show that spaces which share objects never see each
  other's writes. \<open>AddressResolve\<close> resolves symbolic pointers by asking the timing solver, which stands
  over a simplifier of constraints given as a parameter (locale \<open>timing_solver\<close>).

  \<^bold>\<open>Solvers\<close> (\<^verbatim>\<open>include/klee/Solver.h\<close>, \<^verbatim>\<open>SolverImpl.h\<close>, \<^verbatim>\<open>IncompleteSolver.h\<close>, \<^verbatim>\<open>lib/klee/Solver\<close>).
  \<open>Solver\<close> has queries, the record of operations of an implementation, the contract every
  implementation keeps (locale \<open>solver_contract\<close>), the facade's questions and the dummy solver;
  \<open>SolverRange\<close> the binary searches of \<open>getRange\<close>, which terminate with the exact bounds;
  \<open>SolverCache\<close> the caching solver and the staging of an incomplete solver, each proved to keep the
  contract over any solver that does. \<open>IndependentSets\<close> and \<open>IndependentSolver\<close> model
  \<^verbatim>\<open>IndependentSolver.cpp\<close> and \<^verbatim>\<open>ExprUtil.cpp\<close>: the reads and arrays of an expression, the sets of array
  elements, the closure of the constraints that matter to a query, the partition into factors and the
  assembly of a counterexample from theirs, with a failed assertion kept apart from a failure of the
  solver under it; \<open>IndependentPoint\<close> that no assertion fails and the point is a counterexample. \<open>CexCachingSolver\<close> is the cache of counterexamples keyed by
  sets of constraints; it interprets \<open>key_order\<close> by the comparison of expressions, and is sound, and
  answers whenever the solver under it does, over any solver that keeps the contract.

  \<^bold>\<open>Searchers\<close> (\<^verbatim>\<open>lib/klee/Core/Searcher.cpp\<close>, \<^verbatim>\<open>UserSearcher.cpp\<close>, the loop of \<^verbatim>\<open>Executor::run\<close>).
  \<open>Searchers\<close> has the searchers as one data type with virtual calls as recursion, the contract the
  executor relies on (locale \<open>scheduler\<close>), its interpretation for the plain and the iteratively
  deepening searchers, that the loop never fails, and the fairness of breadth-first search. What an
  instruction does to the set of states is a parameter that can depend on all that happened before (its
  own memory, the set, the selected state, the world); the update of the set and its assertion are the
  code's.

  \<^bold>\<open>Test cases\<close> (\<^verbatim>\<open>lib/klee/Basic/KTest.cpp\<close>). \<open>KTestFile\<close> reads and writes the files of test cases
  over byte lists and proves the round trip and when writing fails. What the C library keeps in the buffer
  of a stream is a parameter.

  \<^bold>\<open>State machine extraction\<close> (\<^verbatim>\<open>src/lib/CFG/CFG.cpp\<close>, \<^verbatim>\<open>src/lib/FSMExtractor/FSMExtractor.cpp\<close>).
  \<open>CdgGraph\<close> models the nodes of the control dependence graph and its construction from a
  post-dominator tree and proves that it is control dependence; \<open>CdgQueries\<close> the questions
  \<open>influences\<close> and \<open>controls\<close> with the locale \<open>worklist\<close> of worklist searches; \<open>FsmExtract\<close> the search
  for a path inside a loop, the struct fields accessed, the pairs of stores and the loads that decide
  them, the conditions and the output.

  \<^bold>\<open>Conventions.\<close> A machine integer of a width known only at run time is an \<open>int\<close> reduced to that width
  (\<open>fits\<close>); fixed-width ones are words. A failed assertion, a null dereference or a call that reports
  failure is \<open>None\<close>. Pointers to arrays are the field \<open>addr\<close>; sharing of expressions is not
  observable, because comparisons are structural. The pointer width, the byte order, LLVM's hash of
  constants, the core solver, the simplifier of constraints and LLVM's post-dominator tree are
  parameters, with the laws the code relies on as named hypotheses. Recursions that do not follow the
  data have termination proofs by measures; the two walks that can run for ever on some inputs (up a
  tree given as a parameter, and \<open>controls\<close> on an unreachable loop) are partial functions, proved to
  return where they do. No definition needs fuel; the loop of the executor takes the number of rounds
  after which it is halted from outside.

  \<^bold>\<open>Not modelled.\<close> Reference counts and the deletion of nodes; the visitor's hash cache; printing,
  parsing and logging; statistics other than the counters of the solvers; allocation sites; the
  rewriting of the constraint manager, which visits the expressions it has just rebuilt with no bound
  that follows from the code; the fast counterexample solver; the
  searchers that use floating-point weights or the process tree; \<open>insertRegions\<close>, whose only call is
  commented out; the interpreter of LLVM instructions and the module passes, which work on LLVM's own
  data structures; the bindings of the external solvers; the tools and the C library stubs. Division by
  a zero constant is undefined in the code, and the properties about divisions exclude it; an extension
  is never used to truncate. The constant-folding builder is modelled over the default builder, as
  \<open>createConstantFoldingExprBuilder\<close> is called, and the optimisation of constant arrays is off, as it is
  by default.
\<close>

end
